(* ===== verification/Prelude.thy ===== *)
theory Prelude
  imports Main "HOL-Library.Word" "HOL-Library.Monad_Syntax"
begin

text \<open>
  Material every component shares: the result type of fallible operations with its
  sequencing operator, list updates that follow JavaScript's typed arrays and
  \<open>slice\<close>, and the collections of facts the component theories extend.
\<close>

section \<open>Results\<close>

text \<open>
  A JavaScript function that may throw returns a sum: \<open>Inl e\<close> for the thrown error
  and \<open>Inr v\<close> for the value. \<open>bindE\<close> is statement sequencing: an error skips the rest.
\<close>

definition bindE :: "'e + 'a \<Rightarrow> ('a \<Rightarrow> 'e + 'b) \<Rightarrow> 'e + 'b" where
  "bindE m f = (case m of Inl e \<Rightarrow> Inl e | Inr x \<Rightarrow> f x)"

named_theorems result_simps \<open>rewriting of sequenced results\<close>

lemma bindE_simps [simp, result_simps]:
  "bindE (Inl e) f = Inl e"
  "bindE (Inr x) f = f x"
  by (simp_all add: bindE_def)

lemma bindE_eq_Inr_iff [result_simps]:
  "bindE m f = Inr y \<longleftrightarrow> (\<exists>x. m = Inr x \<and> f x = Inr y)"
  by (cases m) simp_all

lemma bindE_eq_InrE [elim!]:
  assumes "bindE m f = Inr y"
  obtains x where "m = Inr x" and "f x = Inr y"
  using assms by (cases m) simp_all

lemma bindE_assoc: "bindE (bindE m f) g = bindE m (\<lambda>x. bindE (f x) g)"
  by (cases m) simp_all

text \<open>
  The congruence rule lets termination proofs use what the first computation returned.
\<close>

lemma bindE_cong [fundef_cong]:
  "m = m' \<Longrightarrow> (\<And>x. m' = Inr x \<Longrightarrow> f x = f' x) \<Longrightarrow> bindE m f = bindE m' f'"
  by (cases m') simp_all

definition guardE :: "'e \<Rightarrow> bool \<Rightarrow> 'e + unit" where
  "guardE e b = (if b then Inr () else Inl e)"

lemma guardE_simps [simp]:
  "guardE e True = Inr ()"
  "guardE e False = Inl e"
  by (simp_all add: guardE_def)

lemma guardE_Inr_iff [simp]: "guardE e b = Inr u \<longleftrightarrow> b"
  by (simp add: guardE_def)

text \<open>A loop over a list that stops at the first error, and \<open>try ... catch\<close> rewriting the error.\<close>

fun mapE :: "('a \<Rightarrow> 'e + 'b) \<Rightarrow> 'a list \<Rightarrow> 'e + 'b list" where
  "mapE f [] = Inr []"
| "mapE f (x # xs) = bindE (f x) (\<lambda>y. bindE (mapE f xs) (\<lambda>ys. Inr (y # ys)))"

lemma mapE_append: "mapE f (xs @ ys) = bindE (mapE f xs) (\<lambda>as. bindE (mapE f ys) (\<lambda>bs. Inr (as @ bs)))"
  by (induction xs) (simp_all add: bindE_def split: sum.splits)

lemma mapE_Inr_iff: "mapE f xs = Inr ys \<longleftrightarrow> list_all2 (\<lambda>x y. f x = Inr y) xs ys"
  by (induction xs arbitrary: ys) (auto simp: list_all2_Cons1 bindE_eq_Inr_iff)

definition wrapE :: "('e \<Rightarrow> 'd) \<Rightarrow> 'e + 'a \<Rightarrow> 'd + 'a" where
  "wrapE g r = (case r of Inl e \<Rightarrow> Inl (g e) | Inr x \<Rightarrow> Inr x)"

lemma wrapE_simps [simp, result_simps]:
  "wrapE g (Inl e) = Inl (g e)" "wrapE g (Inr x) = Inr x"
  by (simp_all add: wrapE_def)

lemma wrapE_Inr_iff [simp]: "wrapE g r = Inr x \<longleftrightarrow> r = Inr x"
  by (cases r) simp_all

definition isInr :: "'e + 'a \<Rightarrow> bool" where
  "isInr r = (case r of Inl _ \<Rightarrow> False | Inr _ \<Rightarrow> True)"

lemma isInr_simps [simp]: "isInr (Inr x)" "\<not> isInr (Inl e)"
  by (simp_all add: isInr_def)

lemma isInr_iff: "isInr r \<longleftrightarrow> (\<exists>x. r = Inr x)"
  by (cases r) simp_all

section \<open>Lists\<close>

text \<open>\<open>target.set(source, offset)\<close> on typed arrays: overwrite from an offset on.\<close>

definition blit :: "'a list \<Rightarrow> nat \<Rightarrow> 'a list \<Rightarrow> 'a list" where
  "blit dst off src = take off dst @ src @ drop (off + length src) dst"

lemma length_blit [simp]:
  "off + length src \<le> length dst \<Longrightarrow> length (blit dst off src) = length dst"
  by (simp add: blit_def)

lemma take_blit_prefix:
  "off + length src \<le> length dst \<Longrightarrow> take (off + length src) (blit dst off src) = take off dst @ src"
  by (simp add: blit_def)

lemma take_blit_before:
  "n \<le> off \<Longrightarrow> off \<le> length dst \<Longrightarrow> take n (blit dst off src) = take n dst"
  by (simp add: blit_def min_def)

lemma blit_Nil [simp]: "blit dst off [] = dst"
  by (simp add: blit_def)

text \<open>\<open>xs.slice(i, j)\<close> and \<open>subarray(i, j)\<close> with non-negative bounds.\<close>

definition slice :: "nat \<Rightarrow> nat \<Rightarrow> 'a list \<Rightarrow> 'a list" where
  "slice i j xs = take (j - i) (drop i xs)"

lemma length_slice: "length (slice i j xs) = min (j - i) (length xs - i)"
  by (simp add: slice_def)

lemma slice_same [simp]: "slice i i xs = []"
  by (simp add: slice_def)

lemma slice_full [simp]: "slice 0 (length xs) xs = xs"
  by (simp add: slice_def)

lemma take_append_slice: "i \<le> j \<Longrightarrow> take i xs @ slice i j xs = take j xs"
  by (simp add: slice_def flip: take_add)

lemma slice_append_drop: "i \<le> j \<Longrightarrow> slice i j xs @ drop j xs = drop i xs"
  using append_take_drop_id [of "j - i" "drop i xs"] by (simp add: slice_def add.commute)

lemma slice_append_slice:
  assumes "i \<le> j" "j \<le> k"
  shows "slice i j xs @ slice j k xs = slice i k xs"
proof -
  have "k - i = (j - i) + (k - j)"
    using assms by simp
  moreover have "drop (j - i) (drop i xs) = drop j xs"
    using assms by simp
  ultimately show ?thesis
    unfolding slice_def by (simp only: take_add)
qed

text \<open>\<open>findIndex\<close>: the first index whose element satisfies the predicate.\<close>

fun findIndex :: "('a \<Rightarrow> bool) \<Rightarrow> 'a list \<Rightarrow> nat option" where
  "findIndex P [] = None"
| "findIndex P (x # xs) = (if P x then Some 0 else map_option Suc (findIndex P xs))"

lemma findIndex_Some:
  "findIndex P xs = Some i \<Longrightarrow> i < length xs \<and> P (xs ! i) \<and> (\<forall>j<i. \<not> P (xs ! j))"
proof (induction xs arbitrary: i)
  case Nil
  then show ?case by simp
next
  case (Cons x xs)
  then show ?case
    by (auto split: if_splits simp: nth_Cons less_Suc_eq_0_disj split: nat.splits)
qed

lemma findIndex_None: "findIndex P xs = None \<longleftrightarrow> (\<forall>x\<in>set xs. \<not> P x)"
  by (induction xs) auto

text \<open>\<open>Array.prototype.find\<close> is the library's \<open>List.find\<close>.\<close>

lemma map_filter_append: "List.map_filter f (xs @ ys) = List.map_filter f xs @ List.map_filter f ys"
  by (simp add: List.map_filter_def)

lemma find_Some_mem: "List.find P xs = Some x \<Longrightarrow> x \<in> set xs \<and> P x"
  by (induction xs) (auto split: if_splits)

text \<open>Evaluation of list operations at numerals, for closed examples.\<close>

lemma list_update_numeral: "list_update (x # xs) (numeral n) y = x # list_update xs (pred_numeral n) y"
  by (simp add: numeral_eq_Suc)

lemma replicate_pred: "replicate (numeral n) x = x # replicate (pred_numeral n) x"
  by (simp add: numeral_eq_Suc)

lemmas list_eval = list_update_numeral replicate_pred

section \<open>Bytes\<close>

type_synonym byte = "8 word"

text \<open>\<open>value >>> k\<close>: \<open>ToUint32\<close> first, then a logical shift right.\<close>

definition ushr :: "nat \<Rightarrow> nat \<Rightarrow> nat" where
  "ushr v k = (v mod 2 ^ 32) div 2 ^ k"

text \<open>Storing a number in a \<open>Uint8Array\<close> reduces it modulo 256.\<close>

abbreviation to_byte :: "nat \<Rightarrow> byte" where
  "to_byte \<equiv> word_of_nat"

lemma unat_to_byte [simp]: "unat (to_byte n) = n mod 256"
  by (simp add: unat_of_nat)

lemma byte_unat_bound [simp]: "unat (b :: byte) < 256"
  using unsigned_less [of b] by simp

text \<open>Reading four big-endian bytes back.\<close>

definition be32 :: "byte \<Rightarrow> byte \<Rightarrow> byte \<Rightarrow> byte \<Rightarrow> nat" where
  "be32 a b c d = unat a * 0x1000000 + unat b * 0x10000 + unat c * 0x100 + unat d"

lemma base256_split: "(n::nat) = n div 256 * 256 + n mod 256"
  by simp

lemma be32_split:
  assumes "n < 2 ^ 32"
  shows "be32 (to_byte (ushr n 24)) (to_byte (ushr n 16)) (to_byte (ushr n 8)) (to_byte n) = n"
proof -
  define a where "a = n div 256"
  define b where "b = a div 256"
  define c where "c = b div 256"
  have ab: "n div 65536 = b" "n div 16777216 = c"
    by (simp_all add: a_def b_def c_def flip: div_mult2_eq)
  have "c < 256"
    using assms unfolding ab(2) [symmetric] by (intro less_mult_imp_div_less) simp
  then have "be32 (to_byte (ushr n 24)) (to_byte (ushr n 16)) (to_byte (ushr n 8)) (to_byte n)
      = c * 16777216 + b mod 256 * 65536 + a mod 256 * 256 + n mod 256"
    using assms ab by (simp add: be32_def ushr_def a_def)
  moreover have "n = a * 256 + n mod 256" "a = b * 256 + a mod 256" "b = c * 256 + b mod 256"
    by (simp_all add: a_def b_def c_def)
  ultimately show ?thesis
    by linarith
qed

lemma be32_bound: "be32 a b c d < 2 ^ 32"
proof -
  have "unat a \<le> 255" "unat b \<le> 255" "unat c \<le> 255" "unat d \<le> 255"
    using byte_unat_bound [of a] byte_unat_bound [of b] byte_unat_bound [of c]
      byte_unat_bound [of d] by linarith+
  then show ?thesis
    unfolding be32_def by simp
qed

end
