(* ===== verification/JsText.thy ===== *)
theory JsText
  imports Prelude
begin

unbundle bit_operations_syntax

text \<open>
  JavaScript strings are sequences of 16-bit code units. This theory holds the parts of
  the standard library's text handling that the program uses: UTF-8 encoding and strict
  decoding (\<open>TextEncoder\<close>, fatal \<open>TextDecoder\<close>, \<open>Buffer.byteLength\<close>), and the string
  methods \<open>indexOf\<close>, \<open>split\<close>, \<open>join\<close>, \<open>slice\<close>, \<open>startsWith\<close>, \<open>endsWith\<close>.
\<close>

section \<open>Code units and literals\<close>

type_synonym code_unit = "16 word"
type_synonym jsstring = "code_unit list"

definition cu :: "char \<Rightarrow> code_unit" where
  "cu c = word_of_nat (of_char c)"

text \<open>A literal of the source: \<open>js ''abc''\<close>.\<close>

definition js :: "string \<Rightarrow> jsstring" where
  "js s = map cu s"

lemma js_simps [simp]: "js [] = []" "js (c # s) = cu c # js s"
  by (simp_all add: js_def)

lemma length_js [simp]: "length (js s) = length s"
  by (simp add: js_def)

definition is_high :: "code_unit \<Rightarrow> bool" where
  "is_high c \<longleftrightarrow> 0xD800 \<le> c \<and> c \<le> 0xDBFF"

definition is_low :: "code_unit \<Rightarrow> bool" where
  "is_low c \<longleftrightarrow> 0xDC00 \<le> c \<and> c \<le> 0xDFFF"

lemma is_high_nat: "is_high c \<longleftrightarrow> 0xD800 \<le> unat c \<and> unat c \<le> 0xDBFF"
  by (simp add: is_high_def word_le_nat_alt)

lemma is_low_nat: "is_low c \<longleftrightarrow> 0xDC00 \<le> unat c \<and> unat c \<le> 0xDFFF"
  by (simp add: is_low_def word_le_nat_alt)

lemma unit_unat_bound [simp]: "unat (c :: code_unit) < 65536"
  using unsigned_less [of c] by simp

lemma high_not_low: "is_high c \<Longrightarrow> \<not> is_low c"
  by (simp add: is_high_nat is_low_nat)

definition REPLACEMENT :: code_unit where
  "REPLACEMENT = 0xFFFD"

section \<open>UTF-16 and scalar values\<close>

text \<open>
  The scalar values of a string: a high unit followed by a low unit is one supplementary
  scalar, any other surrogate unit reads as U+FFFD (the conversion to \<open>USVString\<close>).
\<close>

fun scalars :: "jsstring \<Rightarrow> nat list" where
  "scalars [] = []"
| "scalars [c] = [if is_high c \<or> is_low c then 0xFFFD else unat c]"
| "scalars (c # d # s) =
     (if is_high c
      then (if is_low d
            then (0x10000 + (unat c - 0xD800) * 0x400 + (unat d - 0xDC00)) # scalars s
            else 0xFFFD # scalars (d # s))
      else if is_low c then 0xFFFD # scalars (d # s)
      else unat c # scalars (d # s))"

definition is_scalar :: "nat \<Rightarrow> bool" where
  "is_scalar n \<longleftrightarrow> n < 0xD800 \<or> (0xE000 \<le> n \<and> n < 0x110000)"

text \<open>The code units of one scalar value.\<close>

definition units :: "nat \<Rightarrow> jsstring" where
  "units n = (if n < 0x10000 then [word_of_nat n]
     else [word_of_nat (0xD800 + (n - 0x10000) div 0x400),
           word_of_nat (0xDC00 + (n - 0x10000) mod 0x400)])"

text \<open>Strings without unpaired surrogates (\<open>isWellFormed\<close>).\<close>

fun well_formed :: "jsstring \<Rightarrow> bool" where
  "well_formed [] = True"
| "well_formed [c] = (\<not> is_high c \<and> \<not> is_low c)"
| "well_formed (c # d # s) =
     (if is_high c then is_low d \<and> well_formed s
      else \<not> is_low c \<and> well_formed (d # s))"

lemma scalars_are_scalars: "n \<in> set (scalars s) \<Longrightarrow> is_scalar n"
proof (induction s rule: scalars.induct)
  case 1
  then show ?case by simp
next
  case (2 c)
  have "unat c < 1114112"
    using unit_unat_bound [of c] by linarith
  with 2 show ?case
    by (auto simp: is_scalar_def is_high_nat is_low_nat split: if_splits)
next
  case (3 c d s)
  have "unat c < 1114112" "unat d < 1114112"
    using unit_unat_bound [of c] unit_unat_bound [of d] by linarith+
  with 3 show ?case
    by (auto simp: is_scalar_def is_high_nat is_low_nat split: if_splits)
qed

lemma units_plain: "units (unat (c :: code_unit)) = [c]"
  using unit_unat_bound [of c] by (simp add: units_def)

lemma units_pair:
  assumes "is_high c" "is_low d"
  shows "units (0x10000 + (unat c - 0xD800) * 0x400 + (unat d - 0xDC00)) = [c, d]"
proof -
  define x where "x = unat c - 0xD800"
  define y where "y = unat d - 0xDC00"
  have "unat c = 0xD800 + x" "unat d = 0xDC00 + y" "y < 0x400"
    using assms by (auto simp: x_def y_def is_high_nat is_low_nat)
  moreover have "(word_of_nat (unat c) :: code_unit) = c" "(word_of_nat (unat d) :: code_unit) = d"
    by simp_all
  ultimately show ?thesis
    by (simp add: units_def flip: x_def y_def)
qed

lemma units_scalars:
  "well_formed s \<Longrightarrow> concat (map units (scalars s)) = s"
  by (induction s rule: scalars.induct) (auto simp: units_plain units_pair split: if_splits)

lemma well_formed_units_append:
  assumes "is_scalar n"
  shows "well_formed (units n @ s) = well_formed s"
proof (cases "n < 0x10000")
  case True
  have u: "unat (word_of_nat n :: code_unit) = n"
    using True by (simp add: unat_of_nat)
  show ?thesis
    using True assms u by (cases s) (auto simp: units_def is_high_nat is_low_nat is_scalar_def)
next
  case False
  define h where "h = (n - 0x10000) div 0x400"
  define l where "l = (n - 0x10000) mod 0x400"
  have "h < 0x400" "l < 0x400"
    using assms False by (auto simp: is_scalar_def h_def l_def)
  then have "unat (word_of_nat (0xD800 + h) :: code_unit) = 0xD800 + h"
    "unat (word_of_nat (0xDC00 + l) :: code_unit) = 0xDC00 + l"
    by (simp_all add: unat_of_nat del: of_nat_add)
  with \<open>h < 0x400\<close> \<open>l < 0x400\<close> show ?thesis
    using False
    by (simp add: units_def is_high_nat is_low_nat flip: h_def l_def del: of_nat_add)
qed

lemma well_formed_units:
  "(\<And>n. n \<in> set ns \<Longrightarrow> is_scalar n) \<Longrightarrow> well_formed (concat (map units ns))"
  by (induction ns) (simp_all add: well_formed_units_append)

lemma scalars_identity_iff:
  "concat (map units (scalars s)) = s \<longleftrightarrow> well_formed s"
  using units_scalars well_formed_units [of "scalars s"] scalars_are_scalars by metis

section \<open>UTF-8\<close>

text \<open>The encoding of one scalar value.\<close>

definition utf8 :: "nat \<Rightarrow> byte list" where
  "utf8 n =
     (if n < 0x80 then [to_byte n]
      else if n < 0x800 then [to_byte (0xC0 + n div 0x40), to_byte (0x80 + n mod 0x40)]
      else if n < 0x10000 then
        [to_byte (0xE0 + n div 0x1000), to_byte (0x80 + n div 0x40 mod 0x40),
         to_byte (0x80 + n mod 0x40)]
      else
        [to_byte (0xF0 + n div 0x40000), to_byte (0x80 + n div 0x1000 mod 0x40),
         to_byte (0x80 + n div 0x40 mod 0x40), to_byte (0x80 + n mod 0x40)])"

text \<open>\<open>new TextEncoder().encode(s)\<close>.\<close>

definition textEncode :: "jsstring \<Rightarrow> byte list" where
  "textEncode s = concat (map utf8 (scalars s))"

text \<open>
  The decoder's table: the second byte's range depends on the lead byte, so that overlong
  forms, surrogates and values above U+10FFFF are rejected.
\<close>

definition between :: "nat \<Rightarrow> nat \<Rightarrow> byte \<Rightarrow> bool" where
  "between lo hi b \<longleftrightarrow> lo \<le> unat b \<and> unat b \<le> hi"

definition cont :: "byte \<Rightarrow> bool" where
  "cont = between 0x80 0xBF"

definition second_ok :: "nat \<Rightarrow> byte \<Rightarrow> bool" where
  "second_ok lead = between
     (if lead = 0xE0 then 0xA0 else if lead = 0xF0 then 0x90 else 0x80)
     (if lead = 0xED then 0x9F else if lead = 0xF4 then 0x8F else 0xBF)"

text \<open>One scalar from the front of the input, with the bytes left over.\<close>

definition utf8_step :: "byte list \<Rightarrow> (nat \<times> byte list) option" where
  "utf8_step bs =
     (case bs of [] \<Rightarrow> None
      | b # r \<Rightarrow>
        let n = unat b in
        if n < 0x80 then Some (n, r)
        else if 0xC2 \<le> n \<and> n \<le> 0xDF then
          (case r of c # r' \<Rightarrow>
             if cont c then Some ((n - 0xC0) * 0x40 + (unat c - 0x80), r') else None
           | _ \<Rightarrow> None)
        else if 0xE0 \<le> n \<and> n \<le> 0xEF then
          (case r of c # d # r' \<Rightarrow>
             if second_ok n c \<and> cont d
             then Some ((n - 0xE0) * 0x1000 + (unat c - 0x80) * 0x40 + (unat d - 0x80), r')
             else None
           | _ \<Rightarrow> None)
        else if 0xF0 \<le> n \<and> n \<le> 0xF4 then
          (case r of c # d # e # r' \<Rightarrow>
             if second_ok n c \<and> cont d \<and> cont e
             then Some ((n - 0xF0) * 0x40000 + (unat c - 0x80) * 0x1000
                        + (unat d - 0x80) * 0x40 + (unat e - 0x80), r')
             else None
           | _ \<Rightarrow> None)
        else None)"

lemma utf8_step_shorter: "utf8_step bs = Some (n, r) \<Longrightarrow> length r < length bs"
  by (auto simp: utf8_step_def Let_def split: list.splits if_splits)

function utf8_scalars :: "byte list \<Rightarrow> nat list option" where
  "utf8_scalars bs =
     (if bs = [] then Some []
      else case utf8_step bs of None \<Rightarrow> None
           | Some (n, r) \<Rightarrow> map_option (Cons n) (utf8_scalars r))"
  by pat_completeness auto
termination
  by (relation "measure length") (auto dest: utf8_step_shorter)

declare utf8_scalars.simps [simp del]

lemma utf8_scalars_Nil [simp]: "utf8_scalars [] = Some []"
  by (simp add: utf8_scalars.simps)

text \<open>\<open>new TextDecoder("utf-8", { fatal: true, ignoreBOM: true }).decode(bytes)\<close>; \<open>None\<close> is the thrown error.\<close>

definition textDecode :: "byte list \<Rightarrow> jsstring option" where
  "textDecode bs = map_option (\<lambda>ns. concat (map units ns)) (utf8_scalars bs)"

lemma split64:
  fixes n :: nat
  shows "n div 64 * 64 + n mod 64 = n"
    and "n div 4096 * 4096 + n div 64 mod 64 * 64 + n mod 64 = n"
    and "n div 262144 * 262144 + n div 4096 mod 64 * 4096 + n div 64 mod 64 * 64 + n mod 64 = n"
proof -
  define a where "a = n div 64"
  define b where "b = a div 64"
  define c where "c = b div 64"
  have eqs: "n = a * 64 + n mod 64" "a = b * 64 + a mod 64" "b = c * 64 + b mod 64"
    by (simp_all add: a_def b_def c_def)
  have d: "n div 4096 = b" "n div 262144 = c"
    by (simp_all add: a_def b_def c_def flip: div_mult2_eq)
  show "n div 64 * 64 + n mod 64 = n"
    by simp
  show "n div 4096 * 4096 + n div 64 mod 64 * 64 + n mod 64 = n"
    using eqs unfolding d a_def [symmetric] by linarith
  show "n div 262144 * 262144 + n div 4096 mod 64 * 4096 + n div 64 mod 64 * 64 + n mod 64 = n"
    using eqs unfolding d a_def [symmetric] by linarith
qed

lemma utf8_step_utf8:
  assumes "is_scalar n"
  shows "utf8_step (utf8 n @ r) = Some (n, r)"
proof -
  have mods: "n mod 64 < 64" "n div 64 mod 64 < 64" "n div 4096 mod 64 < 64"
    by simp_all
  consider (one) "n < 0x80" | (two) "0x80 \<le> n" "n < 0x800"
    | (three) "0x800 \<le> n" "n < 0x10000" | (four) "0x10000 \<le> n"
    by linarith
  then show ?thesis
  proof cases
    case one
    then show ?thesis by (simp add: utf8_def utf8_step_def)
  next
    case two
    define h m where "h = n div 64" and "m = n mod 64"
    have eq: "h * 64 + m = n" and "m < 64"
      by (simp_all add: h_def m_def)
    then have b: "2 \<le> h" "h < 32" "m < 64"
      using two by linarith+
    have "utf8 n = [to_byte (0xC0 + h), to_byte (0x80 + m)]"
      using two by (simp add: utf8_def h_def m_def)
    then show ?thesis
      using b eq
      by (auto simp: utf8_step_def cont_def between_def simp del: of_nat_add)
  next
    case three
    define l m where "l = n div 4096" and "m = n div 64 mod 64"
    have b: "l < 16" "m < 64"
      using three by (auto simp: l_def m_def intro: less_mult_imp_div_less)
    have eq: "l * 4096 + m * 64 + n mod 64 = n"
      using split64(2) [of n] by (simp add: l_def m_def)
    have lo: "32 \<le> m" if "l = 0"
      using eq that three(1) mods(1) by linarith
    have hi: "m < 32" if "l = 13"
    proof -
      have "n < 0xD800 \<or> 0xE000 \<le> n"
        using assms by (auto simp: is_scalar_def)
      with eq that b mods(1) show ?thesis by linarith
    qed
    have "utf8 n = [to_byte (0xE0 + l), to_byte (0x80 + m), to_byte (0x80 + n mod 64)]"
      using three by (simp add: utf8_def l_def m_def)
    moreover have "unat (to_byte (0xE0 + l)) = 0xE0 + l" "unat (to_byte (0x80 + m)) = 0x80 + m"
      "unat (to_byte (0x80 + n mod 64)) = 0x80 + n mod 64"
      using b mods(1) by (simp_all del: of_nat_add)
    ultimately have "utf8_step (utf8 n @ r) = Some (l * 4096 + m * 64 + n mod 64, r)"
      using b lo hi mods(1)
      by (auto simp: utf8_step_def cont_def second_ok_def between_def Let_def simp del: of_nat_add)
    then show ?thesis
      by (simp add: eq)
  next
    case four
    define h l m where "h = n div 262144" and "l = n div 4096 mod 64" and "m = n div 64 mod 64"
    have n: "n < 0x110000"
      using assms four by (auto simp: is_scalar_def)
    have b: "l < 64" "m < 64"
      by (auto simp: l_def m_def)
    have eq: "h * 262144 + l * 4096 + m * 64 + n mod 64 = n"
      using split64(3) [of n] by (simp add: h_def l_def m_def)
    have h: "h < 5"
      using n by (auto simp: h_def intro: less_mult_imp_div_less)
    have lo: "16 \<le> l" if "h = 0"
      using eq that four(1) mods(1) b by linarith
    have hi: "l < 16" if "h = 4"
      using eq that n by linarith
    have "utf8 n = [to_byte (0xF0 + h), to_byte (0x80 + l), to_byte (0x80 + m), to_byte (0x80 + n mod 64)]"
      using four by (simp add: utf8_def h_def l_def m_def)
    moreover have "unat (to_byte (0xF0 + h)) = 0xF0 + h" "unat (to_byte (0x80 + l)) = 0x80 + l"
      "unat (to_byte (0x80 + m)) = 0x80 + m" "unat (to_byte (0x80 + n mod 64)) = 0x80 + n mod 64"
      using h b mods(1) by (simp_all del: of_nat_add)
    ultimately have "utf8_step (utf8 n @ r) = Some (h * 262144 + l * 4096 + m * 64 + n mod 64, r)"
      using b lo hi h mods(1)
      by (auto simp: utf8_step_def cont_def second_ok_def between_def Let_def simp del: of_nat_add)
    then show ?thesis
      by (simp add: eq)
  qed
qed

lemma utf8_neq_Nil [simp]: "utf8 n \<noteq> []"
  by (simp add: utf8_def)

lemma utf8_scalars_encode:
  "(\<And>n. n \<in> set ns \<Longrightarrow> is_scalar n) \<Longrightarrow> utf8_scalars (concat (map utf8 ns)) = Some ns"
proof (induction ns)
  case Nil
  then show ?case by simp
next
  case (Cons n ns)
  then have "utf8_scalars (concat (map utf8 ns)) = Some ns" and "is_scalar n"
    by simp_all
  then show ?case
    by (subst utf8_scalars.simps) (simp add: utf8_step_utf8)
qed

text \<open>Decoding what was encoded gives the string with unpaired surrogates replaced.\<close>

lemma textDecode_textEncode:
  "textDecode (textEncode s) = Some (concat (map units (scalars s)))"
  by (simp add: textDecode_def textEncode_def utf8_scalars_encode scalars_are_scalars)

lemma textDecode_textEncode_iff:
  "textDecode (textEncode s) = Some s \<longleftrightarrow> well_formed s"
  by (simp add: textDecode_textEncode scalars_identity_iff)

text \<open>The other direction: strict decoding accepts exactly the shortest forms of scalar values.\<close>

lemma to_byte_unat: "unat b = n \<Longrightarrow> b = to_byte n"
  by auto

lemma digits64: "z < 64 \<Longrightarrow> (m * 64 + z) div 64 = (m::nat)" "z < 64 \<Longrightarrow> (m * 64 + z) mod 64 = (z::nat)"
  by simp_all

lemma utf8_step_inv:
  assumes "utf8_step bs = Some (n, r)"
  shows "is_scalar n \<and> bs = utf8 n @ r"
proof -
  obtain b tl where bs: "bs = b # tl"
    using assms by (cases bs) (auto simp: utf8_step_def)
  define k where "k = unat b"
  have b: "b = to_byte k" by (simp add: k_def)
  note step = assms [unfolded bs utf8_step_def list.case Let_def, folded k_def]
  consider (1) "k < 0x80" | (2) "0xC2 \<le> k" "k \<le> 0xDF" | (3) "0xE0 \<le> k" "k \<le> 0xEF"
    | (4) "0xF0 \<le> k" "k \<le> 0xF4"
    using step by (auto split: if_splits)
  then show ?thesis
  proof cases
    case 1
    then show ?thesis using step bs b by (simp add: is_scalar_def utf8_def)
  next
    case 2
    obtain c where tl: "tl = c # r" and c: "cont c"
      and n: "n = (k - 0xC0) * 0x40 + (unat c - 0x80)"
      using step 2 by (auto split: list.splits if_splits)
    define x y where "x = k - 0xC0" and "y = unat c - 0x80"
    have "k = 0xC0 + x" "unat c = 0x80 + y" "y < 64" "2 \<le> x" "x < 32"
      using 2 c by (auto simp: x_def y_def cont_def between_def)
    moreover have "n = x * 64 + y"
      using n by (simp add: x_def y_def)
    moreover have "n div 64 = x" "n mod 64 = y"
      using calculation by simp_all
    ultimately show ?thesis
      using bs tl b to_byte_unat [of c] by (simp add: is_scalar_def utf8_def)
  next
    case 3
    obtain c d where tl: "tl = c # d # r" and c: "second_ok k c" "cont d"
      and n: "n = (k - 0xE0) * 0x1000 + (unat c - 0x80) * 0x40 + (unat d - 0x80)"
      using step 3 by (auto split: list.splits if_splits)
    define x y z where "x = k - 0xE0" and "y = unat c - 0x80" and "z = unat d - 0x80"
    have k: "k = 0xE0 + x" "x < 16" and cd: "unat c = 0x80 + y" "unat d = 0x80 + z" "y < 64" "z < 64"
      and yx: "x = 0 \<longrightarrow> 32 \<le> y" "x = 13 \<longrightarrow> y < 32"
      using 3 c by (auto simp: x_def y_def z_def cont_def second_ok_def between_def split: if_splits)
    have flat: "n = x * 4096 + y * 64 + z"
      using n by (simp add: x_def y_def z_def)
    then have n': "n = (x * 64 + y) * 64 + z"
      by simp
    have q: "n div 64 = x * 64 + y" "n mod 64 = z"
      unfolding n' using cd(4) by (rule digits64)+
    moreover have "n div 4096 = x" "n div 64 mod 64 = y"
      using digits64 [OF cd(3), of x] q(1) div_mult2_eq [of n 64 64] by simp_all
    moreover have "n < 0x10000"
      using k(2) cd(3,4) unfolding flat by linarith
    moreover have "0x800 \<le> n"
    proof -
      have "32 \<le> y \<or> 1 \<le> x"
        using yx(1) by auto
      then show ?thesis
        unfolding flat by (elim disjE; linarith)
    qed
    moreover have "is_scalar n"
    proof -
      have "x \<le> 12 \<or> (x = 13 \<and> y < 32) \<or> 14 \<le> x"
        using yx(2) by auto
      then have "n < 0xD800 \<or> 0xE000 \<le> n"
        using cd unfolding flat by (elim disjE conjE; linarith)
      then show ?thesis
        using \<open>n < 0x10000\<close> by (auto simp: is_scalar_def)
    qed
    ultimately show ?thesis
      using bs tl b k cd to_byte_unat [of c] to_byte_unat [of d] by (simp add: utf8_def)
  next
    case 4
    obtain c d e where tl: "tl = c # d # e # r" and c: "second_ok k c" "cont d" "cont e"
      and n: "n = (k - 0xF0) * 0x40000 + (unat c - 0x80) * 0x1000 + (unat d - 0x80) * 0x40 + (unat e - 0x80)"
      using step 4 by (auto split: list.splits if_splits)
    define h x y z where "h = k - 0xF0" and "x = unat c - 0x80" and "y = unat d - 0x80" and "z = unat e - 0x80"
    have k: "k = 0xF0 + h" "h < 5"
      and cd: "unat c = 0x80 + x" "unat d = 0x80 + y" "unat e = 0x80 + z" "x < 64" "y < 64" "z < 64"
      and hx: "h = 0 \<longrightarrow> 16 \<le> x" "h = 4 \<longrightarrow> x < 16"
      using 4 c by (auto simp: h_def x_def y_def z_def cont_def second_ok_def between_def split: if_splits)
    have flat: "n = h * 262144 + x * 4096 + y * 64 + z"
      using n by (simp add: h_def x_def y_def z_def)
    then have n': "n = ((h * 64 + x) * 64 + y) * 64 + z"
      by simp
    have q: "n div 64 = (h * 64 + x) * 64 + y" "n mod 64 = z"
      unfolding n' using cd(6) by (rule digits64)+
    have q2: "n div 4096 = h * 64 + x" "n div 64 mod 64 = y"
      using digits64 [OF cd(5), of "h * 64 + x"] q(1) div_mult2_eq [of n 64 64] by auto
    moreover have "n div 262144 = h" "n div 4096 mod 64 = x"
      using digits64 [OF cd(4), of h] q2(1) div_mult2_eq [of n 4096 64] by auto
    moreover have "0x10000 \<le> n"
    proof -
      have "16 \<le> x \<or> 1 \<le> h"
        using hx(1) by auto
      then show ?thesis
        unfolding flat by (elim disjE; linarith)
    qed
    moreover have "n < 0x110000"
    proof -
      have "h \<le> 3 \<or> (h = 4 \<and> x < 16)"
        using hx(2) k(2) by auto
      then show ?thesis
        using cd unfolding flat by (elim disjE conjE; linarith)
    qed
    ultimately show ?thesis
      using bs tl b k cd q to_byte_unat [of c] to_byte_unat [of d] to_byte_unat [of e]
      by (simp add: utf8_def is_scalar_def)
  qed
qed

lemma utf8_scalars_inv:
  "utf8_scalars bs = Some ns \<Longrightarrow> (\<forall>n\<in>set ns. is_scalar n) \<and> bs = concat (map utf8 ns)"
proof (induction bs arbitrary: ns rule: utf8_scalars.induct)
  case (1 bs)
  show ?case
  proof (cases "bs = []")
    case True
    then show ?thesis using "1.prems" by simp
  next
    case False
    obtain n r ms where step: "utf8_step bs = Some (n, r)" and ms: "utf8_scalars r = Some ms" "ns = n # ms"
      using "1.prems" False by (subst (asm) utf8_scalars.simps) (auto split: option.splits)
    show ?thesis
      using utf8_step_inv [OF step] "1.IH" [OF False step refl ms(1)] ms(2) by simp
  qed
qed

lemma scalars_units_append:
  assumes "is_scalar n"
  shows "scalars (units n @ s) = n # scalars s"
proof (cases "n < 0x10000")
  case True
  have "unat (word_of_nat n :: code_unit) = n"
    using True by (simp add: unat_of_nat)
  then show ?thesis
    using True assms by (cases s) (auto simp: units_def is_high_nat is_low_nat is_scalar_def)
next
  case False
  define h where "h = (n - 0x10000) div 0x400"
  define l where "l = (n - 0x10000) mod 0x400"
  have hl: "h < 0x400" "l < 0x400"
    using assms False by (auto simp: is_scalar_def h_def l_def)
  moreover have "unat (word_of_nat (0xD800 + h) :: code_unit) = 0xD800 + h"
    "unat (word_of_nat (0xDC00 + l) :: code_unit) = 0xDC00 + l"
    using hl by (simp_all add: unat_of_nat del: of_nat_add)
  moreover have "h * 0x400 + l + 0x10000 = n"
    using False by (simp add: h_def l_def)
  ultimately show ?thesis
    using False
    by (simp add: units_def is_high_nat is_low_nat flip: h_def l_def del: of_nat_add)
qed

lemma scalars_units: "(\<forall>n\<in>set ns. is_scalar n) \<Longrightarrow> scalars (concat (map units ns)) = ns"
  by (induction ns) (simp_all add: scalars_units_append)

lemma textDecode_inv:
  "textDecode bs = Some s \<Longrightarrow> textEncode s = bs \<and> well_formed s"
  using utf8_scalars_inv well_formed_units
  by (fastforce simp: textDecode_def textEncode_def scalars_units)

text \<open>Evaluation of closed texts by the simplifier.\<close>

lemmas text_eval = cu_def textEncode_def is_high_def is_low_def utf8_def textDecode_def
  utf8_scalars.simps utf8_step_def units_def

end
