(* ===== verification/JsNumber.thy ===== *)
theory JsNumber
  imports Prelude
begin

text \<open>
  JavaScript numbers are IEEE 754 binary64 values. They are kept as their 64 bits, and the
  predicates of \<open>Number\<close> and the conversions the program relies on (\<open>isFinite\<close>,
  \<open>isInteger\<close>, \<open>isSafeInteger\<close>, \<open>Object.is(x, -0)\<close>, \<open>DataView.setFloat64\<close>) are read off
  the sign, exponent and mantissa fields.
\<close>

section \<open>Fields\<close>

type_synonym jsnumber = "64 word"

definition sign_bit :: "jsnumber \<Rightarrow> bool" where
  "sign_bit x \<longleftrightarrow> unat x div 2 ^ 63 = 1"

definition expo :: "jsnumber \<Rightarrow> nat" where
  "expo x = unat x div 2 ^ 52 mod 2048"

definition mant :: "jsnumber \<Rightarrow> nat" where
  "mant x = unat x mod 2 ^ 52"

definition mk_num :: "bool \<Rightarrow> nat \<Rightarrow> nat \<Rightarrow> jsnumber" where
  "mk_num s e m = word_of_nat ((if s then 2 ^ 63 else 0) + e * 2 ^ 52 + m)"

lemma number_unat_bound: "unat (x :: jsnumber) < 2 ^ 64"
  using unsigned_less [of x] by simp

lemma expo_bound [simp]: "expo x < 2048"
  by (simp add: expo_def)

lemma mant_bound [simp]: "mant x < 4503599627370496"
  by (simp add: mant_def)

lemma mk_num_unat:
  assumes "e < 2048" "m < 2 ^ 52"
  shows "unat (mk_num s e m) = (if s then 2 ^ 63 else 0) + e * 2 ^ 52 + m"
proof -
  have "(if s then 2 ^ 63 else 0) + e * 2 ^ 52 + m < (2::nat) ^ 64"
  proof -
    have "e * 4503599627370496 \<le> 2047 * 4503599627370496"
      using assms(1) by (intro mult_le_mono1) simp
    then show ?thesis using assms(2) by auto
  qed
  then show ?thesis
    unfolding mk_num_def by (simp only: unat_of_nat) simp
qed

lemma mk_num_fields:
  assumes "e < 2048" "m < 2 ^ 52"
  shows "sign_bit (mk_num s e m) = s" "expo (mk_num s e m) = e" "mant (mk_num s e m) = m"
proof -
  have split: "unat (mk_num s e m) = (e + (if s then 2048 else 0)) * 2 ^ 52 + m"
    using mk_num_unat [OF assms] by simp
  have q: "unat (mk_num s e m) div 2 ^ 52 = e + (if s then 2048 else 0)"
    using assms(2) unfolding split by (simp add: div_mult_self3)
  show "expo (mk_num s e m) = e"
    unfolding expo_def q using assms(1) by simp
  show "mant (mk_num s e m) = m"
    unfolding mant_def split using assms(2) by (simp only: mod_mult_self3 mod_less)
  have "unat (mk_num s e m) div 2 ^ 63 = unat (mk_num s e m) div 2 ^ 52 div 2 ^ 11"
    by (simp flip: div_mult2_eq)
  then show "sign_bit (mk_num s e m) = s"
    unfolding sign_bit_def q using assms(1) by auto
qed

lemma mk_num_collapse: "mk_num (sign_bit x) (expo x) (mant x) = x"
proof -
  define n where "n = unat x"
  define a where "a = n div 2 ^ 52"
  have "a < 4096"
    using number_unat_bound [of x] unfolding a_def n_def
    by (intro less_mult_imp_div_less) simp
  define q b r where "q = a div 2048" and "b = a mod 2048" and "r = n mod 2 ^ 52"
  have "n = a * 2 ^ 52 + r" "a = q * 2048 + b"
    unfolding a_def q_def b_def r_def by simp_all
  then have n: "n = q * 2 ^ 63 + b * 2 ^ 52 + r"
    by simp
  have q: "n div 2 ^ 63 = q"
    by (simp add: a_def q_def flip: div_mult2_eq)
  have "q < 2"
    using \<open>a < 4096\<close> unfolding q_def by (intro less_mult_imp_div_less) simp
  then have "q * 2 ^ 63 = (if q = 1 then 2 ^ 63 else 0)"
    by (cases "q = 0") auto
  with n q have "n = (if n div 2 ^ 63 = 1 then 2 ^ 63 else 0) + a mod 2048 * 2 ^ 52 + n mod 2 ^ 52"
    unfolding b_def r_def by simp
  then have "mk_num (sign_bit x) (expo x) (mant x) = word_of_nat n"
    unfolding mk_num_def sign_bit_def expo_def mant_def a_def n_def by (simp only:)
  then show ?thesis
    by (simp add: n_def)
qed

section \<open>Predicates\<close>

definition is_finite :: "jsnumber \<Rightarrow> bool" where
  "is_finite x \<longleftrightarrow> expo x \<noteq> 2047"

definition is_neg_zero :: "jsnumber \<Rightarrow> bool" where
  "is_neg_zero x \<longleftrightarrow> sign_bit x \<and> expo x = 0 \<and> mant x = 0"

text \<open>The integer a normal number is scaled from: \<open>(2^52 + mant) * 2^(expo - 1075)\<close>.\<close>

definition is_integer :: "jsnumber \<Rightarrow> bool" where
  "is_integer x \<longleftrightarrow> is_finite x \<and>
     (if expo x = 0 then mant x = 0
      else if expo x < 1023 then False
      else if expo x < 1075 then 2 ^ (1075 - expo x) dvd (2 ^ 52 + mant x)
      else True)"

definition magnitude :: "jsnumber \<Rightarrow> nat" where
  "magnitude x =
     (if expo x = 0 then 0
      else if expo x < 1075 then (2 ^ 52 + mant x) div 2 ^ (1075 - expo x)
      else (2 ^ 52 + mant x) * 2 ^ (expo x - 1075))"

text \<open>The mathematical value of a number that \<open>is_integer\<close> holds of.\<close>

definition int_of_num :: "jsnumber \<Rightarrow> int" where
  "int_of_num x = (if sign_bit x then - int (magnitude x) else int (magnitude x))"

definition MAX_SAFE_INTEGER :: nat where
  "MAX_SAFE_INTEGER = 0x1FFFFFFFFFFFFF"

definition is_safe_integer :: "jsnumber \<Rightarrow> bool" where
  "is_safe_integer x \<longleftrightarrow> is_integer x \<and> magnitude x \<le> MAX_SAFE_INTEGER"

section \<open>The number of a safe integer\<close>

fun ilog2 :: "nat \<Rightarrow> nat" where
  "ilog2 n = (if n < 2 then 0 else Suc (ilog2 (n div 2)))"

declare ilog2.simps [simp del]

lemma ilog2_bounds: "0 < n \<Longrightarrow> 2 ^ ilog2 n \<le> n \<and> n < 2 ^ Suc (ilog2 n)"
proof (induction n rule: ilog2.induct)
  case (1 n)
  show ?case
  proof (cases "n < 2")
    case True
    then show ?thesis using 1(2) by (subst (1 2) ilog2.simps) simp
  next
    case False
    then have "2 ^ ilog2 (n div 2) \<le> n div 2" "n div 2 < 2 ^ Suc (ilog2 (n div 2))"
      using 1(1) by auto
    then show ?thesis
      using False by (auto simp: ilog2.simps [of n])
  qed
qed

lemma ilog2_unique: "2 ^ k \<le> n \<Longrightarrow> n < 2 ^ Suc k \<Longrightarrow> ilog2 n = k"
proof -
  assume a: "2 ^ k \<le> n" "n < 2 ^ Suc k"
  then have "0 < n" by (metis gr0I not_one_le_zero one_le_power order_trans one_le_numeral zero_less_one less_le_not_le le_zero_eq)
  then have b: "2 ^ ilog2 n \<le> n" "n < 2 ^ Suc (ilog2 n)"
    using ilog2_bounds by auto
  have "(2::nat) ^ k < 2 ^ Suc (ilog2 n)" "(2::nat) ^ ilog2 n < 2 ^ Suc k"
    using a b by linarith+
  then show ?thesis
    by (metis le_antisym less_Suc_eq_le one_less_numeral_iff power_strict_increasing_iff semiring_norm(76))
qed

definition num_of_mag :: "bool \<Rightarrow> nat \<Rightarrow> jsnumber" where
  "num_of_mag s n =
     (if n = 0 then mk_num s 0 0
      else mk_num s (1023 + ilog2 n) (n * 2 ^ (52 - ilog2 n) - 2 ^ 52))"

text \<open>The number with a given integer value; zero is \<open>+0\<close>.\<close>

definition num_of_int :: "int \<Rightarrow> jsnumber" where
  "num_of_int i = num_of_mag (i < 0) (nat \<bar>i\<bar>)"

lemma num_of_mag_fields:
  assumes "0 < n" "n \<le> MAX_SAFE_INTEGER"
  shows "ilog2 n \<le> 52"
    and "sign_bit (num_of_mag s n) = s"
    and "expo (num_of_mag s n) = 1023 + ilog2 n"
    and "mant (num_of_mag s n) + 2 ^ 52 = n * 2 ^ (52 - ilog2 n)"
proof -
  have b: "2 ^ ilog2 n \<le> n" "n < 2 ^ Suc (ilog2 n)"
    using ilog2_bounds assms(1) by auto
  have "(2::nat) ^ ilog2 n < 2 ^ 53"
    using b(1) assms(2) by (simp add: MAX_SAFE_INTEGER_def)
  then have "ilog2 n < 53"
    by (rule power_less_imp_less_exp [rotated]) simp
  then show l: "ilog2 n \<le> 52" by simp
  have pow: "(2::nat) ^ 52 = 2 ^ ilog2 n * 2 ^ (52 - ilog2 n)"
    using l by (simp flip: power_add)
  have ge: "2 ^ 52 \<le> n * 2 ^ (52 - ilog2 n)"
    unfolding pow using b(1) by (intro mult_le_mono1)
  have "n * 2 ^ (52 - ilog2 n) < 2 ^ Suc (ilog2 n) * 2 ^ (52 - ilog2 n)"
    using b(2) by simp
  also have "\<dots> = 2 ^ 52 + 2 ^ 52"
    unfolding pow by simp
  finally have lt: "n * 2 ^ (52 - ilog2 n) - 2 ^ 52 < 2 ^ 52"
    using ge by linarith
  have eq: "num_of_mag s n = mk_num s (1023 + ilog2 n) (n * 2 ^ (52 - ilog2 n) - 2 ^ 52)"
    using assms(1) by (simp add: num_of_mag_def)
  have e: "1023 + ilog2 n < 2048"
    using l by simp
  show "sign_bit (num_of_mag s n) = s" "expo (num_of_mag s n) = 1023 + ilog2 n"
    using mk_num_fields [OF e lt] unfolding eq by blast+
  show "mant (num_of_mag s n) + 2 ^ 52 = n * 2 ^ (52 - ilog2 n)"
    using mk_num_fields(3) [OF e lt] ge unfolding eq by simp
qed

lemma num_of_mag_safe:
  assumes "n \<le> MAX_SAFE_INTEGER"
  shows "is_integer (num_of_mag s n)" "magnitude (num_of_mag s n) = n"
proof -
  have "is_integer (num_of_mag s n) \<and> magnitude (num_of_mag s n) = n"
  proof (cases "n = 0")
    case True
    then show ?thesis
      using mk_num_fields [of 0 0 s]
      by (simp add: num_of_mag_def is_integer_def magnitude_def is_finite_def)
  next
    case False
    have l: "ilog2 n \<le> 52" and e: "expo (num_of_mag s n) = 1023 + ilog2 n"
      and m: "2 ^ 52 + mant (num_of_mag s n) = n * 2 ^ (52 - ilog2 n)"
      using num_of_mag_fields(1,3,4) [OF _ assms] False by (simp_all add: add.commute)
    have d: "1075 - (1023 + ilog2 n) = 52 - ilog2 n"
      by simp
    show ?thesis
      using l by (simp only: is_integer_def magnitude_def is_finite_def e m d) simp
  qed
  then show "is_integer (num_of_mag s n)" "magnitude (num_of_mag s n) = n"
    by blast+
qed

lemma num_of_mag_magnitude:
  assumes "is_integer x" "magnitude x \<le> MAX_SAFE_INTEGER"
  shows "num_of_mag (sign_bit x) (magnitude x) = x"
proof (cases "expo x = 0")
  case True
  then have "mant x = 0" "magnitude x = 0"
    using assms(1) by (simp_all add: is_integer_def magnitude_def)
  then show ?thesis
    using mk_num_collapse [of x] True by (simp add: num_of_mag_def)
next
  case False
  have e: "1023 \<le> expo x"
    using assms(1) False by (auto simp: is_integer_def split: if_splits)
  have e2: "expo x \<le> 1075"
  proof (rule ccontr)
    assume "\<not> expo x \<le> 1075"
    then have "(2::nat) ^ 1 \<le> 2 ^ (expo x - 1075)"
      by (intro power_increasing) simp_all
    then have "(2::nat) ^ 53 \<le> 2 ^ 52 * 2 ^ (expo x - 1075)"
      by simp
    also have "\<dots> \<le> (2 ^ 52 + mant x) * 2 ^ (expo x - 1075)"
      by (intro mult_le_mono1) simp
    also have "\<dots> = magnitude x"
      using \<open>\<not> expo x \<le> 1075\<close> by (simp add: magnitude_def)
    finally show False
      using assms(2) by (simp add: MAX_SAFE_INTEGER_def)
  qed
  define k where "k = 1075 - expo x"
  have k: "k \<le> 52" "expo x = 1075 - k"
    using e e2 by (auto simp: k_def)
  have mk: "magnitude x * 2 ^ k = 2 ^ 52 + mant x"
  proof (cases "expo x < 1075")
    case True
    then have "2 ^ k dvd 2 ^ 52 + mant x"
      using assms(1) False e by (simp add: is_integer_def k_def)
    then show ?thesis
      using True False by (simp add: magnitude_def flip: k_def)
  next
    case False
    then have "expo x = 1075" using e2 by simp
    then show ?thesis by (simp add: magnitude_def k_def)
  qed
  have pow: "(2::nat) ^ 52 = 2 ^ (52 - k) * 2 ^ k"
    using k(1) by (simp flip: power_add)
  have "2 ^ (52 - k) * 2 ^ k \<le> magnitude x * 2 ^ k"
    unfolding mk pow [symmetric] by simp
  then have lo: "2 ^ (52 - k) \<le> magnitude x"
    by simp
  have "magnitude x * 2 ^ k < 2 ^ Suc (52 - k) * 2 ^ k"
    unfolding mk using mant_bound [of x] by (simp only: power_Suc mult.assoc flip: pow) simp
  then have hi: "magnitude x < 2 ^ Suc (52 - k)"
    by simp
  have lg: "ilog2 (magnitude x) = 52 - k"
    using lo hi by (rule ilog2_unique)
  have pos: "magnitude x \<noteq> 0"
    using lo by (metis le_zero_eq power_not_zero zero_neq_numeral)
  have "1023 + ilog2 (magnitude x) = expo x" "52 - ilog2 (magnitude x) = k"
    using lg k e by auto
  then have "num_of_mag (sign_bit x) (magnitude x) = mk_num (sign_bit x) (expo x) (magnitude x * 2 ^ k - 2 ^ 52)"
    using pos by (simp add: num_of_mag_def)
  also have "\<dots> = x"
    unfolding mk using mk_num_collapse [of x] by simp
  finally show ?thesis .
qed

lemma sign_of_nonzero_int:
  "int_of_num x < 0 \<longleftrightarrow> sign_bit x \<and> magnitude x \<noteq> 0"
  by (auto simp: int_of_num_def)

lemma magnitude_zero:
  assumes "is_integer x" "magnitude x = 0"
  shows "expo x = 0 \<and> mant x = 0"
proof (rule ccontr)
  assume a: "\<not> (expo x = 0 \<and> mant x = 0)"
  then have "expo x \<noteq> 0"
    using assms(1) unfolding is_integer_def by (cases "expo x = 0") simp_all
  moreover have "num_of_mag (sign_bit x) 0 = x"
    using num_of_mag_magnitude [OF assms(1)] assms(2) by (simp add: MAX_SAFE_INTEGER_def)
  ultimately show False
    using mk_num_fields(2) [of 0 0 "sign_bit x"] by (simp add: num_of_mag_def)
qed

text \<open>The two round trips between safe integers and their numbers.\<close>

lemma num_of_int_of_num:
  assumes "is_safe_integer x" "\<not> is_neg_zero x"
  shows "num_of_int (int_of_num x) = x"
proof -
  have i: "is_integer x" "magnitude x \<le> MAX_SAFE_INTEGER"
    using assms(1) by (auto simp: is_safe_integer_def)
  have "magnitude x = 0 \<Longrightarrow> \<not> sign_bit x"
    using assms(2) magnitude_zero [OF i(1)] by (simp add: is_neg_zero_def)
  then have "(int_of_num x < 0) = sign_bit x"
    unfolding sign_of_nonzero_int by blast
  moreover have "nat \<bar>int_of_num x\<bar> = magnitude x"
    by (simp add: int_of_num_def)
  ultimately show ?thesis
    using num_of_mag_magnitude [OF i] by (simp add: num_of_int_def)
qed

lemma num_of_int_props:
  assumes "\<bar>i\<bar> \<le> int MAX_SAFE_INTEGER"
  shows "int_of_num (num_of_int i) = i" "is_safe_integer (num_of_int i)"
    "\<not> is_neg_zero (num_of_int i)"
proof -
  have n: "nat \<bar>i\<bar> \<le> MAX_SAFE_INTEGER"
    using assms by simp
  note safe = num_of_mag_safe [OF n, of "i < 0"]
  have sgn: "sign_bit (num_of_mag (i < 0) (nat \<bar>i\<bar>)) = (i < 0)"
  proof (cases "i = 0")
    case True
    then show ?thesis using mk_num_fields(1) [of 0 0 False] by (simp add: num_of_mag_def)
  next
    case False
    then show ?thesis using num_of_mag_fields(2) [OF _ n] by simp
  qed
  show "int_of_num (num_of_int i) = i"
    using safe sgn by (auto simp: num_of_int_def int_of_num_def)
  show "is_safe_integer (num_of_int i)"
    using safe n by (simp add: num_of_int_def is_safe_integer_def)
  show "\<not> is_neg_zero (num_of_int i)"
  proof
    assume z: "is_neg_zero (num_of_int i)"
    then have "magnitude (num_of_mag (i < 0) (nat \<bar>i\<bar>)) = 0"
      by (simp add: num_of_int_def is_neg_zero_def magnitude_def)
    then show False
      using safe(2) sgn z by (simp add: num_of_int_def is_neg_zero_def)
  qed
qed

section \<open>The eight bytes of a number\<close>

text \<open>\<open>DataView.setFloat64(offset, x, false)\<close> and \<open>getFloat64\<close>: big-endian bytes.\<close>

definition float_bytes :: "jsnumber \<Rightarrow> byte list" where
  "float_bytes x =
     [to_byte (unat x div 2 ^ 56), to_byte (unat x div 2 ^ 48), to_byte (unat x div 2 ^ 40),
      to_byte (unat x div 2 ^ 32), to_byte (unat x div 2 ^ 24), to_byte (unat x div 2 ^ 16),
      to_byte (unat x div 2 ^ 8), to_byte (unat x)]"

definition float_of_bytes :: "byte list \<Rightarrow> jsnumber" where
  "float_of_bytes bs = word_of_nat (foldl (\<lambda>n b. n * 256 + unat b) 0 bs)"

lemma length_float_bytes [simp]: "length (float_bytes x) = 8"
  by (simp add: float_bytes_def)

lemma foldl_base256:
  "foldl (\<lambda>n b. n * 256 + unat (b :: byte)) (n div 256) [to_byte n] = n"
  by simp

lemma float_of_float_bytes [simp]: "float_of_bytes (float_bytes x) = x"
proof -
  define n where "n = unat x"
  have n: "n < 2 ^ 64" unfolding n_def by (rule number_unat_bound)
  have step: "n div 2 ^ j * 256 + n div 2 ^ k mod 256 = n div 2 ^ k" if "j = k + 8" for j k
    unfolding that by (simp only: power_add div_mult2_eq) simp
  have steps: "n div 2 ^ 56 * 256 + n div 2 ^ 48 mod 256 = n div 2 ^ 48"
    "n div 2 ^ 48 * 256 + n div 2 ^ 40 mod 256 = n div 2 ^ 40"
    "n div 2 ^ 40 * 256 + n div 2 ^ 32 mod 256 = n div 2 ^ 32"
    "n div 2 ^ 32 * 256 + n div 2 ^ 24 mod 256 = n div 2 ^ 24"
    "n div 2 ^ 24 * 256 + n div 2 ^ 16 mod 256 = n div 2 ^ 16"
    "n div 2 ^ 16 * 256 + n div 2 ^ 8 mod 256 = n div 2 ^ 8"
    by (rule step, simp)+
  have last: "n div 2 ^ 8 * 256 + n mod 256 = n"
    by simp
  have top: "0 * 256 + n div 2 ^ 56 mod 256 = n div 2 ^ 56"
    using n by (simp only: mult_0 add_0) (intro mod_less less_mult_imp_div_less, simp)
  have "foldl (\<lambda>n b. n * 256 + unat b) 0 (float_bytes x) = n"
    unfolding float_bytes_def n_def [symmetric]
    by (simp only: foldl_Cons foldl_Nil unat_to_byte top steps last)
  then show ?thesis
    by (simp add: float_of_bytes_def n_def)
qed

text \<open>Evaluation of closed numbers by the simplifier.\<close>

lemmas number_eval = num_of_int_def num_of_mag_def ilog2.simps mk_num_def is_safe_integer_def
  is_integer_def is_finite_def expo_def mant_def magnitude_def MAX_SAFE_INTEGER_def
  int_of_num_def sign_bit_def is_neg_zero_def

end
