(* ===== verification/CborWriter.thy ===== *)
theory CborWriter
  imports JsText JsNumber
begin

text \<open>
  The options of the CBOR codec (\<open>packages/protocol/src/cbor/options.ts\<close>) and the growing
  output buffer of its encoder (class \<open>CborWriter\<close> of \<open>encoder.ts\<close>), with the laws of a
  bounded byte sink that the encoder's proofs rest on.
\<close>

section \<open>Options and errors\<close>

text \<open>
  One constructor per error the codec throws. \<open>Diverges\<close> is thrown nowhere: it stands for a
  loop that does not end, and \<open>ensureCapacity_total\<close> shows that it cannot occur.
\<close>

datatype cbor_error =
    RangeError string nat
  | TypeError
  | ByteLimit nat
  | TextLimit nat
  | InvalidScalars
  | DepthLimit nat
  | NotFinite
  | UnsafeInteger
  | BytesLimit nat
  | Cycle
  | ArrayLimit nat
  | ArrayHole
  | SymbolKey
  | MapLimit nat
  | UnsupportedType
  | TrailingData
  | DecodedUnsafe
  | InvalidUtf8
  | NonStringKey
  | DuplicateKey
  | TagUnsupported
  | MalformedMajor
  | DecodedNotFinite
  | BreakMarker
  | UnsupportedSimple
  | Indefinite string
  | LengthLimit string nat
  | MalformedInfo
  | Truncated
  | Diverges

definition MAX_UINT32 :: nat where "MAX_UINT32 = 0xffffffff"
definition UINT32_BASE :: nat where "UINT32_BASE = 0x100000000"
definition MAX_CONFIGURED_DEPTH :: nat where "MAX_CONFIGURED_DEPTH = 512"
definition DEFAULT_MAX_CBOR_BYTE_LENGTH :: nat where
  "DEFAULT_MAX_CBOR_BYTE_LENGTH = 16 * 1024 * 1024"
definition DEFAULT_MAX_CBOR_CONTAINER_LENGTH :: nat where
  "DEFAULT_MAX_CBOR_CONTAINER_LENGTH = 1000000"
definition DEFAULT_MAX_CBOR_DEPTH :: nat where "DEFAULT_MAX_CBOR_DEPTH = 64"

record cbor_options =
  o_maxByteLength :: "jsnumber option"
  o_maxContainerLength :: "jsnumber option"
  o_maxDepth :: "jsnumber option"

record resolved_options =
  maxByteLength :: nat
  maxContainerLength :: nat
  maxDepth :: nat

definition resolveLimit :: "string \<Rightarrow> jsnumber \<Rightarrow> nat \<Rightarrow> cbor_error + nat" where
  "resolveLimit name value maximum =
     (if \<not> is_safe_integer value \<or> int_of_num value < 0 \<or> int_of_num value > int maximum
      then Inl (RangeError name maximum)
      else Inr (nat (int_of_num value)))"

definition limit_or :: "nat \<Rightarrow> jsnumber option \<Rightarrow> jsnumber" where
  "limit_or d v = (case v of None \<Rightarrow> num_of_int (int d) | Some x \<Rightarrow> x)"

definition resolveOptions :: "cbor_options option \<Rightarrow> cbor_error + resolved_options" where
  "resolveOptions options =
     (let field = (\<lambda>f. case options of None \<Rightarrow> None | Some r \<Rightarrow> f r) in
      bindE (resolveLimit ''maxByteLength''
               (limit_or DEFAULT_MAX_CBOR_BYTE_LENGTH (field o_maxByteLength)) MAX_UINT32) (\<lambda>b.
      bindE (resolveLimit ''maxContainerLength''
               (limit_or DEFAULT_MAX_CBOR_CONTAINER_LENGTH (field o_maxContainerLength)) MAX_UINT32) (\<lambda>c.
      bindE (resolveLimit ''maxDepth''
               (limit_or DEFAULT_MAX_CBOR_DEPTH (field o_maxDepth)) MAX_CONFIGURED_DEPTH) (\<lambda>d.
      Inr \<lparr>maxByteLength = b, maxContainerLength = c, maxDepth = d\<rparr>))))"

text \<open>What every resolved configuration satisfies.\<close>

definition options_ok :: "resolved_options \<Rightarrow> bool" where
  "options_ok r \<longleftrightarrow> maxByteLength r \<le> MAX_UINT32 \<and> maxContainerLength r \<le> MAX_UINT32
     \<and> maxDepth r \<le> MAX_CONFIGURED_DEPTH"

lemma resolveLimit_bound: "resolveLimit name v m = Inr n \<Longrightarrow> n \<le> m"
  by (auto simp: resolveLimit_def split: if_splits)

lemma resolveOptions_ok: "resolveOptions options = Inr r \<Longrightarrow> options_ok r"
  by (auto simp: resolveOptions_def Let_def options_ok_def dest: resolveLimit_bound)

lemma resolveOptions_default:
  "resolveOptions None = Inr \<lparr>maxByteLength = 16777216, maxContainerLength = 1000000, maxDepth = 64\<rparr>"
proof -
  have "resolveLimit name (num_of_int (int d)) m = Inr d" if "d \<le> m" "d \<le> MAX_SAFE_INTEGER" for name d m
    using that num_of_int_props [of "int d"] by (simp add: resolveLimit_def)
  note this [of DEFAULT_MAX_CBOR_BYTE_LENGTH MAX_UINT32]
    this [of DEFAULT_MAX_CBOR_CONTAINER_LENGTH MAX_UINT32]
    this [of DEFAULT_MAX_CBOR_DEPTH MAX_CONFIGURED_DEPTH]
  note limits = this [unfolded MAX_SAFE_INTEGER_def DEFAULT_MAX_CBOR_BYTE_LENGTH_def
      DEFAULT_MAX_CBOR_CONTAINER_LENGTH_def DEFAULT_MAX_CBOR_DEPTH_def MAX_UINT32_def
      MAX_CONFIGURED_DEPTH_def, simplified]
  show ?thesis
    using limits
    by (simp add: resolveOptions_def limit_or_def Let_def DEFAULT_MAX_CBOR_BYTE_LENGTH_def
        DEFAULT_MAX_CBOR_CONTAINER_LENGTH_def DEFAULT_MAX_CBOR_DEPTH_def MAX_UINT32_def
        MAX_CONFIGURED_DEPTH_def)
qed

section \<open>The writer\<close>

record cbor_writer =
  buffer :: "byte list"
  offset :: nat
  w_max :: nat

definition new_writer :: "nat \<Rightarrow> cbor_writer" where
  "new_writer m = \<lparr>buffer = replicate (min 256 m) 0, offset = 0, w_max = m\<rparr>"

text \<open>The doubling loop of \<open>ensureCapacity\<close>; \<open>None\<close> would be an endless loop.\<close>

partial_function (option) grow_capacity :: "nat \<Rightarrow> nat \<Rightarrow> nat \<Rightarrow> nat option" where
  "grow_capacity m required capacity =
     (if capacity < required
      then grow_capacity m required (min m (max required (capacity * 2)))
      else Some capacity)"

definition ensureCapacity :: "nat \<Rightarrow> cbor_writer \<Rightarrow> cbor_error + cbor_writer" where
  "ensureCapacity additional w =
     (let required = offset w + additional in
      if required > w_max w then Inl (ByteLimit (w_max w))
      else if required \<le> length (buffer w) then Inr w
      else case grow_capacity (w_max w) required (max 1 (length (buffer w))) of
             None \<Rightarrow> Inl Diverges
           | Some capacity \<Rightarrow> Inr (w\<lparr>buffer := blit (replicate capacity 0) 0 (buffer w)\<rparr>))"

definition put :: "byte list \<Rightarrow> cbor_writer \<Rightarrow> cbor_writer" where
  "put bs w = w\<lparr>buffer := blit (buffer w) (offset w) bs, offset := offset w + length bs\<rparr>"

definition writeByte :: "nat \<Rightarrow> cbor_writer \<Rightarrow> cbor_error + cbor_writer" where
  "writeByte value w =
     bindE (ensureCapacity 1 w) (\<lambda>w.
     Inr (w\<lparr>buffer := (buffer w)[offset w := to_byte value], offset := offset w + 1\<rparr>))"

definition writeBytes :: "byte list \<Rightarrow> cbor_writer \<Rightarrow> cbor_error + cbor_writer" where
  "writeBytes bytes w =
     bindE (ensureCapacity (length bytes) w) (\<lambda>w.
     Inr (w\<lparr>buffer := blit (buffer w) (offset w) bytes, offset := offset w + length bytes\<rparr>))"

definition writeUint16 :: "nat \<Rightarrow> cbor_writer \<Rightarrow> cbor_error + cbor_writer" where
  "writeUint16 value w =
     bindE (ensureCapacity 2 w) (\<lambda>w.
     Inr (w\<lparr>buffer := (buffer w)[offset w := to_byte (ushr value 8),
                                  offset w + 1 := to_byte value],
            offset := offset w + 2\<rparr>))"

definition writeUint32 :: "nat \<Rightarrow> cbor_writer \<Rightarrow> cbor_error + cbor_writer" where
  "writeUint32 value w =
     bindE (ensureCapacity 4 w) (\<lambda>w.
     Inr (w\<lparr>buffer := (buffer w)[offset w := to_byte (ushr value 24),
                                  offset w + 1 := to_byte (ushr value 16),
                                  offset w + 2 := to_byte (ushr value 8),
                                  offset w + 3 := to_byte value],
            offset := offset w + 4\<rparr>))"

definition writeUint64 :: "nat \<Rightarrow> cbor_writer \<Rightarrow> cbor_error + cbor_writer" where
  "writeUint64 value w =
     (let high = value div UINT32_BASE; low = value - high * UINT32_BASE in
      bindE (writeUint32 high w) (writeUint32 low))"

definition writeFloat64 :: "jsnumber \<Rightarrow> cbor_writer \<Rightarrow> cbor_error + cbor_writer" where
  "writeFloat64 value w =
     bindE (ensureCapacity 9 w) (\<lambda>w.
     Inr (w\<lparr>buffer := blit ((buffer w)[offset w := 0xfb]) (offset w + 1) (float_bytes value),
            offset := offset w + 9\<rparr>))"

definition finish :: "cbor_writer \<Rightarrow> byte list" where
  "finish w = slice 0 (offset w) (buffer w)"

text \<open>The head of an item: major type and argument in its shortest form.\<close>

definition writeArgument :: "nat \<Rightarrow> nat \<Rightarrow> cbor_writer \<Rightarrow> cbor_error + cbor_writer" where
  "writeArgument majorType value w =
     (let prefix = majorType * 32 in
      if value < 24 then writeByte (prefix + value) w
      else if value \<le> 0xff then bindE (writeByte (prefix + 24) w) (writeByte value)
      else if value \<le> 0xffff then bindE (writeByte (prefix + 25) w) (writeUint16 value)
      else if value \<le> MAX_UINT32 then bindE (writeByte (prefix + 26) w) (writeUint32 value)
      else bindE (writeByte (prefix + 27) w) (writeUint64 value))"

section \<open>The writer refines a bounded byte sequence\<close>

definition writer_ok :: "cbor_writer \<Rightarrow> bool" where
  "writer_ok w \<longleftrightarrow> offset w \<le> length (buffer w) \<and> length (buffer w) \<le> w_max w"

text \<open>The abstract operation: append, or fail when the limit is passed.\<close>

definition append_bytes :: "byte list \<Rightarrow> cbor_writer \<Rightarrow> cbor_error + cbor_writer \<Rightarrow> bool" where
  "append_bytes bs w r \<longleftrightarrow>
     (if offset w + length bs > w_max w then r = Inl (ByteLimit (w_max w))
      else \<exists>w'. r = Inr w' \<and> writer_ok w' \<and> w_max w' = w_max w
             \<and> offset w' = offset w + length bs \<and> finish w' = finish w @ bs)"

lemma new_writer_ok [simp]: "writer_ok (new_writer m)" "finish (new_writer m) = []"
  "w_max (new_writer m) = m" "offset (new_writer m) = 0"
  by (simp_all add: new_writer_def writer_ok_def finish_def)

lemma grow_capacity_Some:
  assumes "required \<le> m"
  shows "\<exists>c. grow_capacity m required capacity = Some c \<and> required \<le> c \<and> (capacity \<le> m \<longrightarrow> capacity \<le> c \<and> c \<le> m)"
proof (cases "capacity < required")
  case True
  define c where "c = min m (max required (capacity * 2))"
  have c: "required \<le> c" "c \<le> m" "capacity \<le> c"
    using assms True by (auto simp: c_def)
  have "grow_capacity m required capacity = Some c"
    using True c(1) by (simp add: grow_capacity.simps [of m required capacity]
        grow_capacity.simps [of m required c] flip: c_def)
  with c show ?thesis by auto
next
  case False
  then show ?thesis by (auto simp: grow_capacity.simps [of m required capacity])
qed

lemma ensureCapacity_spec:
  assumes "writer_ok w"
  shows "(offset w + n > w_max w \<and> ensureCapacity n w = Inl (ByteLimit (w_max w))) \<or>
    (offset w + n \<le> w_max w \<and> (\<exists>w'. ensureCapacity n w = Inr w' \<and> writer_ok w'
       \<and> w_max w' = w_max w \<and> offset w' = offset w \<and> offset w + n \<le> length (buffer w')
       \<and> take (offset w) (buffer w') = take (offset w) (buffer w)))"
proof (cases "offset w + n > w_max w \<or> offset w + n \<le> length (buffer w)")
  case True
  then show ?thesis
    using assms by (auto simp: ensureCapacity_def Let_def writer_ok_def)
next
  case False
  define c0 where "c0 = max 1 (length (buffer w))"
  obtain c where g: "grow_capacity (w_max w) (offset w + n) c0 = Some c"
    and ge: "offset w + n \<le> c" and le: "c0 \<le> w_max w \<longrightarrow> c0 \<le> c \<and> c \<le> w_max w"
    using grow_capacity_Some [of "offset w + n" "w_max w" c0] False by auto
  have "c0 \<le> w_max w"
    using False assms by (auto simp: c0_def writer_ok_def)
  with le have c: "length (buffer w) \<le> c" "c \<le> w_max w"
    by (auto simp: c0_def)
  define w' where "w' = w\<lparr>buffer := blit (replicate c 0) 0 (buffer w)\<rparr>"
  have "ensureCapacity n w = Inr w'"
    using False g by (simp add: ensureCapacity_def Let_def w'_def c0_def)
  moreover have "writer_ok w'" "w_max w' = w_max w" "offset w' = offset w"
    "offset w + n \<le> length (buffer w')"
    using c ge assms False by (auto simp: w'_def writer_ok_def)
  moreover have "take (offset w) (buffer w') = take (offset w) (buffer w)"
    using assms by (simp add: w'_def blit_def writer_ok_def)
  ultimately show ?thesis
    using False by auto
qed

text \<open>The capacity loop always ends: no operation of the writer diverges.\<close>

lemma ensureCapacity_total: "writer_ok w \<Longrightarrow> ensureCapacity n w \<noteq> Inl Diverges"
  using ensureCapacity_spec [of w n] by auto

text \<open>Every write is: ensure the capacity, then place the bytes at the offset.\<close>

lemma append_by_put:
  assumes ok: "writer_ok w"
    and r: "r = bindE (ensureCapacity (length bs) w) (\<lambda>w. Inr (put bs w))"
  shows "append_bytes bs w r"
proof (cases "offset w + length bs > w_max w")
  case True
  then show ?thesis
    using ensureCapacity_spec [OF ok, of "length bs"] r by (auto simp: append_bytes_def)
next
  case False
  then obtain w' where e: "ensureCapacity (length bs) w = Inr w'" and w': "writer_ok w'"
    "w_max w' = w_max w" "offset w' = offset w" "offset w + length bs \<le> length (buffer w')"
    "take (offset w) (buffer w') = take (offset w) (buffer w)"
    using ensureCapacity_spec [OF ok, of "length bs"] by auto
  have "finish (put bs w') = finish w @ bs"
    using w' take_blit_prefix [of "offset w" bs "buffer w'"]
    by (simp add: finish_def put_def slice_def)
  moreover have "writer_ok (put bs w')"
    using w' by (simp add: writer_ok_def put_def)
  ultimately show ?thesis
    using False e w' r by (auto simp: append_bytes_def put_def)
qed

lemma blit_singleton: "i < length xs \<Longrightarrow> blit xs i [y] = xs[i := y]"
  by (simp add: blit_def upd_conv_take_nth_drop)

lemma blit_Cons: "i < length xs \<Longrightarrow> blit xs i (y # ys) = blit (xs[i := y]) (Suc i) ys"
  by (simp add: blit_def take_Suc_conv_app_nth drop_update_cancel)

text \<open>The stored bytes of each operation, in terms of \<open>put\<close>.\<close>

lemma ensured_room: "writer_ok w \<Longrightarrow> ensureCapacity n w = Inr w' \<Longrightarrow> offset w' + n \<le> length (buffer w')"
  using ensureCapacity_spec [of w n] by auto

lemma append_by_store:
  assumes ok: "writer_ok w" and n: "n = length bs"
    and f: "\<And>w'. offset w' + n \<le> length (buffer w') \<Longrightarrow> f w' = Inr (put bs w')"
  shows "append_bytes bs w (bindE (ensureCapacity n w) f)"
proof (rule append_by_put [OF ok])
  show "bindE (ensureCapacity n w) f = bindE (ensureCapacity (length bs) w) (\<lambda>w. Inr (put bs w))"
    using f ensured_room [OF ok, of n] n by (cases "ensureCapacity n w") auto
qed

lemma writeByte_spec: "writer_ok w \<Longrightarrow> append_bytes [to_byte v] w (writeByte v w)"
  unfolding writeByte_def
  by (rule append_by_store) (auto simp: put_def blit_singleton)

lemma writeBytes_spec: "writer_ok w \<Longrightarrow> append_bytes bs w (writeBytes bs w)"
  unfolding writeBytes_def by (rule append_by_put) (simp_all add: put_def)

definition be16_bytes :: "nat \<Rightarrow> byte list" where
  "be16_bytes v = [to_byte (ushr v 8), to_byte v]"

definition be32_bytes :: "nat \<Rightarrow> byte list" where
  "be32_bytes v = [to_byte (ushr v 24), to_byte (ushr v 16), to_byte (ushr v 8), to_byte v]"

lemma writeUint16_spec: "writer_ok w \<Longrightarrow> append_bytes (be16_bytes v) w (writeUint16 v w)"
  unfolding writeUint16_def be16_bytes_def
  by (rule append_by_store) (auto simp: put_def blit_Cons)

lemma writeUint32_spec: "writer_ok w \<Longrightarrow> append_bytes (be32_bytes v) w (writeUint32 v w)"
  unfolding writeUint32_def be32_bytes_def
  by (rule append_by_store) (auto simp: put_def blit_Cons numeral_3_eq_3)

lemma writeFloat64_spec: "writer_ok w \<Longrightarrow> append_bytes (0xfb # float_bytes v) w (writeFloat64 v w)"
  unfolding writeFloat64_def
  by (rule append_by_store) (auto simp: put_def blit_Cons)

text \<open>Appending in two steps is appending the concatenation.\<close>

lemma append_bytes_seq:
  assumes a: "append_bytes bs w r" and ok: "writer_ok w"
    and f: "\<And>w'. writer_ok w' \<Longrightarrow> append_bytes cs w' (f w')"
  shows "append_bytes (bs @ cs) w (bindE r f)"
proof (cases "offset w + length bs > w_max w")
  case True
  then show ?thesis using a by (auto simp: append_bytes_def)
next
  case False
  then obtain w' where r: "r = Inr w'" and w': "writer_ok w'" "w_max w' = w_max w"
    "offset w' = offset w + length bs" "finish w' = finish w @ bs"
    using a by (auto simp: append_bytes_def)
  from f [OF w'(1)] show ?thesis
    using r w' by (auto simp: append_bytes_def add.assoc)
qed

lemma writeUint64_spec:
  "writer_ok w \<Longrightarrow> append_bytes (be32_bytes (v div UINT32_BASE) @ be32_bytes (v mod UINT32_BASE)) w (writeUint64 v w)"
  unfolding writeUint64_def Let_def minus_div_mult_eq_mod
  by (rule append_bytes_seq [OF writeUint32_spec]) (auto intro: writeUint32_spec)

text \<open>The bytes of an item head.\<close>

definition argument_bytes :: "nat \<Rightarrow> nat \<Rightarrow> byte list" where
  "argument_bytes major v =
     (if v < 24 then [to_byte (major * 32 + v)]
      else if v \<le> 0xff then [to_byte (major * 32 + 24), to_byte v]
      else if v \<le> 0xffff then to_byte (major * 32 + 25) # be16_bytes v
      else if v \<le> MAX_UINT32 then to_byte (major * 32 + 26) # be32_bytes v
      else to_byte (major * 32 + 27) # be32_bytes (v div UINT32_BASE) @ be32_bytes (v mod UINT32_BASE))"

lemma append_bytes_Cons:
  assumes "writer_ok w" and "\<And>w'. writer_ok w' \<Longrightarrow> append_bytes cs w' (f w')"
  shows "append_bytes (to_byte v # cs) w (bindE (writeByte v w) f)"
  using append_bytes_seq [OF writeByte_spec [OF assms(1), of v] assms(1) assms(2)] by simp

lemma writeArgument_spec:
  "writer_ok w \<Longrightarrow> append_bytes (argument_bytes major v) w (writeArgument major v w)"
  unfolding argument_bytes_def writeArgument_def Let_def
  by (auto intro!: writeByte_spec append_bytes_Cons writeUint16_spec writeUint32_spec writeUint64_spec
      simp del: of_nat_add of_nat_mult of_nat_numeral)

end
