(* ===== verification/CborEncode.thy ===== *)
theory CborEncode
  imports CborWriter
begin

text \<open>
  The encoder of \<open>packages/protocol/src/cbor/encoder.ts\<close>: \<open>encodeText\<close>, \<open>encodeValue\<close> and
  \<open>encodeCbor\<close>, over JavaScript values in a heap, so that shared and cyclic objects exist.
  The abstract side is a tree (\<open>cbor\<close>) and its canonical bytes; the encoder is shown to
  produce exactly the canonical bytes of the tree its input unfolds to.
\<close>

section \<open>JavaScript values\<close>

text \<open>
  Objects are references into a heap. An array's element is \<open>None\<close> where the array has a
  hole. An object node lists its own enumerable string-keyed properties in the order of
  \<open>Object.keys\<close>, its prototype, and whether it has an enumerable symbol property.
\<close>

datatype proto = ObjectPrototype | NullPrototype | OtherPrototype

datatype jsval =
    VUndefined
  | VNull
  | VBool bool
  | VNum jsnumber
  | VStr jsstring
  | VRef nat
  | VOther string

datatype node =
    NBytes "byte list"
  | NArray "jsval option list"
  | NObject proto "(jsstring \<times> jsval) list" bool

type_synonym heap = "node list"

definition deref :: "heap \<Rightarrow> nat \<Rightarrow> node option" where
  "deref H a = (if a < length H then Some (H ! a) else None)"

definition isPlainObject :: "proto \<Rightarrow> bool" where
  "isPlainObject p \<longleftrightarrow> p = ObjectPrototype \<or> p = NullPrototype"

section \<open>The encoder\<close>

definition encodeText :: "resolved_options \<Rightarrow> jsstring \<Rightarrow> cbor_writer \<Rightarrow> cbor_error + cbor_writer" where
  "encodeText opts value w =
     (let bytes = textEncode value in
      if length bytes > maxByteLength opts then Inl (TextLimit (maxByteLength opts))
      else if textDecode bytes \<noteq> Some value then Inl InvalidScalars
      else bindE (writeArgument 3 (length bytes) w) (writeBytes bytes))"

definition encodeNumber :: "jsnumber \<Rightarrow> cbor_writer \<Rightarrow> cbor_error + cbor_writer" where
  "encodeNumber value w =
     (if \<not> is_finite value then Inl NotFinite
      else if is_integer value \<and> \<not> is_neg_zero value then
        (if \<not> is_safe_integer value then Inl UnsafeInteger
         else if int_of_num value \<ge> 0 then writeArgument 0 (nat (int_of_num value)) w
         else writeArgument 1 (nat (-1 - int_of_num value)) w)
      else writeFloat64 value w)"

definition present :: "(jsstring \<times> jsval) list \<Rightarrow> (jsstring \<times> jsval) list" where
  "present kvs = filter (\<lambda>(k, v). v \<noteq> VUndefined) kvs"

function encodeValue ::
    "heap \<Rightarrow> resolved_options \<Rightarrow> nat \<Rightarrow> nat set \<Rightarrow> jsval \<Rightarrow> cbor_writer \<Rightarrow> cbor_error + cbor_writer"
  and encodeItems ::
    "heap \<Rightarrow> resolved_options \<Rightarrow> nat \<Rightarrow> nat set \<Rightarrow> jsval option list \<Rightarrow> cbor_writer \<Rightarrow> cbor_error + cbor_writer"
  and encodeEntries ::
    "heap \<Rightarrow> resolved_options \<Rightarrow> nat \<Rightarrow> nat set \<Rightarrow> (jsstring \<times> jsval) list \<Rightarrow> cbor_writer \<Rightarrow> cbor_error + cbor_writer"
where
  "encodeValue H opts depth anc value w =
     (if depth > maxDepth opts then Inl (DepthLimit (maxDepth opts))
      else case value of
        VNull \<Rightarrow> writeByte 0xf6 w
      | VBool b \<Rightarrow> writeByte (if b then 0xf5 else 0xf4) w
      | VNum n \<Rightarrow> encodeNumber n w
      | VStr s \<Rightarrow> encodeText opts s w
      | VRef a \<Rightarrow>
          (case deref H a of
             Some (NBytes bs) \<Rightarrow>
               (if length bs > maxByteLength opts then Inl (BytesLimit (maxByteLength opts))
                else bindE (writeArgument 2 (length bs) w) (writeBytes bs))
           | Some (NArray xs) \<Rightarrow>
               (if a \<in> anc then Inl Cycle
                else if length xs > maxContainerLength opts then Inl (ArrayLimit (maxContainerLength opts))
                else bindE (writeArgument 4 (length xs) w)
                       (encodeItems H opts (Suc depth) (insert a anc) xs))
           | Some (NObject p kvs symbols) \<Rightarrow>
               (if \<not> isPlainObject p then Inl UnsupportedType
                else if a \<in> anc then Inl Cycle
                else if symbols then Inl SymbolKey
                else if length (present kvs) > maxContainerLength opts
                then Inl (MapLimit (maxContainerLength opts))
                else bindE (writeArgument 5 (length (present kvs)) w)
                       (encodeEntries H opts (Suc depth) (insert a anc) (present kvs)))
           | None \<Rightarrow> Inl UnsupportedType)
      | _ \<Rightarrow> Inl UnsupportedType)"
| "encodeItems H opts depth anc [] w = Inr w"
| "encodeItems H opts depth anc (x # xs) w =
     (case x of
        None \<Rightarrow> Inl ArrayHole
      | Some v \<Rightarrow>
          if v = VUndefined then Inl ArrayHole
          else bindE (encodeValue H opts depth anc v w) (encodeItems H opts depth anc xs))"
| "encodeEntries H opts depth anc [] w = Inr w"
| "encodeEntries H opts depth anc ((k, v) # kvs) w =
     bindE (encodeText opts k w) (\<lambda>w.
     bindE (encodeValue H opts depth anc v w) (encodeEntries H opts depth anc kvs))"
  by pat_completeness auto
termination
  by (relation "measures
      [\<lambda>x. case x of Inl (H, opts, d, _) \<Rightarrow> Suc (maxDepth opts) - d
                   | Inr (Inl (H, opts, d, _)) \<Rightarrow> Suc (maxDepth opts) - d
                   | Inr (Inr (H, opts, d, _)) \<Rightarrow> Suc (maxDepth opts) - d,
       \<lambda>x. case x of Inl _ \<Rightarrow> 0
                   | Inr (Inl (_, _, _, _, xs, _)) \<Rightarrow> Suc (length xs)
                   | Inr (Inr (_, _, _, _, kvs, _)) \<Rightarrow> Suc (length kvs)]") auto

declare encodeValue.simps [simp del]

definition encodeCbor :: "heap \<Rightarrow> jsval \<Rightarrow> cbor_options option \<Rightarrow> cbor_error + byte list" where
  "encodeCbor H value options =
     bindE (resolveOptions options) (\<lambda>resolved.
     bindE (encodeValue H resolved 0 {} value (new_writer (maxByteLength resolved))) (\<lambda>w.
     Inr (finish w)))"

section \<open>Trees and their canonical bytes\<close>

datatype cbor =
    CNull
  | CBool bool
  | CNum jsnumber
  | CText jsstring
  | CBytes "byte list"
  | CArray "cbor list"
  | CMap "(jsstring \<times> cbor) list"

text \<open>
  The tree a value unfolds to, \<open>None\<close> where the value has no tree of the given height:
  holes, unsupported objects, cycles.
\<close>

fun tree_of :: "heap \<Rightarrow> nat \<Rightarrow> jsval \<Rightarrow> cbor option" where
  "tree_of H 0 v = None"
| "tree_of H (Suc fuel) v =
     (case v of
        VNull \<Rightarrow> Some CNull
      | VBool b \<Rightarrow> Some (CBool b)
      | VNum n \<Rightarrow> Some (CNum n)
      | VStr s \<Rightarrow> Some (CText s)
      | VRef a \<Rightarrow>
          (case deref H a of
             Some (NBytes bs) \<Rightarrow> Some (CBytes bs)
           | Some (NArray xs) \<Rightarrow>
               map_option CArray (those (map (\<lambda>x. case x of None \<Rightarrow> None | Some v \<Rightarrow> tree_of H fuel v) xs))
           | Some (NObject p kvs symbols) \<Rightarrow>
               (if isPlainObject p \<and> \<not> symbols
                then map_option CMap (those (map (\<lambda>(k, v). map_option (Pair k) (tree_of H fuel v)) (present kvs)))
                else None)
           | None \<Rightarrow> None)
      | _ \<Rightarrow> None)"

definition text_bytes :: "jsstring \<Rightarrow> byte list" where
  "text_bytes s = argument_bytes 3 (length (textEncode s)) @ textEncode s"

definition number_bytes :: "jsnumber \<Rightarrow> byte list" where
  "number_bytes n =
     (if is_integer n \<and> \<not> is_neg_zero n then
        (if int_of_num n \<ge> 0 then argument_bytes 0 (nat (int_of_num n))
         else argument_bytes 1 (nat (-1 - int_of_num n)))
      else 0xfb # float_bytes n)"

fun cbor_bytes :: "cbor \<Rightarrow> byte list" where
  "cbor_bytes CNull = [0xf6]"
| "cbor_bytes (CBool b) = [if b then 0xf5 else 0xf4]"
| "cbor_bytes (CNum n) = number_bytes n"
| "cbor_bytes (CText s) = text_bytes s"
| "cbor_bytes (CBytes bs) = argument_bytes 2 (length bs) @ bs"
| "cbor_bytes (CArray ts) = argument_bytes 4 (length ts) @ concat (map cbor_bytes ts)"
| "cbor_bytes (CMap kts) =
     argument_bytes 5 (length kts) @ concat (map (\<lambda>(k, t). text_bytes k @ cbor_bytes t) kts)"

text \<open>What the configured limits allow of a tree that sits at a nesting depth.\<close>

definition text_ok :: "resolved_options \<Rightarrow> jsstring \<Rightarrow> bool" where
  "text_ok opts s \<longleftrightarrow> well_formed s \<and> length (textEncode s) \<le> maxByteLength opts"

definition number_ok :: "jsnumber \<Rightarrow> bool" where
  "number_ok n \<longleftrightarrow> is_finite n \<and> (is_integer n \<longrightarrow> is_safe_integer n)"

fun tree_ok :: "resolved_options \<Rightarrow> nat \<Rightarrow> cbor \<Rightarrow> bool" where
  "tree_ok opts d (CNum n) = (d \<le> maxDepth opts \<and> number_ok n)"
| "tree_ok opts d (CText s) = (d \<le> maxDepth opts \<and> text_ok opts s)"
| "tree_ok opts d (CBytes bs) = (d \<le> maxDepth opts \<and> length bs \<le> maxByteLength opts)"
| "tree_ok opts d (CArray ts) =
     (d \<le> maxDepth opts \<and> length ts \<le> maxContainerLength opts \<and> (\<forall>t\<in>set ts. tree_ok opts (Suc d) t))"
| "tree_ok opts d (CMap kts) =
     (d \<le> maxDepth opts \<and> length kts \<le> maxContainerLength opts
      \<and> (\<forall>(k, t)\<in>set kts. text_ok opts k \<and> tree_ok opts (Suc d) t))"
| "tree_ok opts d _ = (d \<le> maxDepth opts)"

section \<open>The encoder produces canonical bytes\<close>

text \<open>A successful step of the writer appended the given bytes.\<close>

definition wrote :: "byte list \<Rightarrow> cbor_writer \<Rightarrow> cbor_writer \<Rightarrow> bool" where
  "wrote bs w w' \<longleftrightarrow> writer_ok w' \<and> w_max w' = w_max w
     \<and> offset w' = offset w + length bs \<and> offset w' \<le> w_max w \<and> finish w' = finish w @ bs"

lemma append_bytes_wrote: "append_bytes bs w r \<Longrightarrow> r = Inr w' \<Longrightarrow> wrote bs w w'"
  by (auto simp: append_bytes_def wrote_def split: if_splits)

lemma wrote_ok: "wrote bs w w' \<Longrightarrow> writer_ok w'"
  by (simp add: wrote_def)

lemma wrote_trans: "wrote bs w w' \<Longrightarrow> wrote cs w' w'' \<Longrightarrow> wrote (bs @ cs) w w''"
  by (simp add: wrote_def)

lemma wrote_refl: "writer_ok w \<Longrightarrow> wrote [] w w"
  by (auto simp: wrote_def writer_ok_def)

lemmas wrote_of_spec =
  append_bytes_wrote [OF writeByte_spec] append_bytes_wrote [OF writeBytes_spec]
  append_bytes_wrote [OF writeArgument_spec] append_bytes_wrote [OF writeFloat64_spec]

lemma encodeText_wrote:
  assumes "writer_ok w" "encodeText opts s w = Inr w'"
  shows "wrote (text_bytes s) w w' \<and> text_ok opts s"
proof -
  obtain w1 where w: "writeArgument 3 (length (textEncode s)) w = Inr w1"
      "writeBytes (textEncode s) w1 = Inr w'"
    and ok: "length (textEncode s) \<le> maxByteLength opts" "textDecode (textEncode s) = Some s"
    using assms(2) by (auto simp: encodeText_def Let_def split: if_splits)
  have "wrote (argument_bytes 3 (length (textEncode s))) w w1"
    using assms(1) w(1) by (rule wrote_of_spec)
  moreover have "wrote (textEncode s) w1 w'"
    using wrote_ok [OF calculation] w(2) by (rule wrote_of_spec)
  ultimately show ?thesis
    using ok by (auto simp: text_bytes_def text_ok_def textDecode_textEncode_iff intro: wrote_trans)
qed

lemma encodeNumber_wrote:
  assumes "writer_ok w" "encodeNumber n w = Inr w'"
  shows "wrote (number_bytes n) w w' \<and> number_ok n"
proof -
  have "is_neg_zero n \<Longrightarrow> magnitude n \<le> MAX_SAFE_INTEGER"
    by (simp add: is_neg_zero_def magnitude_def)
  then have "is_neg_zero n \<Longrightarrow> is_integer n \<Longrightarrow> is_safe_integer n"
    by (simp add: is_safe_integer_def)
  then have "number_ok n"
    using assms(2) unfolding encodeNumber_def number_ok_def by (metis sum.distinct(1))
  moreover have "wrote (number_bytes n) w w'"
    using assms(2) wrote_of_spec(3,4) [OF assms(1)]
    by (auto simp: encodeNumber_def number_bytes_def split: if_splits)
  ultimately show ?thesis by simp
qed

lemma those_Cons: "those (x # xs) = (case x of None \<Rightarrow> None | Some y \<Rightarrow> map_option (Cons y) (those xs))"
  by simp

lemma tree_of_fuel_Suc: "depth \<le> M \<Longrightarrow> Suc M - depth = Suc (M - depth)"
  by simp

lemma encode_wrote:
  "encodeValue H opts d anc v w = Inr w' \<Longrightarrow> writer_ok w \<Longrightarrow>
     \<exists>t. tree_of H (Suc (maxDepth opts) - d) v = Some t \<and> tree_ok opts d t \<and> wrote (cbor_bytes t) w w'"
  "encodeItems H opts d anc xs w = Inr w' \<Longrightarrow> writer_ok w \<Longrightarrow>
     \<exists>ts. those (map (\<lambda>x. case x of None \<Rightarrow> None | Some v \<Rightarrow> tree_of H (Suc (maxDepth opts) - d) v) xs) = Some ts
       \<and> length ts = length xs \<and> (\<forall>t\<in>set ts. tree_ok opts d t) \<and> wrote (concat (map cbor_bytes ts)) w w'"
  "encodeEntries H opts d anc kvs w = Inr w' \<Longrightarrow> writer_ok w \<Longrightarrow>
     \<exists>kts. those (map (\<lambda>(k, v). map_option (Pair k) (tree_of H (Suc (maxDepth opts) - d) v)) kvs) = Some kts
       \<and> map fst kts = map fst kvs \<and> (\<forall>(k, t)\<in>set kts. text_ok opts k \<and> tree_ok opts d t)
       \<and> wrote (concat (map (\<lambda>(k, t). text_bytes k @ cbor_bytes t) kts)) w w'"
proof (induction H opts d anc v w and H opts d anc xs w and H opts d anc kvs w
    arbitrary: w' and w' and w' rule: encodeValue_encodeItems_encodeEntries.induct)
  case (1 H opts depth anc v w)
  have dep: "depth \<le> maxDepth opts"
    using "1.prems"(1) by (auto simp: encodeValue.simps split: if_splits)
  note run = "1.prems"(1) [unfolded encodeValue.simps [of H opts depth anc v w]]
  note fuel = tree_of_fuel_Suc [OF dep]
  show ?case
  proof (cases v)
    case (VRef a)
    show ?thesis
    proof (cases "deref H a")
      case None
      then show ?thesis using run dep VRef by simp
    next
      case (Some n)
      show ?thesis
      proof (cases n)
        case (NBytes bs)
        then obtain w1 where "writeArgument 2 (length bs) w = Inr w1" "writeBytes bs w1 = Inr w'"
          "length bs \<le> maxByteLength opts"
          using run dep VRef Some by (auto split: if_splits)
        then have "wrote (argument_bytes 2 (length bs) @ bs) w w'"
          using "1.prems"(2) by (blast intro: wrote_trans wrote_of_spec wrote_ok)
        then show ?thesis
          using VRef Some NBytes dep fuel \<open>length bs \<le> maxByteLength opts\<close> by simp
      next
        case (NArray xs)
        then obtain w1 where w1: "writeArgument 4 (length xs) w = Inr w1"
          and it: "encodeItems H opts (Suc depth) (insert a anc) xs w1 = Inr w'"
          and len: "\<not> length xs > maxContainerLength opts" and anc: "a \<notin> anc"
          using run dep VRef Some by (auto split: if_splits)
        have wr: "wrote (argument_bytes 4 (length xs)) w w1"
          using "1.prems"(2) w1 by (rule wrote_of_spec)
        obtain ts where "those (map (\<lambda>x. case x of None \<Rightarrow> None | Some v \<Rightarrow> tree_of H (maxDepth opts - depth) v) xs) = Some ts"
          "length ts = length xs" "\<forall>t\<in>set ts. tree_ok opts (Suc depth) t" "wrote (concat (map cbor_bytes ts)) w1 w'"
          using "1.IH"(1) [OF _ VRef Some NArray anc len w1 it wrote_ok [OF wr]] dep by auto
        then show ?thesis
          using VRef Some NArray dep fuel len wr
          by (intro exI [of _ "CArray ts"]) (auto intro: wrote_trans)
      next
        case (NObject p kvs symbols)
        then obtain w1 where w1: "writeArgument 5 (length (present kvs)) w = Inr w1"
          and it: "encodeEntries H opts (Suc depth) (insert a anc) (present kvs) w1 = Inr w'"
          and len: "\<not> length (present kvs) > maxContainerLength opts" and anc: "a \<notin> anc"
          and p: "isPlainObject p" and s: "\<not> symbols"
          using run dep VRef Some by (auto split: if_splits)
        have wr: "wrote (argument_bytes 5 (length (present kvs))) w w1"
          using "1.prems"(2) w1 by (rule wrote_of_spec)
        obtain kts where kts: "those (map (\<lambda>(k, v). map_option (Pair k) (tree_of H (maxDepth opts - depth) v)) (present kvs)) = Some kts"
          "map fst kts = map fst (present kvs)" "\<forall>(k, t)\<in>set kts. text_ok opts k \<and> tree_ok opts (Suc depth) t"
          "wrote (concat (map (\<lambda>(k, t). text_bytes k @ cbor_bytes t) kts)) w1 w'"
          using "1.IH"(2) [OF _ VRef Some NObject _ anc s len w1 it wrote_ok [OF wr]] dep p by auto
        have "length kts = length (present kvs)"
          using kts(2) by (metis length_map)
        then show ?thesis
          using VRef Some NObject dep fuel len wr kts p s
          by (intro exI [of _ "CMap kts"]) (auto intro: wrote_trans)
      qed
    qed
  next
    case (VNum n)
    then show ?thesis
      using run dep fuel encodeNumber_wrote [OF "1.prems"(2)] by auto
  next
    case (VStr s)
    then show ?thesis
      using run dep fuel encodeText_wrote [OF "1.prems"(2)] by auto
  next
    case VNull
    then show ?thesis
      using run dep fuel wrote_of_spec(1) [OF "1.prems"(2), of "0xf6"] by auto
  next
    case (VBool b)
    then show ?thesis
      using run dep fuel wrote_of_spec(1) [OF "1.prems"(2), of "if b then 0xf5 else 0xf4"]
      by (cases b) auto
  qed (use run dep in auto)
next
  case (2 H opts depth anc w)
  then show ?case by (auto intro: wrote_refl)
next
  case (3 H opts depth anc x xs w)
  obtain v w1 where x: "x = Some v" "v \<noteq> VUndefined"
    and v: "encodeValue H opts depth anc v w = Inr w1" and xs: "encodeItems H opts depth anc xs w1 = Inr w'"
    using "3.prems"(1) by (auto split: option.splits if_splits)
  obtain t where t: "tree_of H (Suc (maxDepth opts) - depth) v = Some t" "tree_ok opts depth t" "wrote (cbor_bytes t) w w1"
    using "3.IH"(1) [OF x v "3.prems"(2)] by auto
  obtain ts where ts: "those (map (\<lambda>x. case x of None \<Rightarrow> None | Some v \<Rightarrow> tree_of H (Suc (maxDepth opts) - depth) v) xs) = Some ts"
    "length ts = length xs" "\<forall>t\<in>set ts. tree_ok opts depth t" "wrote (concat (map cbor_bytes ts)) w1 w'"
    using "3.IH"(2) [OF x v xs wrote_ok [OF t(3)]] by blast
  show ?case
    using x t ts by (intro exI [of _ "t # ts"]) (auto intro: wrote_trans)
next
  case (4 H opts depth anc w)
  then show ?case by (auto intro: wrote_refl)
next
  case (5 H opts depth anc k v kvs w)
  obtain w0 w1 where k: "encodeText opts k w = Inr w0"
    and v: "encodeValue H opts depth anc v w0 = Inr w1" and kvs: "encodeEntries H opts depth anc kvs w1 = Inr w'"
    using "5.prems"(1) by auto
  have wk: "wrote (text_bytes k) w w0" "text_ok opts k"
    using encodeText_wrote [OF "5.prems"(2) k] by auto
  obtain t where t: "tree_of H (Suc (maxDepth opts) - depth) v = Some t" "tree_ok opts depth t" "wrote (cbor_bytes t) w0 w1"
    using "5.IH"(1) [OF k v wrote_ok [OF wk(1)]] by auto
  obtain kts where kts: "those (map (\<lambda>(k, v). map_option (Pair k) (tree_of H (Suc (maxDepth opts) - depth) v)) kvs) = Some kts"
    "map fst kts = map fst kvs" "\<forall>(k, t)\<in>set kts. text_ok opts k \<and> tree_ok opts depth t"
    "wrote (concat (map (\<lambda>(k, t). text_bytes k @ cbor_bytes t) kts)) w1 w'"
    using "5.IH"(2) [OF k v kvs wrote_ok [OF t(3)]] by auto
  show ?case
    using t kts wk
    by (intro exI [of _ "(k, t) # kts"]) (auto intro: wrote_trans)
qed

lemma encodeCbor_bytes:
  assumes "encodeCbor H v options = Inr bs"
  obtains opts t where "resolveOptions options = Inr opts"
    and "tree_of H (Suc (maxDepth opts)) v = Some t" and "tree_ok opts 0 t"
    and "bs = cbor_bytes t" and "length bs \<le> maxByteLength opts"
proof -
  obtain opts w where o: "resolveOptions options = Inr opts"
    and w: "encodeValue H opts 0 {} v (new_writer (maxByteLength opts)) = Inr w" and bs: "bs = finish w"
    using assms by (auto simp: encodeCbor_def)
  obtain t where "tree_of H (Suc (maxDepth opts)) v = Some t" "tree_ok opts 0 t"
    and wr: "wrote (cbor_bytes t) (new_writer (maxByteLength opts)) w"
    using encode_wrote(1) [OF w] by auto
  moreover have "bs = cbor_bytes t" "length bs \<le> maxByteLength opts"
    using wr bs by (auto simp: wrote_def)
  ultimately show ?thesis
    using that o by blast
qed

end
