(* ===== verification/CborDecode.thy ===== *)
theory CborDecode
  imports CborEncode
begin

text \<open>
  The decoder of \<open>packages/protocol/src/cbor/decoder.ts\<close> (class \<open>CborReader\<close> and
  \<open>decodeCbor\<close>). Its result is a fresh value, so a tree; a decoded map lists its entries
  in the order they were defined. The lemmas show that it inverts the encoder and that
  whatever it accepts respects the configured limits.
\<close>

section \<open>The reader\<close>

record cbor_reader =
  r_bytes :: "byte list"
  r_offset :: nat
  r_options :: resolved_options

definition readByte :: "cbor_reader \<Rightarrow> cbor_error + (byte \<times> cbor_reader)" where
  "readByte r =
     (if r_offset r \<ge> length (r_bytes r) then Inl Truncated
      else Inr (r_bytes r ! r_offset r, r\<lparr>r_offset := r_offset r + 1\<rparr>))"

definition readBytes :: "nat \<Rightarrow> cbor_reader \<Rightarrow> cbor_error + (byte list \<times> cbor_reader)" where
  "readBytes len r =
     (if int len > int (length (r_bytes r)) - int (r_offset r) then Inl Truncated
      else Inr (slice (r_offset r) (r_offset r + len) (r_bytes r), r\<lparr>r_offset := r_offset r + len\<rparr>))"

definition readUint32Argument :: "cbor_reader \<Rightarrow> cbor_error + (nat \<times> cbor_reader)" where
  "readUint32Argument r =
     bindE (readBytes 4 r) (\<lambda>(bs, r). Inr (be32 (bs ! 0) (bs ! 1) (bs ! 2) (bs ! 3), r))"

definition readArgument :: "nat \<Rightarrow> cbor_reader \<Rightarrow> cbor_error + (nat \<times> cbor_reader)" where
  "readArgument info r =
     (if info < 24 then Inr (info, r)
      else if info = 24 then bindE (readByte r) (\<lambda>(b, r). Inr (unat b, r))
      else if info = 25 then
        bindE (readBytes 2 r) (\<lambda>(bs, r). Inr (unat (bs ! 0) * 0x100 + unat (bs ! 1), r))
      else if info = 26 then readUint32Argument r
      else if info = 27 then
        bindE (readUint32Argument r) (\<lambda>(high, r).
        bindE (readUint32Argument r) (\<lambda>(low, r).
        if high > 0x1fffff then Inl DecodedUnsafe else Inr (high * UINT32_BASE + low, r)))
      else if info = 31 then Inl (Indefinite ''item'')
      else Inl MalformedInfo)"

definition readLength :: "nat \<Rightarrow> string \<Rightarrow> nat \<Rightarrow> cbor_reader \<Rightarrow> cbor_error + (nat \<times> cbor_reader)" where
  "readLength info kind limit r =
     (if info = 31 then Inl (Indefinite kind)
      else bindE (readArgument info r) (\<lambda>(len, r).
        if len > limit then Inl (LengthLimit kind limit) else Inr (len, r)))"

definition readSimple :: "nat \<Rightarrow> cbor_reader \<Rightarrow> cbor_error + (cbor \<times> cbor_reader)" where
  "readSimple info r =
     (if info = 20 then Inr (CBool False, r)
      else if info = 21 then Inr (CBool True, r)
      else if info = 22 then Inr (CNull, r)
      else if info = 27 then
        bindE (readBytes 8 r) (\<lambda>(bs, r).
        let value = float_of_bytes bs in
        if \<not> is_finite value then Inl DecodedNotFinite
        else if is_integer value \<and> \<not> is_safe_integer value then Inl DecodedUnsafe
        else Inr (CNum value, r))
      else if info = 31 then Inl BreakMarker
      else Inl UnsupportedSimple)"

definition readNegative :: "nat \<Rightarrow> cbor_reader \<Rightarrow> cbor_error + (cbor \<times> cbor_reader)" where
  "readNegative info r =
     bindE (readArgument info r) (\<lambda>(n, r).
     let value = -1 - int n in
     if \<bar>value\<bar> > int MAX_SAFE_INTEGER then Inl DecodedUnsafe else Inr (CNum (num_of_int value), r))"

definition readText :: "nat \<Rightarrow> cbor_reader \<Rightarrow> cbor_error + (cbor \<times> cbor_reader)" where
  "readText info r =
     bindE (readLength info ''text string'' (maxByteLength (r_options r)) r) (\<lambda>(len, r).
     bindE (readBytes len r) (\<lambda>(bs, r).
     case textDecode bs of None \<Rightarrow> Inl InvalidUtf8 | Some s \<Rightarrow> Inr (CText s, r)))"

definition readByteString :: "nat \<Rightarrow> cbor_reader \<Rightarrow> cbor_error + (cbor \<times> cbor_reader)" where
  "readByteString info r =
     bindE (readLength info ''byte string'' (maxByteLength (r_options r)) r) (\<lambda>(len, r).
     bindE (readBytes len r) (\<lambda>(bs, r). Inr (CBytes bs, r)))"

text \<open>
  The recursion is bounded by the configured depth; the loops over elements and entries by
  the declared count. The depth limit is an argument, equal to the reader's option.
\<close>

function readItem :: "nat \<Rightarrow> nat \<Rightarrow> cbor_reader \<Rightarrow> cbor_error + (cbor \<times> cbor_reader)"
  and readItems :: "nat \<Rightarrow> nat \<Rightarrow> nat \<Rightarrow> cbor_reader \<Rightarrow> cbor_error + (cbor list \<times> cbor_reader)"
  and readEntries ::
    "nat \<Rightarrow> nat \<Rightarrow> nat \<Rightarrow> jsstring set \<Rightarrow> cbor_reader \<Rightarrow> cbor_error + ((jsstring \<times> cbor) list \<times> cbor_reader)"
where
  "readItem M depth r =
     (if depth > M then Inl (DepthLimit M)
      else bindE (readByte r) (\<lambda>(initial, r).
        let majorType = unat initial div 32; info = unat initial mod 32 in
        if majorType = 0 then bindE (readArgument info r) (\<lambda>(n, r). Inr (CNum (num_of_int (int n)), r))
        else if majorType = 1 then readNegative info r
        else if majorType = 2 then readByteString info r
        else if majorType = 3 then readText info r
        else if majorType = 4 then
          bindE (readLength info ''array'' (maxContainerLength (r_options r)) r) (\<lambda>(len, r).
          bindE (readItems M (Suc depth) len r) (\<lambda>(ts, r). Inr (CArray ts, r)))
        else if majorType = 5 then
          bindE (readLength info ''map'' (maxContainerLength (r_options r)) r) (\<lambda>(len, r).
          bindE (readEntries M (Suc depth) len {} r) (\<lambda>(kts, r). Inr (CMap kts, r)))
        else if majorType = 6 then Inl TagUnsupported
        else if majorType = 7 then readSimple info r
        else Inl MalformedMajor))"
| "readItems M depth 0 r = Inr ([], r)"
| "readItems M depth (Suc n) r =
     bindE (readItem M depth r) (\<lambda>(t, r).
     bindE (readItems M depth n r) (\<lambda>(ts, r). Inr (t # ts, r)))"
| "readEntries M depth 0 keys r = Inr ([], r)"
| "readEntries M depth (Suc n) keys r =
     bindE (readItem M depth r) (\<lambda>(key, r).
     case key of
       CText k \<Rightarrow>
         (if k \<in> keys then Inl DuplicateKey
          else bindE (readItem M depth r) (\<lambda>(t, r).
               bindE (readEntries M depth n (insert k keys) r) (\<lambda>(kts, r). Inr ((k, t) # kts, r))))
     | _ \<Rightarrow> Inl NonStringKey)"
  by pat_completeness auto
termination
  by (relation "measures
      [\<lambda>x. case x of Inl (M, d, _) \<Rightarrow> Suc M - d
                   | Inr (Inl (M, d, _)) \<Rightarrow> Suc M - d
                   | Inr (Inr (M, d, _)) \<Rightarrow> Suc M - d,
       \<lambda>x. case x of Inl _ \<Rightarrow> 0
                   | Inr (Inl (_, _, n, _)) \<Rightarrow> Suc n
                   | Inr (Inr (_, _, n, _, _)) \<Rightarrow> Suc n]") auto

declare readItem.simps [simp del]

definition decode :: "cbor_reader \<Rightarrow> cbor_error + cbor" where
  "decode r =
     bindE (readItem (maxDepth (r_options r)) 0 r) (\<lambda>(value, r).
     if r_offset r \<noteq> length (r_bytes r) then Inl TrailingData else Inr value)"

definition decodeCbor :: "byte list \<Rightarrow> cbor_options option \<Rightarrow> cbor_error + cbor" where
  "decodeCbor bytes options =
     bindE (resolveOptions options) (\<lambda>resolved.
     if length bytes > maxByteLength resolved then Inl (ByteLimit (maxByteLength resolved))
     else decode \<lparr>r_bytes = bytes, r_offset = 0, r_options = resolved\<rparr>)"

section \<open>Reading what was written\<close>

definition adv :: "nat \<Rightarrow> cbor_reader \<Rightarrow> cbor_reader" where
  "adv n r = r\<lparr>r_offset := r_offset r + n\<rparr>"

text \<open>The reader's cursor is inside its input and the given bytes are ahead.\<close>

definition ahead :: "cbor_reader \<Rightarrow> byte list \<Rightarrow> bool" where
  "ahead r xs \<longleftrightarrow> r_offset r \<le> length (r_bytes r) \<and> drop (r_offset r) (r_bytes r) = xs"

lemma adv_simps [simp]:
  "adv m (adv n r) = adv (n + m) r" "adv 0 r = r"
  "r_options (adv n r) = r_options r" "r_bytes (adv n r) = r_bytes r"
  "r_offset (adv n r) = r_offset r + n"
  by (simp_all add: adv_def add.assoc)

lemma ahead_length: "ahead r xs \<Longrightarrow> length (r_bytes r) = r_offset r + length xs"
  by (auto simp: ahead_def)

lemma ahead_adv: "ahead r (bs @ s) \<Longrightarrow> ahead (adv (length bs) r) s"
proof -
  assume a: "ahead r (bs @ s)"
  then have "r_offset r + length bs \<le> length (r_bytes r)"
    using ahead_length by fastforce
  moreover have "drop (length bs) (drop (r_offset r) (r_bytes r)) = s"
    using a by (simp add: ahead_def)
  ultimately show ?thesis
    by (simp add: ahead_def add.commute)
qed

lemma ahead_adv_Cons: "ahead r (b # s) \<Longrightarrow> ahead (adv 1 r) s"
  using ahead_adv [of r "[b]" s] by simp

lemma readByte_ahead: "ahead r (b # s) \<Longrightarrow> readByte r = Inr (b, adv 1 r)"
proof -
  assume a: "ahead r (b # s)"
  then have lt: "r_offset r < length (r_bytes r)"
    using ahead_length by fastforce
  moreover have "r_bytes r ! r_offset r = b"
    using a lt hd_drop_conv_nth [OF lt] by (simp add: ahead_def)
  ultimately show ?thesis
    by (simp add: readByte_def adv_def)
qed

lemma readBytes_ahead: "ahead r (bs @ s) \<Longrightarrow> readBytes (length bs) r = Inr (bs, adv (length bs) r)"
proof -
  assume a: "ahead r (bs @ s)"
  have "length (r_bytes r) = r_offset r + length bs + length s"
    using ahead_length [OF a] by simp
  moreover have "take (length bs) (drop (r_offset r) (r_bytes r)) = bs"
    using a by (simp add: ahead_def)
  ultimately show ?thesis
    by (simp add: readBytes_def adv_def slice_def)
qed

lemma length_be_bytes [simp]: "length (be16_bytes v) = 2" "length (be32_bytes v) = 4"
  by (simp_all add: be16_bytes_def be32_bytes_def)

lemma readUint32_ahead:
  assumes "ahead r (be32_bytes v @ s)" "v < 2 ^ 32"
  shows "readUint32Argument r = Inr (v, adv 4 r)"
proof -
  have "readBytes 4 r = Inr (be32_bytes v, adv 4 r)"
    using readBytes_ahead [OF assms(1)] by simp
  then show ?thesis
    using be32_split [OF assms(2)] by (simp add: readUint32Argument_def be32_bytes_def)
qed

lemma be16_value: "v \<le> 0xffff \<Longrightarrow> unat (be16_bytes v ! 0) * 256 + unat (be16_bytes v ! 1) = v"
proof -
  assume "v \<le> 0xffff"
  then have "v div 256 mod 256 = v div 256"
    by (intro mod_less less_mult_imp_div_less) simp
  with \<open>v \<le> 0xffff\<close> show ?thesis
    by (simp add: be16_bytes_def ushr_def)
qed

lemma head_byte: "major < 8 \<Longrightarrow> k < 32 \<Longrightarrow>
    unat (to_byte (major * 32 + k)) div 32 = major \<and> unat (to_byte (major * 32 + k)) mod 32 = k"
proof -
  assume a: "major < 8" "k < 32"
  then have "unat (to_byte (major * 32 + k)) = major * 32 + k"
    unfolding unat_to_byte by (intro mod_less) linarith
  then show ?thesis
    using a by simp
qed

text \<open>Reading an item head: the major type comes back and the argument is recovered.\<close>

lemma readArgument_ahead:
  assumes a: "ahead r (argument_bytes major v @ s)" and m: "major < 8" and v: "v \<le> MAX_SAFE_INTEGER"
  obtains b info where "readByte r = Inr (b, adv 1 r)" "unat b div 32 = major" "unat b mod 32 = info"
    "info \<noteq> 31" "readArgument info (adv 1 r) = Inr (v, adv (length (argument_bytes major v)) r)"
proof -
  obtain k tl where split: "argument_bytes major v = to_byte (major * 32 + k) # tl" and k: "k < 31"
    and tl: "\<And>r'. ahead r' (tl @ s) \<Longrightarrow> readArgument k r' = Inr (v, adv (length tl) r')"
  proof -
    consider (a) "v < 24" | (b) "24 \<le> v" "v \<le> 0xff" | (c) "0xff < v" "v \<le> 0xffff"
      | (d) "0xffff < v" "v \<le> MAX_UINT32" | (e) "MAX_UINT32 < v"
      by linarith
    then show ?thesis
    proof cases
      case a
      then show ?thesis
        by (intro that [of v "[]"]) (simp_all add: argument_bytes_def readArgument_def)
    next
      case b
      then show ?thesis
        by (intro that [of 24 "[to_byte v]"])
          (simp_all add: argument_bytes_def readArgument_def readByte_ahead)
    next
      case c
      have "readArgument 25 r' = Inr (v, adv 2 r')" if "ahead r' (be16_bytes v @ s)" for r'
        using readBytes_ahead [OF that] be16_value [OF c(2)] by (simp add: readArgument_def)
      with c show ?thesis
        by (intro that [of 25 "be16_bytes v"]) (simp_all add: argument_bytes_def)
    next
      case d
      have "readArgument 26 r' = Inr (v, adv 4 r')" if "ahead r' (be32_bytes v @ s)" for r'
        using readUint32_ahead [OF that] d by (simp add: readArgument_def MAX_UINT32_def)
      with d show ?thesis
        by (intro that [of 26 "be32_bytes v"]) (simp_all add: argument_bytes_def MAX_UINT32_def)
    next
      case e
      define hi lo where "hi = v div UINT32_BASE" and "lo = v mod UINT32_BASE"
      have hi: "hi \<le> 0x1fffff" "hi < 2 ^ 32"
      proof -
        have "hi < 0x200000"
          using v unfolding hi_def UINT32_BASE_def MAX_SAFE_INTEGER_def
          by (intro less_mult_imp_div_less) simp
        then show "hi \<le> 0x1fffff" "hi < 2 ^ 32" by simp_all
      qed
      have lo: "lo < 2 ^ 32"
        by (simp add: lo_def UINT32_BASE_def)
      have eq: "hi * UINT32_BASE + lo = v"
        by (simp add: hi_def lo_def)
      have "readArgument 27 r' = Inr (v, adv 8 r')" if "ahead r' (be32_bytes hi @ be32_bytes lo @ s)" for r'
        using readUint32_ahead [OF that hi(2)] readUint32_ahead [OF ahead_adv [OF that] lo] hi(1) eq
        by (simp add: readArgument_def)
      with e show ?thesis
        by (intro that [of 27 "be32_bytes hi @ be32_bytes lo"])
          (simp_all add: argument_bytes_def MAX_UINT32_def hi_def lo_def)
    qed
  qed
  have "ahead r (to_byte (major * 32 + k) # tl @ s)"
    using a split by simp
  from readByte_ahead [OF this] tl [OF ahead_adv_Cons [OF this]] show ?thesis
    using head_byte [OF m, of k] k split by (intro that [of "to_byte (major * 32 + k)" k]) simp_all
qed

lemma number_limits: "number_ok n \<Longrightarrow> is_integer n \<Longrightarrow> magnitude n \<le> MAX_SAFE_INTEGER"
  by (simp add: number_ok_def is_safe_integer_def)

text \<open>Scalars: numbers, texts and byte strings.\<close>

lemma readNumber_ahead:
  assumes a: "ahead r (number_bytes n @ s)" and n: "number_ok n" and d: "d \<le> M"
  shows "readItem M d r = Inr (CNum n, adv (length (number_bytes n)) r)"
proof (cases "is_integer n \<and> \<not> is_neg_zero n")
  case True
  then have safe: "is_safe_integer n" and mag: "magnitude n \<le> MAX_SAFE_INTEGER"
    using n number_limits by (auto simp: number_ok_def)
  have bck: "num_of_int (int_of_num n) = n"
    using num_of_int_of_num safe True by blast
  show ?thesis
  proof (cases "int_of_num n \<ge> 0")
    case True
    define v where "v = nat (int_of_num n)"
    have v: "v \<le> MAX_SAFE_INTEGER" "int v = int_of_num n"
      using mag True by (auto simp: v_def int_of_num_def)
    have nb: "number_bytes n = argument_bytes 0 v"
      using \<open>is_integer n \<and> \<not> is_neg_zero n\<close> True by (simp add: number_bytes_def v_def)
    obtain b info where "readByte r = Inr (b, adv 1 r)" "unat b div 32 = 0" "unat b mod 32 = info"
      "readArgument info (adv 1 r) = Inr (v, adv (length (argument_bytes 0 v)) r)"
      by (rule readArgument_ahead [OF a [unfolded nb] _ v(1)]) (simp, blast)
    then show ?thesis
      using d v bck by (simp add: readItem.simps nb Let_def)
  next
    case False
    define v where "v = nat (-1 - int_of_num n)"
    have v: "v \<le> MAX_SAFE_INTEGER" "-1 - int v = int_of_num n" "\<bar>int_of_num n\<bar> \<le> int MAX_SAFE_INTEGER"
      using mag False by (auto simp: v_def int_of_num_def)
    have nb: "number_bytes n = argument_bytes 1 v"
      using \<open>is_integer n \<and> \<not> is_neg_zero n\<close> False by (simp add: number_bytes_def v_def)
    obtain b info where "readByte r = Inr (b, adv 1 r)" "unat b div 32 = 1" "unat b mod 32 = info"
      "readArgument info (adv 1 r) = Inr (v, adv (length (argument_bytes 1 v)) r)"
      by (rule readArgument_ahead [OF a [unfolded nb] _ v(1)]) (simp, blast)
    then show ?thesis
      using d v bck by (simp add: readItem.simps nb Let_def readNegative_def)
  qed
next
  case False
  then have nb: "number_bytes n = 0xfb # float_bytes n"
    by (auto simp: number_bytes_def)
  have b: "readByte r = Inr (0xfb, adv 1 r)"
    using a nb readByte_ahead [of r "0xfb" "float_bytes n @ s"] by simp
  have "ahead (adv 1 r) (float_bytes n @ s)"
    using a nb ahead_adv_Cons [of r "0xfb" "float_bytes n @ s"] by simp
  from readBytes_ahead [OF this] show ?thesis
    using d b n nb by (simp add: readItem.simps readSimple_def number_ok_def Let_def)
qed

lemma readLength_of:
  "readArgument info r = Inr (v, r') \<Longrightarrow> info \<noteq> 31 \<Longrightarrow> v \<le> limit \<Longrightarrow>
     readLength info kind limit r = Inr (v, r')"
  by (simp add: readLength_def)

lemma limits_safe: "options_ok opts \<Longrightarrow>
    n \<le> maxByteLength opts \<or> n \<le> maxContainerLength opts \<Longrightarrow> n \<le> MAX_SAFE_INTEGER"
  by (auto simp: options_ok_def MAX_UINT32_def MAX_SAFE_INTEGER_def)

lemma readText_ahead:
  assumes a: "ahead r (text_bytes k @ s)" and k: "text_ok (r_options r) k" and o: "options_ok (r_options r)"
    and d: "d \<le> M"
  shows "readItem M d r = Inr (CText k, adv (length (text_bytes k)) r)"
proof -
  define n where "n = length (textEncode k)"
  have n: "n \<le> maxByteLength (r_options r)" "textDecode (textEncode k) = Some k"
    using k by (auto simp: text_ok_def n_def textDecode_textEncode_iff)
  have a': "ahead r (argument_bytes 3 n @ textEncode k @ s)"
    using a by (simp add: text_bytes_def n_def)
  obtain b info where rd: "readByte r = Inr (b, adv 1 r)" "unat b div 32 = 3" "unat b mod 32 = info" "info \<noteq> 31"
    "readArgument info (adv 1 r) = Inr (n, adv (length (argument_bytes 3 n)) r)"
    using readArgument_ahead [OF a'] limits_safe [OF o] n(1) by auto
  have "readBytes n (adv (length (argument_bytes 3 n)) r)
      = Inr (textEncode k, adv (length (text_bytes k)) r)"
    using readBytes_ahead [OF ahead_adv [OF a']] by (simp add: n_def text_bytes_def)
  with rd n d show ?thesis
    by (simp add: readItem.simps Let_def readText_def readLength_of)
qed

lemma readByteString_ahead:
  assumes a: "ahead r ((argument_bytes 2 (length bs) @ bs) @ s)" and n: "length bs \<le> maxByteLength (r_options r)"
    and o: "options_ok (r_options r)" and d: "d \<le> M"
  shows "readItem M d r = Inr (CBytes bs, adv (length (argument_bytes 2 (length bs)) + length bs) r)"
proof -
  have a': "ahead r (argument_bytes 2 (length bs) @ bs @ s)"
    using a by simp
  obtain b info where rd: "readByte r = Inr (b, adv 1 r)" "unat b div 32 = 2" "unat b mod 32 = info" "info \<noteq> 31"
    "readArgument info (adv 1 r) = Inr (length bs, adv (length (argument_bytes 2 (length bs))) r)"
    using readArgument_ahead [OF a'] limits_safe [OF o] n by auto
  have "readBytes (length bs) (adv (length (argument_bytes 2 (length bs))) r)
      = Inr (bs, adv (length (argument_bytes 2 (length bs)) + length bs) r)"
    using readBytes_ahead [OF ahead_adv [OF a']] by simp
  with rd n d show ?thesis
    by (simp add: readItem.simps Let_def readByteString_def readLength_of)
qed

text \<open>Maps of a decodable tree have distinct keys at every level.\<close>

fun keys_ok :: "cbor \<Rightarrow> bool" where
  "keys_ok (CArray ts) = (\<forall>t\<in>set ts. keys_ok t)"
| "keys_ok (CMap kts) = (distinct (map fst kts) \<and> (\<forall>(k, t)\<in>set kts. keys_ok t))"
| "keys_ok _ = True"

definition reads_tree :: "nat \<Rightarrow> cbor \<Rightarrow> bool" where
  "reads_tree d t \<longleftrightarrow> (\<forall>r s. ahead r (cbor_bytes t @ s) \<longrightarrow> options_ok (r_options r) \<longrightarrow>
     tree_ok (r_options r) d t \<longrightarrow> keys_ok t \<longrightarrow>
     readItem (maxDepth (r_options r)) d r = Inr (t, adv (length (cbor_bytes t)) r))"

lemma reads_treeD:
  assumes "reads_tree d t" "ahead r (cbor_bytes t @ s)" "options_ok (r_options r)"
    and "tree_ok (r_options r) d t" "keys_ok t" "M = maxDepth (r_options r)"
  shows "readItem M d r = Inr (t, adv (length (cbor_bytes t)) r)"
  using assms by (auto simp: reads_tree_def)

lemma readItems_ahead:
  assumes "\<And>t. t \<in> set ts \<Longrightarrow> reads_tree d t"
    and "ahead r (concat (map cbor_bytes ts) @ s)" "options_ok (r_options r)"
    and "\<forall>t\<in>set ts. tree_ok (r_options r) d t" "\<forall>t\<in>set ts. keys_ok t"
  shows "readItems (maxDepth (r_options r)) d (length ts) r
    = Inr (ts, adv (length (concat (map cbor_bytes ts))) r)"
  using assms
proof (induction ts arbitrary: r)
  case Nil
  then show ?case by simp
next
  case (Cons t ts)
  have a: "ahead r (cbor_bytes t @ concat (map cbor_bytes ts) @ s)"
    using Cons.prems(2) by simp
  have "readItem (maxDepth (r_options r)) d r = Inr (t, adv (length (cbor_bytes t)) r)"
    using Cons.prems by (intro reads_treeD [OF _ a]) auto
  moreover have "readItems (maxDepth (r_options r)) d (length ts) (adv (length (cbor_bytes t)) r)
      = Inr (ts, adv (length (concat (map cbor_bytes ts))) (adv (length (cbor_bytes t)) r))"
    using Cons.IH [OF _ ahead_adv [OF a]] Cons.prems by simp
  ultimately show ?case by simp
qed

lemma readEntries_ahead:
  assumes "\<And>k t. (k, t) \<in> set kts \<Longrightarrow> reads_tree d t"
    and "ahead r (concat (map (\<lambda>(k, t). text_bytes k @ cbor_bytes t) kts) @ s)" "options_ok (r_options r)"
    and "\<forall>(k, t)\<in>set kts. text_ok (r_options r) k \<and> tree_ok (r_options r) d t"
    and "\<forall>(k, t)\<in>set kts. keys_ok t" "distinct (map fst kts)" "set (map fst kts) \<inter> keys = {}"
    and "kts \<noteq> [] \<Longrightarrow> d \<le> maxDepth (r_options r)"
  shows "readEntries (maxDepth (r_options r)) d (length kts) keys r
    = Inr (kts, adv (length (concat (map (\<lambda>(k, t). text_bytes k @ cbor_bytes t) kts))) r)"
  using assms
proof (induction kts arbitrary: r keys)
  case Nil
  then show ?case by simp
next
  case (Cons kt kts)
  obtain k t where kt: "kt = (k, t)" by fastforce
  define tl where "tl = concat (map (\<lambda>(k, t). text_bytes k @ cbor_bytes t) kts)"
  have a: "ahead r (text_bytes k @ cbor_bytes t @ tl @ s)"
    using Cons.prems(2) by (simp add: kt tl_def)
  define r1 where "r1 = adv (length (text_bytes k)) r"
  have a1: "ahead r1 (cbor_bytes t @ tl @ s)"
    using ahead_adv [OF a] by (simp add: r1_def)
  define r2 where "r2 = adv (length (cbor_bytes t)) r1"
  have a2: "ahead r2 (tl @ s)"
    using ahead_adv [OF a1] by (simp add: r2_def)
  have os: "r_options r1 = r_options r" "r_options r2 = r_options r"
    by (simp_all add: r1_def r2_def)
  have "readItem (maxDepth (r_options r)) d r = Inr (CText k, r1)"
    unfolding r1_def using Cons.prems kt by (intro readText_ahead [OF a]) auto
  moreover have "readItem (maxDepth (r_options r)) d r1 = Inr (t, r2)"
    unfolding r2_def using Cons.prems(1,3,4,5) os kt
    by (intro reads_treeD [OF _ a1]) auto
  moreover have "readEntries (maxDepth (r_options r)) d (length kts) (insert k keys) r2
      = Inr (kts, adv (length tl) r2)"
    using Cons.IH [of r2 "insert k keys"] Cons.prems a2 os unfolding kt tl_def by fastforce
  moreover have "k \<notin> keys"
    using Cons.prems(7) kt by auto
  ultimately show ?case
    by (simp add: kt tl_def r1_def r2_def add.assoc)
qed

lemma reads_tree: "reads_tree d t"
proof (induction t arbitrary: d rule: cbor_bytes.induct)
  case 1
  then show ?case
    by (auto simp: reads_tree_def readItem.simps readByte_ahead readSimple_def Let_def)
next
  case (2 b)
  then show ?case
    by (cases b) (auto simp: reads_tree_def readItem.simps readByte_ahead readSimple_def Let_def)
next
  case (3 n)
  then show ?case by (auto simp: reads_tree_def readNumber_ahead)
next
  case (4 k)
  then show ?case by (auto simp: reads_tree_def readText_ahead)
next
  case (5 bs)
  show ?case
    unfolding reads_tree_def
    using readByteString_ahead [of _ bs _ d] by simp
next
  case (6 ts)
  show ?case
    unfolding reads_tree_def
  proof (intro allI impI)
    fix r s
    assume a: "ahead r (cbor_bytes (CArray ts) @ s)" and o: "options_ok (r_options r)"
      and t: "tree_ok (r_options r) d (CArray ts)" and k: "keys_ok (CArray ts)"
    define n where "n = length (argument_bytes 4 (length ts))"
    have a': "ahead r (argument_bytes 4 (length ts) @ concat (map cbor_bytes ts) @ s)"
      using a by simp
    obtain b info where rd: "readByte r = Inr (b, adv 1 r)" "unat b div 32 = 4" "unat b mod 32 = info" "info \<noteq> 31"
      "readArgument info (adv 1 r) = Inr (length ts, adv n r)"
      using readArgument_ahead [OF a'] limits_safe [OF o, of "length ts"] t by (auto simp: n_def)
    have "readItems (maxDepth (r_options r)) (Suc d) (length ts) (adv n r)
        = Inr (ts, adv (length (concat (map cbor_bytes ts))) (adv n r))"
      using readItems_ahead [of ts "Suc d" "adv n r" s] 6 ahead_adv [OF a'] o t k by (simp add: n_def)
    with rd t show "readItem (maxDepth (r_options r)) d r
        = Inr (CArray ts, adv (length (cbor_bytes (CArray ts))) r)"
      by (simp add: readItem.simps [of _ d] Let_def readLength_of n_def)
  qed
next
  case (7 kts)
  show ?case
    unfolding reads_tree_def
  proof (intro allI impI)
    fix r s
    assume a: "ahead r (cbor_bytes (CMap kts) @ s)" and o: "options_ok (r_options r)"
      and t: "tree_ok (r_options r) d (CMap kts)" and k: "keys_ok (CMap kts)"
    define body where "body = concat (map (\<lambda>(k, t). text_bytes k @ cbor_bytes t) kts)"
    define n where "n = length (argument_bytes 5 (length kts))"
    have a': "ahead r (argument_bytes 5 (length kts) @ body @ s)"
      using a by (simp add: body_def)
    obtain b info where rd: "readByte r = Inr (b, adv 1 r)" "unat b div 32 = 5" "unat b mod 32 = info" "info \<noteq> 31"
      "readArgument info (adv 1 r) = Inr (length kts, adv n r)"
      using readArgument_ahead [OF a'] limits_safe [OF o, of "length kts"] t by (auto simp: n_def)
    have deep: "kts \<noteq> [] \<Longrightarrow> Suc d \<le> maxDepth (r_options r)"
    proof -
      assume "kts \<noteq> []"
      then obtain k t' where "(k, t') \<in> set kts" by (cases kts) auto
      then have "tree_ok (r_options r) (Suc d) t'" using t by auto
      then show ?thesis by (cases t') auto
    qed
    have "readEntries (maxDepth (r_options r)) (Suc d) (length kts) {} (adv n r)
        = Inr (kts, adv (length body) (adv n r))"
      using readEntries_ahead [of kts "Suc d" "adv n r" s "{}"] 7 ahead_adv [OF a'] o t k deep
      by (auto simp: n_def body_def)
    with rd t show "readItem (maxDepth (r_options r)) d r
        = Inr (CMap kts, adv (length (cbor_bytes (CMap kts))) r)"
      by (simp add: readItem.simps [of _ d] Let_def readLength_of n_def body_def)
  qed
qed

lemma decodeCbor_cbor_bytes:
  assumes "resolveOptions options = Inr opts" "tree_ok opts 0 t" "keys_ok t"
    and "length (cbor_bytes t) \<le> maxByteLength opts"
  shows "decodeCbor (cbor_bytes t) options = Inr t"
proof -
  define r where "r = \<lparr>r_bytes = cbor_bytes t, r_offset = 0, r_options = opts\<rparr>"
  have a: "ahead r (cbor_bytes t @ [])"
    by (simp add: ahead_def r_def)
  then have "readItem (maxDepth opts) 0 r = Inr (t, adv (length (cbor_bytes t)) r)"
    using assms resolveOptions_ok [OF assms(1)]
    by (intro reads_treeD [OF reads_tree a]) (simp_all add: r_def)
  then show ?thesis
    using assms by (simp add: decodeCbor_def decode_def adv_def flip: r_def) (simp add: r_def)
qed

end
