(* ===== verification/CborProps.thy ===== *)
theory CborProps
  imports CborDecode
begin

text \<open>
  What the CBOR codec of \<open>packages/protocol/src/cbor\<close> promises: decoding inverts encoding,
  the decoder's results respect the configured limits and have a canonical form that is
  never longer than the input, the buffer of the encoder is a bounded byte sink.
\<close>

section \<open>What the decoder accepts\<close>

text \<open>A step of the reader moved the cursor forward by at least \<open>n\<close> bytes, inside the input.\<close>

definition consumed :: "nat \<Rightarrow> cbor_reader \<Rightarrow> cbor_reader \<Rightarrow> bool" where
  "consumed n r r' \<longleftrightarrow> r_offset r + n \<le> r_offset r' \<and> r_offset r' \<le> length (r_bytes r)
     \<and> r_bytes r' = r_bytes r \<and> r_options r' = r_options r"

lemma consumed_trans: "consumed m r r' \<Longrightarrow> consumed n r' r'' \<Longrightarrow> consumed (m + n) r r''"
  by (auto simp: consumed_def)

lemma consumed_mono: "consumed m r r' \<Longrightarrow> n \<le> m \<Longrightarrow> consumed n r r'"
  by (auto simp: consumed_def)

lemma consumed_refl: "r_offset r \<le> length (r_bytes r) \<Longrightarrow> consumed 0 r r"
  by (simp add: consumed_def)

lemma consumed_start: "consumed n r r' \<Longrightarrow> r_offset r' \<le> length (r_bytes r')"
  by (auto simp: consumed_def)

lemma readByte_consumed: "readByte r = Inr (b, r') \<Longrightarrow> consumed 1 r r'"
  by (auto simp: readByte_def consumed_def split: if_splits)

lemma readBytes_consumed:
  "readBytes n r = Inr (bs, r') \<Longrightarrow> consumed n r r' \<and> length bs = n"
  by (auto simp: readBytes_def consumed_def length_slice split: if_splits)

lemma length_argument_bytes:
  "length (argument_bytes major v) =
     (if v < 24 then 1 else if v \<le> 0xff then 2 else if v \<le> 0xffff then 3
      else if v \<le> MAX_UINT32 then 5 else 9)"
  by (simp add: argument_bytes_def)

lemma readUint32_consumed: "readUint32Argument r = Inr (v, r') \<Longrightarrow> consumed 4 r r' \<and> v < 2 ^ 32"
  by (auto simp: readUint32Argument_def be32_bound dest!: readBytes_consumed simp del: power_numeral)

text \<open>An argument takes at least the bytes of its shortest form after the head byte.\<close>

lemma readArgument_consumed:
  assumes "readArgument info r = Inr (v, r')" "r_offset r \<le> length (r_bytes r)"
  shows "consumed (length (argument_bytes major v) - 1) r r' \<and> v \<le> MAX_SAFE_INTEGER"
proof -
  consider (1) "info < 24" | (2) "info = 24" | (3) "info = 25" | (4) "info = 26" | (5) "info = 27"
    using assms(1) by (auto simp: readArgument_def split: if_splits)
  then show ?thesis
  proof cases
    case 1
    then show ?thesis
      using assms by (auto simp: readArgument_def length_argument_bytes consumed_refl MAX_SAFE_INTEGER_def)
  next
    case 2
    then obtain b where b: "readByte r = Inr (b, r')" "v = unat b"
      using assms(1) by (auto simp: readArgument_def)
    have "v \<le> 255" using b(2) byte_unat_bound [of b] by linarith
    then show ?thesis
      using readByte_consumed [OF b(1)]
      by (auto simp: length_argument_bytes MAX_SAFE_INTEGER_def elim: consumed_mono)
  next
    case 3
    then obtain bs where b: "readBytes 2 r = Inr (bs, r')" "v = unat (bs ! 0) * 256 + unat (bs ! 1)"
      using assms(1) by (auto simp: readArgument_def)
    then have "v \<le> 65535" using byte_unat_bound [of "bs ! 0"] byte_unat_bound [of "bs ! 1"] by linarith
    then show ?thesis
      using readBytes_consumed [OF b(1)]
      by (auto simp: length_argument_bytes MAX_SAFE_INTEGER_def elim: consumed_mono)
  next
    case 4
    then have "readUint32Argument r = Inr (v, r')"
      using assms(1) by (auto simp: readArgument_def)
    from readUint32_consumed [OF this] show ?thesis
      by (auto simp: length_argument_bytes MAX_SAFE_INTEGER_def MAX_UINT32_def elim: consumed_mono)
  next
    case 5
    then obtain hi lo r1 where rd: "readUint32Argument r = Inr (hi, r1)" "readUint32Argument r1 = Inr (lo, r')"
      and v: "hi \<le> 0x1fffff" "v = hi * UINT32_BASE + lo"
      using assms(1) by (auto simp: readArgument_def split: if_splits)
    have "consumed 8 r r'"
      using consumed_trans [of 4 r r1 4 r'] readUint32_consumed [OF rd(1)] readUint32_consumed [OF rd(2)] by simp
    moreover have "v \<le> MAX_SAFE_INTEGER"
      using v readUint32_consumed [OF rd(2)] by (simp add: UINT32_BASE_def MAX_SAFE_INTEGER_def)
    ultimately show ?thesis
      by (auto simp: length_argument_bytes elim: consumed_mono)
  qed
qed

lemma readLength_consumed:
  assumes "readLength info kind limit r = Inr (v, r')" "r_offset r \<le> length (r_bytes r)"
  shows "consumed (length (argument_bytes major v) - 1) r r' \<and> v \<le> limit"
  using assms readArgument_consumed [OF _ assms(2)]
  by (auto simp: readLength_def split: if_splits)

text \<open>
  The specification of one decoded item: a tree inside the limits with distinct keys, whose
  canonical form is no longer than what was consumed.
\<close>

definition item_ok :: "nat \<Rightarrow> cbor_reader \<Rightarrow> cbor \<Rightarrow> cbor_reader \<Rightarrow> bool" where
  "item_ok d r t r' \<longleftrightarrow> tree_ok (r_options r) d t \<and> keys_ok t \<and> consumed (length (cbor_bytes t)) r r'"

lemma argument_bytes_pos: "0 < length (argument_bytes major v)"
  by (simp add: length_argument_bytes)

lemma after_head:
  assumes "consumed 1 r r1" "consumed (length (argument_bytes major v) - 1) r1 r2"
  shows "consumed (length (argument_bytes major v)) r r2"
  using consumed_trans [OF assms] argument_bytes_pos [of major v] by simp

lemma number_ok_int: "\<bar>i\<bar> \<le> int MAX_SAFE_INTEGER \<Longrightarrow> number_ok (num_of_int i)"
  using num_of_int_props [of i] by (auto simp: number_ok_def is_safe_integer_def is_integer_def)

lemma number_bytes_int:
  assumes "\<bar>i\<bar> \<le> int MAX_SAFE_INTEGER"
  shows "number_bytes (num_of_int i) =
    (if 0 \<le> i then argument_bytes 0 (nat i) else argument_bytes 1 (nat (-1 - i)))"
  using num_of_int_props [OF assms] by (auto simp: number_bytes_def is_safe_integer_def)

lemma number_bytes_max: "length (number_bytes n) \<le> 9"
  by (simp add: number_bytes_def length_argument_bytes)

lemma readNumber_item:
  assumes "readArgument info r1 = Inr (n, r')" "consumed 1 r r1" "d \<le> maxDepth (r_options r)"
  shows "item_ok d r (CNum (num_of_int (int n))) r'"
  using readArgument_consumed [OF assms(1) consumed_start [OF assms(2)], of 0] assms
  by (auto simp: item_ok_def number_ok_int number_bytes_int intro: after_head)

lemma readNegative_item:
  assumes "readNegative info r1 = Inr (t, r')" "consumed 1 r r1" "d \<le> maxDepth (r_options r)"
  shows "item_ok d r t r'"
proof -
  obtain n where n: "readArgument info r1 = Inr (n, r')" "t = CNum (num_of_int (-1 - int n))"
    "\<bar>-1 - int n\<bar> \<le> int MAX_SAFE_INTEGER"
    using assms(1) by (auto simp: readNegative_def Let_def split: if_splits)
  have "consumed (length (argument_bytes 1 n)) r r'"
    using readArgument_consumed [OF n(1) consumed_start [OF assms(2)], of 1] assms(2) by (auto intro: after_head)
  moreover have "number_bytes (num_of_int (-1 - int n)) = argument_bytes 1 n"
    using number_bytes_int [OF n(3)] by simp
  ultimately show ?thesis
    using n assms(3) by (simp add: item_ok_def number_ok_int)
qed

lemma readText_item:
  assumes "readText info r1 = Inr (t, r')" "consumed 1 r r1" "d \<le> maxDepth (r_options r)"
  shows "item_ok d r t r'"
proof -
  obtain len r2 bs s where l: "readLength info ''text string'' (maxByteLength (r_options r1)) r1 = Inr (len, r2)"
    and b: "readBytes len r2 = Inr (bs, r')" and s: "textDecode bs = Some s" "t = CText s"
    using assms(1) by (auto simp: readText_def split: option.splits)
  have opts: "r_options r1 = r_options r"
    using assms(2) by (simp add: consumed_def)
  have e: "textEncode s = bs" "well_formed s"
    using textDecode_inv [OF s(1)] by auto
  have "consumed (length (argument_bytes 3 len)) r r2" "len \<le> maxByteLength (r_options r)"
    using readLength_consumed [OF l consumed_start [OF assms(2)], of 3] assms(2) opts
    by (auto intro: after_head)
  then show ?thesis
    using readBytes_consumed [OF b] e s assms(3) consumed_trans [of _ r r2 len r']
    by (simp add: item_ok_def text_ok_def text_bytes_def)
qed

lemma readByteString_item:
  assumes "readByteString info r1 = Inr (t, r')" "consumed 1 r r1" "d \<le> maxDepth (r_options r)"
  shows "item_ok d r t r'"
proof -
  obtain len r2 bs where l: "readLength info ''byte string'' (maxByteLength (r_options r1)) r1 = Inr (len, r2)"
    and b: "readBytes len r2 = Inr (bs, r')" and t: "t = CBytes bs"
    using assms(1) by (auto simp: readByteString_def)
  have opts: "r_options r1 = r_options r"
    using assms(2) by (simp add: consumed_def)
  have "consumed (length (argument_bytes 2 len)) r r2" "len \<le> maxByteLength (r_options r)"
    using readLength_consumed [OF l consumed_start [OF assms(2)], of 2] assms(2) opts
    by (auto intro: after_head)
  then show ?thesis
    using readBytes_consumed [OF b] t assms(3) consumed_trans [of _ r r2 len r']
    by (simp add: item_ok_def)
qed

lemma readSimple_item:
  assumes "readSimple info r1 = Inr (t, r')" "consumed 1 r r1" "d \<le> maxDepth (r_options r)"
  shows "item_ok d r t r'"
proof (cases "info = 27")
  case True
  then obtain bs where b: "readBytes 8 r1 = Inr (bs, r')" and t: "t = CNum (float_of_bytes bs)"
    and ok: "is_finite (float_of_bytes bs)" "is_integer (float_of_bytes bs) \<longrightarrow> is_safe_integer (float_of_bytes bs)"
    using assms(1) by (auto simp: readSimple_def Let_def split: if_splits)
  have "consumed 9 r r'"
    using consumed_trans [OF assms(2), of 8] readBytes_consumed [OF b] by simp
  then show ?thesis
    using t ok assms(3) number_bytes_max by (auto simp: item_ok_def number_ok_def elim: consumed_mono)
next
  case False
  then show ?thesis
    using assms by (auto simp: item_ok_def readSimple_def split: if_splits)
qed

lemma decode_items:
  "readItem M d r = Inr (t, r') \<Longrightarrow> M = maxDepth (r_options r) \<Longrightarrow> item_ok d r t r'"
  "readItems M d n r = Inr (ts, r') \<Longrightarrow> M = maxDepth (r_options r) \<Longrightarrow> r_offset r \<le> length (r_bytes r) \<Longrightarrow>
     length ts = n \<and> (\<forall>t\<in>set ts. tree_ok (r_options r) d t \<and> keys_ok t)
     \<and> consumed (length (concat (map cbor_bytes ts))) r r'"
  "readEntries M d n keys r = Inr (kts, r') \<Longrightarrow> M = maxDepth (r_options r) \<Longrightarrow> r_offset r \<le> length (r_bytes r) \<Longrightarrow>
     length kts = n \<and> distinct (map fst kts) \<and> set (map fst kts) \<inter> keys = {}
     \<and> (\<forall>(k, t)\<in>set kts. text_ok (r_options r) k \<and> tree_ok (r_options r) d t \<and> keys_ok t)
     \<and> consumed (length (concat (map (\<lambda>(k, t). text_bytes k @ cbor_bytes t) kts))) r r'"
proof (induction M d r and M d n r and M d n keys r arbitrary: t r' and ts r' and kts r'
    rule: readItem_readItems_readEntries.induct)
  case (1 M depth r)
  have dep: "\<not> depth > M" and M: "M = maxDepth (r_options r)"
    using "1.prems" by (auto simp: readItem.simps split: if_splits)
  then have dep': "depth \<le> maxDepth (r_options r)" by simp
  obtain b r1 where b: "readByte r = Inr (b, r1)"
    using "1.prems"(1) dep by (auto simp: readItem.simps)
  note c1 = readByte_consumed [OF b]
  have opts: "r_options r1 = r_options r"
    using c1 by (simp add: consumed_def)
  define major info where "major = unat b div 32" and "info = unat b mod 32"
  note run = "1.prems"(1) [unfolded readItem.simps [of M depth r], unfolded b, simplified Let_def bindE_simps prod.case,
      folded major_def info_def]
  consider "major = 0" | "major = 1" | "major = 2" | "major = 3" | (arr) "major = 4" | (mp) "major = 5" | "major = 7"
    using run dep by (auto split: if_splits)
  then show ?case
  proof cases
    case arr
    then obtain len r2 ts where l: "readLength info ''array'' (maxContainerLength (r_options r1)) r1 = Inr (len, r2)"
      and ts: "readItems M (Suc depth) len r2 = Inr (ts, r')" and t: "t = CArray ts"
      using run dep by auto
    have len: "consumed (length (argument_bytes 4 len)) r r2" "len \<le> maxContainerLength (r_options r)"
      using readLength_consumed [OF l consumed_start [OF c1], of 4] c1 opts by (auto intro: after_head)
    have "r_options r2 = r_options r"
      using len by (simp add: consumed_def)
    with "1.IH"(1) [OF dep b refl refl refl, folded major_def info_def, OF _ _ _ _ arr l refl ts]
    show ?thesis
      using arr len M t dep' consumed_start [OF len(1)] consumed_trans [OF len(1)]
      by (auto simp: item_ok_def)
  next
    case mp
    then obtain len r2 kts where l: "readLength info ''map'' (maxContainerLength (r_options r1)) r1 = Inr (len, r2)"
      and ts: "readEntries M (Suc depth) len {} r2 = Inr (kts, r')" and t: "t = CMap kts"
      using run dep by auto
    have len: "consumed (length (argument_bytes 5 len)) r r2" "len \<le> maxContainerLength (r_options r)"
      using readLength_consumed [OF l consumed_start [OF c1], of 5] c1 opts by (auto intro: after_head)
    have "r_options r2 = r_options r"
      using len by (simp add: consumed_def)
    with "1.IH"(2) [OF dep b refl refl refl, folded major_def info_def, OF _ _ _ _ _ mp l refl ts]
    show ?thesis
      using mp len M t dep' consumed_start [OF len(1)] consumed_trans [OF len(1)]
      by (fastforce simp: item_ok_def)
  next
    assume "major = 0"
    then obtain n where "readArgument info r1 = Inr (n, r')" "t = CNum (num_of_int (int n))"
      using run dep by auto
    then show ?thesis
      using readNumber_item c1 dep' by blast
  next
    assume "major = 1"
    then have "readNegative info r1 = Inr (t, r')" using run dep by simp
    then show ?thesis using c1 dep' by (rule readNegative_item)
  next
    assume "major = 2"
    then have "readByteString info r1 = Inr (t, r')" using run dep by simp
    then show ?thesis using c1 dep' by (rule readByteString_item)
  next
    assume "major = 3"
    then have "readText info r1 = Inr (t, r')" using run dep by simp
    then show ?thesis using c1 dep' by (rule readText_item)
  next
    assume "major = 7"
    then have "readSimple info r1 = Inr (t, r')" using run dep by simp
    then show ?thesis using c1 dep' by (rule readSimple_item)
  qed
next
  case (2 M depth r)
  then show ?case by (simp add: consumed_refl)
next
  case (3 M depth n r)
  obtain t r1 ts' where t: "readItem M depth r = Inr (t, r1)" and ts: "readItems M depth n r1 = Inr (ts', r')"
    and eq: "ts = t # ts'"
    using "3.prems"(1) by auto
  have i: "item_ok depth r t r1"
    using "3.IH"(1) [OF t "3.prems"(2)] .
  then have c: "consumed (length (cbor_bytes t)) r r1" and o: "r_options r1 = r_options r"
    by (auto simp: item_ok_def consumed_def)
  show ?case
    using "3.IH"(2) [OF t refl ts] "3.prems"(2) o i consumed_start [OF c] consumed_trans [OF c]
    by (auto simp: eq item_ok_def)
next
  case (4 M depth keys r)
  then show ?case by (simp add: consumed_refl)
next
  case (5 M depth n keys r)
  obtain k r1 where k: "readItem M depth r = Inr (CText k, r1)" and "k \<notin> keys"
    using "5.prems"(1) by (auto split: cbor.splits if_splits)
  then obtain t r2 kts' where t: "readItem M depth r1 = Inr (t, r2)"
    and kts': "readEntries M depth n (insert k keys) r2 = Inr (kts', r')" and eq: "kts = (k, t) # kts'"
    using "5.prems"(1) by auto
  have i: "item_ok depth r (CText k) r1"
    using "5.IH"(1) [OF k "5.prems"(2)] .
  then have c: "consumed (length (text_bytes k)) r r1" and o: "r_options r1 = r_options r"
    by (auto simp: item_ok_def consumed_def)
  have j: "item_ok depth r1 t r2"
    using "5.IH"(2) [OF k refl refl \<open>k \<notin> keys\<close> t] "5.prems"(2) o by simp
  then have c2: "consumed (length (text_bytes k) + length (cbor_bytes t)) r r2" and o2: "r_options r2 = r_options r"
    using consumed_trans [OF c] o by (auto simp: item_ok_def consumed_def)
  have M2: "M = maxDepth (r_options r2)"
    using "5.prems"(2) o o2 by simp
  have f: "length kts' = n \<and> distinct (map fst kts') \<and> set (map fst kts') \<inter> insert k keys = {}
     \<and> (\<forall>(k, t)\<in>set kts'. text_ok (r_options r2) k \<and> tree_ok (r_options r2) depth t \<and> keys_ok t)
     \<and> consumed (length (concat (map (\<lambda>(k, t). text_bytes k @ cbor_bytes t) kts'))) r2 r'"
    using "5.IH"(3) [OF k refl refl \<open>k \<notin> keys\<close> t refl kts' M2 consumed_start [OF c2]] .
  then have c3: "consumed (length (text_bytes k) + length (cbor_bytes t)
      + length (concat (map (\<lambda>(k, t). text_bytes k @ cbor_bytes t) kts'))) r r'"
    using consumed_trans [OF c2] by blast
  have "text_ok (r_options r) k \<and> tree_ok (r_options r) depth t \<and> keys_ok t"
    using i j o by (simp add: item_ok_def)
  then show ?case
    using f c3 o2 \<open>k \<notin> keys\<close> by (simp add: eq add.assoc disjoint_iff) blast
qed

section \<open>Properties of the codec\<close>

text \<open>The own keys of an object are distinct.\<close>

definition heap_ok :: "heap \<Rightarrow> bool" where
  "heap_ok H \<longleftrightarrow> (\<forall>n\<in>set H. case n of NObject p kvs s \<Rightarrow> distinct (map fst kvs) | _ \<Rightarrow> True)"

lemma those_Some: "those (map f xs) = Some ys \<longleftrightarrow> map f xs = map Some ys"
proof (induction xs arbitrary: ys)
  case Nil
  then show ?case by auto
next
  case (Cons x xs)
  then show ?case by (cases ys) (auto split: option.splits)
qed

lemma map_Some_D: "map f xs = map Some ys \<Longrightarrow> length ys = length xs \<and> (\<forall>y\<in>set ys. \<exists>x\<in>set xs. f x = Some y)"
proof (induction xs arbitrary: ys)
  case Nil
  then show ?case by simp
next
  case (Cons x xs)
  then show ?case by (cases ys) auto
qed

lemma map_pair_keys:
  "map (\<lambda>(k, v). map_option (Pair k) (f v)) kvs = map Some kts \<Longrightarrow> map fst kts = map fst kvs"
proof (induction kvs arbitrary: kts)
  case Nil
  then show ?case by simp
next
  case (Cons kv kvs)
  then show ?case by (cases kts; cases kv) auto
qed

lemma tree_of_keys_ok: "heap_ok H \<Longrightarrow> tree_of H n v = Some t \<Longrightarrow> keys_ok t"
proof (induction H n v arbitrary: t rule: tree_of.induct)
  case (1 H v)
  then show ?case by simp
next
  case (2 H fuel v)
  show ?case
  proof (cases v)
    case (VRef a)
    show ?thesis
    proof (cases "deref H a")
      case None
      then show ?thesis using "2.prems" VRef by simp
    next
      case (Some n)
      show ?thesis
      proof (cases n)
        case (NBytes bs)
        then show ?thesis using "2.prems" VRef Some by auto
      next
        case (NArray xs)
        then obtain ts where t: "t = CArray ts"
          and ts: "map (\<lambda>x. case x of None \<Rightarrow> None | Some v \<Rightarrow> tree_of H fuel v) xs = map Some ts"
          using "2.prems"(2) VRef Some by (auto simp: those_Some)
        have "keys_ok t'" if "t' \<in> set ts" for t'
          using map_Some_D [OF ts] that "2.IH"(1) [OF VRef Some NArray] "2.prems"(1)
          by (fastforce split: option.splits)
        then show ?thesis using t by simp
      next
        case (NObject p kvs symbols)
        then obtain kts where t: "t = CMap kts" and cond: "isPlainObject p \<and> \<not> symbols"
          and kts: "map (\<lambda>(k, v). map_option (Pair k) (tree_of H fuel v)) (present kvs) = map Some kts"
          using "2.prems"(2) VRef Some by (auto simp: those_Some split: if_splits)
        have "NObject p kvs symbols \<in> set H"
          using Some NObject by (auto simp: deref_def split: if_splits) (metis nth_mem)
        then have "distinct (map fst kvs)"
          using "2.prems"(1) by (auto simp: heap_ok_def)
        then have "distinct (map fst kts)"
          using map_pair_keys [OF kts] by (simp add: present_def distinct_map_filter)
        moreover have "keys_ok t'" if "(k, t') \<in> set kts" for k t'
          using map_Some_D [OF kts] that "2.IH"(2) [OF VRef Some NObject cond] "2.prems"(1)
          by (fastforce split: prod.splits)
        ultimately show ?thesis using t by auto
      qed
    qed
  qed (use "2.prems" in auto)
qed

lemma encode_decode:
  assumes "heap_ok H" and "encodeCbor H v options = Inr bs"
  shows "\<exists>opts t. resolveOptions options = Inr opts \<and> tree_of H (Suc (maxDepth opts)) v = Some t
    \<and> decodeCbor bs options = Inr t"
proof -
  obtain opts t where "resolveOptions options = Inr opts" "tree_of H (Suc (maxDepth opts)) v = Some t"
    "tree_ok opts 0 t" "bs = cbor_bytes t" "length bs \<le> maxByteLength opts"
    using encodeCbor_bytes [OF assms(2)] .
  then show ?thesis
    using tree_of_keys_ok [OF assms(1)] decodeCbor_cbor_bytes by blast
qed

text \<open>C1. Decoding inverts encoding: whatever \<open>encodeCbor\<close> accepts, \<open>decodeCbor\<close> under the same
  options reads back as the tree the value unfolds to, for every nesting, number (integers of
  either sign, fractions, negative zero), Unicode text and byte string.\<close>

theorem cbor_roundtrip:
  assumes "heap_ok H" and "encodeCbor H v options = Inr bs"
  shows "\<exists>opts t. resolveOptions options = Inr opts \<and> tree_of H (Suc (maxDepth opts)) v = Some t
    \<and> decodeCbor bs options = Inr t"
  using encode_decode [OF assms] .

text \<open>Evaluation of closed runs of the codec by the simplifier.\<close>

lemma readItems_numeral:
  "readItems M d (numeral n) r =
     bindE (readItem M d r) (\<lambda>(t, r).
     bindE (readItems M d (pred_numeral n) r) (\<lambda>(ts, r). Inr (t # ts, r)))"
  by (simp add: numeral_eq_Suc)

lemma readEntries_numeral:
  "readEntries M depth (numeral n) keys r =
     bindE (readItem M depth r) (\<lambda>(key, r).
     case key of
       CText k \<Rightarrow>
         (if k \<in> keys then Inl DuplicateKey
          else bindE (readItem M depth r) (\<lambda>(t, r).
               bindE (readEntries M depth (pred_numeral n) (insert k keys) r) (\<lambda>(kts, r). Inr ((k, t) # kts, r))))
     | _ \<Rightarrow> Inl NonStringKey)"
  unfolding numeral_eq_Suc by (simp only: readEntries.simps)

lemmas options_eval = resolveOptions_def resolveLimit_def limit_or_def MAX_UINT32_def MAX_CONFIGURED_DEPTH_def
lemmas writer_eval = new_writer_def writeByte_def writeBytes_def ensureCapacity_def blit_def
  writeArgument_def writeUint16_def writeUint32_def ushr_def finish_def slice_def Let_def list_eval
lemmas encode_eval = encodeCbor_def encodeValue.simps encodeText_def encodeNumber_def deref_def
  isPlainObject_def present_def
lemmas decode_eval = decodeCbor_def decode_def readItem.simps readByte_def readBytes_def readArgument_def
  readUint32Argument_def readLength_def readSimple_def readNegative_def readText_def readByteString_def
  be32_def float_of_bytes_def readItems_numeral readEntries_numeral

definition sample_heap :: heap where
  "sample_heap = [NArray [Some (VNum (num_of_int (-500))), Some (VRef 1), Some VNull],
     NObject ObjectPrototype [(js ''a'', VStr (js ''hi'')), (js ''b'', VUndefined), (js ''c'', VBool True)] False]"

definition sample_options :: cbor_options where
  "sample_options = \<lparr>o_maxByteLength = Some (num_of_int 16), o_maxContainerLength = Some (num_of_int 8),
     o_maxDepth = Some (num_of_int 4)\<rparr>"

definition sample_bytes :: "byte list" where
  "sample_bytes = [0x83, 0x39, 0x01, 0xF3, 0xA2, 0x61, 0x61, 0x62, 0x68, 0x69, 0x61, 0x63, 0xF5, 0xF6]"

lemma sample_options_resolve:
  "resolveOptions (Some sample_options) = Inr \<lparr>maxByteLength = 16, maxContainerLength = 8, maxDepth = 4\<rparr>"
  by (simp add: sample_options_def options_eval number_eval)

lemma sample_encodes: "encodeCbor sample_heap (VRef 0) (Some sample_options) = Inr sample_bytes"
  by (simp add: encode_eval text_eval number_eval writer_eval sample_heap_def sample_bytes_def
      sample_options_resolve)

lemma sample_heap_ok: "heap_ok sample_heap"
  by (simp add: heap_ok_def sample_heap_def cu_def)

theorem cbor_roundtrip_witness:
  "\<exists>opts t. resolveOptions (Some sample_options) = Inr opts
    \<and> tree_of sample_heap (Suc (maxDepth opts)) (VRef 0) = Some t
    \<and> decodeCbor sample_bytes (Some sample_options) = Inr t"
  by (rule cbor_roundtrip [OF sample_heap_ok sample_encodes])


definition sample_tree :: cbor where
  "sample_tree = CArray [CNum (num_of_int (-500)), CMap [(js ''a'', CText (js ''hi'')), (js ''c'', CBool True)], CNull]"

lemma sample_decodes: "decodeCbor sample_bytes (Some sample_options) = Inr sample_tree"
  by (simp add: decode_eval text_eval number_eval writer_eval sample_tree_def sample_bytes_def
      sample_options_resolve)


section \<open>Exactly what the encoder accepts\<close>

lemma append_bytes_fits:
  "append_bytes bs w r \<Longrightarrow> offset w + length bs \<le> w_max w \<Longrightarrow> \<exists>w'. r = Inr w' \<and> wrote bs w w'"
  by (auto simp: append_bytes_def wrote_def)

lemma encodeText_fits:
  assumes "writer_ok w" "text_ok opts s" "offset w + length (text_bytes s) \<le> w_max w"
  shows "\<exists>w'. encodeText opts s w = Inr w' \<and> wrote (text_bytes s) w w'"
proof -
  have "append_bytes (text_bytes s) w
      (bindE (writeArgument 3 (length (textEncode s)) w) (writeBytes (textEncode s)))"
    unfolding text_bytes_def
    by (rule append_bytes_seq [OF writeArgument_spec]) (auto intro: writeBytes_spec assms(1))
  from append_bytes_fits [OF this assms(3)] show ?thesis
    using assms(2) by (auto simp: encodeText_def text_ok_def Let_def textDecode_textEncode_iff)
qed

lemma encodeNumber_fits:
  assumes "writer_ok w" "number_ok n" "offset w + length (number_bytes n) \<le> w_max w"
  shows "\<exists>w'. encodeNumber n w = Inr w' \<and> wrote (number_bytes n) w w'"
proof -
  have "append_bytes (number_bytes n) w (encodeNumber n w)"
    using assms(2) writeArgument_spec [OF assms(1)] writeFloat64_spec [OF assms(1)]
    by (auto simp: number_bytes_def encodeNumber_def number_ok_def)
  from append_bytes_fits [OF this assms(3)] show ?thesis .
qed

lemma those_map_mono:
  assumes "those (map f xs) = Some ys" "\<And>x y. x \<in> set xs \<Longrightarrow> f x = Some y \<Longrightarrow> g x = Some y"
  shows "those (map g xs) = Some ys"
  using assms
proof (induction xs arbitrary: ys)
  case Nil
  then show ?case by simp
next
  case (Cons x xs)
  then show ?case by (auto split: option.splits)
qed

lemma tree_of_mono: "tree_of H n v = Some t \<Longrightarrow> n \<le> m \<Longrightarrow> tree_of H m v = Some t"
proof (induction n arbitrary: v t m)
  case 0
  then show ?case by simp
next
  case (Suc n)
  obtain k where m: "m = Suc k" "n \<le> k"
    using Suc.prems(2) by (cases m) auto
  show ?case
  proof (cases v)
    case (VRef a)
    show ?thesis
    proof (cases "deref H a")
      case (Some nd)
      show ?thesis
      proof (cases nd)
        case (NArray xs)
        then obtain ts where t: "t = CArray ts"
          and ts: "those (map (\<lambda>x. case x of None \<Rightarrow> None | Some v \<Rightarrow> tree_of H n v) xs) = Some ts"
          using Suc.prems(1) VRef Some by auto
        have "those (map (\<lambda>x. case x of None \<Rightarrow> None | Some v \<Rightarrow> tree_of H k v) xs) = Some ts"
          by (rule those_map_mono [OF ts]) (auto split: option.splits intro: Suc.IH m)
        then show ?thesis using VRef Some NArray t m by simp
      next
        case (NObject p kvs symbols)
        then obtain kts where t: "t = CMap kts" and c: "isPlainObject p" "\<not> symbols"
          and kts: "those (map (\<lambda>(k, v). map_option (Pair k) (tree_of H n v)) (present kvs)) = Some kts"
          using Suc.prems(1) VRef Some by (auto split: if_splits)
        have "those (map (\<lambda>(k', v). map_option (Pair k') (tree_of H k v)) (present kvs)) = Some kts"
          by (rule those_map_mono [OF kts]) (auto intro: Suc.IH m)
        then show ?thesis using VRef Some NObject t c m by simp
      qed (use Suc.prems VRef Some m in auto)
    qed (use Suc.prems VRef in auto)
  qed (use Suc.prems m in auto)
qed

lemma tree_of_unique: "tree_of H n v = Some t \<Longrightarrow> tree_of H m v = Some t' \<Longrightarrow> t = t'"
  using tree_of_mono [of H n v t "max n m"] tree_of_mono [of H m v t' "max n m"] by simp

text \<open>No ancestor of the value under encoding can be the value itself, or part of it.\<close>

definition above :: "heap \<Rightarrow> nat set \<Rightarrow> nat \<Rightarrow> bool" where
  "above H anc n \<longleftrightarrow> (\<forall>a\<in>anc. \<forall>k t. tree_of H k (VRef a) = Some t \<longrightarrow> n < size t)"

lemma above_insert:
  "above H anc n \<Longrightarrow> tree_of H k (VRef a) = Some t \<Longrightarrow> m < size t \<Longrightarrow> m \<le> n \<Longrightarrow> above H (insert a anc) m"
  unfolding above_def using tree_of_unique by (metis insertE le_less_trans)

lemma above_notin: "above H anc (size t) \<Longrightarrow> tree_of H k (VRef a) = Some t \<Longrightarrow> a \<notin> anc"
  by (auto simp: above_def)

lemma above_mono: "above H anc n \<Longrightarrow> m \<le> n \<Longrightarrow> above H anc m"
  unfolding above_def using le_less_trans by blast

lemma encode_complete:
  "tree_of H (Suc (maxDepth opts) - d) v = Some t \<Longrightarrow> tree_ok opts d t \<Longrightarrow> writer_ok w \<Longrightarrow>
     offset w + length (cbor_bytes t) \<le> w_max w \<Longrightarrow> above H anc (size t) \<Longrightarrow>
     \<exists>w'. encodeValue H opts d anc v w = Inr w'"
  "those (map (\<lambda>x. case x of None \<Rightarrow> None | Some v \<Rightarrow> tree_of H (Suc (maxDepth opts) - d) v) xs) = Some ts \<Longrightarrow>
     \<forall>t\<in>set ts. tree_ok opts d t \<Longrightarrow> writer_ok w \<Longrightarrow>
     offset w + length (concat (map cbor_bytes ts)) \<le> w_max w \<Longrightarrow> \<forall>t\<in>set ts. above H anc (size t) \<Longrightarrow>
     \<exists>w'. encodeItems H opts d anc xs w = Inr w'"
  "those (map (\<lambda>(k, v). map_option (Pair k) (tree_of H (Suc (maxDepth opts) - d) v)) kvs) = Some kts \<Longrightarrow>
     \<forall>(k, t)\<in>set kts. text_ok opts k \<and> tree_ok opts d t \<Longrightarrow> writer_ok w \<Longrightarrow>
     offset w + length (concat (map (\<lambda>(k, t). text_bytes k @ cbor_bytes t) kts)) \<le> w_max w \<Longrightarrow>
     \<forall>(k, t)\<in>set kts. above H anc (size t) \<Longrightarrow>
     \<exists>w'. encodeEntries H opts d anc kvs w = Inr w'"
proof (induction H opts d anc v w and H opts d anc xs w and H opts d anc kvs w
    arbitrary: t and ts and kts rule: encodeValue_encodeItems_encodeEntries.induct)
  case (1 H opts depth anc v w)
  have dep: "depth \<le> maxDepth opts"
    using "1.prems"(2) by (cases t) auto
  note fuel = tree_of_fuel_Suc [OF dep]
  note tr = "1.prems"(1) [unfolded fuel]
  note run = encodeValue.simps [of H opts depth anc _ w]
  note w = "1.prems"(3)
  show ?case
  proof (cases v)
    case (VRef a)
    then obtain nd where nd: "deref H a = Some nd"
      using tr by (cases "deref H a") auto
    have na: "a \<notin> anc"
      using above_notin "1.prems"(1,5) VRef by blast
    show ?thesis
    proof (cases nd)
      case (NBytes bs)
      then have t: "t = CBytes bs" using tr VRef nd by simp
      have "append_bytes (argument_bytes 2 (length bs) @ bs) w
          (bindE (writeArgument 2 (length bs) w) (writeBytes bs))"
        by (rule append_bytes_seq [OF writeArgument_spec]) (auto intro: writeBytes_spec w)
      from append_bytes_fits [OF this] show ?thesis
        using "1.prems"(2,4) t VRef nd NBytes dep by (auto simp: run)
    next
      case (NArray xs)
      then obtain ts where t: "t = CArray ts"
        and ts: "those (map (\<lambda>x. case x of None \<Rightarrow> None | Some v \<Rightarrow> tree_of H (maxDepth opts - depth) v) xs) = Some ts"
        using tr VRef nd by auto
      have len: "length ts = length xs"
        using ts map_Some_D by (fastforce simp: those_Some)
      obtain w1 where w1: "writeArgument 4 (length xs) w = Inr w1" and wr: "wrote (argument_bytes 4 (length xs)) w w1"
        using append_bytes_fits [OF writeArgument_spec [OF w, of 4 "length xs"]] "1.prems"(4) t len by auto
      have "above H (insert a anc) (size t')" if "t' \<in> set ts" for t'
      proof -
        have "size t' < size t"
          using that t size_list_estimation [of t' ts _ size] by (simp add: size_list_estimation' less_Suc_eq_le)
        then show ?thesis
          using above_insert [OF "1.prems"(5) "1.prems"(1) [unfolded VRef]] by simp
      qed
      then obtain w' where "encodeItems H opts (Suc depth) (insert a anc) xs w1 = Inr w'"
        using "1.IH"(1) [OF _ VRef nd NArray na _ w1, of ts] ts dep "1.prems"(2,4) t len wr
        by (auto simp: wrote_def)
      then show ?thesis
        using "1.prems"(2) VRef nd NArray na w1 t len dep by (simp add: run)
    next
      case (NObject p kvs symbols)
      then obtain kts where t: "t = CMap kts" and c: "isPlainObject p" "\<not> symbols"
        and kts: "those (map (\<lambda>(k, v). map_option (Pair k) (tree_of H (maxDepth opts - depth) v)) (present kvs)) = Some kts"
        using tr VRef nd by (auto split: if_splits)
      have len: "length kts = length (present kvs)"
        using kts map_Some_D by (fastforce simp: those_Some)
      obtain w1 where w1: "writeArgument 5 (length (present kvs)) w = Inr w1"
        and wr: "wrote (argument_bytes 5 (length (present kvs))) w w1"
        using append_bytes_fits [OF writeArgument_spec [OF w, of 5 "length (present kvs)"]] "1.prems"(4) t len by auto
      have "above H (insert a anc) (size t')" if "(k, t') \<in> set kts" for k t'
      proof -
        have "size t' < size t"
          using that t size_list_estimation' [of "(k, t')" kts "size t'" "size_prod (\<lambda>_. 0) size"] by simp
        then show ?thesis
          using above_insert [OF "1.prems"(5) "1.prems"(1) [unfolded VRef]] by simp
      qed
      then obtain w' where "encodeEntries H opts (Suc depth) (insert a anc) (present kvs) w1 = Inr w'"
        using "1.IH"(2) [OF _ VRef nd NObject _ na _ _ w1, of kts] kts c dep "1.prems"(2,4) t len wr
        by (auto simp: wrote_def)
      then show ?thesis
        using "1.prems"(2) VRef nd NObject na w1 t len dep c by (simp add: run)
    qed
  next
    case (VNum n)
    then show ?thesis
      using encodeNumber_fits [OF w, of n] tr "1.prems"(2,4) dep by (auto simp: run)
  next
    case (VStr s)
    then show ?thesis
      using encodeText_fits [OF w, of opts s] tr "1.prems"(2,4) dep by (auto simp: run)
  next
    case VNull
    then show ?thesis
      using append_bytes_fits [OF writeByte_spec [OF w, of "0xf6"]] tr "1.prems"(4) dep by (auto simp: run)
  next
    case (VBool b)
    then show ?thesis
      using append_bytes_fits [OF writeByte_spec [OF w, of "if b then 0xf5 else 0xf4"]] tr "1.prems"(4) dep
      by (auto simp: run)
  qed (use tr in auto)
next
  case (2 H opts depth anc w)
  then show ?case by simp
next
  case (3 H opts depth anc x xs w)
  obtain v t ts' where x: "x = Some v" and t: "tree_of H (Suc (maxDepth opts) - depth) v = Some t" and eq: "ts = t # ts'"
    and ts': "those (map (\<lambda>x. case x of None \<Rightarrow> None | Some v \<Rightarrow> tree_of H (Suc (maxDepth opts) - depth) v) xs) = Some ts'"
    using "3.prems"(1) by (auto split: option.splits)
  have v: "v \<noteq> VUndefined"
    using t by (cases "Suc (maxDepth opts) - depth") auto
  obtain w1 where w1: "encodeValue H opts depth anc v w = Inr w1"
    using "3.IH"(1) [OF x v t] "3.prems" eq by auto
  obtain t2 where "tree_of H (Suc (maxDepth opts) - depth) v = Some t2" "wrote (cbor_bytes t2) w w1"
    using encode_wrote(1) [OF w1 "3.prems"(3)] by auto
  then have wr: "wrote (cbor_bytes t) w w1" using t by simp
  obtain w' where "encodeItems H opts depth anc xs w1 = Inr w'"
    using "3.IH"(2) [OF x v w1 ts'] "3.prems" eq wr by (auto simp: wrote_def add.assoc)
  then show ?case using x v w1 by simp
next
  case (4 H opts depth anc w)
  then show ?case by simp
next
  case (5 H opts depth anc k v kvs w)
  obtain t kts' where t: "tree_of H (Suc (maxDepth opts) - depth) v = Some t" and eq: "kts = (k, t) # kts'"
    and kts': "those (map (\<lambda>(k, v). map_option (Pair k) (tree_of H (Suc (maxDepth opts) - depth) v)) kvs) = Some kts'"
    using "5.prems"(1) by (auto split: option.splits)
  obtain w0 where w0: "encodeText opts k w = Inr w0" "wrote (text_bytes k) w w0"
    using encodeText_fits [OF "5.prems"(3), of opts k] "5.prems"(2,4) eq by auto
  obtain w1 where w1: "encodeValue H opts depth anc v w0 = Inr w1"
    using "5.IH"(1) [OF w0(1) t] "5.prems" eq w0(2) by (auto simp: wrote_def)
  obtain t2 where "tree_of H (Suc (maxDepth opts) - depth) v = Some t2" "wrote (cbor_bytes t2) w0 w1"
    using encode_wrote(1) [OF w1 wrote_ok [OF w0(2)]] by auto
  then have wr: "wrote (cbor_bytes t) w0 w1" using t by simp
  obtain w' where "encodeEntries H opts depth anc kvs w1 = Inr w'"
    using "5.IH"(2) [OF w0(1) w1 kts'] "5.prems" eq wr w0(2) by (auto simp: wrote_def add.assoc)
  then show ?case using w0 w1 by simp
qed



text \<open>A byte string with a longer head than necessary: \<open>[500]\<close> with a four-byte argument.\<close>

lemma long_form_decodes:
  "decodeCbor [0x81, 0x1a, 0, 0, 0x01, 0xF4] (Some sample_options) = Inr (CArray [CNum (num_of_int 500)])"
  by (simp add: decode_eval text_eval number_eval writer_eval sample_options_resolve)


section \<open>Reachable writers\<close>

text \<open>The writers a sequence of successful operations can build, with the bytes written so far.\<close>

inductive reachable_writer :: "nat \<Rightarrow> cbor_writer \<Rightarrow> byte list \<Rightarrow> bool" for m where
  start: "reachable_writer m (new_writer m) []"
| byte: "reachable_writer m w bs \<Longrightarrow> writeByte v w = Inr w' \<Longrightarrow> reachable_writer m w' (bs @ [to_byte v])"
| bytes: "reachable_writer m w bs \<Longrightarrow> writeBytes cs w = Inr w' \<Longrightarrow> reachable_writer m w' (bs @ cs)"
| uint16: "reachable_writer m w bs \<Longrightarrow> writeUint16 v w = Inr w' \<Longrightarrow> reachable_writer m w' (bs @ be16_bytes v)"
| uint32: "reachable_writer m w bs \<Longrightarrow> writeUint32 v w = Inr w' \<Longrightarrow> reachable_writer m w' (bs @ be32_bytes v)"
| uint64: "reachable_writer m w bs \<Longrightarrow> writeUint64 v w = Inr w' \<Longrightarrow>
    reachable_writer m w' (bs @ be32_bytes (v div UINT32_BASE) @ be32_bytes (v mod UINT32_BASE))"
| float: "reachable_writer m w bs \<Longrightarrow> writeFloat64 x w = Inr w' \<Longrightarrow>
    reachable_writer m w' (bs @ 0xfb # float_bytes x)"

definition writes :: "nat \<Rightarrow> cbor_writer \<Rightarrow> byte list \<Rightarrow> bool" where
  "writes m w bs \<longleftrightarrow> writer_ok w \<and> w_max w = m \<and> offset w = length bs \<and> finish w = bs \<and> length bs \<le> m"

lemma writes_step:
  "writes m w bs \<Longrightarrow> (writer_ok w \<Longrightarrow> append_bytes cs w (op w)) \<Longrightarrow> op w = Inr w' \<Longrightarrow> writes m w' (bs @ cs)"
  by (auto simp: writes_def append_bytes_def split: if_splits)

lemma reachable_writer_inv: "reachable_writer m w bs \<Longrightarrow> writes m w bs"
proof (induction rule: reachable_writer.induct)
  case start
  then show ?case by (simp add: writes_def)
next
  case (byte w bs v w')
  then show ?case by (blast intro: writes_step writeByte_spec)
next
  case (bytes w bs cs w')
  then show ?case by (blast intro: writes_step writeBytes_spec)
next
  case (uint16 w bs v w')
  then show ?case by (blast intro: writes_step writeUint16_spec)
next
  case (uint32 w bs v w')
  then show ?case by (blast intro: writes_step writeUint32_spec)
next
  case (uint64 w bs v w')
  then show ?case by (blast intro: writes_step writeUint64_spec)
next
  case (float w bs x w')
  then show ?case by (blast intro: writes_step writeFloat64_spec)
qed

text \<open>C5. The growing buffer implements a byte sequence of bounded length: after any successful
  operations \<open>finish\<close> is what was written, the capacity stays within the limit, and a further
  write succeeds exactly when it fits (the capacity loop ends in every case).\<close>

theorem writer_refines_bounded_sequence:
  assumes "reachable_writer m w bs"
  shows "finish w = bs \<and> length (buffer w) \<le> m
    \<and> writeBytes cs w \<noteq> Inl Diverges
    \<and> (isInr (writeBytes cs w) \<longleftrightarrow> length bs + length cs \<le> m)"
  using reachable_writer_inv [OF assms] writeBytes_spec [of w cs]
  by (auto simp: writes_def append_bytes_def writer_ok_def split: if_splits)

theorem writer_refines_bounded_sequence_witness:
  "finish (new_writer 300) = [] \<and> length (buffer (new_writer 300)) \<le> 300
    \<and> writeBytes (replicate 299 7) (new_writer 300) \<noteq> Inl Diverges
    \<and> (isInr (writeBytes (replicate 299 7) (new_writer 300)) \<longleftrightarrow> length ([]::byte list) + length (replicate 299 (7::byte)) \<le> 300)"
  by (rule writer_refines_bounded_sequence [OF reachable_writer.start])

text \<open>A string is encoded exactly when it is well-formed UTF-16, its UTF-8 form is within the
  string limit, and the output still has room; the bytes are its head and its UTF-8 form.\<close>

theorem encodeText_accepts_iff:
  assumes "writer_ok w"
  shows "isInr (encodeText opts s w) \<longleftrightarrow>
    well_formed s \<and> length (textEncode s) \<le> maxByteLength opts
    \<and> offset w + length (text_bytes s) \<le> w_max w"
proof
  assume "isInr (encodeText opts s w)"
  then obtain w' where "encodeText opts s w = Inr w'"
    by (auto simp: isInr_iff)
  from encodeText_wrote [OF assms this] show "well_formed s \<and> length (textEncode s) \<le> maxByteLength opts
    \<and> offset w + length (text_bytes s) \<le> w_max w"
    by (simp add: wrote_def text_ok_def)
next
  assume "well_formed s \<and> length (textEncode s) \<le> maxByteLength opts
    \<and> offset w + length (text_bytes s) \<le> w_max w"
  then show "isInr (encodeText opts s w)"
    using encodeText_fits [OF assms, of opts s] by (auto simp: text_ok_def)
qed

theorem encodeText_accepts_iff_witness:
  "isInr (encodeText \<lparr>maxByteLength = 9, maxContainerLength = 1, maxDepth = 1\<rparr> [0xD83D] (new_writer 9)) \<longleftrightarrow>
    well_formed [0xD83D] \<and> length (textEncode [0xD83D]) \<le> maxByteLength \<lparr>maxByteLength = 9, maxContainerLength = 1, maxDepth = 1\<rparr>
    \<and> offset (new_writer 9) + length (text_bytes [0xD83D]) \<le> w_max (new_writer 9)"
  by (rule encodeText_accepts_iff [OF new_writer_ok(1)])

end
