(* ===== verification/Framing.thy ===== *)
theory Framing
  imports CborProps
begin

text \<open>
  Length-prefixed framing (\<open>packages/protocol/src/framing.ts\<close>): \<open>encodeFrame\<close>,
  \<open>assertCompleteFrame\<close> and the incremental class \<open>FrameDecoder\<close>. The decoder splits an
  arbitrary chunking of a byte stream; it is shown to compute a function of the stream alone.
\<close>

section \<open>Frames\<close>

definition FRAME_HEADER_LENGTH :: nat where "FRAME_HEADER_LENGTH = 4"
definition PAYLOAD_BLOCK_SIZE :: nat where "PAYLOAD_BLOCK_SIZE = 64 * 1024"
definition DEFAULT_MAX_FRAME_LENGTH :: nat where "DEFAULT_MAX_FRAME_LENGTH = 16 * 1024 * 1024"

datatype frame_error =
    MaxFrameRange
  | PayloadRange
  | IncompletePrefix
  | FrameTooLong nat nat
  | NotExactlyOne
  | DecoderEnded
  | DecoderFailed
  | TruncatedFrame

definition resolveMaxFrameLength :: "jsnumber option \<Rightarrow> frame_error + nat" where
  "resolveMaxFrameLength v =
     (let value = limit_or DEFAULT_MAX_FRAME_LENGTH v in
      if \<not> is_safe_integer value \<or> int_of_num value < 0 \<or> int_of_num value > int MAX_UINT32
      then Inl MaxFrameRange else Inr (nat (int_of_num value)))"

definition encodeFrame :: "byte list \<Rightarrow> frame_error + byte list" where
  "encodeFrame payload =
     (if length payload > MAX_UINT32 then Inl PayloadRange
      else
        let len = length payload;
            frame = replicate (FRAME_HEADER_LENGTH + len) 0;
            frame = frame[0 := to_byte (ushr len 24), 1 := to_byte (ushr len 16),
                          2 := to_byte (ushr len 8), 3 := to_byte len]
        in Inr (blit frame FRAME_HEADER_LENGTH payload))"

definition assertCompleteFrame :: "byte list \<Rightarrow> jsnumber option \<Rightarrow> frame_error + unit" where
  "assertCompleteFrame frame options =
     (if length frame < FRAME_HEADER_LENGTH then Inl IncompletePrefix
      else
        let len = be32 (frame ! 0) (frame ! 1) (frame ! 2) (frame ! 3) in
        bindE (resolveMaxFrameLength options) (\<lambda>maxFrameLength.
        if len > maxFrameLength then Inl (FrameTooLong len maxFrameLength)
        else if length frame \<noteq> FRAME_HEADER_LENGTH + len then Inl NotExactlyOne
        else Inr ()))"

lemma encodeFrame_bytes:
  "encodeFrame payload =
     (if length payload > MAX_UINT32 then Inl PayloadRange
      else Inr (be32_bytes (length payload) @ payload))"
proof (cases "length payload > MAX_UINT32")
  case False
  have "replicate (4 + length payload) (0::byte) = 0 # 0 # 0 # 0 # replicate (length payload) 0"
    by (simp add: numeral_eq_Suc)
  with False show ?thesis
    by (simp add: encodeFrame_def FRAME_HEADER_LENGTH_def Let_def be32_bytes_def blit_def list_eval)
qed (simp add: encodeFrame_def)

section \<open>The incremental decoder\<close>

datatype decoder_state = Open | Ended | Failed

text \<open>
  \<open>currentPayloadBlock\<close> is a reference to a block that is also in \<open>payloadBlocks\<close>: it is
  kept as the index of that block.
\<close>

record frame_decoder =
  header :: "byte list"
  headerLength :: nat
  maxFrameLength :: nat
  payloadBlocks :: "byte list list"
  currentPayloadBlock :: "nat option"
  currentPayloadBlockLength :: nat
  expectedPayloadLength :: "nat option"
  payloadLength :: nat
  dstate :: decoder_state

definition new_decoder :: "nat \<Rightarrow> frame_decoder" where
  "new_decoder m = \<lparr>header = replicate FRAME_HEADER_LENGTH 0, headerLength = 0, maxFrameLength = m,
     payloadBlocks = [], currentPayloadBlock = None, currentPayloadBlockLength = 0,
     expectedPayloadLength = None, payloadLength = 0, dstate = Open\<rparr>"

definition newFrameDecoder :: "jsnumber option \<Rightarrow> frame_error + frame_decoder" where
  "newFrameDecoder options = bindE (resolveMaxFrameLength options) (\<lambda>m. Inr (new_decoder m))"

text \<open>\<open>fail\<close> resets the decoder and throws.\<close>

definition fail_decoder :: "frame_error \<Rightarrow> frame_decoder \<Rightarrow> (frame_error + 'a) \<times> frame_decoder" where
  "fail_decoder e d = (Inl e, d\<lparr>dstate := Failed, headerLength := 0, payloadBlocks := [],
     currentPayloadBlock := None, currentPayloadBlockLength := 0,
     expectedPayloadLength := None, payloadLength := 0\<rparr>)"

text \<open>A block with room for more bytes: the current one, or a new one.\<close>

definition open_block :: "nat \<Rightarrow> frame_decoder \<Rightarrow> frame_decoder" where
  "open_block expected d =
     (case currentPayloadBlock d of
        Some i \<Rightarrow> if currentPayloadBlockLength d \<noteq> length (payloadBlocks d ! i) then d
          else d\<lparr>payloadBlocks := payloadBlocks d @ [replicate (min PAYLOAD_BLOCK_SIZE (expected - payloadLength d)) 0],
                 currentPayloadBlock := Some (length (payloadBlocks d)), currentPayloadBlockLength := 0\<rparr>
      | None \<Rightarrow> d\<lparr>payloadBlocks := payloadBlocks d @ [replicate (min PAYLOAD_BLOCK_SIZE (expected - payloadLength d)) 0],
                 currentPayloadBlock := Some (length (payloadBlocks d)), currentPayloadBlockLength := 0\<rparr>)"

text \<open>The inner loop of \<open>push\<close>; \<open>None\<close> would be an endless loop.\<close>

partial_function (option) fillPayload ::
    "byte list \<Rightarrow> nat \<Rightarrow> nat \<Rightarrow> frame_decoder \<Rightarrow> (nat \<times> frame_decoder) option" where
  "fillPayload chunk expected chunkOffset d =
     (if chunkOffset < length chunk \<and> payloadLength d < expected then
        (let d = open_block expected d;
             i = the (currentPayloadBlock d);
             block = payloadBlocks d ! i;
             payloadBytes = min (length block - currentPayloadBlockLength d) (length chunk - chunkOffset);
             d = d\<lparr>payloadBlocks := (payloadBlocks d)[i := blit block (currentPayloadBlockLength d)
                      (slice chunkOffset (chunkOffset + payloadBytes) chunk)],
                   currentPayloadBlockLength := currentPayloadBlockLength d + payloadBytes,
                   payloadLength := payloadLength d + payloadBytes\<rparr>
         in fillPayload chunk expected (chunkOffset + payloadBytes) d)
      else Some (chunkOffset, d))"

text \<open>The payload of a completed frame: the one block, or the blocks copied one after another.\<close>

definition assemble :: "nat \<Rightarrow> byte list list \<Rightarrow> byte list" where
  "assemble expected blocks =
     (if length blocks = 1 then blocks ! 0
      else fst (fold (\<lambda>b (payload, offset). (blit payload offset b, offset + length b))
                 blocks (replicate expected 0, 0)))"

definition readPayload ::
    "byte list \<Rightarrow> nat \<Rightarrow> byte list list \<Rightarrow> frame_decoder \<Rightarrow> (nat \<times> byte list list \<times> frame_decoder) option" where
  "readPayload chunk chunkOffset frames d =
     (case expectedPayloadLength d of
        None \<Rightarrow> Some (chunkOffset, frames, d)
      | Some expected \<Rightarrow>
          Option.bind (fillPayload chunk expected chunkOffset d) (\<lambda>(chunkOffset, d).
          if payloadLength d = expected
          then Some (chunkOffset, frames @ [assemble expected (payloadBlocks d)],
                 d\<lparr>payloadBlocks := [], currentPayloadBlock := None, currentPayloadBlockLength := 0,
                   expectedPayloadLength := None, payloadLength := 0\<rparr>)
          else Some (chunkOffset, frames, d)))"

definition startPayload :: "nat \<Rightarrow> frame_decoder \<Rightarrow> frame_decoder" where
  "startPayload frameLength d = d\<lparr>expectedPayloadLength := Some frameLength, payloadBlocks := [],
     currentPayloadBlock := None, currentPayloadBlockLength := 0, payloadLength := 0\<rparr>"

partial_function (option) pushLoop ::
    "byte list \<Rightarrow> nat \<Rightarrow> byte list list \<Rightarrow> frame_decoder \<Rightarrow>
      ((frame_error + byte list list) \<times> frame_decoder) option" where
  "pushLoop chunk chunkOffset frames d =
     (if chunkOffset < length chunk then
        (if expectedPayloadLength d = None then
           (let headerBytes = min (FRAME_HEADER_LENGTH - headerLength d) (length chunk - chunkOffset);
                d = d\<lparr>header := blit (header d) (headerLength d) (slice chunkOffset (chunkOffset + headerBytes) chunk),
                      headerLength := headerLength d + headerBytes\<rparr>;
                chunkOffset = chunkOffset + headerBytes
            in if headerLength d < FRAME_HEADER_LENGTH then pushLoop chunk chunkOffset frames d
               else
                 (let frameLength = be32 (header d ! 0) (header d ! 1) (header d ! 2) (header d ! 3);
                      d = d\<lparr>headerLength := 0\<rparr>
                  in if frameLength > maxFrameLength d
                     then Some (fail_decoder (FrameTooLong frameLength (maxFrameLength d)) d)
                     else if frameLength = 0 then pushLoop chunk chunkOffset (frames @ [[]]) d
                     else Option.bind (readPayload chunk chunkOffset frames (startPayload frameLength d))
                            (\<lambda>(chunkOffset, frames, d). pushLoop chunk chunkOffset frames d)))
         else Option.bind (readPayload chunk chunkOffset frames d)
                (\<lambda>(chunkOffset, frames, d). pushLoop chunk chunkOffset frames d))
      else Some (Inr frames, d))"

definition push :: "byte list \<Rightarrow> frame_decoder \<Rightarrow> ((frame_error + byte list list) \<times> frame_decoder) option" where
  "push chunk d =
     (if dstate d = Ended then Some (Inl DecoderEnded, d)
      else if dstate d = Failed then Some (Inl DecoderFailed, d)
      else pushLoop chunk 0 [] d)"

definition end_decoder :: "frame_decoder \<Rightarrow> (frame_error + unit) \<times> frame_decoder" where
  "end_decoder d =
     (if dstate d = Ended then (Inl DecoderEnded, d)
      else if dstate d = Failed then (Inl DecoderFailed, d)
      else if headerLength d \<noteq> 0 \<or> expectedPayloadLength d \<noteq> None then fail_decoder TruncatedFrame d
      else (Inr (), d\<lparr>dstate := Ended\<rparr>))"

section \<open>The stream a decoder stands for\<close>

text \<open>
  The specification: split a byte stream into frames. The result is the complete frames,
  the bytes after them, and the length of an oversized frame if one stopped the parse.
\<close>

definition be32_of :: "byte list \<Rightarrow> nat" where
  "be32_of bs = be32 (bs ! 0) (bs ! 1) (bs ! 2) (bs ! 3)"

function split_frames :: "nat \<Rightarrow> byte list \<Rightarrow> byte list list \<times> byte list \<times> nat option" where
  "split_frames m bs =
     (if length bs < 4 then ([], bs, None)
      else let n = be32_of bs in
        if n > m then ([], bs, Some n)
        else if length bs < 4 + n then ([], bs, None)
        else let (fs, r, e) = split_frames m (drop (4 + n) bs) in (take n (drop 4 bs) # fs, r, e))"
  by pat_completeness auto
termination
  by (relation "measure (\<lambda>(m, bs). length bs)") auto

declare split_frames.simps [simp del]

text \<open>The bytes received but not yet returned in a frame.\<close>

definition pending :: "frame_decoder \<Rightarrow> byte list" where
  "pending d =
     (case expectedPayloadLength d of
        None \<Rightarrow> take (headerLength d) (header d)
      | Some n \<Rightarrow> header d @ take (payloadLength d) (concat (payloadBlocks d)))"

text \<open>The blocks: all full but the last, which holds \<open>currentPayloadBlockLength\<close> bytes so far.\<close>

definition blocks_ok :: "nat \<Rightarrow> frame_decoder \<Rightarrow> bool" where
  "blocks_ok n d \<longleftrightarrow> length (concat (payloadBlocks d)) \<le> n \<and>
     (if payloadBlocks d = [] then currentPayloadBlock d = None \<and> payloadLength d = 0
      else currentPayloadBlock d = Some (length (payloadBlocks d) - 1)
        \<and> currentPayloadBlockLength d \<le> length (last (payloadBlocks d))
        \<and> payloadLength d = length (concat (butlast (payloadBlocks d))) + currentPayloadBlockLength d)"

definition decoder_ok :: "frame_decoder \<Rightarrow> bool" where
  "decoder_ok d \<longleftrightarrow> length (header d) = 4 \<and> dstate d = Open \<and>
     (case expectedPayloadLength d of
        None \<Rightarrow> headerLength d < 4
      | Some n \<Rightarrow> headerLength d = 0 \<and> 0 < n \<and> n \<le> maxFrameLength d \<and> be32_of (header d) = n
          \<and> payloadLength d < n \<and> blocks_ok n d)"

lemma new_decoder_ok [simp]: "decoder_ok (new_decoder m)" "pending (new_decoder m) = []"
  "maxFrameLength (new_decoder m) = m"
  by (simp_all add: decoder_ok_def new_decoder_def pending_def FRAME_HEADER_LENGTH_def)

definition content :: "frame_decoder \<Rightarrow> byte list" where
  "content d = take (payloadLength d) (concat (payloadBlocks d))"

text \<open>The fields that reading payload bytes leaves alone.\<close>

definition same_frame :: "frame_decoder \<Rightarrow> frame_decoder \<Rightarrow> bool" where
  "same_frame d d' \<longleftrightarrow> header d' = header d \<and> headerLength d' = headerLength d
     \<and> maxFrameLength d' = maxFrameLength d \<and> dstate d' = dstate d
     \<and> expectedPayloadLength d' = expectedPayloadLength d"

lemma open_block_spec:
  assumes "blocks_ok n d" "payloadLength d < n"
  shows "\<exists>bs b. payloadBlocks (open_block n d) = bs @ [b] \<and> blocks_ok n (open_block n d)
    \<and> currentPayloadBlockLength (open_block n d) < length b
    \<and> payloadLength (open_block n d) = payloadLength d
    \<and> content (open_block n d) = content d \<and> same_frame d (open_block n d)"
proof (cases "payloadBlocks d = []")
  case True
  then show ?thesis
    using assms by (auto simp: open_block_def blocks_ok_def content_def same_frame_def PAYLOAD_BLOCK_SIZE_def)
next
  case False
  then obtain bs b where b: "payloadBlocks d = bs @ [b]"
    by (metis append_butlast_last_id)
  show ?thesis
    using assms b
    by (auto simp: open_block_def blocks_ok_def content_def same_frame_def PAYLOAD_BLOCK_SIZE_def
        butlast_append)
qed

lemma length_content: "blocks_ok n d \<Longrightarrow> length (content d) = payloadLength d"
proof (cases "payloadBlocks d = []")
  case False
  assume "blocks_ok n d"
  moreover obtain bs b where "payloadBlocks d = bs @ [b]"
    using False by (metis append_butlast_last_id)
  ultimately show ?thesis
    by (auto simp: content_def blocks_ok_def)
qed (simp add: content_def blocks_ok_def)

lemma same_frame_trans: "same_frame d d' \<Longrightarrow> same_frame d' d'' \<Longrightarrow> same_frame d d''"
  by (simp add: same_frame_def)

text \<open>One round of the inner loop appends a non-empty piece of the chunk to the content.\<close>

lemma store_block_spec:
  assumes b: "payloadBlocks d = bs @ [b]" and ok: "blocks_ok n d" and room: "currentPayloadBlockLength d < length b"
    and xs: "length xs \<le> length b - currentPayloadBlockLength d"
    and d': "d' = d\<lparr>payloadBlocks := (payloadBlocks d)[the (currentPayloadBlock d) :=
        blit (payloadBlocks d ! the (currentPayloadBlock d)) (currentPayloadBlockLength d) xs],
      currentPayloadBlockLength := currentPayloadBlockLength d + length xs,
      payloadLength := payloadLength d + length xs\<rparr>"
  shows "blocks_ok n d' \<and> content d' = content d @ xs \<and> same_frame d d'
    \<and> payloadLength d' = payloadLength d + length xs"
proof -
  have i: "the (currentPayloadBlock d) = length bs"
    using ok b by (auto simp: blocks_ok_def)
  have bl: "payloadBlocks d' = bs @ [blit b (currentPayloadBlockLength d) xs]"
    using b i by (simp add: d')
  have pl: "payloadLength d = length (concat bs) + currentPayloadBlockLength d"
    using ok b by (auto simp: blocks_ok_def)
  have "content d' = concat bs @ take (currentPayloadBlockLength d + length xs) (blit b (currentPayloadBlockLength d) xs)"
    unfolding content_def bl using pl by (simp add: d')
  moreover have "content d = concat bs @ take (currentPayloadBlockLength d) b"
    unfolding content_def using pl b by simp
  moreover have "take (currentPayloadBlockLength d + length xs) (blit b (currentPayloadBlockLength d) xs)
      = take (currentPayloadBlockLength d) b @ xs"
    using room xs by (intro take_blit_prefix) simp
  moreover have "blocks_ok n d'"
    using ok b bl pl room xs i by (auto simp: blocks_ok_def d')
  ultimately show ?thesis
    by (simp add: d' same_frame_def)
qed

lemma fillPayload_spec:
  assumes "blocks_ok n d" "payloadLength d \<le> n" "off \<le> length chunk"
    and "k = min (n - payloadLength d) (length chunk - off)"
  shows "\<exists>d'. fillPayload chunk n off d = Some (off + k, d') \<and> blocks_ok n d'
    \<and> payloadLength d' = payloadLength d + k \<and> content d' = content d @ slice off (off + k) chunk
    \<and> same_frame d d'"
  using assms
proof (induction "length chunk - off" arbitrary: off d k rule: less_induct)
  case less
  show ?case
  proof (cases "off < length chunk \<and> payloadLength d < n")
    case False
    then have "k = 0"
      using less.prems by auto
    with False show ?thesis
      using less.prems by (auto simp: fillPayload.simps [of chunk n off d] same_frame_def)
  next
    case True
    define e where "e = open_block n d"
    obtain bs b where e: "payloadBlocks e = bs @ [b]" "blocks_ok n e" "currentPayloadBlockLength e < length b"
      "payloadLength e = payloadLength d" "content e = content d" "same_frame d e"
      using open_block_spec [OF less.prems(1)] True by (auto simp: e_def)
    have blk: "payloadBlocks e ! the (currentPayloadBlock e) = b"
      using e(1,2) by (auto simp: blocks_ok_def)
    define j where "j = min (length b - currentPayloadBlockLength e) (length chunk - off)"
    define xs where "xs = slice off (off + j) chunk"
    have j: "0 < j" "length xs = j" "j \<le> length chunk - off"
      using True e(3) by (auto simp: j_def xs_def length_slice)
    define f where "f = e\<lparr>payloadBlocks := (payloadBlocks e)[the (currentPayloadBlock e) :=
        blit (payloadBlocks e ! the (currentPayloadBlock e)) (currentPayloadBlockLength e) xs],
      currentPayloadBlockLength := currentPayloadBlockLength e + length xs,
      payloadLength := payloadLength e + length xs\<rparr>"
    have f: "blocks_ok n f" "content f = content e @ xs" "same_frame e f" "payloadLength f = payloadLength e + j"
      using store_block_spec [OF e(1-3) _ f_def] j by (simp_all add: j_def)
    have room: "length b + length (concat bs) \<le> n" "payloadLength e = length (concat bs) + currentPayloadBlockLength e"
      using e(1,2) by (auto simp: blocks_ok_def)
    then have jn: "payloadLength f \<le> n"
      using f(4) e(3) by (auto simp: j_def min_def)
    have rec: "fillPayload chunk n off d = fillPayload chunk n (off + j) f"
      using True blk j(2) by (subst fillPayload.simps) (simp add: Let_def f_def j_def xs_def flip: e_def)
    have "length chunk - (off + j) < length chunk - off"
      using j True by simp
    moreover have kj: "k - j = min (n - payloadLength f) (length chunk - (off + j))" "j \<le> k"
      using less.prems(4) f(4) e(4) j(3) jn by (auto simp: min_def)
    moreover have "off + j \<le> length chunk"
      using j(3) less.prems(3) by simp
    ultimately obtain d' where d': "fillPayload chunk n (off + j) f = Some (off + j + (k - j), d')"
      "blocks_ok n d'" "payloadLength d' = payloadLength f + (k - j)"
      "content d' = content f @ slice (off + j) (off + j + (k - j)) chunk" "same_frame f d'"
      using less.hyps [OF _ f(1) jn _ kj(1)] by blast
    have "slice off (off + j) chunk @ slice (off + j) (off + k) chunk = slice off (off + k) chunk"
      using kj(2) by (intro slice_append_slice) simp_all
    then have "content d' = content d @ slice off (off + k) chunk"
      using d'(4) f(2) e(5) kj(2) by (simp add: xs_def)
    moreover have "payloadLength d' = payloadLength d + k"
      using d'(3) f(4) e(4) kj(2) by simp
    ultimately show ?thesis
      using rec d' kj(2) same_frame_trans [OF same_frame_trans [OF e(6) f(3)] d'(5)] by auto
  qed
qed

lemma fold_blit:
  "pos + length (concat bs) \<le> length p \<Longrightarrow>
   fold (\<lambda>b (payload, pos). (blit payload pos b, pos + length b)) bs (p, pos)
     = (blit p pos (concat bs), pos + length (concat bs))"
proof (induction bs arbitrary: p pos)
  case Nil
  then show ?case by simp
next
  case (Cons b bs)
  have "blit (blit p pos b) (pos + length b) (concat bs) = blit p pos (b @ concat bs)"
    using Cons.prems by (simp add: blit_def ac_simps)
  then show ?case
    using Cons by (simp add: add.assoc)
qed

lemma assemble_content:
  assumes "blocks_ok n d" "payloadLength d = n" "0 < n"
  shows "assemble n (payloadBlocks d) = content d"
proof -
  obtain bs b where b: "payloadBlocks d = bs @ [b]"
    using assms by (metis append_butlast_last_id blocks_ok_def less_irrefl)
  have len: "length (concat (payloadBlocks d)) = n"
    using assms b by (auto simp: blocks_ok_def)
  then have c: "content d = concat (payloadBlocks d)"
    using assms(2) by (simp add: content_def)
  show ?thesis
  proof (cases "length (payloadBlocks d) = 1")
    case True
    then have "payloadBlocks d = [b]"
      using b by simp
    then show ?thesis
      unfolding c by (simp add: assemble_def)
  next
    case False
    then show ?thesis
      using len fold_blit [of 0 "payloadBlocks d" "replicate n 0"] unfolding c
      by (simp add: assemble_def blit_def)
  qed
qed

lemma be32_of_append: "length h = 4 \<Longrightarrow> be32_of (h @ xs) = be32_of h"
  by (simp add: be32_of_def nth_append)

lemma be32_of_bytes: "n < 2 ^ 32 \<Longrightarrow> be32_of (be32_bytes n) = n"
  using be32_split [of n] by (simp add: be32_of_def be32_bytes_def)

lemma split_frames_short: "length bs < 4 \<Longrightarrow> split_frames m bs = ([], bs, None)"
  by (simp add: split_frames.simps [of m bs])

lemma split_frames_long:
  "length h = 4 \<Longrightarrow> m < be32_of h \<Longrightarrow> split_frames m (h @ xs) = ([], h @ xs, Some (be32_of h))"
  by (simp add: split_frames.simps [of m "h @ xs"] be32_of_append)

lemma split_frames_partial:
  "length h = 4 \<Longrightarrow> be32_of h \<le> m \<Longrightarrow> length xs < be32_of h \<Longrightarrow> split_frames m (h @ xs) = ([], h @ xs, None)"
  by (simp add: split_frames.simps [of m "h @ xs"] be32_of_append)

lemma split_frames_frame:
  assumes "length h = 4" "be32_of h = length p" "length p \<le> m"
  shows "split_frames m (h @ p @ xs) = (case split_frames m xs of (fs, r, e) \<Rightarrow> (p # fs, r, e))"
  using assms by (simp add: split_frames.simps [of m "h @ p @ xs"] be32_of_append split: prod.splits)

text \<open>Reading payload bytes either completes the frame or uses the chunk up.\<close>

lemma readPayload_spec:
  assumes d: "decoder_ok d" "expectedPayloadLength d = Some n" and off: "off \<le> length chunk"
  shows "\<exists>d' off' frames'. readPayload chunk off frames d = Some (off', frames', d')
    \<and> decoder_ok d' \<and> maxFrameLength d' = maxFrameLength d \<and> off' \<le> length chunk
    \<and> (if n - payloadLength d \<le> length chunk - off
       then off' = off + (n - payloadLength d) \<and> frames' = frames @ [content d @ slice off off' chunk] \<and> pending d' = []
       else off' = length chunk \<and> frames' = frames \<and> pending d' = pending d @ drop off chunk)"
proof -
  define k where "k = min (n - payloadLength d) (length chunk - off)"
  have ok: "blocks_ok n d" "payloadLength d < n" "headerLength d = 0" "be32_of (header d) = n"
    "length (header d) = 4" "n \<le> maxFrameLength d" "dstate d = Open"
    using d by (auto simp: decoder_ok_def)
  obtain e where e: "fillPayload chunk n off d = Some (off + k, e)" "blocks_ok n e"
    "payloadLength e = payloadLength d + k" "content e = content d @ slice off (off + k) chunk" "same_frame d e"
    using fillPayload_spec [OF ok(1) less_imp_le [OF ok(2)] off k_def] by blast
  show ?thesis
  proof (cases "n - payloadLength d \<le> length chunk - off")
    case True
    then have "k = n - payloadLength d" "payloadLength e = n"
      using ok(2) e(3) by (simp_all add: k_def)
    then show ?thesis
      using True e assemble_content [OF e(2)] ok d off
      by (auto simp: readPayload_def same_frame_def decoder_ok_def pending_def)
  next
    case False
    then have "k = length chunk - off" "payloadLength e < n"
      using ok(2) e(3) by (simp_all add: k_def)
    then show ?thesis
      using False e ok d off
      by (auto simp: readPayload_def same_frame_def decoder_ok_def pending_def content_def slice_def)
  qed
qed

text \<open>What the loop of \<open>push\<close> returns, in terms of the stream.\<close>

definition push_result ::
    "nat \<Rightarrow> byte list \<Rightarrow> byte list list \<Rightarrow> frame_error + byte list list \<Rightarrow> frame_decoder \<Rightarrow> bool" where
  "push_result m bs frames r d =
     (case split_frames m bs of
        (fs, rest, None) \<Rightarrow> r = Inr (frames @ fs) \<and> decoder_ok d \<and> pending d = rest \<and> maxFrameLength d = m
      | (fs, rest, Some n) \<Rightarrow> r = Inl (FrameTooLong n m) \<and> dstate d = Failed)"

lemma push_result_frame:
  assumes "length h = 4" "be32_of h = length p" "length p \<le> m" "push_result m xs (frames @ [p]) r d"
  shows "push_result m (h @ p @ xs) frames r d"
  using assms(4) by (simp add: push_result_def split_frames_frame [OF assms(1-3)] split: prod.splits option.splits)

lemma pending_idle: "decoder_ok d \<Longrightarrow> length (pending d) < 4 \<or> split_frames (maxFrameLength d) (pending d) = ([], pending d, None)"
  by (cases "expectedPayloadLength d")
    (auto simp: decoder_ok_def pending_def intro!: split_frames_partial)

lemma split_frames_pending: "decoder_ok d \<Longrightarrow> split_frames (maxFrameLength d) (pending d) = ([], pending d, None)"
  using pending_idle split_frames_short by blast

lemma push_result_done:
  "decoder_ok d \<Longrightarrow> maxFrameLength d = m \<Longrightarrow> pending d = bs \<Longrightarrow> push_result m bs frames (Inr frames) d"
  using split_frames_pending [of d] by (simp add: push_result_def)

text \<open>One round of the loop once a payload is expected.\<close>

lemma readPayload_round:
  assumes d: "decoder_ok d" "expectedPayloadLength d = Some n" and off: "off \<le> length chunk"
    and step: "\<And>off' frames' d'. off \<le> off' \<Longrightarrow> (off < length chunk \<Longrightarrow> off < off') \<Longrightarrow>
      off' \<le> length chunk \<Longrightarrow> decoder_ok d' \<Longrightarrow> maxFrameLength d' = maxFrameLength d \<Longrightarrow>
      \<exists>r e. pushLoop chunk off' frames' d' = Some (r, e)
        \<and> push_result (maxFrameLength d) (pending d' @ drop off' chunk) frames' r e"
  shows "\<exists>r e. Option.bind (readPayload chunk off frames d)
        (\<lambda>(chunkOffset, frames, d). pushLoop chunk chunkOffset frames d) = Some (r, e)
      \<and> push_result (maxFrameLength d) (pending d @ drop off chunk) frames r e"
proof -
  have ok: "payloadLength d < n" "be32_of (header d) = n" "length (header d) = 4" "n \<le> maxFrameLength d"
    "length (content d) = payloadLength d"
    using d length_content [of n d] by (auto simp: decoder_ok_def)
  have pd: "pending d = header d @ content d"
    using d by (simp add: pending_def content_def)
  obtain d' off' frames' where r: "readPayload chunk off frames d = Some (off', frames', d')" "decoder_ok d'"
    "maxFrameLength d' = maxFrameLength d" "off' \<le> length chunk"
    "if n - payloadLength d \<le> length chunk - off
       then off' = off + (n - payloadLength d) \<and> frames' = frames @ [content d @ slice off off' chunk] \<and> pending d' = []
       else off' = length chunk \<and> frames' = frames \<and> pending d' = pending d @ drop off chunk"
    using readPayload_spec [OF d off] by blast
  have "off \<le> off'" "off < length chunk \<Longrightarrow> off < off'"
    using r(4,5) ok(1) off by (auto split: if_splits)
  from step [OF this r(4,2,3), of frames'] obtain s e where
    s: "pushLoop chunk off' frames' d' = Some (s, e)"
       "push_result (maxFrameLength d) (pending d' @ drop off' chunk) frames' s e"
    by blast
  have "push_result (maxFrameLength d) (pending d @ drop off chunk) frames s e"
  proof (cases "n - payloadLength d \<le> length chunk - off")
    case True
    define p where "p = content d @ slice off off' chunk"
    have p: "length p = n" "frames' = frames @ [p]" "pending d' = []" "off' = off + (n - payloadLength d)"
      using True r(5) ok by (auto simp: p_def length_slice)
    have "pending d @ drop off chunk = header d @ p @ drop off' chunk"
      using p(4) by (simp add: pd p_def slice_append_drop)
    then show ?thesis
      using s(2) p ok by (simp add: push_result_frame)
  next
    case False
    then show ?thesis
      using s(2) r(5) by simp
  qed
  with r(1) s(1) show ?thesis
    by simp
qed

lemma pushLoop_spec:
  assumes "decoder_ok d" "off \<le> length chunk" "maxFrameLength d = m"
  shows "\<exists>r e. pushLoop chunk off frames d = Some (r, e)
    \<and> push_result m (pending d @ drop off chunk) frames r e"
  using assms
proof (induction "length chunk - off" arbitrary: off d frames rule: less_induct)
  case less
  show ?case
  proof (cases "off < length chunk")
    case False
    then show ?thesis
      using less.prems by (subst pushLoop.simps) (simp add: push_result_done)
  next
    case True
    show ?thesis
    proof (cases "expectedPayloadLength d")
      case (Some n)
      have rec: "pushLoop chunk off frames d = Option.bind (readPayload chunk off frames d)
          (\<lambda>(chunkOffset, frames, d). pushLoop chunk chunkOffset frames d)"
        using True Some by (simp add: pushLoop.simps [of chunk off])
      show ?thesis
        unfolding rec
        by (rule readPayload_round [OF less.prems(1) Some less.prems(2), unfolded less.prems(3)])
          (rule less.hyps, use True in auto)
    next
      case None
      define h where "h = min (4 - headerLength d) (length chunk - off)"
      define xs where "xs = slice off (off + h) chunk"
      have hd: "headerLength d < 4" "length (header d) = 4" "dstate d = Open" "pending d = take (headerLength d) (header d)"
        using less.prems None by (auto simp: decoder_ok_def pending_def)
      have h: "length xs = h" "0 < h" "headerLength d + h \<le> 4" "off + h \<le> length chunk"
        using True hd by (auto simp: h_def xs_def length_slice)
      define e where "e = d\<lparr>header := blit (header d) (headerLength d) xs, headerLength := headerLength d + h\<rparr>"
      have e: "length (header e) = 4" "take (headerLength d + h) (header e) = pending d @ xs"
        "expectedPayloadLength e = None" "dstate e = Open" "maxFrameLength e = m" "headerLength e = headerLength d + h"
        using h hd None less.prems take_blit_prefix [of "headerLength d" xs "header d"] by (simp_all add: e_def)
      have bs: "pending d @ drop off chunk = (pending d @ xs) @ drop (off + h) chunk"
        by (simp add: xs_def slice_append_drop)
      show ?thesis
      proof (cases "headerLength d + h < 4")
        case True
        then have "pushLoop chunk off frames d = pushLoop chunk (off + h) frames e"
          using \<open>off < length chunk\<close> None h(1)
          by (simp add: pushLoop.simps [of chunk off frames d] Let_def e_def FRAME_HEADER_LENGTH_def xs_def flip: h_def)
        moreover have "decoder_ok e" "pending e = pending d @ xs"
          using e hd True by (simp_all add: decoder_ok_def pending_def)
        ultimately show ?thesis
          using less.hyps [of "off + h" e frames] e(5) h bs by simp
      next
        case False
        define n where "n = be32_of (header e)"
        define f where "f = e\<lparr>headerLength := 0\<rparr>"
        have he: "header e = pending d @ xs"
          using e False h(3) by simp
        have f: "decoder_ok f" "pending f = []" "maxFrameLength f = m"
          using e by (simp_all add: f_def decoder_ok_def pending_def)
        have rec: "pushLoop chunk off frames d =
            (if n > m then Some (fail_decoder (FrameTooLong n m) f)
             else if n = 0 then pushLoop chunk (off + h) (frames @ [[]]) f
             else Option.bind (readPayload chunk (off + h) frames (startPayload n f))
                    (\<lambda>(chunkOffset, frames, d). pushLoop chunk chunkOffset frames d))"
          using \<open>off < length chunk\<close> None h(1) False less.prems(3)
          by (simp add: pushLoop.simps [of chunk off frames d] Let_def e_def f_def n_def be32_of_def
              FRAME_HEADER_LENGTH_def xs_def flip: h_def)
        consider "n > m" | "n = 0" "n \<le> m" | "0 < n" "n \<le> m"
          by linarith
        then show ?thesis
        proof cases
          case 1
          then show ?thesis
            using rec e(1) split_frames_long [of "header e" m] he bs
            by (simp add: push_result_def fail_decoder_def n_def)
        next
          case 2
          obtain r d' where "pushLoop chunk (off + h) (frames @ [[]]) f = Some (r, d')"
            "push_result m (drop (off + h) chunk) (frames @ [[]]) r d'"
            using less.hyps [of "off + h" f "frames @ [[]]"] f h(2,4) True by (auto simp: diff_less_mono2)
          then show ?thesis
            using rec 2 push_result_frame [of "header e" "[]" m "drop (off + h) chunk" frames r d'] e(1) he bs
            by (auto simp: n_def)
        next
          case 3
          define g where "g = startPayload n f"
          have g: "decoder_ok g" "expectedPayloadLength g = Some n" "pending g = header e" "maxFrameLength g = m"
            using 3 e f(1) by (simp_all add: g_def startPayload_def f_def n_def decoder_ok_def pending_def blocks_ok_def)
          have "\<exists>r d'. Option.bind (readPayload chunk (off + h) frames g)
                (\<lambda>(chunkOffset, frames, d). pushLoop chunk chunkOffset frames d) = Some (r, d')
              \<and> push_result (maxFrameLength g) (pending g @ drop (off + h) chunk) frames r d'"
            by (rule readPayload_round [OF g(1,2) h(4)], unfold g(4), rule less.hyps) (use h(2) True in auto)
          then show ?thesis
            using rec 3 g he bs by (simp add: g_def)
        qed
      qed
    qed
  qed
qed

lemma push_spec:
  assumes "decoder_ok d" "maxFrameLength d = m"
  shows "\<exists>r e. push chunk d = Some (r, e) \<and> push_result m (pending d @ chunk) [] r e"
  using assms pushLoop_spec [OF assms(1) _ assms(2), of 0 chunk "[]"]
  by (simp add: push_def decoder_ok_def)

section \<open>Feeding chunks\<close>

text \<open>A reader calls \<open>push\<close> once per chunk and stops at the first error.\<close>

fun feed :: "byte list list \<Rightarrow> frame_decoder \<Rightarrow> ((frame_error + byte list list) \<times> frame_decoder) option" where
  "feed [] d = Some (Inr [], d)"
| "feed (c # cs) d = Option.bind (push c d) (\<lambda>(r, d).
     case r of
       Inl e \<Rightarrow> Some (Inl e, d)
     | Inr fs \<Rightarrow> Option.bind (feed cs d) (\<lambda>(r, d). Some (bindE r (\<lambda>gs. Inr (fs @ gs)), d)))"

lemma split_frames_append:
  "split_frames m (xs @ ys) =
     (case split_frames m xs of
        (fs, r, Some n) \<Rightarrow> (fs, r @ ys, Some n)
      | (fs, r, None) \<Rightarrow> (case split_frames m (r @ ys) of (gs, r', e) \<Rightarrow> (fs @ gs, r', e)))"
proof (induction m xs rule: split_frames.induct)
  case (1 m bs)
  show ?case
  proof (cases "length bs < 4")
    case True
    then show ?thesis
      by (simp add: split_frames_short split: prod.splits)
  next
    case False
    define n where "n = be32_of bs"
    have n: "be32_of (bs @ ys) = n"
      using False by (auto simp: n_def be32_of_def nth_append)
    show ?thesis
    proof (cases "n > m \<or> length bs < 4 + n")
      case True
      then show ?thesis
        using False n by (auto simp: split_frames.simps [of m bs] split_frames.simps [of m "bs @ ys"] Let_def simp flip: n_def
            split: prod.splits)
    next
      case False
      with \<open>\<not> length bs < 4\<close> show ?thesis
        using n "1.IH" [OF _ n_def]
        by (simp add: split_frames.simps [of m bs] split_frames.simps [of m "bs @ ys"] Let_def not_less
            flip: n_def split: prod.splits option.splits)
    qed
  qed
qed

lemma feed_spec:
  assumes "decoder_ok d" "maxFrameLength d = m"
  shows "\<exists>r e. feed cs d = Some (r, e) \<and>
    (case split_frames m (pending d @ concat cs) of
       (fs, rest, None) \<Rightarrow> r = Inr fs \<and> decoder_ok e \<and> pending e = rest \<and> maxFrameLength e = m
     | (fs, rest, Some n) \<Rightarrow> r = Inl (FrameTooLong n m) \<and> dstate e = Failed)"
  using assms
proof (induction cs arbitrary: d)
  case Nil
  then show ?case
    using split_frames_pending [of d] by simp
next
  case (Cons c cs)
  obtain r e where r: "push c d = Some (r, e)" "push_result m (pending d @ c) [] r e"
    using push_spec [OF Cons.prems] by blast
  obtain fs rest x where sp: "split_frames m (pending d @ c) = (fs, rest, x)"
    by (rule prod_cases3)
  have app: "split_frames m (pending d @ concat (c # cs)) = (case x of
        Some n \<Rightarrow> (fs, rest @ concat cs, Some n)
      | None \<Rightarrow> (case split_frames m (rest @ concat cs) of (gs, r', e) \<Rightarrow> (fs @ gs, r', e)))"
  proof -
    have "pending d @ concat (c # cs) = (pending d @ c) @ concat cs"
      by simp
    then show ?thesis
      by (simp only: split_frames_append [of m "pending d @ c" "concat cs"] sp prod.case)
  qed
  show ?case
  proof (cases x)
    case (Some n)
    then have "r = Inl (FrameTooLong n m)" "dstate e = Failed"
      using r(2) sp by (simp_all add: push_result_def)
    with Some app r(1) show ?thesis
      by simp
  next
    case None
    then have e: "r = Inr fs" "decoder_ok e" "pending e = rest" "maxFrameLength e = m"
      using r(2) sp by (simp_all add: push_result_def)
    obtain gs rest' y where sp': "split_frames m (rest @ concat cs) = (gs, rest', y)"
      by (rule prod_cases3)
    have app': "split_frames m (pending d @ concat (c # cs)) = (fs @ gs, rest', y)"
      unfolding app None by (simp add: sp')
    obtain s f where IH: "feed cs e = Some (s, f)"
      "case y of None \<Rightarrow> s = Inr gs \<and> decoder_ok f \<and> pending f = rest' \<and> maxFrameLength f = m
       | Some n \<Rightarrow> s = Inl (FrameTooLong n m) \<and> dstate f = Failed"
      using Cons.IH [OF e(2,4)] unfolding e(3) sp' prod.case by blast
    have "feed (c # cs) d = Some (bindE s (\<lambda>gs. Inr (fs @ gs)), f)"
      using r(1) e(1) IH(1) by simp
    with IH(2) show ?thesis
      unfolding app' by (cases y) simp_all
  qed
qed

lemma end_decoder_spec:
  "decoder_ok d \<Longrightarrow> end_decoder d =
     (if pending d = [] then (Inr (), d\<lparr>dstate := Ended\<rparr>) else fail_decoder TruncatedFrame d)"
  by (cases "expectedPayloadLength d")
    (auto simp: end_decoder_def decoder_ok_def pending_def)

lemma split_frames_encoded:
  "\<forall>p\<in>set ps. length p \<le> m \<and> length p < 2 ^ 32 \<Longrightarrow>
   split_frames m (concat (map (\<lambda>p. be32_bytes (length p) @ p) ps)) = (ps, [], None)"
  by (induction ps) (simp_all add: split_frames_short split_frames_frame be32_of_bytes)

text \<open>The converse: whatever the decoder returns is framed in the stream as the encoder frames it.\<close>

lemma horner256: "d < 256 \<Longrightarrow> (x * 256 + d) div 256 = x" "d < 256 \<Longrightarrow> (x * 256 + d) mod 256 = (d::nat)"
  by simp_all

lemma be32_bytes_be32: "be32_bytes (be32 a b c d) = [a, b, c, d]"
proof -
  define n where "n = be32 a b c d"
  have n: "n = ((unat a * 256 + unat b) * 256 + unat c) * 256 + unat d"
    by (simp add: n_def be32_def)
  have 1: "n div 256 = (unat a * 256 + unat b) * 256 + unat c"
    unfolding n by (rule horner256) simp
  then have 2: "n div 65536 = unat a * 256 + unat b"
    using horner256(1) [OF byte_unat_bound [of c], of "unat a * 256 + unat b"]
    by (simp flip: div_mult2_eq [of n 256 256, simplified])
  have "n div 16777216 = n div 65536 div 256"
    by (simp flip: div_mult2_eq)
  then have 3: "n div 16777216 = unat a"
    unfolding 2 using horner256(1) [OF byte_unat_bound [of b], of "unat a"] by simp
  have "n mod 256 = unat d"
    unfolding n by (rule horner256) simp
  moreover have "n div 256 mod 256 = unat c"
    unfolding 1 by (rule horner256) simp
  moreover have "n div 65536 mod 256 = unat b"
    unfolding 2 by (rule horner256) simp
  moreover have "n < 2 ^ 32"
    unfolding n_def by (rule be32_bound)
  ultimately show ?thesis
    unfolding n_def [symmetric] using 3
    by (simp add: be32_bytes_def ushr_def word_unat_eq_iff)
qed

lemma be32_bytes_be32_of: "length h = 4 \<Longrightarrow> be32_bytes (be32_of h) = h"
  by (auto simp: be32_of_def be32_bytes_be32 numeral_eq_Suc length_Suc_conv)

lemma split_frames_inverse:
  "split_frames m bs = (fs, rest, e) \<Longrightarrow> bs = concat (map (\<lambda>p. be32_bytes (length p) @ p) fs) @ rest
     \<and> (\<forall>p\<in>set fs. length p \<le> m \<and> length p < 2 ^ 32)"
proof (induction m bs arbitrary: fs rest e rule: split_frames.induct)
  case (1 m bs)
  define n where "n = be32_of bs"
  show ?case
  proof (cases "length bs < 4 \<or> n > m \<or> length bs < 4 + n")
    case True
    then show ?thesis
      using "1.prems" by (auto simp: split_frames.simps [of m bs] Let_def simp flip: n_def split: if_splits)
  next
    case False
    obtain gs where gs: "split_frames m (drop (4 + n) bs) = (gs, rest, e)" "fs = take n (drop 4 bs) # gs"
      using "1.prems" False
      by (auto simp: split_frames.simps [of m bs] Let_def simp flip: n_def split: prod.splits)
    have h: "be32_bytes n = take 4 bs" "n < 2 ^ 32"
      using False be32_bytes_be32_of [of "take 4 bs"] be32_of_append [of "take 4 bs" "drop 4 bs"] be32_bound
      by (auto simp: n_def be32_of_def)
    have "drop (4 + n) bs = concat (map (\<lambda>p. be32_bytes (length p) @ p) gs) @ rest"
      "\<forall>p\<in>set gs. length p \<le> m \<and> length p < 2 ^ 32"
      using "1.IH" [OF _ n_def _ _ gs(1)] False by auto
    moreover have "bs = take 4 bs @ take n (drop 4 bs) @ drop (4 + n) bs"
      by (metis append_take_drop_id drop_drop add.commute)
    moreover have "length (take n (drop 4 bs)) = n" "n \<le> m"
      using False by auto
    ultimately show ?thesis
      unfolding gs(2) using h by (simp del: length_take)
  qed
qed

lemma encodeFrame_Inr: "encodeFrame p = Inr f \<longleftrightarrow> length p < 2 ^ 32 \<and> f = be32_bytes (length p) @ p"
  by (auto simp: encodeFrame_bytes MAX_UINT32_def)

lemma map_encodeFrame_Inr:
  "map encodeFrame ps = map Inr fs \<longleftrightarrow>
     (\<forall>p\<in>set ps. length p < 2 ^ 32) \<and> fs = map (\<lambda>p. be32_bytes (length p) @ p) ps"
proof (induction ps arbitrary: fs)
  case (Cons p ps)
  then show ?case
    by (cases fs) (auto simp: encodeFrame_Inr)
qed simp

section \<open>Properties of the framing layer\<close>

text \<open>
  C7. Framing is exact: reading a stream in any chunks yields the payloads \<open>ps\<close> and a clean end
  exactly when the stream is the concatenation of the encoded frames of \<open>ps\<close>, all of them within the
  configured limit. So the decoder inverts the encoder, whatever the chunking, and accepts nothing else.
\<close>

theorem framing_exact:
  "(\<exists>d d'. feed chunks (new_decoder m) = Some (Inr ps, d) \<and> end_decoder d = (Inr (), d')) \<longleftrightarrow>
   (\<exists>fs. map encodeFrame ps = map Inr fs \<and> concat chunks = concat fs \<and> (\<forall>p\<in>set ps. length p \<le> m))"
proof -
  obtain r e where r: "feed chunks (new_decoder m) = Some (r, e)"
    "case split_frames m (concat chunks) of
       (fs, rest, None) \<Rightarrow> r = Inr fs \<and> decoder_ok e \<and> pending e = rest \<and> maxFrameLength e = m
     | (fs, rest, Some n) \<Rightarrow> r = Inl (FrameTooLong n m) \<and> dstate e = Failed"
    using feed_spec [of "new_decoder m" m chunks] by auto
  have "(\<exists>d d'. feed chunks (new_decoder m) = Some (Inr ps, d) \<and> end_decoder d = (Inr (), d'))
      \<longleftrightarrow> split_frames m (concat chunks) = (ps, [], None)"
    using r by (auto simp: end_decoder_spec fail_decoder_def split: prod.splits option.splits if_splits)
  also have "\<dots> \<longleftrightarrow> (\<exists>fs. map encodeFrame ps = map Inr fs \<and> concat chunks = concat fs
      \<and> (\<forall>p\<in>set ps. length p \<le> m))"
    using split_frames_inverse [of m "concat chunks" ps "[]" None] split_frames_encoded [of ps m]
    by (auto simp: map_encodeFrame_Inr)
  finally show ?thesis .
qed

theorem framing_exact_witness:
  "\<exists>d d'. feed [[0], [0, 0, 1, 7]] (new_decoder 5) = Some (Inr [[7]], d) \<and> end_decoder d = (Inr (), d')"
proof -
  have "map encodeFrame [[7]] = map Inr [[0, 0, 0, 1, 7]]"
    by (simp add: encodeFrame_Inr be32_bytes_def ushr_def)
  then show ?thesis
    by (subst framing_exact) (rule exI [of _ "[[0, 0, 0, 1, 7]]"], simp)
qed

text \<open>
  C8. One call of \<open>push\<close> on a decoder in a reachable state returns (the loops end) and does what
  splitting the pending bytes followed by the chunk says: the complete frames, the remaining bytes kept as
  the new pending bytes with the invariant preserved, or, for an oversized length prefix, the error and
  the failed state, in which every later call reports the failure.
\<close>

theorem push_refines_split:
  assumes "decoder_ok d" "maxFrameLength d = m"
  shows "\<exists>r e. push chunk d = Some (r, e) \<and>
    (case split_frames m (pending d @ chunk) of
       (fs, rest, None) \<Rightarrow> r = Inr fs \<and> decoder_ok e \<and> pending e = rest \<and> maxFrameLength e = m
     | (fs, rest, Some n) \<Rightarrow> r = Inl (FrameTooLong n m) \<and> dstate e = Failed
         \<and> push c' e = Some (Inl DecoderFailed, e) \<and> end_decoder e = (Inl DecoderFailed, e))"
  using push_spec [OF assms, of chunk]
  by (force simp: push_result_def push_def end_decoder_def split: prod.splits option.splits)

theorem push_refines_split_witness:
  "\<exists>r e. push [0, 0, 0, 2, 7] (new_decoder 5) = Some (r, e) \<and> r = Inr [] \<and> pending e = [0, 0, 0, 2, 7]"
proof -
  have "split_frames 5 [0, 0, 0, 2, 7] = ([], [0, 0, 0, 2, 7], None)"
    by (simp add: split_frames.simps [of 5 "[0, 0, 0, 2, 7]"] be32_of_def be32_def)
  then show ?thesis
    using push_refines_split [of "new_decoder 5" 5 "[0, 0, 0, 2, 7]" "[]"] by auto
qed

text \<open>
  \<open>assertCompleteFrame\<close> accepts exactly the encodings of payloads within the configured limit.
\<close>

theorem assertCompleteFrame_iff:
  "assertCompleteFrame frame options = Inr () \<longleftrightarrow>
   (\<exists>m p. resolveMaxFrameLength options = Inr m \<and> encodeFrame p = Inr frame \<and> length p \<le> m)"
proof
  assume l: "assertCompleteFrame frame options = Inr ()"
  then obtain m where m: "resolveMaxFrameLength options = Inr m" "be32_of frame \<le> m" "4 \<le> length frame"
      "length frame = 4 + be32_of frame"
    by (cases "resolveMaxFrameLength options")
      (auto simp: assertCompleteFrame_def Let_def FRAME_HEADER_LENGTH_def be32_of_def split: if_splits)
  have "be32_bytes (be32_of frame) = take 4 frame"
    using m(3) be32_bytes_be32_of [of "take 4 frame"] by (simp add: be32_of_def)
  moreover have "be32_of frame < 2 ^ 32"
    unfolding be32_of_def by (rule be32_bound)
  ultimately have "encodeFrame (drop 4 frame) = Inr frame"
    using m by (simp add: encodeFrame_Inr)
  then show "\<exists>m p. resolveMaxFrameLength options = Inr m \<and> encodeFrame p = Inr frame \<and> length p \<le> m"
    using m by (intro exI [of _ m] exI [of _ "drop 4 frame"]) simp
next
  assume "\<exists>m p. resolveMaxFrameLength options = Inr m \<and> encodeFrame p = Inr frame \<and> length p \<le> m"
  then obtain m p where *: "resolveMaxFrameLength options = Inr m" "frame = be32_bytes (length p) @ p"
      "length p \<le> m" "length p < 2 ^ 32"
    by (auto simp: encodeFrame_Inr)
  then have "be32_of frame = length p"
    by (simp add: be32_of_append be32_of_bytes)
  then show "assertCompleteFrame frame options = Inr ()"
    using * unfolding assertCompleteFrame_def be32_of_def [symmetric] Let_def by (simp add: FRAME_HEADER_LENGTH_def)
qed

end
