(* ===== verification/Codec.thy ===== *)
theory Codec
  imports Framing
begin

text \<open>
  Protocol messages on a framed stream (\<open>packages/protocol/src/codec.ts\<close>): validation by
  \<open>isProtocolValue\<close>, \<open>encodeProtocolMessage\<close> and the class \<open>ValidatedMessageDecoder\<close> that
  the client and server decoders instantiate. The schema check of the typebox package is a
  parameter \<open>check\<close>. The message decoder uses its frame decoder only through the locale
  \<open>frame_source\<close>, which the decoder of \<open>Framing\<close> interprets.
\<close>

section \<open>Errors\<close>

text \<open>
  A \<open>ProtocolValidationError\<close> carries the error it was made from; its text is a prefix
  followed by \<open>boundedErrorMessage\<close> of that error's text.
\<close>

datatype cause = CborCause cbor_error | FrameCause frame_error

datatype codec_error =
    InvalidMessage
  | UnableToEncode cause
  | InvalidFrame cause
  | InvalidFraming cause
  | MessageDecoderFailed

definition boundedErrorMessage :: "jsstring option \<Rightarrow> jsstring" where
  "boundedErrorMessage message =
     (case message of
        None \<Rightarrow> js ''Unknown codec error''
      | Some m \<Rightarrow> if length m \<le> 500 then m else slice 0 497 m @ js ''...'')"

lemma boundedErrorMessage_bound: "length (boundedErrorMessage m) \<le> 500"
  by (auto simp: boundedErrorMessage_def length_slice split: option.split)

section \<open>Validation\<close>

lemma fewer_left:
  assumes "a \<notin> anc" "deref H a = Some nd"
  shows "card ({..<length H} - insert a anc) < card ({..<length H} - anc)"
  using assms by (intro psubset_card_mono) (auto simp: deref_def split: if_splits)

text \<open>
  \<open>every\<close> on an array visits the elements that exist (a hole is skipped); \<open>Object.values\<close>
  lists the own enumerable string-keyed properties. Byte arrays and foreign prototypes fail.
\<close>

function isProtocolValue :: "heap \<Rightarrow> jsval \<Rightarrow> bool \<Rightarrow> nat set \<Rightarrow> bool" where
  "isProtocolValue H value optionalProperty ancestors =
     (case value of
        VUndefined \<Rightarrow> optionalProperty
      | VNull \<Rightarrow> True
      | VBool b \<Rightarrow> True
      | VNum n \<Rightarrow> True
      | VStr s \<Rightarrow> True
      | VOther t \<Rightarrow> False
      | VRef a \<Rightarrow>
          if a \<in> ancestors then False
          else (case deref H a of
             Some (NArray xs) \<Rightarrow>
               (\<forall>x\<in>set xs. case x of None \<Rightarrow> True | Some v \<Rightarrow> isProtocolValue H v False (insert a ancestors))
           | Some (NObject p kvs symbols) \<Rightarrow>
               p = ObjectPrototype \<and> (\<forall>(k, v)\<in>set kvs. isProtocolValue H v True (insert a ancestors))
           | _ \<Rightarrow> False))"
  by pat_completeness auto
termination
  by (relation "measure (\<lambda>(H, v, opt, anc). card ({..<length H} - anc))") (simp_all add: fewer_left)

declare isProtocolValue.simps [simp del]

text \<open>
  The result of \<open>decodeCbor\<close> is a tree; \<open>materialize\<close> lays it out as the fresh objects the
  decoder built, so that the same validation runs on decoded values. The order of properties
  of the fresh objects is the order of insertion, on which no operation here depends.
\<close>

fun materialize :: "cbor \<Rightarrow> heap \<Rightarrow> jsval \<times> heap"
  and materializeList :: "cbor list \<Rightarrow> heap \<Rightarrow> jsval list \<times> heap"
  and materializeEntries :: "(jsstring \<times> cbor) list \<Rightarrow> heap \<Rightarrow> (jsstring \<times> jsval) list \<times> heap"
where
  "materialize CNull H = (VNull, H)"
| "materialize (CBool b) H = (VBool b, H)"
| "materialize (CNum n) H = (VNum n, H)"
| "materialize (CText s) H = (VStr s, H)"
| "materialize (CBytes bs) H = (VRef (length H), H @ [NBytes bs])"
| "materialize (CArray ts) H =
     (let (vs, H) = materializeList ts H in (VRef (length H), H @ [NArray (map Some vs)]))"
| "materialize (CMap kts) H =
     (let (kvs, H) = materializeEntries kts H in (VRef (length H), H @ [NObject ObjectPrototype kvs False]))"
| "materializeList [] H = ([], H)"
| "materializeList (t # ts) H =
     (let (v, H) = materialize t H; (vs, H) = materializeList ts H in (v # vs, H))"
| "materializeEntries [] H = ([], H)"
| "materializeEntries ((k, t) # kts) H =
     (let (v, H) = materialize t H; (kvs, H) = materializeEntries kts H in ((k, v) # kvs, H))"

text \<open>\<open>parseClientMessage\<close> and \<open>parseServerMessage\<close> differ in the schema they check.\<close>

definition parseMessage :: "(heap \<Rightarrow> jsval \<Rightarrow> bool) \<Rightarrow> heap \<Rightarrow> jsval \<Rightarrow> codec_error + unit" where
  "parseMessage check H v =
     (if \<not> isProtocolValue H v False {} \<or> \<not> check H v then Inl InvalidMessage else Inr ())"

section \<open>Encoding and decoding messages\<close>

definition cbor_limit :: "jsnumber \<Rightarrow> cbor_options option" where
  "cbor_limit m = Some \<lparr>o_maxByteLength = Some m, o_maxContainerLength = None, o_maxDepth = None\<rparr>"

definition encodeProtocolMessage ::
    "(heap \<Rightarrow> jsval \<Rightarrow> bool) \<Rightarrow> heap \<Rightarrow> jsval \<Rightarrow> jsnumber option \<Rightarrow> codec_error + byte list" where
  "encodeProtocolMessage check H v options =
     bindE (parseMessage check H v) (\<lambda>_.
     let maxFrameLength = limit_or DEFAULT_MAX_FRAME_LENGTH options in
     wrapE UnableToEncode
       (bindE (wrapE CborCause (encodeCbor H v (cbor_limit maxFrameLength))) (\<lambda>bytes.
        bindE (wrapE FrameCause (encodeFrame bytes)) (\<lambda>frame.
        bindE (wrapE FrameCause (assertCompleteFrame frame (Some maxFrameLength))) (\<lambda>_.
        Inr frame)))))"

text \<open>\<open>ValidatedMessageDecoder\<close>, over the operations of its frame decoder.\<close>

record 's message_decoder =
  md_failed :: bool
  md_frames :: 's
  md_maxFrameLength :: jsnumber

definition newMessageDecoder :: "jsnumber option \<Rightarrow> frame_error + frame_decoder message_decoder" where
  "newMessageDecoder options =
     bindE (newFrameDecoder options) (\<lambda>frames.
     Inr \<lparr>md_failed = False, md_frames = frames,
          md_maxFrameLength = limit_or DEFAULT_MAX_FRAME_LENGTH options\<rparr>)"

definition decodeMessage :: "(heap \<Rightarrow> jsval \<Rightarrow> bool) \<Rightarrow> jsnumber \<Rightarrow> byte list \<Rightarrow> codec_error + cbor" where
  "decodeMessage check m frame =
     bindE (wrapE (\<lambda>e. InvalidFrame (CborCause e)) (decodeCbor frame (cbor_limit m))) (\<lambda>t.
     case materialize t [] of (v, H) \<Rightarrow> bindE (parseMessage check H v) (\<lambda>_. Inr t))"

definition pushMessages ::
    "(byte list \<Rightarrow> 's \<Rightarrow> ((frame_error + byte list list) \<times> 's) option) \<Rightarrow> (heap \<Rightarrow> jsval \<Rightarrow> bool) \<Rightarrow>
     byte list \<Rightarrow> 's message_decoder \<Rightarrow> ((codec_error + cbor list) \<times> 's message_decoder) option" where
  "pushMessages pushf check chunk d =
     (if md_failed d then Some (Inl MessageDecoderFailed, d)
      else Option.bind (pushf chunk (md_frames d)) (\<lambda>(r, frames).
        let d = d\<lparr>md_frames := frames\<rparr> in
        case bindE (wrapE (\<lambda>e. InvalidFrame (FrameCause e)) r) (mapE (decodeMessage check (md_maxFrameLength d))) of
          Inl e \<Rightarrow> Some (Inl e, d\<lparr>md_failed := True\<rparr>)
        | Inr messages \<Rightarrow> Some (Inr messages, d)))"

definition endMessages ::
    "('s \<Rightarrow> (frame_error + unit) \<times> 's) \<Rightarrow> 's message_decoder \<Rightarrow> (codec_error + unit) \<times> 's message_decoder" where
  "endMessages endf d =
     (if md_failed d then (Inl MessageDecoderFailed, d)
      else case endf (md_frames d) of
        (Inl e, frames) \<Rightarrow> (Inl (InvalidFraming (FrameCause e)), d\<lparr>md_frames := frames, md_failed := True\<rparr>)
      | (Inr _, frames) \<Rightarrow> (Inr (), d\<lparr>md_frames := frames\<rparr>))"

text \<open>The protocol version of \<open>schemas.ts\<close>.\<close>

definition PROTOCOL_VERSION :: jsnumber where "PROTOCOL_VERSION = num_of_int 2"

definition isSupportedProtocolVersion :: "jsnumber \<Rightarrow> bool" where
  "isSupportedProtocolVersion version \<longleftrightarrow> is_integer version \<and> version = PROTOCOL_VERSION"

text \<open>Pushing chunks until the first error.\<close>

fun feedMessages ::
    "(byte list \<Rightarrow> 's \<Rightarrow> ((frame_error + byte list list) \<times> 's) option) \<Rightarrow> (heap \<Rightarrow> jsval \<Rightarrow> bool) \<Rightarrow>
     byte list list \<Rightarrow> 's message_decoder \<Rightarrow> ((codec_error + cbor list) \<times> 's message_decoder) option" where
  "feedMessages pushf check [] d = Some (Inr [], d)"
| "feedMessages pushf check (c # cs) d =
     Option.bind (pushMessages pushf check c d) (\<lambda>(r, d).
     case r of
       Inl e \<Rightarrow> Some (Inl e, d)
     | Inr ms \<Rightarrow> Option.bind (feedMessages pushf check cs d) (\<lambda>(r, d).
         Some (bindE r (\<lambda>ms'. Inr (ms @ ms')), d)))"

section \<open>What the message decoder needs of its frame decoder\<close>

locale frame_source =
  fixes pushf :: "byte list \<Rightarrow> 's \<Rightarrow> ((frame_error + byte list list) \<times> 's) option"
    and endf :: "'s \<Rightarrow> (frame_error + unit) \<times> 's"
    and ok :: "'s \<Rightarrow> bool"
    and rest_of :: "'s \<Rightarrow> byte list"
    and limit :: "'s \<Rightarrow> nat"
  assumes push_law: "ok d \<Longrightarrow> \<exists>r e. pushf chunk d = Some (r, e) \<and>
      (case split_frames (limit d) (rest_of d @ chunk) of
         (fs, rest, None) \<Rightarrow> r = Inr fs \<and> ok e \<and> rest_of e = rest \<and> limit e = limit d
       | (fs, rest, Some n) \<Rightarrow> r = Inl (FrameTooLong n (limit d)))"
    and end_law: "ok d \<Longrightarrow> fst (endf d) = (if rest_of d = [] then Inr () else Inl TruncatedFrame)"
    and rest_law: "ok d \<Longrightarrow> split_frames (limit d) (rest_of d) = ([], rest_of d, None)"
begin

definition live :: "'s message_decoder \<Rightarrow> bool" where
  "live d \<longleftrightarrow> \<not> md_failed d \<and> ok (md_frames d)"

text \<open>What a message decoder has to do, in terms of the stream.\<close>

definition stream_spec ::
    "(heap \<Rightarrow> jsval \<Rightarrow> bool) \<Rightarrow> byte list \<Rightarrow> 's message_decoder \<Rightarrow> codec_error + cbor list \<Rightarrow>
     's message_decoder \<Rightarrow> bool" where
  "stream_spec check bs d r e \<longleftrightarrow>
     (case split_frames (limit (md_frames d)) (rest_of (md_frames d) @ bs) of
        (fs, rest, None) \<Rightarrow>
          (case mapE (decodeMessage check (md_maxFrameLength d)) fs of
             Inr ms \<Rightarrow> r = Inr ms \<and> live e \<and> rest_of (md_frames e) = rest
               \<and> limit (md_frames e) = limit (md_frames d) \<and> md_maxFrameLength e = md_maxFrameLength d
           | Inl _ \<Rightarrow> (\<exists>x. r = Inl x) \<and> md_failed e)
      | (fs, rest, Some n) \<Rightarrow> (\<exists>x. r = Inl x) \<and> md_failed e)"

lemma pushMessages_spec:
  assumes "live d"
  shows "\<exists>r e. pushMessages pushf check chunk d = Some (r, e) \<and> stream_spec check chunk d r e"
proof -
  obtain r f where f: "pushf chunk (md_frames d) = Some (r, f)"
    "case split_frames (limit (md_frames d)) (rest_of (md_frames d) @ chunk) of
         (fs, rest, None) \<Rightarrow> r = Inr fs \<and> ok f \<and> rest_of f = rest \<and> limit f = limit (md_frames d)
       | (fs, rest, Some n) \<Rightarrow> r = Inl (FrameTooLong n (limit (md_frames d)))"
    using push_law [of "md_frames d" chunk] assms by (auto simp: live_def)
  obtain fs rest x where sp: "split_frames (limit (md_frames d)) (rest_of (md_frames d) @ chunk) = (fs, rest, x)"
    by (rule prod_cases3)
  show ?thesis
    using f assms
    by (cases x; cases "mapE (decodeMessage check (md_maxFrameLength d)) fs")
      (simp_all add: pushMessages_def stream_spec_def sp live_def Let_def)
qed

lemma feedMessages_spec:
  assumes "live d"
  shows "\<exists>r e. feedMessages pushf check cs d = Some (r, e) \<and> stream_spec check (concat cs) d r e"
  using assms
proof (induction cs arbitrary: d)
  case Nil
  then show ?case
    using rest_law by (simp add: stream_spec_def live_def)
next
  case (Cons c cs)
  obtain r e where r: "pushMessages pushf check c d = Some (r, e)" "stream_spec check c d r e"
    using pushMessages_spec [OF Cons.prems] by blast
  obtain fs rest x where sp: "split_frames (limit (md_frames d)) (rest_of (md_frames d) @ c) = (fs, rest, x)"
    by (rule prod_cases3)
  define m where "m = mapE (decodeMessage check (md_maxFrameLength d)) fs"
  have app: "split_frames (limit (md_frames d)) (rest_of (md_frames d) @ c @ concat cs) = (case x of
        Some n \<Rightarrow> (fs, rest @ concat cs, Some n)
      | None \<Rightarrow> (case split_frames (limit (md_frames d)) (rest @ concat cs) of (gs, r', e) \<Rightarrow> (fs @ gs, r', e)))"
    using split_frames_append [of "limit (md_frames d)" "rest_of (md_frames d) @ c" "concat cs"]
    unfolding sp append_assoc by (simp only: prod.case)
  show ?case
  proof (cases "\<exists>ms. r = Inr ms")
    case True
    then obtain ms where ms: "x = None" "r = Inr ms" "m = Inr ms" "live e" "rest_of (md_frames e) = rest"
      "limit (md_frames e) = limit (md_frames d)" "md_maxFrameLength e = md_maxFrameLength d"
      using r(2) by (auto simp: stream_spec_def sp m_def split: option.splits sum.splits)
    obtain s f where s: "feedMessages pushf check cs e = Some (s, f)" "stream_spec check (concat cs) e s f"
      using Cons.IH [OF ms(4)] by blast
    obtain gs rest' y where sp': "split_frames (limit (md_frames d)) (rest @ concat cs) = (gs, rest', y)"
      by (rule prod_cases3)
    have "stream_spec check (concat (c # cs)) d (bindE s (\<lambda>ms'. Inr (ms @ ms'))) f"
      using s(2) ms
      by (cases y; cases "mapE (decodeMessage check (md_maxFrameLength d)) gs")
        (auto simp: stream_spec_def app sp' mapE_append m_def)
    then show ?thesis
      using r(1) s(1) ms(2) by simp
  next
    case False
    then obtain y where y: "r = Inl y"
      by (cases r) auto
    have "md_failed e \<and> (x = None \<longrightarrow> (\<exists>z. m = Inl z))"
      using r(2) y by (auto simp: stream_spec_def sp m_def split: option.splits sum.splits)
    then have "stream_spec check (concat (c # cs)) d r e"
      using y by (cases x) (auto simp: stream_spec_def app m_def mapE_append split: prod.splits option.splits sum.splits)
    then show ?thesis
      using r(1) y by simp
  qed
qed

lemma endMessages_spec:
  "live d \<Longrightarrow> fst (endMessages endf d) =
     (if rest_of (md_frames d) = [] then Inr () else Inl (InvalidFraming (FrameCause TruncatedFrame)))"
  using end_law [of "md_frames d"] by (auto simp: endMessages_def live_def split: prod.splits sum.splits if_splits)

lemma failed_sticks:
  "md_failed d \<Longrightarrow> pushMessages pushf check c d = Some (Inl MessageDecoderFailed, d)"
  "md_failed d \<Longrightarrow> endMessages endf d = (Inl MessageDecoderFailed, d)"
  by (simp_all add: pushMessages_def endMessages_def)

end

interpretation fd: frame_source push end_decoder decoder_ok pending maxFrameLength
proof unfold_locales
  fix d chunk
  assume ok: "decoder_ok d"
  show "\<exists>r e. push chunk d = Some (r, e) \<and>
      (case split_frames (maxFrameLength d) (pending d @ chunk) of
         (fs, rest, None) \<Rightarrow> r = Inr fs \<and> decoder_ok e \<and> pending e = rest \<and> maxFrameLength e = maxFrameLength d
       | (fs, rest, Some n) \<Rightarrow> r = Inl (FrameTooLong n (maxFrameLength d)))"
  proof -
    obtain r e where r: "push chunk d = Some (r, e)" "push_result (maxFrameLength d) (pending d @ chunk) [] r e"
      using push_spec [OF ok refl] by blast
    obtain fs rest x where sp: "split_frames (maxFrameLength d) (pending d @ chunk) = (fs, rest, x)"
      by (rule prod_cases3)
    show ?thesis
      using r by (cases x) (simp_all add: push_result_def sp)
  qed
  show "fst (end_decoder d) = (if pending d = [] then Inr () else Inl TruncatedFrame)"
    using end_decoder_spec [OF ok] by (simp add: fail_decoder_def)
  show "split_frames (maxFrameLength d) (pending d) = ([], pending d, None)"
    using ok by (rule split_frames_pending)
qed

section \<open>Validated values are acyclic\<close>

text \<open>The references a node holds.\<close>

definition refs :: "node \<Rightarrow> jsval set" where
  "refs nd = (case nd of NBytes _ \<Rightarrow> {} | NArray xs \<Rightarrow> {v. Some v \<in> set xs} | NObject _ kvs _ \<Rightarrow> snd ` set kvs)"

definition edges :: "heap \<Rightarrow> (nat \<times> nat) set" where
  "edges H = {(a, b). \<exists>nd. deref H a = Some nd \<and> VRef b \<in> refs nd}"

lemma isProtocolValue_refs:
  assumes "isProtocolValue H (VRef a) opt anc" "(a, b) \<in> edges H"
  shows "a \<notin> anc \<and> (\<exists>opt. isProtocolValue H (VRef b) opt (insert a anc))"
  using assms
  by (fastforce simp: isProtocolValue.simps [of H "VRef a"] edges_def refs_def split: if_splits option.splits node.splits)

lemma isProtocolValue_reach:
  assumes "(a, b) \<in> (edges H)\<^sup>*"
  shows "isProtocolValue H (VRef a) opt anc \<Longrightarrow> b \<notin> anc \<and> (\<exists>opt anc'. anc \<subseteq> anc' \<and> isProtocolValue H (VRef b) opt anc')"
  using assms
proof (induction arbitrary: opt anc rule: converse_rtrancl_induct)
  case base
  then show ?case
    by (auto simp: isProtocolValue.simps [of H "VRef b"] split: if_splits)
next
  case (step a c)
  obtain opt' where "isProtocolValue H (VRef c) opt' (insert a anc)"
    using isProtocolValue_refs [OF step.prems step.hyps(1)] by blast
  from step.IH [OF this] show ?case
    by blast
qed

lemma isProtocolValue_acyclic:
  assumes "isProtocolValue H (VRef a) opt anc" "(a, b) \<in> (edges H)\<^sup>*"
  shows "(b, b) \<notin> (edges H)\<^sup>+"
proof
  assume "(b, b) \<in> (edges H)\<^sup>+"
  then obtain c where c: "(b, c) \<in> edges H" "(c, b) \<in> (edges H)\<^sup>*"
    by (meson tranclD)
  obtain opt' anc' where "isProtocolValue H (VRef b) opt' anc'"
    using isProtocolValue_reach [OF assms(2,1)] by blast
  then obtain opt'' where "isProtocolValue H (VRef c) opt'' (insert b anc')"
    using isProtocolValue_refs c(1) by blast
  from isProtocolValue_reach [OF c(2) this] show False
    by blast
qed

lemma isProtocolValue_node:
  assumes "isProtocolValue H (VRef b) opt anc"
  shows "\<exists>nd. deref H b = Some nd \<and> (case nd of NBytes _ \<Rightarrow> False | NArray _ \<Rightarrow> True
    | NObject p kvs symbols \<Rightarrow> p = ObjectPrototype \<and> (\<forall>(k, v)\<in>set kvs. \<forall>s. v \<noteq> VOther s))"
proof -
  have "\<not> isProtocolValue H (VOther s) opt' anc'" for s opt' anc'
    by (simp add: isProtocolValue.simps)
  then show ?thesis
    using assms by (auto simp: isProtocolValue.simps [of H "VRef b"] split: if_splits option.splits node.splits)
qed

section \<open>Validation survives the round trip\<close>

fun no_bytes :: "cbor \<Rightarrow> bool" where
  "no_bytes (CBytes _) = False"
| "no_bytes (CArray ts) = (\<forall>t\<in>set ts. no_bytes t)"
| "no_bytes (CMap kts) = (\<forall>(k, t)\<in>set kts. no_bytes t)"
| "no_bytes _ = True"

lemma isProtocolValue_no_bytes:
  "isProtocolValue H v opt anc \<Longrightarrow> tree_of H n v = Some t \<Longrightarrow> no_bytes t"
proof (induction n arbitrary: v opt anc t)
  case (Suc n)
  show ?case
  proof (cases v)
    case (VRef a)
    obtain nd where nd: "deref H a = Some nd" "a \<notin> anc"
      using Suc.prems VRef by (auto simp: isProtocolValue.simps [of H "VRef a"] split: if_splits option.splits)
    show ?thesis
    proof (cases nd)
      case (NArray xs)
      obtain ts where ts: "t = CArray ts"
        "map (\<lambda>x. case x of None \<Rightarrow> None | Some v \<Rightarrow> tree_of H n v) xs = map Some ts"
        using Suc.prems(2) VRef nd NArray by (auto simp: those_Some)
      have "no_bytes s" if s: "s \<in> set ts" for s
      proof -
        obtain v' where "Some v' \<in> set xs" "tree_of H n v' = Some s"
          using map_Some_D [OF ts(2)] s by (fastforce split: option.splits)
        moreover from this(1) have "isProtocolValue H v' False (insert a anc)"
          using Suc.prems(1) VRef nd NArray by (auto simp: isProtocolValue.simps [of H "VRef a"] split: if_splits)
        ultimately show ?thesis
          using Suc.IH by blast
      qed
      then show ?thesis
        by (simp add: ts(1))
    next
      case (NObject p kvs symbols)
      obtain kts where kts: "t = CMap kts"
        "map (\<lambda>(k, v). map_option (Pair k) (tree_of H n v)) (present kvs) = map Some kts"
        using Suc.prems(2) VRef nd NObject by (auto simp: those_Some split: if_splits)
      have "no_bytes s" if s: "(k, s) \<in> set kts" for k s
      proof -
        obtain k' v' where "(k', v') \<in> set kvs" "tree_of H n v' = Some s"
          using map_Some_D [OF kts(2)] s by (fastforce simp: present_def)
        moreover from this(1) have "isProtocolValue H v' True (insert a anc)"
          using Suc.prems(1) VRef nd NObject by (auto simp: isProtocolValue.simps [of H "VRef a"] split: if_splits)
        ultimately show ?thesis
          using Suc.IH by blast
      qed
      then show ?thesis
        by (auto simp: kts(1))
    qed (use Suc.prems VRef nd in \<open>auto simp: isProtocolValue.simps [of H "VRef a"]\<close>)
  qed (use Suc.prems in auto)
qed simp

lemma materialize_extends:
  "materialize t H = (v, H') \<Longrightarrow> (\<exists>X. H' = H @ X) \<and> v \<noteq> VUndefined"
  "materializeList ts H = (vs, H') \<Longrightarrow> (\<exists>X. H' = H @ X)"
  "materializeEntries kts H = (kvs, H') \<Longrightarrow> (\<exists>X. H' = H @ X) \<and> (\<forall>(k, v)\<in>set kvs. v \<noteq> VUndefined)"
  by (induction t H and ts H and kts H arbitrary: v H' and vs H' and kvs H'
      rule: materialize_materializeList_materializeEntries.induct)
    (auto split: prod.splits simp: Let_def, fastforce+)

text \<open>Sets of addresses beyond what has been allocated.\<close>

definition beyond :: "heap \<Rightarrow> nat set \<Rightarrow> bool" where
  "beyond H anc \<longleftrightarrow> (\<forall>a\<in>anc. length H \<le> a)"

lemma beyond_prefix: "beyond (H @ X) anc \<Longrightarrow> beyond H anc"
  by (auto simp: beyond_def)

lemma deref_last: "deref ((H @ [nd]) @ Y) (length H) = Some nd" "deref (H @ nd # Y) (length H) = Some nd"
  by (simp_all add: deref_def)

lemma materialize_protocol:
  "materialize t H = (v, H') \<Longrightarrow> no_bytes t \<Longrightarrow> beyond H' anc \<Longrightarrow> isProtocolValue (H' @ Y) v opt anc"
  "materializeList ts H = (vs, H') \<Longrightarrow> \<forall>t\<in>set ts. no_bytes t \<Longrightarrow> beyond H' anc \<Longrightarrow>
    \<forall>v\<in>set vs. isProtocolValue (H' @ Y) v opt anc"
  "materializeEntries kts H = (kvs, H') \<Longrightarrow> \<forall>(k, t)\<in>set kts. no_bytes t \<Longrightarrow> beyond H' anc \<Longrightarrow>
    \<forall>(k, v)\<in>set kvs. isProtocolValue (H' @ Y) v opt anc"
proof (induction t H and ts H and kts H arbitrary: v H' Y anc opt and vs H' Y anc opt and kvs H' Y anc opt
    rule: materialize_materializeList_materializeEntries.induct)
  case (6 ts H)
  obtain vs G where G: "materializeList ts H = (vs, G)" "v = VRef (length G)" "H' = G @ [NArray (map Some vs)]"
    using "6.prems" by (auto split: prod.splits)
  have "length G \<notin> anc" "beyond G (insert (length G) anc)"
    using "6.prems"(3) by (auto simp: beyond_def G)
  moreover from this(2) have "\<forall>v\<in>set vs. isProtocolValue (G @ (NArray (map Some vs) # Y)) v False (insert (length G) anc)"
    using "6.IH" [OF G(1)] "6.prems" by simp
  ultimately show ?case
    by (simp add: G isProtocolValue.simps [of _ "VRef (length G)"] deref_last)
next
  case (7 kts H)
  obtain kvs G where G: "materializeEntries kts H = (kvs, G)" "v = VRef (length G)"
    "H' = G @ [NObject ObjectPrototype kvs False]"
    using "7.prems" by (auto split: prod.splits)
  have "length G \<notin> anc" "beyond G (insert (length G) anc)"
    using "7.prems"(3) by (auto simp: beyond_def G)
  moreover from this(2) have "\<forall>(k, v)\<in>set kvs.
      isProtocolValue (G @ (NObject ObjectPrototype kvs False # Y)) v True (insert (length G) anc)"
    using "7.IH" [OF G(1)] "7.prems" by simp
  ultimately show ?case
    by (simp add: G isProtocolValue.simps [of _ "VRef (length G)"] deref_last)
next
  case (9 t ts H)
  obtain v' G vs' where G: "materialize t H = (v', G)" "materializeList ts G = (vs', H')" "vs = v' # vs'"
    using "9.prems" by (auto split: prod.splits)
  obtain X where X: "H' = G @ X"
    using materialize_extends(2) [OF G(2)] by blast
  have "isProtocolValue (G @ (X @ Y)) v' opt anc"
    using "9.IH"(1) [OF G(1)] "9.prems" beyond_prefix X by auto
  then show ?case
    using "9.IH"(2) [OF G(1) [symmetric] refl G(2)] "9.prems" by (simp add: G(3)) (simp add: X)
next
  case (11 k t kts H)
  obtain v' G kvs' where G: "materialize t H = (v', G)" "materializeEntries kts G = (kvs', H')" "kvs = (k, v') # kvs'"
    using "11.prems" by (auto split: prod.splits)
  obtain X where X: "H' = G @ X"
    using materialize_extends(3) [OF G(2)] by blast
  have "isProtocolValue (G @ (X @ Y)) v' opt anc"
    using "11.IH"(1) [OF G(1)] "11.prems" beyond_prefix X by auto
  then show ?case
    using "11.IH"(2) [OF G(1) [symmetric] refl G(2)] "11.prems" by (simp add: G(3)) (simp add: X)
qed (auto simp: isProtocolValue.simps)

lemma materialized_valid: "no_bytes t \<Longrightarrow> materialize t [] = (v, H) \<Longrightarrow> isProtocolValue H v opt {}"
  using materialize_protocol(1) [of t "[]" v H "{}" "[]" opt] by (simp add: beyond_def)

lemma resolve_limit_or:
  "resolveMaxFrameLength (Some (limit_or DEFAULT_MAX_FRAME_LENGTH options)) = resolveMaxFrameLength options"
  by (simp add: resolveMaxFrameLength_def limit_or_def)

text \<open>A schema check that does not distinguish a value from its copy without undefined properties.\<close>

definition copy_stable :: "heap \<Rightarrow> (heap \<Rightarrow> jsval \<Rightarrow> bool) \<Rightarrow> bool" where
  "copy_stable H check \<longleftrightarrow> (\<forall>v t n. tree_of H n v = Some t \<longrightarrow> check H v \<longrightarrow>
     (case materialize t [] of (v', H') \<Rightarrow> check H' v'))"

lemma copy_stableD:
  "copy_stable H check \<Longrightarrow> tree_of H n v = Some t \<Longrightarrow> check H v \<Longrightarrow> materialize t [] = (v', H') \<Longrightarrow> check H' v'"
  unfolding copy_stable_def by fastforce

lemma message_frame:
  assumes "heap_ok H" "copy_stable H check"
    and enc: "encodeProtocolMessage check H v options = Inr frame"
    and m: "resolveMaxFrameLength options = Inr m"
  shows "\<exists>bs t n. encodeFrame bs = Inr frame \<and> length bs \<le> m \<and> tree_of H n v = Some t
    \<and> decodeMessage check (limit_or DEFAULT_MAX_FRAME_LENGTH options) bs = Inr t"
proof -
  define M where "M = limit_or DEFAULT_MAX_FRAME_LENGTH options"
  obtain bs where bs: "encodeCbor H v (cbor_limit M) = Inr bs" "encodeFrame bs = Inr frame"
    "assertCompleteFrame frame (Some M) = Inr ()"
    and valid: "isProtocolValue H v False {}" "check H v"
    using enc by (auto simp: encodeProtocolMessage_def parseMessage_def Let_def M_def split: if_splits)
  obtain opts :: resolved_options and t where t: "tree_of H (Suc (maxDepth opts)) v = Some t" "decodeCbor bs (cbor_limit M) = Inr t"
    using encode_decode [OF assms(1) bs(1)] by blast
  obtain v' H' where v': "materialize t [] = (v', H')"
    by fastforce
  have "check H' v'"
    using copy_stableD [OF assms(2) t(1) valid(2) v'] .
  moreover have "isProtocolValue H' v' False {}"
    using isProtocolValue_no_bytes [OF valid(1) t(1)] v' by (rule materialized_valid)
  ultimately have "decodeMessage check M bs = Inr t"
    using t(2) v' by (simp add: decodeMessage_def parseMessage_def)
  moreover have "length bs \<le> m"
    using bs m resolve_limit_or [of options]
    by (auto simp: assertCompleteFrame_def Let_def M_def encodeFrame_bytes FRAME_HEADER_LENGTH_def MAX_UINT32_def
        be32_bytes_def be32_split split: if_splits)
  ultimately show ?thesis
    using bs(2) t(1) unfolding M_def by blast
qed

lemma stream_of_messages:
  assumes "heap_ok H" "copy_stable H check" "resolveMaxFrameLength options = Inr m"
  shows "mapE (\<lambda>v. encodeProtocolMessage check H v options) vs = Inr frames \<Longrightarrow>
    \<exists>bss ts. map encodeFrame bss = map Inr frames \<and> (\<forall>bs\<in>set bss. length bs \<le> m)
      \<and> mapE (decodeMessage check (limit_or DEFAULT_MAX_FRAME_LENGTH options)) bss = Inr ts
      \<and> list_all2 (\<lambda>v t. \<exists>n. tree_of H n v = Some t) vs ts"
proof (induction vs arbitrary: frames)
  case (Cons v vs)
  then obtain f fs where f: "frames = f # fs" "encodeProtocolMessage check H v options = Inr f"
    "mapE (\<lambda>v. encodeProtocolMessage check H v options) vs = Inr fs"
    by auto
  obtain bs t n where 1: "encodeFrame bs = Inr f" "length bs \<le> m" "tree_of H n v = Some t"
    "decodeMessage check (limit_or DEFAULT_MAX_FRAME_LENGTH options) bs = Inr t"
    using message_frame [OF assms(1,2) f(2) assms(3)] by blast
  obtain bss ts where 2: "map encodeFrame bss = map Inr fs" "\<forall>bs\<in>set bss. length bs \<le> m"
    "mapE (decodeMessage check (limit_or DEFAULT_MAX_FRAME_LENGTH options)) bss = Inr ts"
    "list_all2 (\<lambda>v t. \<exists>n. tree_of H n v = Some t) vs ts"
    using Cons.IH [OF f(3)] by blast
  show ?case
    using 1 2 by (intro exI [of _ "bs # bss"] exI [of _ "t # ts"]) (auto simp: f(1))
qed simp

lemma newMessageDecoder_live:
  assumes "newMessageDecoder options = Inr d"
  shows "\<exists>m. resolveMaxFrameLength options = Inr m \<and> fd.live d \<and> md_frames d = new_decoder m
    \<and> md_maxFrameLength d = limit_or DEFAULT_MAX_FRAME_LENGTH options"
  using assms by (auto simp: newMessageDecoder_def newFrameDecoder_def fd.live_def)

section \<open>Properties of the message layer\<close>

text \<open>
  C10. Messages survive the wire: for values whose schema check does not depend on undefined
  properties, a stream of encoded messages, cut into chunks anywhere, is decoded into the trees of
  the values in order, and the decoder then ends without an error.
\<close>

theorem message_roundtrip:
  assumes "heap_ok H" "copy_stable H check" "newMessageDecoder options = Inr d"
    and "mapE (\<lambda>v. encodeProtocolMessage check H v options) vs = Inr frames"
    and "concat chunks = concat frames"
  shows "\<exists>ts d'. feedMessages push check chunks d = Some (Inr ts, d')
    \<and> list_all2 (\<lambda>v t. \<exists>n. tree_of H n v = Some t) vs ts \<and> fst (endMessages end_decoder d') = Inr ()"
proof -
  obtain m where m: "resolveMaxFrameLength options = Inr m" "fd.live d" "md_frames d = new_decoder m"
    "md_maxFrameLength d = limit_or DEFAULT_MAX_FRAME_LENGTH options"
    using newMessageDecoder_live [OF assms(3)] by blast
  obtain bss ts where s: "map encodeFrame bss = map Inr frames" "\<forall>bs\<in>set bss. length bs \<le> m"
    "mapE (decodeMessage check (md_maxFrameLength d)) bss = Inr ts"
    "list_all2 (\<lambda>v t. \<exists>n. tree_of H n v = Some t) vs ts"
    using stream_of_messages [OF assms(1,2) m(1) assms(4)] m(4) by auto
  have sp: "split_frames m (concat chunks) = (bss, [], None)"
    using s(1,2) assms(5) split_frames_encoded [of bss m] by (auto simp: map_encodeFrame_Inr)
  obtain r e where r: "feedMessages push check chunks d = Some (r, e)" "fd.stream_spec check (concat chunks) d r e"
    using fd.feedMessages_spec [OF m(2)] by blast
  then have "r = Inr ts" "fd.live e" "pending (md_frames e) = []"
    using s(3) m(3) sp by (simp_all add: fd.stream_spec_def)
  then show ?thesis
    using r(1) s(4) fd.endMessages_spec by auto
qed

definition ping_heap :: heap where
  "ping_heap = [NObject ObjectPrototype [(js ''type'', VStr (js ''ping'')), (js ''id'', VUndefined)] False]"

definition ping_check :: "heap \<Rightarrow> jsval \<Rightarrow> bool" where
  "ping_check H v = (case v of VRef a \<Rightarrow>
     (case deref H a of Some (NObject p kvs symbols) \<Rightarrow> map_of kvs (js ''type'') = Some (VStr (js ''ping'')) | _ \<Rightarrow> False)
   | _ \<Rightarrow> False)"

definition ping_frame :: "byte list" where
  "ping_frame = [0, 0, 0, 11, 0xA1, 0x64, 0x74, 0x79, 0x70, 0x65, 0x64, 0x70, 0x69, 0x6E, 0x67]"

lemma ping_stable: "copy_stable ping_heap ping_check"
  unfolding copy_stable_def
proof (intro allI impI)
  fix v t n
  assume t: "tree_of ping_heap n v = Some t" and c: "ping_check ping_heap v"
  have v: "v = VRef 0"
    using c by (auto simp: ping_check_def ping_heap_def deref_def split: jsval.splits if_splits)
  obtain k where n: "n = Suc (Suc k)"
    using t v by (cases n; cases "n - 1") (auto simp: ping_heap_def deref_def present_def split: if_splits)
  have "t = CMap [(js ''type'', CText (js ''ping''))]"
    using t by (simp add: v n ping_heap_def deref_def present_def isPlainObject_def)
  then show "case materialize t [] of (v', H') \<Rightarrow> ping_check H' v'"
    by (simp add: ping_check_def deref_def)
qed

lemma ping_valid: "parseMessage ping_check ping_heap (VRef 0) = Inr ()"
  by (simp add: parseMessage_def ping_check_def ping_heap_def deref_def isProtocolValue.simps)

lemmas frame_eval = encodeFrame_def assertCompleteFrame_def resolveMaxFrameLength_def FRAME_HEADER_LENGTH_def
  be32_def ushr_def

lemma ping_encodes:
  "encodeProtocolMessage ping_check ping_heap (VRef 0) (Some (num_of_int 64)) = Inr ping_frame"
  unfolding encodeProtocolMessage_def ping_valid bindE_simps
  by (simp add: cbor_limit_def encode_eval text_eval number_eval writer_eval
      options_eval frame_eval ping_heap_def ping_frame_def DEFAULT_MAX_CBOR_CONTAINER_LENGTH_def
      DEFAULT_MAX_CBOR_DEPTH_def list_eval)

theorem message_roundtrip_witness:
  "\<exists>d ts d'. newMessageDecoder (Some (num_of_int 64)) = Inr d
    \<and> feedMessages push ping_check [take 3 ping_frame, drop 3 ping_frame] d = Some (Inr ts, d')
    \<and> list_all2 (\<lambda>v t. \<exists>n. tree_of ping_heap n v = Some t) [VRef 0] ts"
proof -
  obtain d where d: "newMessageDecoder (Some (num_of_int 64)) = Inr d"
    by (auto simp: newMessageDecoder_def newFrameDecoder_def options_eval frame_eval number_eval)
  have "heap_ok ping_heap"
    by (simp add: heap_ok_def ping_heap_def cu_def)
  from message_roundtrip [OF this ping_stable d, of "[VRef 0]" "[ping_frame]" "[take 3 ping_frame, drop 3 ping_frame]"]
  show ?thesis
    using d by (auto simp: ping_encodes)
qed

text \<open>
  C11. The message decoder is exact and its failures are final: a chunked stream is read to messages
  \<open>ts\<close> with a clean end exactly when it is a sequence of frames within the limit whose payloads decode
  and validate to \<open>ts\<close>; after any error the decoder refuses every later call.
\<close>

theorem message_stream_exact:
  assumes "newMessageDecoder options = Inr d" "resolveMaxFrameLength options = Inr m"
  shows "((\<exists>d'. feedMessages push check chunks d = Some (Inr ts, d') \<and> fst (endMessages end_decoder d') = Inr ()) \<longleftrightarrow>
     (\<exists>bss frames. map encodeFrame bss = map Inr frames \<and> concat chunks = concat frames \<and> (\<forall>bs\<in>set bss. length bs \<le> m)
        \<and> list_all2 (\<lambda>bs t. decodeMessage check (limit_or DEFAULT_MAX_FRAME_LENGTH options) bs = Inr t) bss ts))
   \<and> (\<forall>e d' c. feedMessages push check chunks d = Some (Inl e, d') \<longrightarrow>
        pushMessages push check c d' = Some (Inl MessageDecoderFailed, d')
        \<and> endMessages end_decoder d' = (Inl MessageDecoderFailed, d'))"
proof -
  define M where "M = limit_or DEFAULT_MAX_FRAME_LENGTH options"
  have d: "fd.live d" "md_frames d = new_decoder m" "md_maxFrameLength d = M"
    using newMessageDecoder_live [OF assms(1)] assms(2) by (auto simp: M_def)
  obtain r e where r: "feedMessages push check chunks d = Some (r, e)" "fd.stream_spec check (concat chunks) d r e"
    using fd.feedMessages_spec [OF d(1)] by blast
  obtain fs rest x where sp: "split_frames m (concat chunks) = (fs, rest, x)"
    by (rule prod_cases3)
  have spec: "case x of
      None \<Rightarrow> (case mapE (decodeMessage check M) fs of
             Inr ms \<Rightarrow> r = Inr ms \<and> fd.live e \<and> pending (md_frames e) = rest
           | Inl _ \<Rightarrow> (\<exists>y. r = Inl y) \<and> md_failed e)
    | Some n \<Rightarrow> (\<exists>y. r = Inl y) \<and> md_failed e"
    using r(2) d sp by (auto simp: fd.stream_spec_def split: option.splits sum.splits)
  have "r = Inr ts \<and> fst (endMessages end_decoder e) = Inr () \<longleftrightarrow>
      x = None \<and> rest = [] \<and> mapE (decodeMessage check M) fs = Inr ts"
    using spec fd.endMessages_spec [of e] by (auto split: option.splits sum.splits if_splits)
  moreover have "(x = None \<and> rest = [] \<and> mapE (decodeMessage check M) fs = Inr ts) \<longleftrightarrow>
      (\<exists>bss frames. map encodeFrame bss = map Inr frames \<and> concat chunks = concat frames \<and> (\<forall>bs\<in>set bss. length bs \<le> m)
        \<and> list_all2 (\<lambda>bs t. decodeMessage check M bs = Inr t) bss ts)"
    (is "?l \<longleftrightarrow> ?r")
  proof
    assume ?l
    then show ?r
      using split_frames_inverse [OF sp] map_encodeFrame_Inr [of fs "map (\<lambda>p. be32_bytes (length p) @ p) fs"]
      by (intro exI [of _ fs] exI [of _ "map (\<lambda>p. be32_bytes (length p) @ p) fs"])
        (simp add: mapE_Inr_iff)
  next
    assume ?r
    then show ?l
      using split_frames_encoded [of _ m] sp by (auto simp: map_encodeFrame_Inr mapE_Inr_iff)
  qed
  moreover have "md_failed e" if "r = Inl y" for y
    using spec that by (auto split: option.splits sum.splits)
  ultimately show ?thesis
    unfolding M_def [symmetric] using r(1) fd.failed_sticks [of e] by auto
qed

theorem message_stream_exact_witness:
  "\<exists>d. newMessageDecoder (Some (num_of_int 64)) = Inr d
    \<and> (\<forall>e d'. feedMessages push ping_check [[0, 0], [0, 65]] d = Some (Inl e, d') \<longrightarrow>
         endMessages end_decoder d' = (Inl MessageDecoderFailed, d'))"
proof -
  obtain d where d: "newMessageDecoder (Some (num_of_int 64)) = Inr d"
    by (auto simp: newMessageDecoder_def newFrameDecoder_def options_eval frame_eval number_eval)
  have "resolveMaxFrameLength (Some (num_of_int 64)) = Inr 64"
    by (simp add: options_eval frame_eval number_eval)
  from message_stream_exact [OF d this, of ping_check "[[0, 0], [0, 65]]"] show ?thesis
    using d by blast
qed

text \<open>
  \<open>isProtocolValue\<close> terminates on every heap and accepts only trees of plain data: no object
  reachable from an accepted value lies on a cycle, and each is an array or has the plain prototype.
\<close>

theorem isProtocolValue_safe:
  assumes "isProtocolValue H (VRef a) opt {}" "(a, b) \<in> (edges H)\<^sup>*"
  shows "(b, b) \<notin> (edges H)\<^sup>+ \<and>
    (\<exists>nd. deref H b = Some nd \<and> (case nd of NBytes _ \<Rightarrow> False | NArray _ \<Rightarrow> True
       | NObject p kvs symbols \<Rightarrow> p = ObjectPrototype \<and> (\<forall>(k, v)\<in>set kvs. \<forall>s. v \<noteq> VOther s)))"
proof -
  obtain opt' anc' where "isProtocolValue H (VRef b) opt' anc'"
    using isProtocolValue_reach [OF assms(2,1)] by blast
  then show ?thesis
    using isProtocolValue_acyclic [OF assms]
    using isProtocolValue_node by blast
qed

theorem isProtocolValue_safe_witness:
  "isProtocolValue ping_heap (VRef 0) False {} \<and> (0, 0) \<notin> (edges ping_heap)\<^sup>+"
proof -
  have "isProtocolValue ping_heap (VRef 0) False {}"
    by (simp add: ping_heap_def deref_def isProtocolValue.simps)
  then show ?thesis
    using isProtocolValue_safe [of ping_heap 0 False 0] by simp
qed

end
