(* ===== verification/KeyedQueue.thy ===== *)
theory KeyedQueue
  imports Prelude JsNumber
begin

text \<open>
  The operation queue of the session stores
  (\<open>packages/agent/src/harness/session/keyed-operation-queue.ts\<close>) as a transition system:
  operations of one key run one at a time in order, a barrier runs alone, and at most
  \<open>maxConcurrentOperations\<close> run at once. An operation is its position in the order of the calls.
\<close>

section \<open>The queue\<close>

text \<open>
  \<open>Waiting\<close>: the promises the operation waits for are not all settled; \<open>AwaitsPermit\<close>: its
  \<open>acquirePermit\<close> has pushed a waiter; \<open>Running\<close>; \<open>Done\<close>: settled either way.
\<close>

datatype status = Waiting | AwaitsPermit | Running | Done

record 'k operation =
  op_key :: "'k option"
  op_after :: "nat list"
  op_status :: status

record 'k queue =
  kq_operations :: "'k operation list"
  kq_tails :: "('k \<times> nat) list"
  kq_barrier :: "nat option"
  kq_permitWaiters :: "nat list"
  kq_activeOperations :: nat
  kq_max :: "nat option"

definition newQueue :: "jsnumber option \<Rightarrow> unit + 'k queue" where
  "newQueue maxConcurrentOperations =
     (case maxConcurrentOperations of
        None \<Rightarrow> Inr \<lparr>kq_operations = [], kq_tails = [], kq_barrier = None, kq_permitWaiters = [],
                  kq_activeOperations = 0, kq_max = None\<rparr>
      | Some n \<Rightarrow>
          if \<not> is_integer n \<or> int_of_num n < 1 then Inl ()
          else Inr \<lparr>kq_operations = [], kq_tails = [], kq_barrier = None, kq_permitWaiters = [],
                 kq_activeOperations = 0, kq_max = Some (nat (int_of_num n))\<rparr>)"

text \<open>\<open>Map.set\<close> on the tails.\<close>

definition setTail :: "'k \<Rightarrow> nat \<Rightarrow> ('k \<times> nat) list \<Rightarrow> ('k \<times> nat) list" where
  "setTail k t tails = (k, t) # filter (\<lambda>(k', _). k' \<noteq> k) tails"

definition enqueue :: "'k \<Rightarrow> 'k queue \<Rightarrow> 'k queue" where
  "enqueue k q =
     (let i = length (kq_operations q);
          previous = (case map_of (kq_tails q) k of None \<Rightarrow> [] | Some t \<Rightarrow> [t]);
          barrier = (case kq_barrier q of None \<Rightarrow> [] | Some b \<Rightarrow> [b])
      in q\<lparr>kq_operations := kq_operations q @ [\<lparr>op_key = Some k, op_after = barrier @ previous, op_status = Waiting\<rparr>],
           kq_tails := setTail k i (kq_tails q)\<rparr>)"

definition enqueueBarrier :: "'k queue \<Rightarrow> 'k queue" where
  "enqueueBarrier q =
     (let i = length (kq_operations q);
          barrier = (case kq_barrier q of None \<Rightarrow> [] | Some b \<Rightarrow> [b])
      in q\<lparr>kq_operations := kq_operations q @
             [\<lparr>op_key = None, op_after = barrier @ map snd (kq_tails q), op_status = Waiting\<rparr>],
           kq_barrier := Some i\<rparr>)"

definition status_of :: "'k queue \<Rightarrow> nat \<Rightarrow> status" where
  "status_of q i = op_status (kq_operations q ! i)"

definition set_status :: "nat \<Rightarrow> status \<Rightarrow> 'k queue \<Rightarrow> 'k queue" where
  "set_status i s q = q\<lparr>kq_operations := (kq_operations q)[i := (kq_operations q ! i)\<lparr>op_status := s\<rparr>]\<rparr>"

definition settled :: "'k queue \<Rightarrow> nat \<Rightarrow> bool" where
  "settled q i \<longleftrightarrow> (\<forall>d\<in>set (op_after (kq_operations q ! i)). status_of q d = Done)"

text \<open>\<open>runOperation\<close> up to its operation: \<open>acquirePermit\<close>.\<close>

definition acquirePermit :: "nat \<Rightarrow> 'k queue \<Rightarrow> 'k queue" where
  "acquirePermit i q =
     (case kq_max q of
        None \<Rightarrow> set_status i Running q
      | Some m \<Rightarrow>
          if kq_activeOperations q < m
          then set_status i Running (q\<lparr>kq_activeOperations := kq_activeOperations q + 1\<rparr>)
          else set_status i AwaitsPermit (q\<lparr>kq_permitWaiters := kq_permitWaiters q @ [i]\<rparr>))"

definition releasePermit :: "'k queue \<Rightarrow> 'k queue" where
  "releasePermit q =
     (case kq_max q of
        None \<Rightarrow> q
      | Some m \<Rightarrow>
          (case kq_permitWaiters q of
             [] \<Rightarrow> q\<lparr>kq_activeOperations := kq_activeOperations q - 1\<rparr>
           | next # rest \<Rightarrow> set_status next Running (q\<lparr>kq_permitWaiters := rest\<rparr>)))"

text \<open>The end of \<open>runOperation\<close> and the removal of a tail that is still the last of its key.\<close>

definition finishOperation :: "nat \<Rightarrow> 'k queue \<Rightarrow> 'k queue" where
  "finishOperation i q =
     (let q = releasePermit (set_status i Done q) in
      q\<lparr>kq_tails := filter (\<lambda>(k, t). t \<noteq> i) (kq_tails q)\<rparr>)"

inductive qstep :: "'k queue \<Rightarrow> 'k queue \<Rightarrow> bool" where
  enq: "qstep q (enqueue k q)"
| barrier: "qstep q (enqueueBarrier q)"
| start: "i < length (kq_operations q) \<Longrightarrow> status_of q i = Waiting \<Longrightarrow> settled q i \<Longrightarrow> qstep q (acquirePermit i q)"
| finish: "i < length (kq_operations q) \<Longrightarrow> status_of q i = Running \<Longrightarrow> qstep q (finishOperation i q)"

inductive reachable :: "jsnumber option \<Rightarrow> 'k queue \<Rightarrow> bool" for m where
  init: "newQueue m = Inr q \<Longrightarrow> reachable m q"
| step: "reachable m q \<Longrightarrow> qstep q q' \<Longrightarrow> reachable m q'"

inductive_cases qstepE: "qstep q q'"

section \<open>Order\<close>

definition key_of :: "'k queue \<Rightarrow> nat \<Rightarrow> 'k option" where
  "key_of q i = op_key (kq_operations q ! i)"

text \<open>Operation \<open>i\<close> has to be over before \<open>j\<close> may start.\<close>

definition before :: "'k queue \<Rightarrow> nat \<Rightarrow> nat \<Rightarrow> bool" where
  "before q i j \<longleftrightarrow> i < j \<and> j < length (kq_operations q)
     \<and> (key_of q i = None \<or> key_of q j = None \<or> key_of q i = key_of q j)"

definition tails_ok :: "'k queue \<Rightarrow> bool" where
  "tails_ok q \<longleftrightarrow> distinct (map fst (kq_tails q))
     \<and> (\<forall>(k, t)\<in>set (kq_tails q). t < length (kq_operations q) \<and> key_of q t = Some k
          \<and> (\<forall>i<length (kq_operations q). key_of q i = Some k \<longrightarrow> i \<le> t))
     \<and> (\<forall>i<length (kq_operations q). \<forall>k. key_of q i = Some k \<longrightarrow> k \<notin> fst ` set (kq_tails q) \<longrightarrow> status_of q i = Done)"

definition barrier_ok :: "'k queue \<Rightarrow> bool" where
  "barrier_ok q \<longleftrightarrow>
     (case kq_barrier q of
        None \<Rightarrow> \<forall>i<length (kq_operations q). key_of q i \<noteq> None
      | Some b \<Rightarrow> b < length (kq_operations q) \<and> key_of q b = None
          \<and> (\<forall>i<length (kq_operations q). key_of q i = None \<longrightarrow> i \<le> b))"

definition deps_ok :: "'k queue \<Rightarrow> bool" where
  "deps_ok q \<longleftrightarrow> (\<forall>j<length (kq_operations q). (\<forall>d\<in>set (op_after (kq_operations q ! j)). d < j)
     \<and> (\<forall>i. before q i j \<longrightarrow> status_of q i = Done
          \<or> (\<exists>t\<in>set (op_after (kq_operations q ! j)). i = t \<or> before q i t)))"

definition order_ok :: "'k queue \<Rightarrow> bool" where
  "order_ok q \<longleftrightarrow> (\<forall>i j. before q i j \<longrightarrow> status_of q j \<noteq> Waiting \<longrightarrow> status_of q i = Done)"

definition with_status :: "'k queue \<Rightarrow> status \<Rightarrow> nat set" where
  "with_status q s = {i. i < length (kq_operations q) \<and> status_of q i = s}"

definition permits_ok :: "'k queue \<Rightarrow> bool" where
  "permits_ok q \<longleftrightarrow>
     (case kq_max q of
        None \<Rightarrow> with_status q AwaitsPermit = {} \<and> kq_permitWaiters q = []
      | Some m \<Rightarrow> 1 \<le> m \<and> card (with_status q Running) = kq_activeOperations q \<and> kq_activeOperations q \<le> m
          \<and> distinct (kq_permitWaiters q) \<and> set (kq_permitWaiters q) = with_status q AwaitsPermit
          \<and> (kq_permitWaiters q \<noteq> [] \<longrightarrow> kq_activeOperations q = m))"

definition queue_ok :: "'k queue \<Rightarrow> bool" where
  "queue_ok q \<longleftrightarrow> tails_ok q \<and> barrier_ok q \<and> deps_ok q \<and> order_ok q \<and> permits_ok q"

section \<open>The invariant is preserved\<close>

lemma set_status_simps [simp]:
  "length (kq_operations (set_status i s q)) = length (kq_operations q)"
  "kq_tails (set_status i s q) = kq_tails q" "kq_barrier (set_status i s q) = kq_barrier q"
  "kq_permitWaiters (set_status i s q) = kq_permitWaiters q"
  "kq_activeOperations (set_status i s q) = kq_activeOperations q" "kq_max (set_status i s q) = kq_max q"
  by (simp_all add: set_status_def)

lemma set_status_status:
  "i < length (kq_operations q) \<Longrightarrow> status_of (set_status i s q) j = (if j = i then s else status_of q j)"
  by (simp add: set_status_def status_of_def nth_list_update)

lemma set_status_key: "key_of (set_status i s q) j = key_of q j"
  by (cases "i < length (kq_operations q)")
    (simp_all add: set_status_def key_of_def nth_list_update not_less list_update_beyond)

lemma set_status_after: "op_after (kq_operations (set_status i s q) ! j) = op_after (kq_operations q ! j)"
  by (cases "i < length (kq_operations q)") (simp_all add: set_status_def nth_list_update not_less list_update_beyond)

lemmas set_status_nth = set_status_status set_status_key set_status_after

text \<open>A step that adds no operation, and keeps what is done.\<close>

definition advances :: "'k queue \<Rightarrow> 'k queue \<Rightarrow> bool" where
  "advances q q' \<longleftrightarrow> length (kq_operations q') = length (kq_operations q) \<and> kq_barrier q' = kq_barrier q
     \<and> kq_max q' = kq_max q
     \<and> (\<forall>i. key_of q' i = key_of q i \<and> op_after (kq_operations q' ! i) = op_after (kq_operations q ! i)
          \<and> (i < length (kq_operations q) \<longrightarrow> status_of q i = Done \<longrightarrow> status_of q' i = Done))"

lemma advances_before: "advances q q' \<Longrightarrow> before q' i j \<longleftrightarrow> before q i j"
  by (simp add: advances_def before_def)

lemma advances_barrier: "advances q q' \<Longrightarrow> barrier_ok q \<Longrightarrow> barrier_ok q'"
  by (simp add: advances_def barrier_ok_def split: option.splits)

lemma advances_deps: "advances q q' \<Longrightarrow> deps_ok q \<Longrightarrow> deps_ok q'"
  unfolding deps_ok_def
proof (intro allI impI conjI ballI)
  fix j d
  assume "advances q q'" "\<forall>j<length (kq_operations q). (\<forall>d\<in>set (op_after (kq_operations q ! j)). d < j)
     \<and> (\<forall>i. before q i j \<longrightarrow> status_of q i = Done
          \<or> (\<exists>t\<in>set (op_after (kq_operations q ! j)). i = t \<or> before q i t))"
    "j < length (kq_operations q')" "d \<in> set (op_after (kq_operations q' ! j))"
  then show "d < j"
    by (simp add: advances_def)
next
  fix j i
  assume a: "advances q q'" and d: "\<forall>j<length (kq_operations q). (\<forall>d\<in>set (op_after (kq_operations q ! j)). d < j)
     \<and> (\<forall>i. before q i j \<longrightarrow> status_of q i = Done
          \<or> (\<exists>t\<in>set (op_after (kq_operations q ! j)). i = t \<or> before q i t))"
    and j: "j < length (kq_operations q')" and b: "before q' i j"
  have b': "before q i j"
    using b advances_before [OF a] by simp
  then have "i < length (kq_operations q)" "j < length (kq_operations q)"
    by (auto simp: before_def)
  then show "status_of q' i = Done \<or> (\<exists>t\<in>set (op_after (kq_operations q' ! j)). i = t \<or> before q' i t)"
    using d b' a unfolding advances_before [OF a] by (auto simp: advances_def)
qed

lemma advances_order:
  assumes "advances q q'" "order_ok q"
    and "\<And>j. j < length (kq_operations q) \<Longrightarrow> status_of q j = Waiting \<Longrightarrow> status_of q' j \<noteq> Waiting \<Longrightarrow>
      settled q j \<and> deps_ok q"
  shows "order_ok q'"
  unfolding order_ok_def
proof (intro allI impI)
  fix i j
  assume "before q' i j" and nw: "status_of q' j \<noteq> Waiting"
  then have b: "before q i j"
    using advances_before [OF assms(1)] by simp
  then have ij: "i < length (kq_operations q)" "j < length (kq_operations q)"
    by (auto simp: before_def)
  have "status_of q i = Done"
  proof (cases "status_of q j = Waiting")
    case False
    then show ?thesis
      using assms(2) b by (auto simp: order_ok_def)
  next
    case True
    then have s: "settled q j" "deps_ok q"
      using assms(3) [OF ij(2) _ nw] by simp_all
    then consider "status_of q i = Done" | t where "t \<in> set (op_after (kq_operations q ! j))" "i = t \<or> before q i t"
      using b ij unfolding deps_ok_def by blast
    then show ?thesis
    proof cases
      case 2
      then have "status_of q t = Done"
        using s(1) by (simp add: settled_def)
      then show ?thesis
        using 2(2) assms(2) by (auto simp: order_ok_def)
    qed
  qed
  then show "status_of q' i = Done"
    using assms(1) ij by (simp add: advances_def)
qed

lemma advances_tails: "advances q q' \<Longrightarrow> kq_tails q' = kq_tails q \<Longrightarrow> tails_ok q \<Longrightarrow> tails_ok q'"
  by (simp add: advances_def tails_ok_def)

lemma with_status_set:
  assumes "i < length (kq_operations q)"
  shows "with_status (set_status i s q) t = (if s = t then insert i (with_status q t) else with_status q t - {i})"
  using assms by (auto simp: with_status_def set_status_nth)

lemma with_status_upd [simp]:
  "with_status (q\<lparr>kq_activeOperations := a\<rparr>) s = with_status q s"
  "with_status (q\<lparr>kq_permitWaiters := w\<rparr>) s = with_status q s"
  "with_status (q\<lparr>kq_tails := t\<rparr>) s = with_status q s"
  by (simp_all add: with_status_def status_of_def)

lemma finite_with_status [simp]: "finite (with_status q s)"
  by (simp add: with_status_def)

lemma acquire_advances:
  "i < length (kq_operations q) \<Longrightarrow> status_of q i \<noteq> Done \<Longrightarrow> advances q (acquirePermit i q)"
  by (auto simp: acquirePermit_def advances_def set_status_def status_of_def key_of_def nth_list_update split: option.split)

lemma acquire_permits:
  assumes "permits_ok q" "i < length (kq_operations q)" "status_of q i = Waiting"
  shows "permits_ok (acquirePermit i q)"
proof -
  have i: "i \<notin> with_status q Running" "i \<notin> with_status q AwaitsPermit"
    using assms(3) by (simp_all add: with_status_def)
  have w: "\<And>f s t. with_status (set_status i s (q\<lparr>kq_activeOperations := f\<rparr>)) t = with_status (set_status i s q) t"
    "\<And>f s t. with_status (set_status i s (q\<lparr>kq_permitWaiters := f\<rparr>)) t = with_status (set_status i s q) t"
    by (auto simp: with_status_def set_status_def status_of_def)
  show ?thesis
    using assms(1,2) i
    by (auto simp: permits_ok_def acquirePermit_def w with_status_set split: option.splits)
qed

lemma acquire_ok:
  assumes "queue_ok q" "i < length (kq_operations q)" "status_of q i = Waiting" "settled q i"
  shows "queue_ok (acquirePermit i q)"
proof -
  have a: "advances q (acquirePermit i q)"
    using assms by (intro acquire_advances) simp_all
  have "kq_tails (acquirePermit i q) = kq_tails q"
    by (simp add: acquirePermit_def split: option.split)
  moreover have "j = i" if "status_of q j = Waiting" "status_of (acquirePermit i q) j \<noteq> Waiting" for j
    using that assms(2)
    by (auto simp: acquirePermit_def set_status_def status_of_def nth_list_update split: option.splits if_splits)
  then have "order_ok (acquirePermit i q)"
    using assms by (intro advances_order [OF a]) (auto simp: queue_ok_def)
  ultimately show ?thesis
    using assms advances_tails [OF a] advances_barrier [OF a] advances_deps [OF a] acquire_permits [OF _ assms(2,3)]
    by (simp add: queue_ok_def)
qed

lemma release_facts:
  assumes "\<forall>n\<in>set (kq_permitWaiters q). n < length (kq_operations q) \<and> status_of q n = AwaitsPermit"
  shows "advances q (releasePermit q)"
    and "status_of (releasePermit q) j \<noteq> status_of q j \<Longrightarrow> status_of q j = AwaitsPermit"
    and "kq_tails (releasePermit q) = kq_tails q"
proof -
  have n: "n < length (kq_operations q)" "status_of q n = AwaitsPermit" if "kq_permitWaiters q = n # rest" for n rest
    using assms that by auto
  have s: "status_of (set_status n Running (q\<lparr>kq_permitWaiters := rest\<rparr>)) k = (if k = n then Running else status_of q k)"
    if "kq_permitWaiters q = n # rest" for n rest k
    using n [OF that] by (simp add: set_status_def status_of_def nth_list_update)
  have k: "key_of (set_status n x (q\<lparr>kq_permitWaiters := rest\<rparr>)) l = key_of q l"
    "op_after (kq_operations (set_status n x (q\<lparr>kq_permitWaiters := rest\<rparr>)) ! l) = op_after (kq_operations q ! l)" for n x rest l
    by (simp_all add: set_status_key set_status_after) (simp add: key_of_def)
  show "advances q (releasePermit q)"
    using n by (auto simp: releasePermit_def advances_def s k status_of_def [of "q\<lparr>kq_activeOperations := _\<rparr>"]
        key_of_def [of "q\<lparr>kq_activeOperations := _\<rparr>"] status_of_def [of q] key_of_def [of q] split: option.split list.split)
  show "status_of q j = AwaitsPermit" if "status_of (releasePermit q) j \<noteq> status_of q j"
    using that n by (auto simp: releasePermit_def s status_of_def [of "q\<lparr>kq_activeOperations := _\<rparr>"] status_of_def [of q]
        split: option.splits list.splits if_splits)
  show "kq_tails (releasePermit q) = kq_tails q"
    by (simp add: releasePermit_def split: option.split list.split)
qed

lemma finish_permits:
  assumes "permits_ok q" "i < length (kq_operations q)" "status_of q i = Running"
  shows "permits_ok (releasePermit (set_status i Done q))"
proof (cases "kq_max q")
  case None
  then show ?thesis
    using assms by (simp add: permits_ok_def releasePermit_def with_status_set)
next
  case (Some m)
  have iR: "i \<in> with_status q Running" "i \<notin> with_status q AwaitsPermit"
    using assms(2,3) by (simp_all add: with_status_def)
  have p: "1 \<le> m" "card (with_status q Running) = kq_activeOperations q" "kq_activeOperations q \<le> m"
    "distinct (kq_permitWaiters q)" "set (kq_permitWaiters q) = with_status q AwaitsPermit"
    "kq_permitWaiters q \<noteq> [] \<longrightarrow> kq_activeOperations q = m"
    using assms(1) Some by (simp_all add: permits_ok_def)
  show ?thesis
  proof (cases "kq_permitWaiters q")
    case Nil
    then show ?thesis
      using Some p iR assms(2) by (auto simp: permits_ok_def releasePermit_def with_status_set card_Diff_singleton)
  next
    case (Cons n rest)
    have n: "n \<in> with_status q AwaitsPermit" "n \<notin> set rest" "set rest = with_status q AwaitsPermit - {n}"
      using p(4,5) Cons by auto
    then have nl: "n < length (kq_operations q)" "n \<notin> with_status q Running"
      by (auto simp: with_status_def)
    have w: "with_status (set_status n Running (set_status i Done q\<lparr>kq_permitWaiters := rest\<rparr>)) t
        = with_status (set_status n Running (set_status i Done q)) t" for t
      by (auto simp: with_status_def set_status_def status_of_def)
    have c: "card (insert n (with_status q Running - {i})) = kq_activeOperations q"
    proof -
      have "card (insert n (with_status q Running - {i})) = Suc (card (with_status q Running - {i}))"
        using nl(2) by (intro card_insert_disjoint) auto
      also have "\<dots> = card (with_status q Running)"
        by (rule card.remove [OF finite_with_status iR(1), symmetric])
      finally show ?thesis
        using p(2) by simp
    qed
    have rel: "releasePermit (set_status i Done q) = set_status n Running (set_status i Done q\<lparr>kq_permitWaiters := rest\<rparr>)"
      using Some Cons by (simp add: releasePermit_def)
    have "with_status (releasePermit (set_status i Done q)) Running = insert n (with_status q Running - {i})"
      "with_status (releasePermit (set_status i Done q)) AwaitsPermit = with_status q AwaitsPermit - {n}"
      using iR nl assms(2) unfolding rel w by (auto simp: with_status_set)
    moreover have "kq_max (releasePermit (set_status i Done q)) = Some m"
      "kq_activeOperations (releasePermit (set_status i Done q)) = kq_activeOperations q"
      "kq_permitWaiters (releasePermit (set_status i Done q)) = rest"
      using Some unfolding rel by simp_all
    ultimately show ?thesis
      using p c n(3) Cons by (simp add: permits_ok_def)
  qed
qed

lemma permits_waiters:
  "permits_ok q \<Longrightarrow> n \<in> set (kq_permitWaiters q) \<Longrightarrow> n < length (kq_operations q) \<and> status_of q n = AwaitsPermit"
  by (auto simp: permits_ok_def with_status_def split: option.splits)

lemma finish_ok:
  assumes q: "queue_ok q" and i: "i < length (kq_operations q)" "status_of q i = Running"
  shows "queue_ok (finishOperation i q)"
proof -
  define q1 where "q1 = set_status i Done q"
  define q2 where "q2 = releasePermit q1"
  define q3 where "q3 = finishOperation i q"
  have q3: "q3 = q2\<lparr>kq_tails := filter (\<lambda>(k, t). t \<noteq> i) (kq_tails q2)\<rparr>"
    by (simp add: q3_def q2_def q1_def finishOperation_def Let_def)
  have w: "\<forall>n\<in>set (kq_permitWaiters q1). n < length (kq_operations q1) \<and> status_of q1 n = AwaitsPermit"
    using permits_waiters [of q] q i by (auto simp: queue_ok_def q1_def set_status_nth)
  have q2: "advances q1 q2" "kq_tails q2 = kq_tails q" "\<And>j. status_of q2 j \<noteq> status_of q1 j \<Longrightarrow> status_of q1 j = AwaitsPermit"
    using release_facts [OF w] by (simp_all add: q2_def) (simp add: q1_def)
  have a: "advances q q3"
    using q2(1) i by (auto simp: advances_def q1_def set_status_nth q3 status_of_def [of "q2\<lparr>kq_tails := _\<rparr>"]
        key_of_def [of "q2\<lparr>kq_tails := _\<rparr>"] status_of_def [of q2] key_of_def [of q2])
  have st: "status_of q3 j = status_of q2 j" for j
    by (simp add: q3 status_of_def)
  have over: "status_of q3 i = Done"
    using q2(3) [of i] i by (auto simp: st q1_def set_status_nth)
  have "order_ok q3"
  proof (rule advances_order [OF a])
    fix j
    assume "status_of q j = Waiting" "status_of q3 j \<noteq> Waiting"
    then show "settled q j \<and> deps_ok q"
      using q2(3) [of j] i by (cases "j = i") (auto simp: st q1_def set_status_nth)
  qed (use q in \<open>simp add: queue_ok_def\<close>)
  moreover have "permits_ok q3"
    using finish_permits [OF _ i] q
    by (simp add: queue_ok_def q3 q2_def q1_def permits_ok_def split: option.splits)
  moreover have "tails_ok q3"
  proof -
    have t: "tails_ok q" "order_ok q"
      using q by (simp_all add: queue_ok_def)
    have tails: "kq_tails q3 = filter (\<lambda>(k, t). t \<noteq> i) (kq_tails q)"
      by (simp add: q3 q2(2))
    have len: "length (kq_operations q3) = length (kq_operations q)" "\<And>j. key_of q3 j = key_of q j"
      "\<And>j. j < length (kq_operations q) \<Longrightarrow> status_of q j = Done \<Longrightarrow> status_of q3 j = Done"
      using a by (simp_all add: advances_def)
    have "status_of q3 j = Done"
      if j: "j < length (kq_operations q)" "key_of q j = Some k" "k \<notin> fst ` set (kq_tails q3)" for j k
    proof (cases "k \<in> fst ` set (kq_tails q)")
      case False
      then show ?thesis
        using t(1) j len(3) unfolding tails_ok_def by blast
    next
      case True
      then obtain t' where t': "(k, t') \<in> set (kq_tails q)"
        by auto
      then have "t' = i"
        using j(3) by (force simp: tails)
      then have "key_of q i = Some k" "j \<le> i"
        using t(1) t' j(1,2) unfolding tails_ok_def by blast+
      then have "j = i \<or> before q j i"
        using i(1) j(2) by (auto simp: before_def)
      then show ?thesis
        using t(2) i(2) j(1) len(3) over by (auto simp: order_ok_def)
    qed
    moreover have "distinct (map fst (kq_tails q3))"
      using t(1) by (simp add: tails tails_ok_def distinct_map_filter)
    ultimately show ?thesis
      using t(1) by (auto simp: tails_ok_def tails len(1,2))
  qed
  ultimately show ?thesis
    using advances_barrier [OF a] advances_deps [OF a] q unfolding q3_def by (simp add: queue_ok_def)
qed

text \<open>Adding an operation at the end.\<close>

lemma enqueue_order:
  assumes "length (kq_operations q') = Suc (length (kq_operations q))"
    and "\<And>j. j < length (kq_operations q) \<Longrightarrow> kq_operations q' ! j = kq_operations q ! j"
    and "status_of q' (length (kq_operations q)) = Waiting"
  shows "order_ok q \<Longrightarrow> order_ok q'"
    and "j < length (kq_operations q) \<Longrightarrow> before q' i j \<longleftrightarrow> before q i j"
proof -
  show b: "before q' i j \<longleftrightarrow> before q i j" if "j < length (kq_operations q)" for i j
    using assms that by (auto simp: before_def key_of_def)
  show "order_ok q'" if o: "order_ok q"
    unfolding order_ok_def
  proof (intro allI impI)
    fix i j
    assume x: "before q' i j" "status_of q' j \<noteq> Waiting"
    then have "j < length (kq_operations q)"
      using assms(1,3) by (auto simp: before_def less_Suc_eq)
    with x show "status_of q' i = Done"
      using o b assms(2) by (auto simp: order_ok_def status_of_def before_def)
  qed
qed

lemma enqueue_deps:
  assumes len: "length (kq_operations q') = Suc (length (kq_operations q))"
    and old: "\<And>j. j < length (kq_operations q) \<Longrightarrow> kq_operations q' ! j = kq_operations q ! j"
    and new: "status_of q' (length (kq_operations q)) = Waiting"
    and q: "deps_ok q"
    and dep: "\<And>d. d \<in> set (op_after (kq_operations q' ! length (kq_operations q))) \<Longrightarrow> d < length (kq_operations q)"
    and cover: "\<And>i. before q' i (length (kq_operations q)) \<Longrightarrow> status_of q i = Done
       \<or> (\<exists>t\<in>set (op_after (kq_operations q' ! length (kq_operations q))). i = t \<or> before q i t)"
  shows "deps_ok q'"
  unfolding deps_ok_def
proof (intro allI impI)
  fix j
  assume j: "j < length (kq_operations q')"
  have b: "before q' i t \<longleftrightarrow> before q i t" if "t < length (kq_operations q)" for i t
    using enqueue_order(2) [OF len old new that] by simp
  have st: "status_of q' i = status_of q i" if "i < length (kq_operations q)" for i
    using old that by (simp add: status_of_def)
  have lt: "i < length (kq_operations q)" if "before q' i j" for i
    using that j len by (auto simp: before_def)
  show "(\<forall>d\<in>set (op_after (kq_operations q' ! j)). d < j)
     \<and> (\<forall>i. before q' i j \<longrightarrow> status_of q' i = Done
          \<or> (\<exists>t\<in>set (op_after (kq_operations q' ! j)). i = t \<or> before q' i t))"
  proof (cases "j < length (kq_operations q)")
    case True
    have d: "\<forall>d\<in>set (op_after (kq_operations q' ! j)). d < j"
      using q True old by (simp add: deps_ok_def)
    have "status_of q' i = Done \<or> (\<exists>t\<in>set (op_after (kq_operations q' ! j)). i = t \<or> before q' i t)"
      if "before q' i j" for i
    proof -
      have "before q i j"
        using that b [OF True] by simp
      then have "status_of q i = Done \<or> (\<exists>t\<in>set (op_after (kq_operations q' ! j)). i = t \<or> before q i t)"
        using q True old by (simp add: deps_ok_def)
      moreover have "before q i t \<longleftrightarrow> before q' i t" if "t \<in> set (op_after (kq_operations q' ! j))" for t
        using d that True by (intro b [symmetric]) auto
      ultimately show ?thesis
        using st lt [OF that] by auto
    qed
    with d show ?thesis by blast
  next
    case False
    then have j: "j = length (kq_operations q)"
      using j len by simp
    have "status_of q' i = Done \<or> (\<exists>t\<in>set (op_after (kq_operations q' ! j)). i = t \<or> before q' i t)"
      if i: "before q' i j" for i
      using cover [of i] i st [OF lt [OF i]] b dep unfolding j by metis
    then show ?thesis
      using dep unfolding j by blast
  qed
qed

lemma nth_snoc_old: "j < length xs \<Longrightarrow> (xs @ [x]) ! j = xs ! j"
  by (simp add: nth_append)

lemma enqueue_permits:
  assumes "length (kq_operations q') = Suc (length (kq_operations q))"
    and "\<And>j. j < length (kq_operations q) \<Longrightarrow> kq_operations q' ! j = kq_operations q ! j"
    and "status_of q' (length (kq_operations q)) = Waiting"
    and "kq_max q' = kq_max q" "kq_permitWaiters q' = kq_permitWaiters q" "kq_activeOperations q' = kq_activeOperations q"
    and "permits_ok q"
  shows "permits_ok q'"
proof -
  have "with_status q' s = with_status q s" if "s \<noteq> Waiting" for s
    using assms(1-3) that by (auto simp: with_status_def less_Suc_eq status_of_def)
  then show ?thesis
    using assms(4-7) by (simp add: permits_ok_def split: option.splits)
qed

lemma map_of_setTail: "map_of (setTail k t tails) k' = (if k' = k then Some t else map_of tails k')"
  by (induction tails) (auto simp: setTail_def)

lemma tails_lookup:
  assumes "tails_ok q" "map_of (kq_tails q) k = Some t"
  shows "t < length (kq_operations q)" "key_of q t = Some k"
    "i < length (kq_operations q) \<Longrightarrow> key_of q i = Some k \<Longrightarrow> i \<le> t"
  using assms map_of_SomeD [OF assms(2)] unfolding tails_ok_def by blast+

lemma tails_no_lookup:
  assumes "tails_ok q" "map_of (kq_tails q) k = None" "i < length (kq_operations q)" "key_of q i = Some k"
  shows "status_of q i = Done"
  using assms unfolding tails_ok_def map_of_eq_None_iff by blast

lemma barrier_covers:
  assumes "barrier_ok q" "i < length (kq_operations q)" "key_of q i = None"
  shows "\<exists>b. kq_barrier q = Some b \<and> (i = b \<or> before q i b)"
  using assms by (auto simp: barrier_ok_def before_def split: option.splits)

lemma key_covers:
  assumes "tails_ok q" "i < length (kq_operations q)" "key_of q i = Some k"
  shows "status_of q i = Done \<or> (\<exists>t. map_of (kq_tails q) k = Some t \<and> (i = t \<or> before q i t))"
proof (cases "map_of (kq_tails q) k")
  case None
  then show ?thesis
    using tails_no_lookup [OF assms(1) None assms(2,3)] by simp
next
  case (Some t)
  then show ?thesis
    using tails_lookup(1,2) [OF assms(1) Some] tails_lookup(3) [OF assms(1) Some assms(2,3)] assms(2,3)
    by (auto simp: before_def)
qed

lemma enqueue_ok:
  assumes "queue_ok q"
  shows "queue_ok (enqueue k q)"
proof -
  define n where "n = length (kq_operations q)"
  define q' where "q' = enqueue k q"
  have len: "length (kq_operations q') = Suc n"
    by (simp add: q'_def n_def enqueue_def Let_def)
  have old: "kq_operations q' ! j = kq_operations q ! j" if "j < n" for j
    using that by (simp add: q'_def n_def enqueue_def Let_def nth_append)
  have op: "kq_operations q' ! n = \<lparr>op_key = Some k,
      op_after = (case kq_barrier q of None \<Rightarrow> [] | Some b \<Rightarrow> [b]) @ (case map_of (kq_tails q) k of None \<Rightarrow> [] | Some t \<Rightarrow> [t]),
      op_status = Waiting\<rparr>"
    by (simp add: q'_def n_def enqueue_def Let_def nth_append)
  have new: "status_of q' n = Waiting" "key_of q' n = Some k"
    by (simp_all add: status_of_def key_of_def op)
  have st: "status_of q' j = status_of q j" "key_of q' j = key_of q j" if "j < n" for j
    using old [OF that] by (simp_all add: status_of_def key_of_def)
  have q: "tails_ok q" "barrier_ok q" "deps_ok q" "order_ok q" "permits_ok q"
    using assms by (simp_all add: queue_ok_def)
  have keep: "kq_barrier q' = kq_barrier q" "kq_max q' = kq_max q" "kq_permitWaiters q' = kq_permitWaiters q"
    "kq_activeOperations q' = kq_activeOperations q" "kq_tails q' = setTail k n (kq_tails q)"
    by (simp_all add: q'_def enqueue_def Let_def n_def)
  have "deps_ok q'"
  proof (rule enqueue_deps [of q' q])
    show "d < length (kq_operations q)" if "d \<in> set (op_after (kq_operations q' ! length (kq_operations q)))" for d
      using that tails_lookup(1) [OF q(1)] q(2)
      by (auto simp: op [unfolded n_def] barrier_ok_def split: option.splits)
  next
    fix i
    assume "before q' i (length (kq_operations q))"
    then have i: "i < n" "key_of q i = None \<or> key_of q i = Some k"
      using st new by (auto simp: before_def n_def)
    then show "status_of q i = Done
       \<or> (\<exists>t\<in>set (op_after (kq_operations q' ! length (kq_operations q))). i = t \<or> before q i t)"
      using barrier_covers [OF q(2)] key_covers [OF q(1)]
      by (fastforce simp: op [unfolded n_def] n_def)
  qed (use len old new q(3) in \<open>simp_all add: n_def\<close>)
  moreover have "order_ok q'"
    using enqueue_order(1) [of q' q] len old new q(4) by (simp add: n_def)
  moreover have "permits_ok q'"
    using enqueue_permits [of q' q] len old new q(5) keep by (simp add: n_def)
  moreover have "barrier_ok q'"
    using q(2) new st unfolding barrier_ok_def keep len
    by (auto simp: n_def less_Suc_eq split: option.splits)
  moreover have "tails_ok q'"
    unfolding tails_ok_def len keep
  proof (intro conjI allI impI)
    show "distinct (map fst (setTail k n (kq_tails q)))"
      using q(1) by (auto simp: tails_ok_def setTail_def distinct_map_filter)
    show "\<forall>(k', t)\<in>set (setTail k n (kq_tails q)). t < Suc n \<and> key_of q' t = Some k'
        \<and> (\<forall>i<Suc n. key_of q' i = Some k' \<longrightarrow> i \<le> t)"
      using q(1) st new by (fastforce simp: tails_ok_def setTail_def n_def less_Suc_eq)
    fix i k'
    assume "i < Suc n" "key_of q' i = Some k'" "k' \<notin> fst ` set (setTail k n (kq_tails q))"
    then have "i < n" "key_of q i = Some k'" "k' \<notin> fst ` set (kq_tails q)"
      using new st by (auto simp: setTail_def less_Suc_eq image_iff)
    then show "status_of q' i = Done"
      using q(1) st by (auto simp: tails_ok_def n_def)
  qed
  ultimately show ?thesis
    by (simp add: queue_ok_def q'_def)
qed

lemma enqueueBarrier_ok:
  assumes "queue_ok q"
  shows "queue_ok (enqueueBarrier q)"
proof -
  define n where "n = length (kq_operations q)"
  define q' where "q' = enqueueBarrier q"
  have len: "length (kq_operations q') = Suc n"
    by (simp add: q'_def n_def enqueueBarrier_def Let_def)
  have old: "kq_operations q' ! j = kq_operations q ! j" if "j < n" for j
    using that by (simp add: q'_def n_def enqueueBarrier_def Let_def nth_append)
  have op: "kq_operations q' ! n = \<lparr>op_key = None,
      op_after = (case kq_barrier q of None \<Rightarrow> [] | Some b \<Rightarrow> [b]) @ map snd (kq_tails q), op_status = Waiting\<rparr>"
    by (simp add: q'_def n_def enqueueBarrier_def Let_def nth_append)
  have new: "status_of q' n = Waiting" "key_of q' n = None"
    by (simp_all add: status_of_def key_of_def op)
  have st: "status_of q' j = status_of q j" "key_of q' j = key_of q j" if "j < n" for j
    using old [OF that] by (simp_all add: status_of_def key_of_def)
  have q: "tails_ok q" "barrier_ok q" "deps_ok q" "order_ok q" "permits_ok q"
    using assms by (simp_all add: queue_ok_def)
  have keep: "kq_barrier q' = Some n" "kq_max q' = kq_max q" "kq_permitWaiters q' = kq_permitWaiters q"
    "kq_activeOperations q' = kq_activeOperations q" "kq_tails q' = kq_tails q"
    by (simp_all add: q'_def enqueueBarrier_def Let_def n_def)
  have "deps_ok q'"
  proof (rule enqueue_deps [of q' q])
    show "d < length (kq_operations q)" if "d \<in> set (op_after (kq_operations q' ! length (kq_operations q)))" for d
      using that q(1,2)
      by (auto simp: op [unfolded n_def] barrier_ok_def tails_ok_def split: option.splits)
  next
    fix i
    assume "before q' i (length (kq_operations q))"
    then have i: "i < n"
      by (simp add: before_def n_def)
    show "status_of q i = Done
       \<or> (\<exists>t\<in>set (op_after (kq_operations q' ! length (kq_operations q))). i = t \<or> before q i t)"
    proof (cases "key_of q i")
      case None
      then show ?thesis
        using barrier_covers [OF q(2) _ None] i by (force simp: op [unfolded n_def] n_def)
    next
      case (Some k)
      then consider "status_of q i = Done" | t where "map_of (kq_tails q) k = Some t" "i = t \<or> before q i t"
        using key_covers [OF q(1) _ Some] i by (auto simp: n_def)
      then show ?thesis
        by cases (auto simp: op [unfolded n_def] n_def dest!: map_of_SomeD intro!: bexI [rotated] image_eqI)
    qed
  qed (use len old new q(3) in \<open>simp_all add: n_def\<close>)
  moreover have "order_ok q'"
    using enqueue_order(1) [of q' q] len old new q(4) by (simp add: n_def)
  moreover have "permits_ok q'"
    using enqueue_permits [of q' q] len old new q(5) keep by (simp add: n_def)
  moreover have "barrier_ok q'"
    using new by (simp add: barrier_ok_def keep len)
  moreover have "tails_ok q'"
    unfolding tails_ok_def len keep
  proof (intro conjI allI impI)
    show "distinct (map fst (kq_tails q))"
      using q(1) by (simp add: tails_ok_def)
    show "\<forall>(k, t)\<in>set (kq_tails q). t < Suc n \<and> key_of q' t = Some k
        \<and> (\<forall>i<Suc n. key_of q' i = Some k \<longrightarrow> i \<le> t)"
      using q(1) st new by (fastforce simp: tails_ok_def n_def less_Suc_eq)
    fix i k
    assume "i < Suc n" "key_of q' i = Some k" "k \<notin> fst ` set (kq_tails q)"
    then have "i < n" "key_of q i = Some k" "k \<notin> fst ` set (kq_tails q)"
      using new st by (auto simp: less_Suc_eq)
    then show "status_of q' i = Done"
      using q(1) st by (auto simp: tails_ok_def n_def)
  qed
  ultimately show ?thesis
    by (simp add: queue_ok_def q'_def)
qed

lemma newQueue_ok: "newQueue m = Inr q \<Longrightarrow> queue_ok q"
  by (auto simp: newQueue_def queue_ok_def tails_ok_def barrier_ok_def deps_ok_def order_ok_def permits_ok_def
      before_def with_status_def split: option.splits if_splits)

lemma qstep_ok: "qstep q q' \<Longrightarrow> queue_ok q \<Longrightarrow> queue_ok q'"
  by (elim qstepE) (simp_all add: enqueue_ok enqueueBarrier_ok acquire_ok finish_ok)

lemma reachable_ok: "reachable m q \<Longrightarrow> queue_ok q"
  by (induction rule: reachable.induct) (auto intro: newQueue_ok qstep_ok)

section \<open>Properties of the queue\<close>

definition empty_queue :: "nat queue" where
  "empty_queue = \<lparr>kq_operations = [], kq_tails = [], kq_barrier = None, kq_permitWaiters = [],
     kq_activeOperations = 0, kq_max = None\<rparr>"

definition sample_queue :: "nat queue" where
  "sample_queue = acquirePermit 0 (enqueue 7 (enqueue 7 empty_queue))"

lemmas queue_eval = sample_queue_def empty_queue_def acquirePermit_def enqueue_def set_status_def setTail_def

lemma sample_queue_reachable: "reachable None sample_queue"
proof -
  have "reachable None empty_queue"
    by (rule reachable.init) (simp add: newQueue_def empty_queue_def)
  then have "reachable None (enqueue 7 (enqueue 7 empty_queue))"
    by (intro reachable.step [OF _ qstep.enq]) simp_all
  then show ?thesis
    unfolding sample_queue_def
    by (rule reachable.step) (rule qstep.start, simp_all add: queue_eval status_of_def settled_def)
qed

text \<open>
  C18. Mutual exclusion and order: in every reachable state, an operation that has started waits for no
  unfinished earlier operation of its key and for no unfinished earlier barrier (a barrier, for no
  unfinished earlier operation at all); so two running operations have different keys and neither is a
  barrier, and at most \<open>maxConcurrentOperations\<close> operations run.
\<close>

theorem queue_exclusion:
  assumes "reachable m q"
  shows "(\<forall>i j. before q i j \<longrightarrow> status_of q j \<noteq> Waiting \<longrightarrow> status_of q i = Done)
    \<and> (\<forall>i j. i \<in> with_status q Running \<longrightarrow> j \<in> with_status q Running \<longrightarrow> i \<noteq> j \<longrightarrow>
         key_of q i \<noteq> None \<and> key_of q j \<noteq> None \<and> key_of q i \<noteq> key_of q j)
    \<and> (\<forall>n. kq_max q = Some n \<longrightarrow> card (with_status q Running) \<le> n)"
proof -
  have q: "order_ok q" "permits_ok q"
    using reachable_ok [OF assms] by (simp_all add: queue_ok_def)
  have "key_of q i \<noteq> None \<and> key_of q j \<noteq> None \<and> key_of q i \<noteq> key_of q j"
    if "i < j" "i \<in> with_status q Running" "j \<in> with_status q Running" for i j
  proof (rule ccontr)
    assume "\<not> (key_of q i \<noteq> None \<and> key_of q j \<noteq> None \<and> key_of q i \<noteq> key_of q j)"
    then have "before q i j"
      using that by (auto simp: before_def with_status_def)
    then show False
      using q(1) that by (auto simp: order_ok_def with_status_def)
  qed
  then have "\<forall>i j. i \<in> with_status q Running \<longrightarrow> j \<in> with_status q Running \<longrightarrow> i \<noteq> j \<longrightarrow>
         key_of q i \<noteq> None \<and> key_of q j \<noteq> None \<and> key_of q i \<noteq> key_of q j"
    by (metis nat_neq_iff)
  then show ?thesis
    using q by (auto simp: order_ok_def permits_ok_def split: option.splits)
qed

theorem queue_exclusion_witness:
  "status_of sample_queue 0 = Running \<and> status_of sample_queue 1 = Waiting"
proof -
  have "before sample_queue 0 1" "status_of sample_queue 0 = Running"
    by (simp_all add: queue_eval before_def key_of_def status_of_def)
  then show ?thesis
    using queue_exclusion [OF sample_queue_reachable] by (metis status.distinct(11))
qed



end
