(* ===== verification/JsLib.thy ===== *)
theory JsLib
  imports JsText
begin

text \<open>
  The part of the JavaScript library the components above the protocol use: decimal
  rendering, trimming, searching, splitting and joining of strings, \<open>JSON.stringify\<close> of plain
  data, and the reading of the ISO time stamps that \<open>toISOString\<close> writes.
\<close>

section \<open>Decimal rendering\<close>

fun digits :: "nat \<Rightarrow> nat list" where
  "digits n = (if n < 10 then [n] else digits (n div 10) @ [n mod 10])"

declare digits.simps [simp del]

definition show_digits :: "nat list \<Rightarrow> jsstring" where
  "show_digits ds = map (\<lambda>d. word_of_nat (48 + d)) ds"

definition show_nat :: "nat \<Rightarrow> jsstring" where
  "show_nat n = show_digits (digits n)"

definition show_int :: "int \<Rightarrow> jsstring" where
  "show_int i = (if i < 0 then js ''-'' else []) @ show_nat (nat \<bar>i\<bar>)"

fun read_digits :: "nat \<Rightarrow> nat list \<Rightarrow> nat" where
  "read_digits acc [] = acc"
| "read_digits acc (d # ds) = read_digits (10 * acc + d) ds"

lemma read_digits_append: "read_digits a (xs @ ys) = read_digits (read_digits a xs) ys"
  by (induction xs arbitrary: a) simp_all

lemma read_digits_digits: "read_digits 0 (digits n) = n"
  by (induction n rule: digits.induct) (subst digits.simps, simp add: read_digits_append)

lemma digits_bound: "d \<in> set (digits n) \<Longrightarrow> d < 10"
  by (induction n rule: digits.induct) (subst (asm) (2) digits.simps, auto split: if_splits)

lemma digits_inject: "digits m = digits n \<longleftrightarrow> m = n"
  using read_digits_digits by metis

section \<open>Strings\<close>

abbreviation NL :: code_unit where "NL \<equiv> 10"
abbreviation CR :: code_unit where "CR \<equiv> 13"

text \<open>The white space and line terminators that \<open>trim\<close> removes.\<close>

definition is_space :: "code_unit \<Rightarrow> bool" where
  "is_space c \<longleftrightarrow> (9 \<le> c \<and> c \<le> 13) \<or> c = 0x20 \<or> c = 0xA0 \<or> c = 0x1680 \<or> (0x2000 \<le> c \<and> c \<le> 0x200A)
     \<or> c = 0x2028 \<or> c = 0x2029 \<or> c = 0x202F \<or> c = 0x205F \<or> c = 0x3000 \<or> c = 0xFEFF"

definition trimStart :: "jsstring \<Rightarrow> jsstring" where
  "trimStart s = dropWhile is_space s"

definition trimEnd :: "jsstring \<Rightarrow> jsstring" where
  "trimEnd s = rev (dropWhile is_space (rev s))"

definition trim :: "jsstring \<Rightarrow> jsstring" where
  "trim s = trimEnd (trimStart s)"

lemma trimEnd_append_space: "is_space c \<Longrightarrow> trimEnd (s @ [c]) = trimEnd s"
  by (simp add: trimEnd_def)

lemma trimEnd_last: "trimEnd s \<noteq> [] \<Longrightarrow> \<not> is_space (last (trimEnd s))"
  using hd_dropWhile [of is_space "rev s"] by (simp add: trimEnd_def last_rev)

lemma trimEnd_fixed: "s = [] \<or> \<not> is_space (last s) \<Longrightarrow> trimEnd s = s"
  by (cases s rule: rev_cases) (simp_all add: trimEnd_def)

lemma trimEnd_idem [simp]: "trimEnd (trimEnd s) = trimEnd s"
  using trimEnd_last trimEnd_fixed by blast

lemma length_trimEnd: "length (trimEnd s) \<le> length s"
  using length_dropWhile_le [of is_space "rev s"] by (simp add: trimEnd_def)

lemma trimEnd_prefix: "\<exists>t. s = trimEnd s @ t \<and> (\<forall>c\<in>set t. is_space c)"
proof -
  have "s = trimEnd s @ rev (takeWhile is_space (rev s))"
    by (simp add: trimEnd_def flip: rev_append)
  then show ?thesis
    using set_takeWhileD by (metis set_rev)
qed

text \<open>\<open>startsWith\<close>, \<open>endsWith\<close>, \<open>indexOf\<close>.\<close>

definition startsWith :: "'a list \<Rightarrow> 'a list \<Rightarrow> bool" where
  "startsWith p s \<longleftrightarrow> take (length p) s = p"

definition endsWith :: "'a list \<Rightarrow> 'a list \<Rightarrow> bool" where
  "endsWith p s \<longleftrightarrow> startsWith (rev p) (rev s)"

fun indexOf :: "'a list \<Rightarrow> 'a list \<Rightarrow> nat option" where
  "indexOf p [] = (if p = [] then Some 0 else None)"
| "indexOf p (c # s) = (if startsWith p (c # s) then Some 0 else map_option Suc (indexOf p s))"

lemma startsWith_iff: "startsWith p s \<longleftrightarrow> (\<exists>t. s = p @ t)"
  unfolding startsWith_def by (metis append_take_drop_id append_eq_conv_conj)

lemma indexOf_Some:
  "indexOf p s = Some i \<longleftrightarrow> i + length p \<le> length s \<and> take (length p) (drop i s) = p
     \<and> (\<forall>j<i. take (length p) (drop j s) \<noteq> p)"
proof (induction s arbitrary: i)
  case Nil
  then show ?case by auto
next
  case (Cons c s)
  show ?case
  proof (cases "startsWith p (c # s)")
    case True
    then have "take (length p) (drop 0 (c # s)) = p" "length p \<le> length (c # s)"
      by (auto simp: startsWith_def) (metis length_take min.cobounded1 length_Cons)
    then show ?thesis
      using True by (cases i) (auto simp: startsWith_def)
  next
    case False
    show ?thesis
    proof (cases i)
      case 0
      then show ?thesis
        using False by (auto simp: startsWith_def)
    next
      case (Suc k)
      then show ?thesis
        using False Cons.IH [of k] by (auto simp: startsWith_def All_less_Suc2)
    qed
  qed
qed

lemma indexOf_None: "indexOf p s = None \<longleftrightarrow> (\<forall>i. i + length p \<le> length s \<longrightarrow> take (length p) (drop i s) \<noteq> p)"
proof (induction s)
  case Nil
  then show ?case by auto
next
  case (Cons c s)
  show ?case
  proof
    assume "indexOf p (c # s) = None"
    then have n: "\<not> startsWith p (c # s)" "indexOf p s = None"
      by (auto split: if_splits)
    show "\<forall>i. i + length p \<le> length (c # s) \<longrightarrow> take (length p) (drop i (c # s)) \<noteq> p"
    proof (intro allI impI)
      fix i
      assume "i + length p \<le> length (c # s)"
      then show "take (length p) (drop i (c # s)) \<noteq> p"
        using n Cons.IH by (cases i) (auto simp: startsWith_def)
    qed
  next
    assume a: "\<forall>i. i + length p \<le> length (c # s) \<longrightarrow> take (length p) (drop i (c # s)) \<noteq> p"
    have "take (length p) (drop i s) \<noteq> p" if "i + length p \<le> length s" for i
      using a [rule_format, of "Suc i"] that by simp
    moreover have "\<not> startsWith p (c # s)"
      using a [rule_format, of 0] by (auto simp: startsWith_def) (metis length_take min.cobounded1 length_Cons)
    ultimately show "indexOf p (c # s) = None"
      using Cons.IH by simp
  qed
qed

text \<open>\<open>split\<close> on one character and \<open>join\<close>.\<close>

fun splitChar :: "'a \<Rightarrow> 'a list \<Rightarrow> 'a list list" where
  "splitChar c [] = [[]]"
| "splitChar c (x # xs) =
     (if x = c then [] # splitChar c xs
      else (case splitChar c xs of [] \<Rightarrow> [[x]] | y # ys \<Rightarrow> (x # y) # ys))"

fun join :: "'a list \<Rightarrow> 'a list list \<Rightarrow> 'a list" where
  "join sep [] = []"
| "join sep [x] = x"
| "join sep (x # y # ys) = x @ sep @ join sep (y # ys)"

lemma splitChar_not_Nil [simp]: "splitChar c s \<noteq> []"
  by (cases s) (auto split: list.split)

lemma join_Cons: "ys \<noteq> [] \<Longrightarrow> join sep (x # ys) = x @ sep @ join sep ys"
  by (cases ys) simp_all

lemma join_splitChar [simp]: "join [c] (splitChar c s) = s"
proof (induction s)
  case (Cons x xs)
  obtain y ys where y: "splitChar c xs = y # ys"
    by (cases "splitChar c xs") simp_all
  then show ?case
    using Cons.IH by (cases ys) (auto simp: join_Cons)
qed simp

lemma splitChar_lines: "l \<in> set (splitChar c s) \<Longrightarrow> c \<notin> set l"
  by (induction s arbitrary: l) (fastforce split: if_splits list.splits)+

lemma splitChar_plain: "c \<notin> set s \<Longrightarrow> splitChar c s = [s]"
  by (induction s) auto

lemma splitChar_append: "splitChar c (s @ c # t) = splitChar c s @ splitChar c t"
proof (induction s)
  case (Cons x xs)
  obtain y ys where "splitChar c xs = y # ys"
    by (cases "splitChar c xs") simp_all
  then show ?case
    using Cons.IH by simp
qed simp

lemma splitChar_join:
  "ls \<noteq> [] \<Longrightarrow> (\<And>l. l \<in> set ls \<Longrightarrow> c \<notin> set l) \<Longrightarrow> splitChar c (join [c] ls) = ls"
proof (induction ls rule: induct_list012)
  case (3 x y ls)
  then show ?case
    by (simp add: splitChar_append splitChar_plain)
qed (simp_all add: splitChar_plain)

lemma length_splitChar: "length (splitChar c s) = Suc (count_list s c)"
proof (induction s)
  case (Cons x xs)
  then show ?case
    by (cases "splitChar c xs") auto
qed simp

section \<open>Sets\<close>

text \<open>A \<open>Set\<close> keeps its elements in the order they were added.\<close>

definition set_add :: "'a \<Rightarrow> 'a list \<Rightarrow> 'a list" where
  "set_add x xs = (if x \<in> set xs then xs else xs @ [x])"

definition set_delete :: "'a \<Rightarrow> 'a list \<Rightarrow> 'a list" where
  "set_delete x xs = filter (\<lambda>y. y \<noteq> x) xs"

lemma set_add_set [simp]: "set (set_add x xs) = insert x (set xs)"
  by (auto simp: set_add_def)

lemma set_add_distinct [simp]: "distinct (set_add x xs) = distinct xs"
  by (simp add: set_add_def)

lemma set_adds_set [simp]: "set (fold set_add ys xs) = set xs \<union> set ys"
  by (induction ys arbitrary: xs) auto

lemma set_adds_distinct [simp]: "distinct (fold set_add ys xs) = distinct xs"
  by (induction ys arbitrary: xs) simp_all

end
