(* ===== verification/Truncate.thy ===== *)
theory Truncate
  imports JsLib
begin

text \<open>
  Truncation of tool outputs (\<open>packages/agent/src/harness/utils/truncate.ts\<close>): whole lines from the
  head or the tail of a text within a limit on lines and one on UTF-8 bytes. Limits are integers; a text
  is a list of code units, which may hold unpaired surrogates.
\<close>

section \<open>UTF-8 length\<close>

text \<open>The loop of the fallback, from the first unit that is not ASCII.\<close>

fun byteLoop :: "jsstring \<Rightarrow> nat" where
  "byteLoop [] = 0"
| "byteLoop (code # rest) =
     (if unat code \<le> 0x7F then 1 + byteLoop rest
      else if unat code \<le> 0x7FF then 2 + byteLoop rest
      else if is_high code
      then (case rest of
              [] \<Rightarrow> 3
            | next # rest' \<Rightarrow> if is_low next then 4 + byteLoop rest' else 3 + byteLoop rest)
      else 3 + byteLoop rest)"

text \<open>\<open>buffer\<close> tells whether the runtime has a \<open>Buffer\<close>, whose \<open>byteLength\<close> counts the encoding.\<close>

definition utf8ByteLength :: "bool \<Rightarrow> jsstring \<Rightarrow> nat" where
  "utf8ByteLength buffer content =
     (if buffer then length (textEncode content)
      else case findIndex (\<lambda>c. 0x7F < unat c) content of
        None \<Rightarrow> length content
      | Some firstNonAscii \<Rightarrow> firstNonAscii + byteLoop (drop firstNonAscii content))"

fun replaceUnpairedSurrogates :: "jsstring \<Rightarrow> jsstring" where
  "replaceUnpairedSurrogates [] = []"
| "replaceUnpairedSurrogates (code # rest) =
     (if is_high code
      then (case rest of
              [] \<Rightarrow> [REPLACEMENT]
            | next # rest' \<Rightarrow>
                if is_low next then code # next # replaceUnpairedSurrogates rest'
                else REPLACEMENT # replaceUnpairedSurrogates rest)
      else if is_low code then REPLACEMENT # replaceUnpairedSurrogates rest
      else code # replaceUnpairedSurrogates rest)"

definition splitLinesForCounting :: "jsstring \<Rightarrow> jsstring list" where
  "splitLinesForCounting content =
     (if content = [] then []
      else let lines = splitChar NL content
           in if endsWith [NL] content then butlast lines else lines)"

text \<open>
  \<open>toFixed(1)\<close> of a quotient by a power of two, which is exact: the nearest tenth, the larger one
  of two.
\<close>

definition tenths :: "nat \<Rightarrow> nat \<Rightarrow> nat" where
  "tenths a b = (20 * a + b) div (2 * b)"

definition toFixed1 :: "nat \<Rightarrow> nat \<Rightarrow> jsstring" where
  "toFixed1 a b = show_nat (tenths a b div 10) @ js ''.'' @ show_nat (tenths a b mod 10)"

definition formatSize :: "nat \<Rightarrow> jsstring" where
  "formatSize bytes =
     (if bytes < 1024 then show_nat bytes @ js ''B''
      else if bytes < 1024 * 1024 then toFixed1 bytes 1024 @ js ''KB''
      else toFixed1 bytes (1024 * 1024) @ js ''MB'')"

section \<open>Truncation\<close>

definition DEFAULT_MAX_LINES :: int where "DEFAULT_MAX_LINES = 2000"
definition DEFAULT_MAX_BYTES :: int where "DEFAULT_MAX_BYTES = 50 * 1024"
definition GREP_MAX_LINE_LENGTH :: nat where "GREP_MAX_LINE_LENGTH = 500"

text \<open>\<open>options.maxLines ?? DEFAULT_MAX_LINES\<close>.\<close>

definition limitOr :: "int \<Rightarrow> int option \<Rightarrow> int" where
  "limitOr d limit = (case limit of None \<Rightarrow> d | Some n \<Rightarrow> n)"

datatype limit_hit = ByLines | ByBytes

record truncation_result =
  t_content :: jsstring
  t_truncated :: bool
  t_truncatedBy :: "limit_hit option"
  t_totalLines :: nat
  t_totalBytes :: nat
  t_outputLines :: nat
  t_outputBytes :: nat
  t_lastLinePartial :: bool
  t_firstLineExceedsLimit :: bool
  t_maxLines :: int
  t_maxBytes :: int

text \<open>
  The loop of \<open>truncateHead\<close>: the lines kept so far, their bytes, and whether the byte limit
  stopped it.
\<close>

fun headLoop :: "bool \<Rightarrow> int \<Rightarrow> int \<Rightarrow> jsstring list \<Rightarrow> nat \<Rightarrow> jsstring list \<Rightarrow> jsstring list \<times> nat \<times> bool" where
  "headLoop buffer maxLines maxBytes out bytes [] = (out, bytes, False)"
| "headLoop buffer maxLines maxBytes out bytes (line # lines) =
     (if int (length out) < maxLines
      then let lineBytes = utf8ByteLength buffer line + (if 0 < length out then 1 else 0)
           in if maxBytes < int (bytes + lineBytes) then (out, bytes, True)
              else headLoop buffer maxLines maxBytes (out @ [line]) (bytes + lineBytes) lines
      else (out, bytes, False))"

text \<open>\<open>None\<close> is the \<open>TypeError\<close> of reading the length of \<open>lines[0]\<close> when there is no line.\<close>

definition truncateHead :: "bool \<Rightarrow> jsstring \<Rightarrow> int option \<Rightarrow> int option \<Rightarrow> truncation_result option" where
  "truncateHead buffer content maxLines0 maxBytes0 =
     (let maxLines = limitOr DEFAULT_MAX_LINES maxLines0;
          maxBytes = limitOr DEFAULT_MAX_BYTES maxBytes0;
          totalBytes = utf8ByteLength buffer content;
          lines = splitLinesForCounting content;
          totalLines = length lines
      in if int totalLines \<le> maxLines \<and> int totalBytes \<le> maxBytes
         then Some \<lparr>t_content = content, t_truncated = False, t_truncatedBy = None, t_totalLines = totalLines,
                t_totalBytes = totalBytes, t_outputLines = totalLines, t_outputBytes = totalBytes,
                t_lastLinePartial = False, t_firstLineExceedsLimit = False, t_maxLines = maxLines, t_maxBytes = maxBytes\<rparr>
         else case lines of
           [] \<Rightarrow> None
         | firstLine # _ \<Rightarrow>
             if maxBytes < int (utf8ByteLength buffer firstLine)
             then Some \<lparr>t_content = [], t_truncated = True, t_truncatedBy = Some ByBytes, t_totalLines = totalLines,
                t_totalBytes = totalBytes, t_outputLines = 0, t_outputBytes = 0,
                t_lastLinePartial = False, t_firstLineExceedsLimit = True, t_maxLines = maxLines, t_maxBytes = maxBytes\<rparr>
             else
               (case headLoop buffer maxLines maxBytes [] 0 lines of (out, bytes, stopped) \<Rightarrow>
                  let truncatedBy = (if stopped then ByBytes else ByLines);
                      truncatedBy = (if maxLines \<le> int (length out) \<and> int bytes \<le> maxBytes then ByLines else truncatedBy);
                      outputContent = join [NL] out
                  in Some \<lparr>t_content = outputContent, t_truncated = True, t_truncatedBy = Some truncatedBy,
                       t_totalLines = totalLines, t_totalBytes = totalBytes, t_outputLines = length out,
                       t_outputBytes = utf8ByteLength buffer outputContent, t_lastLinePartial = False,
                       t_firstLineExceedsLimit = False, t_maxLines = maxLines, t_maxBytes = maxBytes\<rparr>))"

text \<open>
  The loop of \<open>truncateStringToBytesFromEnd\<close>, over the units before the current position in
  reverse: the units kept and whether one of them is an unpaired surrogate.
\<close>

text \<open>The character before a position: its units, its bytes, whether it is an unpaired surrogate.\<close>

definition lastCharacter :: "code_unit \<Rightarrow> jsstring \<Rightarrow> jsstring \<times> nat \<times> bool" where
  "lastCharacter code before =
     (if is_low code \<and> before \<noteq> []
      then (if is_high (hd before) then ([hd before, code], 4, False) else ([code], 3, True))
      else if is_high code \<or> is_low code then ([code], 3, True)
      else ([code], (if unat code \<le> 0x7F then 1 else if unat code \<le> 0x7FF then 2 else 3), False))"

function fromEndLoop :: "int \<Rightarrow> nat \<Rightarrow> bool \<Rightarrow> jsstring \<Rightarrow> jsstring \<Rightarrow> jsstring \<times> bool" where
  "fromEndLoop maxBytes outputBytes needsReplacement kept [] = (kept, needsReplacement)"
| "fromEndLoop maxBytes outputBytes needsReplacement kept (code # before) =
     (case lastCharacter code before of (character, characterBytes, unpaired) \<Rightarrow>
        if maxBytes < int (outputBytes + characterBytes) then (kept, needsReplacement)
        else fromEndLoop maxBytes (outputBytes + characterBytes) (needsReplacement \<or> unpaired)
               (character @ kept) (drop (length character - 1) before))"
  by pat_completeness auto

termination fromEndLoop
  by (relation "measure (\<lambda>(m, b, n, k, before). length before)") auto

definition truncateStringToBytesFromEnd :: "jsstring \<Rightarrow> int \<Rightarrow> jsstring" where
  "truncateStringToBytesFromEnd str maxBytes =
     (if maxBytes \<le> 0 then []
      else case fromEndLoop maxBytes 0 False [] (rev str) of (output, needsReplacement) \<Rightarrow>
        if needsReplacement then replaceUnpairedSurrogates output else output)"

text \<open>The loop of \<open>truncateTail\<close>, over the lines in reverse; also whether the last line is partial.\<close>

fun tailLoop :: "bool \<Rightarrow> int \<Rightarrow> int \<Rightarrow> jsstring list \<Rightarrow> nat \<Rightarrow> jsstring list \<Rightarrow> jsstring list \<times> nat \<times> bool \<times> bool" where
  "tailLoop buffer maxLines maxBytes out bytes [] = (out, bytes, False, False)"
| "tailLoop buffer maxLines maxBytes out bytes (line # lines) =
     (if int (length out) < maxLines
      then let lineBytes = utf8ByteLength buffer line + (if 0 < length out then 1 else 0)
           in if maxBytes < int (bytes + lineBytes)
              then if out = []
                   then let truncatedLine = truncateStringToBytesFromEnd line maxBytes
                        in ([truncatedLine], utf8ByteLength buffer truncatedLine, True, True)
                   else (out, bytes, True, False)
              else tailLoop buffer maxLines maxBytes (line # out) (bytes + lineBytes) lines
      else (out, bytes, False, False))"

definition truncateTail :: "bool \<Rightarrow> jsstring \<Rightarrow> int option \<Rightarrow> int option \<Rightarrow> truncation_result" where
  "truncateTail buffer content maxLines0 maxBytes0 =
     (let maxLines = limitOr DEFAULT_MAX_LINES maxLines0;
          maxBytes = limitOr DEFAULT_MAX_BYTES maxBytes0;
          totalBytes = utf8ByteLength buffer content;
          lines = splitLinesForCounting content;
          totalLines = length lines
      in if int totalLines \<le> maxLines \<and> int totalBytes \<le> maxBytes
         then \<lparr>t_content = content, t_truncated = False, t_truncatedBy = None, t_totalLines = totalLines,
                t_totalBytes = totalBytes, t_outputLines = totalLines, t_outputBytes = totalBytes,
                t_lastLinePartial = False, t_firstLineExceedsLimit = False, t_maxLines = maxLines, t_maxBytes = maxBytes\<rparr>
         else
           (case tailLoop buffer maxLines maxBytes [] 0 (rev lines) of (out, bytes, stopped, partial) \<Rightarrow>
              let truncatedBy = (if stopped then ByBytes else ByLines);
                  truncatedBy = (if maxLines \<le> int (length out) \<and> int bytes \<le> maxBytes then ByLines else truncatedBy);
                  outputContent = join [NL] out
              in \<lparr>t_content = outputContent, t_truncated = True, t_truncatedBy = Some truncatedBy,
                   t_totalLines = totalLines, t_totalBytes = totalBytes, t_outputLines = length out,
                   t_outputBytes = utf8ByteLength buffer outputContent, t_lastLinePartial = partial,
                   t_firstLineExceedsLimit = False, t_maxLines = maxLines, t_maxBytes = maxBytes\<rparr>))"

text \<open>\<open>maxChars\<close> is not negative.\<close>

definition truncateLine :: "jsstring \<Rightarrow> nat option \<Rightarrow> jsstring \<times> bool" where
  "truncateLine line maxChars0 =
     (let maxChars = (case maxChars0 of None \<Rightarrow> GREP_MAX_LINE_LENGTH | Some n \<Rightarrow> n)
      in if length line \<le> maxChars then (line, False)
         else (take maxChars line @ js ''... [truncated]'', True))"

section \<open>The length is that of the encoding\<close>

lemma byteLoop_encode: "byteLoop s = length (textEncode s)"
proof (induction s rule: scalars.induct)
  case 1
  then show ?case by (simp add: textEncode_def)
next
  case (2 c)
  then show ?case
    using unit_unat_bound [of c] by (auto simp: textEncode_def utf8_def is_high_nat is_low_nat)
next
  case (3 c d s)
  have "(unat c - 0xD800) * 0x400 + (unat d - 0xDC00) + 0x10000 \<ge> 0x10000"
    by simp
  then show ?case
    using 3 unit_unat_bound [of c]
    by (auto simp: textEncode_def utf8_def is_high_nat is_low_nat)
qed

lemma ascii_encode: "\<forall>c\<in>set s. unat c \<le> 0x7F \<Longrightarrow> byteLoop s = length s"
  by (induction s) auto

lemma byteLoop_prefix: "\<forall>c\<in>set s. unat c \<le> 0x7F \<Longrightarrow> byteLoop (s @ t) = length s + byteLoop t"
  by (induction s) auto

lemma utf8ByteLength_encode: "utf8ByteLength buffer s = byteLoop s"
proof (cases "findIndex (\<lambda>c. 0x7F < unat c) s")
  case None
  then have "byteLoop s = length s"
    by (intro ascii_encode) (simp add: findIndex_None not_less)
  then show ?thesis
    by (simp add: utf8ByteLength_def None flip: byteLoop_encode)
next
  case (Some i)
  have "\<forall>c\<in>set (take i s). unat c \<le> 0x7F" "i \<le> length s"
    using findIndex_Some [OF Some] by (auto simp: set_conv_nth not_less)
  then have "byteLoop (take i s @ drop i s) = i + byteLoop (drop i s)"
    by (subst byteLoop_prefix) simp_all
  then show ?thesis
    using Some by (simp add: utf8ByteLength_def byteLoop_encode)
qed

lemma replaceUnpaired_scalars: "replaceUnpairedSurrogates s = concat (map units (scalars s))"
proof (induction s rule: scalars.induct)
  case (2 c)
  then show ?case
    by (auto simp: units_plain) (simp_all add: units_def REPLACEMENT_def)
next
  case (3 c d s)
  have r: "units 0xFFFD = [REPLACEMENT]"
    by (simp add: units_def REPLACEMENT_def)
  show ?case
    using 3 by (auto simp: units_plain units_pair r)
qed simp

section \<open>Joined lines\<close>

lemma NL_plain: "\<not> is_low NL" "\<not> is_high NL" "unat NL = 10"
  by (simp_all add: is_low_def is_high_def)

lemma byteLoop_line: "byteLoop (s @ NL # t) = byteLoop s + (1 + byteLoop t)"
proof (induction s rule: byteLoop.induct)
  case (2 c s)
  then show ?case
    by (cases s) (auto simp: NL_plain)
qed simp

definition joined :: "jsstring list \<Rightarrow> nat" where
  "joined ls = byteLoop (join [NL] ls)"

lemma join_snoc: "ls \<noteq> [] \<Longrightarrow> join sep (ls @ [l]) = join sep ls @ sep @ l"
  by (induction ls rule: induct_list012) simp_all

lemma joined_simps:
  "joined [] = 0"
  "joined (ls @ [l]) = joined ls + (byteLoop l + (if 0 < length ls then 1 else 0))"
  "joined (l # ls) = joined ls + (byteLoop l + (if 0 < length ls then 1 else 0))"
  by (cases "ls = []"; simp add: joined_def join_snoc join_Cons byteLoop_line)+

lemma headLoop_spec:
  assumes "headLoop buffer maxLines maxBytes out bytes lines = (out', bytes', stopped)" "bytes = joined out"
  shows "\<exists>k\<le>length lines. out' = out @ take k lines \<and> bytes' = joined out'
    \<and> (0 < k \<longrightarrow> int bytes' \<le> maxBytes \<and> int (length out') \<le> maxLines)
    \<and> (stopped \<longleftrightarrow> k < length lines \<and> int (length out') < maxLines)
    \<and> (stopped \<longrightarrow> maxBytes < int (joined (out @ take (Suc k) lines)))"
  using assms
proof (induction lines arbitrary: out bytes)
  case Nil
  then show ?case
    by auto
next
  case (Cons line lines)
  let ?b = "utf8ByteLength buffer line + (if 0 < length out then 1 else 0)"
  have j: "joined (out @ [line]) = bytes + ?b"
    by (simp add: joined_simps utf8ByteLength_encode Cons.prems(2))
  consider (full) "\<not> int (length out) < maxLines" | (big) "int (length out) < maxLines" "maxBytes < int (bytes + ?b)"
    | (fits) "int (length out) < maxLines" "\<not> maxBytes < int (bytes + ?b)"
    by blast
  then show ?case
  proof cases
    case full
    then have "out' = out" "bytes' = bytes" "\<not> stopped"
      using Cons.prems(1) by simp_all
    with full Cons.prems(2) show ?thesis
      by (intro exI [of _ 0]) simp
  next
    case big
    then show ?thesis
      using Cons.prems j by (intro exI [of _ 0]) (auto simp: Let_def)
  next
    case fits
    have run: "headLoop buffer maxLines maxBytes (out @ [line]) (bytes + ?b) lines = (out', bytes', stopped)"
      using fits Cons.prems(1) by (simp add: Let_def)
    obtain k where k: "k \<le> length lines" "out' = (out @ [line]) @ take k lines" "bytes' = joined out'"
      "0 < k \<longrightarrow> int bytes' \<le> maxBytes \<and> int (length out') \<le> maxLines"
      "stopped \<longleftrightarrow> k < length lines \<and> int (length out') < maxLines"
      "stopped \<longrightarrow> maxBytes < int (joined ((out @ [line]) @ take (Suc k) lines))"
      using Cons.IH [OF run j [symmetric]] by blast
    have "int bytes' \<le> maxBytes \<and> int (length out') \<le> maxLines"
    proof (cases "k = 0")
      case True
      then show ?thesis
        using k(2,3) fits j by simp
    qed (use k(4) in simp)
    then show ?thesis
      using k by (intro exI [of _ "Suc k"]) simp
  qed
qed

lemma tailLoop_spec:
  assumes "tailLoop buffer maxLines maxBytes out bytes lines = (out', bytes', stopped, partial)" "bytes = joined out"
    and "0 \<le> maxBytes" "out \<noteq> [] \<longrightarrow> int bytes \<le> maxBytes \<and> int (length out) \<le> maxLines"
  shows "if partial
    then out = [] \<and> lines \<noteq> [] \<and> 0 < maxLines \<and> stopped \<and> maxBytes < int (byteLoop (hd lines))
      \<and> out' = [truncateStringToBytesFromEnd (hd lines) maxBytes] \<and> bytes' = joined out'
    else \<exists>k\<le>length lines. out' = rev (take k lines) @ out \<and> bytes' = joined out'
      \<and> (out' \<noteq> [] \<longrightarrow> int bytes' \<le> maxBytes \<and> int (length out') \<le> maxLines)
      \<and> (stopped \<longleftrightarrow> k < length lines \<and> int (length out') < maxLines)
      \<and> (stopped \<longrightarrow> maxBytes < int (joined (rev (take (Suc k) lines) @ out)))"
  using assms
proof (induction lines arbitrary: out bytes)
  case Nil
  then show ?case
    by auto
next
  case (Cons line lines)
  let ?b = "utf8ByteLength buffer line + (if 0 < length out then 1 else 0)"
  have j: "joined (line # out) = bytes + ?b"
    by (simp add: joined_simps utf8ByteLength_encode Cons.prems(2))
  consider (full) "\<not> int (length out) < maxLines"
    | (partial) "int (length out) < maxLines" "maxBytes < int (bytes + ?b)" "out = []"
    | (big) "int (length out) < maxLines" "maxBytes < int (bytes + ?b)" "out \<noteq> []"
    | (fits) "int (length out) < maxLines" "\<not> maxBytes < int (bytes + ?b)"
    by blast
  then show ?case
  proof cases
    case full
    then show ?thesis
      using Cons.prems by (auto intro!: exI [of _ 0])
  next
    case partial
    then show ?thesis
      using Cons.prems by (auto simp: Let_def utf8ByteLength_encode joined_def)
  next
    case big
    then show ?thesis
      using Cons.prems j by (auto simp: Let_def intro!: exI [of _ 0])
  next
    case fits
    have run: "tailLoop buffer maxLines maxBytes (line # out) (bytes + ?b) lines = (out', bytes', stopped, partial)"
      using fits Cons.prems(1) by (simp add: Let_def)
    have inv: "line # out \<noteq> [] \<longrightarrow> int (bytes + ?b) \<le> maxBytes \<and> int (length (line # out)) \<le> maxLines"
      using fits by simp
    from Cons.IH [OF run j [symmetric] Cons.prems(3) inv] have p: "\<not> partial" by (auto split: if_splits)
    from Cons.IH [OF run j [symmetric] Cons.prems(3) inv] obtain k where k: "k \<le> length lines" "out' = rev (take k lines) @ line # out" "bytes' = joined out'"
      "out' \<noteq> [] \<longrightarrow> int bytes' \<le> maxBytes \<and> int (length out') \<le> maxLines"
      "stopped \<longleftrightarrow> k < length lines \<and> int (length out') < maxLines"
      "stopped \<longrightarrow> maxBytes < int (joined (rev (take (Suc k) lines) @ line # out))"
      unfolding if_not_P [OF p] by blast
    then show ?thesis
      unfolding if_not_P [OF p] by (intro exI [of _ "Suc k"]) simp
  qed
qed

section \<open>Cutting a line from its end\<close>

text \<open>No surrogate pair lies across the boundary.\<close>

definition boundary :: "jsstring \<Rightarrow> jsstring \<Rightarrow> bool" where
  "boundary x y \<longleftrightarrow> \<not> (x \<noteq> [] \<and> y \<noteq> [] \<and> is_high (last x) \<and> is_low (hd y))"

lemma scalars_append: "boundary x y \<Longrightarrow> scalars (x @ y) = scalars x @ scalars y"
proof (induction x rule: scalars.induct)
  case (2 c)
  then show ?case
    by (cases y) (auto simp: boundary_def)
next
  case (3 c d s)
  then show ?case
    by (auto simp: boundary_def split: if_splits)
qed simp

lemma lastCharacter_spec:
  assumes "lastCharacter code before = (character, characterBytes, unpaired)" "boundary (rev (code # before)) kept"
  shows "\<exists>n. scalars (character @ kept) = n # scalars kept \<and> length (utf8 n) = characterBytes"
    "rev (code # before) @ kept = rev (drop (length character - 1) before) @ character @ kept"
    "boundary (rev (drop (length character - 1) before)) (character @ kept)"
    "well_formed (character @ kept) \<longleftrightarrow> \<not> unpaired \<and> well_formed kept"
proof -
  have u: "unat code < 65536"
    by simp
  have all: "(\<exists>n. scalars (character @ kept) = n # scalars kept \<and> length (utf8 n) = characterBytes)
    \<and> rev (code # before) @ kept = rev (drop (length character - 1) before) @ character @ kept
    \<and> boundary (rev (drop (length character - 1) before)) (character @ kept)
    \<and> (well_formed (character @ kept) \<longleftrightarrow> \<not> unpaired \<and> well_formed kept)"
  proof (cases "is_low code")
    case low: True
    then have nh: "\<not> is_high code"
      using high_not_low by blast
    show ?thesis
    proof (cases "before \<noteq> [] \<and> is_high (hd before)")
      case True
      then obtain h b where "before = h # b" "is_high h"
        by (cases before) auto
      moreover have "\<not> is_low h"
        using calculation high_not_low by blast
      ultimately show ?thesis
        using assms low by (auto simp: lastCharacter_def boundary_def utf8_def)
    next
      case False
      then have "character = [code]" "characterBytes = 3" "unpaired"
        using assms(1) low by (auto simp: lastCharacter_def split: if_splits)
      then show ?thesis
        using False low nh by (cases kept) (auto simp: boundary_def utf8_def last_rev)
    qed
  next
    case nl: False
    show ?thesis
    proof (cases "is_high code")
      case True
      then have "character = [code]" "characterBytes = 3" "unpaired"
        using assms(1) nl by (auto simp: lastCharacter_def)
      then show ?thesis
        using assms(2) nl True by (cases kept) (auto simp: boundary_def utf8_def)
    next
      case False
      then have "character = [code]" "characterBytes = length (utf8 (unat code))" "\<not> unpaired"
        using assms(1) nl u by (auto simp: lastCharacter_def utf8_def)
      then show ?thesis
        using nl False by (cases kept) (auto simp: boundary_def)
    qed
  qed
  then show "\<exists>n. scalars (character @ kept) = n # scalars kept \<and> length (utf8 n) = characterBytes"
    "rev (code # before) @ kept = rev (drop (length character - 1) before) @ character @ kept"
    "boundary (rev (drop (length character - 1) before)) (character @ kept)"
    "well_formed (character @ kept) \<longleftrightarrow> \<not> unpaired \<and> well_formed kept"
    by blast+
qed

lemma byteLoop_scalars: "byteLoop s = length (concat (map utf8 (scalars s)))"
  by (simp add: byteLoop_encode textEncode_def)

lemma fromEndLoop_spec:
  assumes "fromEndLoop maxBytes bytes flag kept before = (kept', flag')" "boundary (rev before) kept"
    and "bytes = byteLoop kept" "int bytes \<le> maxBytes" "flag \<longleftrightarrow> \<not> well_formed kept"
  shows "\<exists>j\<le>length (scalars (rev before @ kept)). scalars kept' = drop j (scalars (rev before @ kept))
    \<and> int (byteLoop kept') \<le> maxBytes \<and> (flag' \<longleftrightarrow> \<not> well_formed kept')
    \<and> (0 < j \<longrightarrow> maxBytes < int (length (concat (map utf8 (drop (j - 1) (scalars (rev before @ kept)))))))"
  using assms
proof (induction maxBytes bytes flag kept before rule: fromEndLoop.induct)
  case (1 maxBytes bytes flag kept)
  then show ?case
    by (intro exI [of _ 0]) auto
next
  case (2 maxBytes bytes flag kept code before)
  obtain character characterBytes unpaired where ch: "lastCharacter code before = (character, characterBytes, unpaired)"
    by (cases "lastCharacter code before")
  note spec = lastCharacter_spec [OF ch "2.prems"(2)]
  obtain n where n: "scalars (character @ kept) = n # scalars kept" "length (utf8 n) = characterBytes"
    using spec(1) by blast
  have bytes: "byteLoop (character @ kept) = bytes + characterBytes"
    using n "2.prems"(3) by (simp add: byteLoop_scalars)
  show ?case
  proof (cases "maxBytes < int (bytes + characterBytes)")
    case True
    then have r: "kept' = kept" "flag' = flag"
      using "2.prems"(1) ch by simp_all
    define pre where "pre = scalars (rev (drop (length character - 1) before))"
    have all: "scalars (rev (code # before) @ kept) = pre @ n # scalars kept"
      unfolding spec(2) pre_def by (subst scalars_append [OF spec(3)]) (simp add: n(1))
    show ?thesis
      unfolding all using r "2.prems"(3-5) True n(2)
      by (intro exI [of _ "Suc (length pre)"]) (simp add: byteLoop_scalars)
  next
    case False
    then have "fromEndLoop maxBytes (bytes + characterBytes) (flag \<or> unpaired) (character @ kept)
        (drop (length character - 1) before) = (kept', flag')"
      using "2.prems"(1) ch by simp
    from "2.IH" [OF ch [symmetric] refl False this spec(3) bytes [symmetric]] show ?thesis
      using False spec(4) "2.prems"(5) unfolding spec(2) by auto
  qed
qed

text \<open>The end of a line within a byte limit: whole characters, as many as fit.\<close>

definition tail_of_line :: "jsstring \<Rightarrow> int \<Rightarrow> jsstring \<Rightarrow> bool" where
  "tail_of_line line maxBytes s \<longleftrightarrow> well_formed s \<and> (\<exists>j\<le>length (scalars line).
     scalars s = drop j (scalars line) \<and> int (byteLoop s) \<le> maxBytes
     \<and> (0 < j \<longrightarrow> maxBytes < int (length (concat (map utf8 (drop (j - 1) (scalars line)))))))"

lemma utf8_pos: "0 < length (utf8 n)"
  by (simp add: utf8_def)

lemma truncateString_spec:
  assumes "0 \<le> maxBytes"
  shows "tail_of_line line maxBytes (truncateStringToBytesFromEnd line maxBytes)"
proof (cases "maxBytes = 0")
  case True
  have "0 < length (concat (map utf8 (drop (length xs - 1) xs)))" if "xs \<noteq> []" for xs
    using that utf8_pos by (cases xs rule: rev_cases) simp_all
  then show ?thesis
    using True by (auto simp: tail_of_line_def truncateStringToBytesFromEnd_def intro!: exI [of _ "length (scalars line)"])
next
  case False
  obtain kept flag where run: "fromEndLoop maxBytes 0 False [] (rev line) = (kept, flag)"
    by (cases "fromEndLoop maxBytes 0 False [] (rev line)")
  have "boundary (rev (rev line)) []"
    by (simp add: boundary_def)
  from fromEndLoop_spec [OF run this] assms obtain j where j: "j \<le> length (scalars line)"
    "scalars kept = drop j (scalars line)" "int (byteLoop kept) \<le> maxBytes" "flag \<longleftrightarrow> \<not> well_formed kept"
    "0 < j \<longrightarrow> maxBytes < int (length (concat (map utf8 (drop (j - 1) (scalars line)))))"
    by auto
  define s where "s = truncateStringToBytesFromEnd line maxBytes"
  have "s = (if flag then replaceUnpairedSurrogates kept else kept)"
    using False assms run by (simp add: s_def truncateStringToBytesFromEnd_def)
  then have s: "s = concat (map units (scalars kept))"
    using j(4) by (auto simp: replaceUnpaired_scalars units_scalars)
  then have "scalars s = scalars kept" "well_formed s"
    using scalars_are_scalars [of _ kept] by (auto simp: scalars_units well_formed_units)
  then show ?thesis
    using j unfolding s_def [symmetric] tail_of_line_def byteLoop_scalars by auto
qed

section \<open>Properties\<close>

lemma join_lines: "joined (splitLinesForCounting content) \<le> byteLoop content"
proof (cases "content \<noteq> [] \<and> endsWith [NL] content")
  case True
  then obtain s where s: "content = s @ [NL]"
    by (auto simp: endsWith_def startsWith_iff rev_eq_Cons_iff)
  have "splitLinesForCounting content = splitChar NL s"
    using True by (simp add: splitLinesForCounting_def Let_def s splitChar_append)
  then show ?thesis
    by (simp add: joined_def s byteLoop_line)
next
  case False
  then show ?thesis
    by (auto simp: splitLinesForCounting_def joined_def Let_def)
qed

lemma list_case_hd: "xs \<noteq> [] \<Longrightarrow> (case xs of [] \<Rightarrow> a | x # _ \<Rightarrow> g x) = g (hd xs)"
  by (cases xs) simp_all

lemma no_lines: "splitLinesForCounting content = [] \<Longrightarrow> content = []"
proof (rule ccontr)
  assume none: "splitLinesForCounting content = []" and content: "content \<noteq> []"
  show False
  proof (cases "endsWith [NL] content")
    case True
    then obtain s where s: "content = s @ [NL]"
      by (auto simp: endsWith_def startsWith_iff rev_eq_Cons_iff)
    have "splitLinesForCounting content = splitChar NL s"
      using True content by (simp add: splitLinesForCounting_def Let_def s splitChar_append)
    then show False
      using none by (metis splitChar_not_Nil)
  qed (use none content in \<open>simp add: splitLinesForCounting_def Let_def\<close>)
qed

text \<open>
  The byte count of the fallback loop is that of the UTF-8 encoding a \<open>Buffer\<close> counts, and
  replacing unpaired surrogates is the conversion to a well-formed string, which the encoding does not see.
\<close>

theorem byte_counts_agree:
  "utf8ByteLength True s = utf8ByteLength False s
    \<and> well_formed (replaceUnpairedSurrogates s)
    \<and> textEncode (replaceUnpairedSurrogates s) = textEncode s
    \<and> (replaceUnpairedSurrogates s = s \<longleftrightarrow> well_formed s)"
proof -
  have "scalars (replaceUnpairedSurrogates s) = scalars s"
    using scalars_are_scalars by (simp add: replaceUnpaired_scalars scalars_units)
  then show ?thesis
    using well_formed_units [OF scalars_are_scalars] scalars_identity_iff [of s]
    by (simp add: utf8ByteLength_encode textEncode_def replaceUnpaired_scalars)
qed

text \<open>
Truncation from the head: with limits that are not negative it returns; a text within them comes
  back whole; otherwise the result is the longest run of whole lines from the start within both limits,
  its counts are those of the result, and the byte limit is reported just when another line was allowed
  but too long.
\<close>

theorem truncateHead_exact:
  assumes "limitOr DEFAULT_MAX_LINES l = maxLines" "limitOr DEFAULT_MAX_BYTES b = maxBytes" "0 \<le> maxLines" "0 \<le> maxBytes"
  shows "\<exists>r. truncateHead buffer content l b = Some r
    \<and> int (t_outputBytes r) \<le> maxBytes \<and> int (t_outputLines r) \<le> maxLines
    \<and> t_outputBytes r = length (textEncode (t_content r))
    \<and> t_totalLines r = length (splitLinesForCounting content) \<and> t_totalBytes r = length (textEncode content)
    \<and> (if int (t_totalLines r) \<le> maxLines \<and> int (t_totalBytes r) \<le> maxBytes
       then \<not> t_truncated r \<and> t_truncatedBy r = None \<and> t_content r = content \<and> t_outputLines r = t_totalLines r
       else t_truncated r \<and> \<not> t_lastLinePartial r
         \<and> t_content r = join [NL] (take (t_outputLines r) (splitLinesForCounting content))
         \<and> t_firstLineExceedsLimit r = (maxBytes < int (length (textEncode (hd (splitLinesForCounting content)))))
         \<and> t_truncatedBy r = Some (if t_firstLineExceedsLimit r \<or> t_outputLines r < t_totalLines r \<and> int (t_outputLines r) < maxLines
              then ByBytes else ByLines)
         \<and> (t_outputLines r < t_totalLines r \<and> int (t_outputLines r) < maxLines \<longrightarrow>
              maxBytes < int (length (textEncode (join [NL] (take (Suc (t_outputLines r)) (splitLinesForCounting content)))))))"
proof -
  define lines where "lines = splitLinesForCounting content"
  define fits where "fits \<longleftrightarrow> int (length lines) \<le> maxLines \<and> int (byteLoop content) \<le> maxBytes"
  note defs = truncateHead_def assms(1,2) Let_def utf8ByteLength_encode byteLoop_encode [symmetric] lines_def [symmetric] fits_def [symmetric]
  consider (fits) fits | (long) line rest where "\<not> fits" "lines = line # rest" "maxBytes < int (byteLoop line)"
    | (cut) line rest where "\<not> fits" "lines = line # rest" "\<not> maxBytes < int (byteLoop line)"
    | (empty) "\<not> fits" "lines = []"
    by (cases lines) auto
  then show ?thesis
  proof cases
    case fits
    then show ?thesis
      by (simp add: defs) (simp add: fits_def lines_def)
  next
    case long
    then show ?thesis
      using assms(3,4) by (simp add: defs)
  next
    case empty
    then have "content = []"
      using no_lines by (simp add: lines_def)
    then show ?thesis
      using empty assms(3,4) by (simp add: fits_def)
  next
    case cut
    obtain out bytes stopped where run: "headLoop buffer maxLines maxBytes [] 0 lines = (out, bytes, stopped)"
      by (cases "headLoop buffer maxLines maxBytes [] 0 lines")
    from headLoop_spec [OF run joined_simps(1) [symmetric], unfolded append_Nil] obtain k where k: "k \<le> length lines" "out = take k lines" "bytes = joined out"
      "0 < k \<longrightarrow> int bytes \<le> maxBytes \<and> int (length out) \<le> maxLines"
      "stopped \<longleftrightarrow> k < length lines \<and> int (length out) < maxLines"
      "stopped \<longrightarrow> maxBytes < int (joined (take (Suc k) lines))"
      by blast
    have le: "int bytes \<le> maxBytes" "int k \<le> maxLines" "length out = k"
      using k assms(3,4) by (cases "k = 0"; simp add: joined_simps)+
    have hd: "lines \<noteq> []" "hd lines = line"
      using cut(2) by simp_all
    have eq: "truncateHead buffer content l b = Some \<lparr>t_content = join [NL] out, t_truncated = True,
      t_truncatedBy = Some (if k < length lines \<and> int k < maxLines then ByBytes else ByLines),
      t_totalLines = length lines, t_totalBytes = byteLoop content, t_outputLines = k, t_outputBytes = joined out,
      t_lastLinePartial = False, t_firstLineExceedsLimit = False, t_maxLines = maxLines, t_maxBytes = maxBytes\<rparr>"
      using cut(1,3) hd le k(1,3,5) by (simp add: defs list_case_hd [of lines] run joined_def)
    show ?thesis
      unfolding lines_def [symmetric] byteLoop_encode [symmetric] eq
      using cut(1,3) le hd(2) k(5,6) by (auto simp: fits_def k(2,3) joined_def)
  qed
qed

theorem truncateHead_exact_witness:
  "\<exists>r. truncateHead False (js ''ab'' @ NL # js ''cdef'') None (Some 4) = Some r \<and> t_outputBytes r \<le> 4
    \<and> t_content r = join [NL] (take (t_outputLines r) [js ''ab'', js ''cdef''])"
proof -
  have "splitLinesForCounting (js ''ab'' @ NL # js ''cdef'') = [js ''ab'', js ''cdef'']"
    "length (textEncode (js ''ab'' @ NL # js ''cdef'')) = 7"
    by (simp_all add: splitLinesForCounting_def endsWith_def startsWith_def text_eval)
  then show ?thesis
    using truncateHead_exact [OF refl refl, of None "Some 4" False "js ''ab'' @ NL # js ''cdef''"]
    by (auto simp: limitOr_def DEFAULT_MAX_LINES_def)
qed

text \<open>
  A text of one line that fills the byte limit and ends in a line break is truncated, to the line,
  because the break does not fit; the result blames the line limit, which is not exceeded.
\<close>

theorem truncateHead_blames_lines:
  assumes "NL \<notin> set line" "line \<noteq> []" "1 \<le> maxLines" "int (length (textEncode line)) = maxBytes"
  shows "\<exists>r. truncateHead buffer (line @ [NL]) (Some maxLines) (Some maxBytes) = Some r
    \<and> t_truncated r \<and> t_content r = line \<and> int (t_totalLines r) \<le> maxLines
    \<and> maxBytes < int (t_totalBytes r) \<and> t_truncatedBy r = Some ByLines"
proof -
  have lines: "splitLinesForCounting (line @ [NL]) = [line]"
    using assms(1) by (simp add: splitLinesForCounting_def Let_def endsWith_def startsWith_def splitChar_append splitChar_plain)
  have "byteLoop (line @ [NL]) = Suc (byteLoop line)"
    using byteLoop_line [of line "[]"] by simp
  then show ?thesis
    using assms(3,4) lines
    by (simp add: truncateHead_def Let_def limitOr_def utf8ByteLength_encode byteLoop_encode)
qed

theorem truncateHead_blames_lines_witness:
  "\<exists>r. truncateHead True (js ''ab'' @ [NL]) (Some 2000) (Some 2) = Some r \<and> t_truncatedBy r = Some ByLines"
  using truncateHead_blames_lines [of "js ''ab''" 2000 2 True]
  by (auto simp: text_eval)

text \<open>
  Truncation from the tail: with limits that are not negative, a text within them comes back whole;
  otherwise the result is the longest run of whole lines up to the end within both limits, or, when even
  the last line does not fit, the longest end of it made of whole characters; it is within the limits.
\<close>

theorem truncateTail_exact:
  assumes "limitOr DEFAULT_MAX_LINES l = maxLines" "limitOr DEFAULT_MAX_BYTES b = maxBytes" "0 \<le> maxLines" "0 \<le> maxBytes"
  shows "let r = truncateTail buffer content l b; lines = splitLinesForCounting content; k = t_outputLines r in
      int (t_outputBytes r) \<le> maxBytes \<and> int (t_outputLines r) \<le> maxLines
    \<and> t_outputBytes r = length (textEncode (t_content r))
    \<and> t_totalLines r = length lines \<and> t_totalBytes r = length (textEncode content)
    \<and> (if int (t_totalLines r) \<le> maxLines \<and> int (t_totalBytes r) \<le> maxBytes
       then \<not> t_truncated r \<and> t_truncatedBy r = None \<and> t_content r = content \<and> \<not> t_lastLinePartial r
       else t_truncated r \<and>
         (if t_lastLinePartial r
          then k = 1 \<and> lines \<noteq> [] \<and> maxBytes < int (length (textEncode (last lines)))
             \<and> tail_of_line (last lines) maxBytes (t_content r)
          else k \<le> length lines \<and> t_content r = join [NL] (drop (length lines - k) lines)
             \<and> (k < length lines \<and> int k < maxLines \<longrightarrow>
                  maxBytes < int (length (textEncode (join [NL] (drop (length lines - Suc k) lines)))))))"
proof -
  define lines where "lines = splitLinesForCounting content"
  define fits where "fits \<longleftrightarrow> int (length lines) \<le> maxLines \<and> int (byteLoop content) \<le> maxBytes"
  note defs = truncateTail_def assms(1,2) Let_def utf8ByteLength_encode byteLoop_encode [symmetric] lines_def [symmetric] fits_def [symmetric]
  show ?thesis
  proof (cases fits)
    case True
    then show ?thesis
      by (simp add: defs) (simp add: fits_def)
  next
    case False
    obtain out bytes stopped partial where run: "tailLoop buffer maxLines maxBytes [] 0 (rev lines) = (out, bytes, stopped, partial)"
      by (cases "tailLoop buffer maxLines maxBytes [] 0 (rev lines)")
    have "([] :: jsstring list) \<noteq> [] \<longrightarrow> int 0 \<le> maxBytes \<and> int (length ([] :: jsstring list)) \<le> maxLines"
      by simp
    note spec = tailLoop_spec [OF run joined_simps(1) [symmetric] assms(4) this]
    show ?thesis
    proof (cases partial)
      case True
      then have p: "lines \<noteq> []" "0 < maxLines" "maxBytes < int (byteLoop (last lines))"
        "out = [truncateStringToBytesFromEnd (last lines) maxBytes]"
        using spec by (simp_all add: hd_rev)
      have t: "tail_of_line (last lines) maxBytes (truncateStringToBytesFromEnd (last lines) maxBytes)"
        by (rule truncateString_spec [OF assms(4)])
      then have "int (byteLoop (truncateStringToBytesFromEnd (last lines) maxBytes)) \<le> maxBytes"
        by (auto simp: tail_of_line_def)
      with p t True False show ?thesis
        by (simp add: defs run)
    next
      case whole: False
      from spec [unfolded if_not_P [OF whole] append_Nil2 length_rev] obtain k where k: "k \<le> length lines" "out = rev (take k (rev lines))" "bytes = joined out"
        "out \<noteq> [] \<longrightarrow> int bytes \<le> maxBytes \<and> int (length out) \<le> maxLines"
        "stopped \<longleftrightarrow> k < length lines \<and> int (length out) < maxLines"
        "stopped \<longrightarrow> maxBytes < int (joined (rev (take (Suc k) (rev lines))))"
        by blast
      have "int bytes \<le> maxBytes \<and> int (length out) \<le> maxLines"
      proof (cases "out = []")
        case True
        then show ?thesis
          using assms(3,4) by (simp only: k(3)) (simp add: joined_simps(1))
      qed (use k(4) in blast)
      then have le: "int bytes \<le> maxBytes" "int (length out) \<le> maxLines" "length out = k"
        using k(1,2) by simp_all
      have out: "out = drop (length lines - k) lines" "rev (take (Suc k) (rev lines)) = drop (length lines - Suc k) lines"
        using k(2) by (simp_all add: take_rev)
      show ?thesis
        using False whole le k(1,5,6) unfolding out(2)
        by (simp add: defs run k(3) joined_def) (simp add: out(1))
    qed
  qed
qed

theorem truncateTail_exact_witness:
  "t_outputBytes (truncateTail True (js ''ab'' @ NL # js ''cdef'') None (Some 2)) \<le> 2
    \<and> t_truncated (truncateTail True (js ''ab'' @ NL # js ''cdef'') None (Some 2))"
proof -
  have "length (textEncode (js ''ab'' @ NL # js ''cdef'')) = 7"
    by (simp add: text_eval)
  then show ?thesis
    using truncateTail_exact [OF refl refl, of None "Some 2" True "js ''ab'' @ NL # js ''cdef''"]
    by (auto simp: limitOr_def DEFAULT_MAX_LINES_def Let_def split: if_splits)
qed

end
