(* ===== verification/EditDiff.thy ===== *)
theory EditDiff
  imports JsLib
begin

text \<open>
  Text edits (\<open>packages/agent/src/harness/tools/edit-diff.ts\<close>): line endings, exact and fuzzy
  matching, the application of several replacements at once, and the display of a diff. Unicode's
  compatibility normalization, a table of the runtime, is the parameter \<open>nfkc\<close>; the parts of a line
  diff, which the package \<open>diff\<close> computes, are an argument.
\<close>

section \<open>Line endings\<close>

datatype line_ending = LF | CRLF

definition detectLineEnding :: "jsstring \<Rightarrow> line_ending" where
  "detectLineEnding content =
     (case indexOf [NL] content of
        None \<Rightarrow> LF
      | Some lfIdx \<Rightarrow>
          (case indexOf [CR, NL] content of
             None \<Rightarrow> LF
           | Some crlfIdx \<Rightarrow> if crlfIdx < lfIdx then CRLF else LF))"

text \<open>\<open>replace(/\\r\\n/g, "\\n")\<close> and \<open>replace(/\\r/g, "\\n")\<close>.\<close>

fun replaceCRLF :: "jsstring \<Rightarrow> jsstring" where
  "replaceCRLF (c # d # s) = (if c = CR \<and> d = NL then NL # replaceCRLF s else c # replaceCRLF (d # s))"
| "replaceCRLF s = s"

definition replaceCR :: "jsstring \<Rightarrow> jsstring" where
  "replaceCR s = map (\<lambda>c. if c = CR then NL else c) s"

definition normalizeToLF :: "jsstring \<Rightarrow> jsstring" where
  "normalizeToLF text = replaceCR (replaceCRLF text)"

definition restoreLineEndings :: "jsstring \<Rightarrow> line_ending \<Rightarrow> jsstring" where
  "restoreLineEndings text ending =
     (case ending of CRLF \<Rightarrow> concat (map (\<lambda>c. if c = NL then [CR, NL] else [c]) text) | LF \<Rightarrow> text)"

section \<open>Fuzzy normalization\<close>

definition plain_unit :: "code_unit \<Rightarrow> code_unit" where
  "plain_unit c =
     (if c \<in> {0x2018, 0x2019, 0x201A, 0x201B} then 0x27
      else if c \<in> {0x201C, 0x201D, 0x201E, 0x201F} then 0x22
      else if c \<in> {0x2010, 0x2011, 0x2012, 0x2013, 0x2014, 0x2015, 0x2212} then 0x2D
      else if c = 0xA0 \<or> (0x2002 \<le> c \<and> c \<le> 0x200A) \<or> c = 0x202F \<or> c = 0x205F \<or> c = 0x3000 then 0x20
      else c)"

definition normalizeForFuzzyMatch :: "(jsstring \<Rightarrow> jsstring) \<Rightarrow> jsstring \<Rightarrow> jsstring" where
  "normalizeForFuzzyMatch nfkc text = map plain_unit (join [NL] (map trimEnd (splitChar NL (nfkc text))))"

section \<open>Lines\<close>

text \<open>The matches of \<open>/[^\\n]*\\n|[^\\n]+/g\<close>.\<close>

fun splitLinesWithEndings :: "jsstring \<Rightarrow> jsstring list" where
  "splitLinesWithEndings [] = []"
| "splitLinesWithEndings (c # s) =
     (if c = NL then [c] # splitLinesWithEndings s
      else (case splitLinesWithEndings s of [] \<Rightarrow> [[c]] | l # ls \<Rightarrow> (c # l) # ls))"

record line_span =
  sp_start :: nat
  sp_end :: nat

fun spansFrom :: "nat \<Rightarrow> jsstring list \<Rightarrow> line_span list" where
  "spansFrom offset [] = []"
| "spansFrom offset (line # lines) =
     \<lparr>sp_start = offset, sp_end = offset + length line\<rparr> # spansFrom (offset + length line) lines"

definition getLineSpans :: "jsstring \<Rightarrow> line_span list" where
  "getLineSpans content = spansFrom 0 (splitLinesWithEndings content)"

record replacement =
  r_editIndex :: nat
  r_matchIndex :: nat
  r_matchLength :: nat
  r_newText :: jsstring

datatype edit_error =
    OutsideBase
  | LineCountDiffers
  | EmptyOldText nat nat
  | TextNotFound nat nat
  | DuplicateText nat nat int
  | OverlappingEdits nat nat
  | NoChange nat

text \<open>The inner loop of \<open>getReplacementLineRange\<close>: the first line that ends at or after the end.\<close>

fun endLineFrom :: "line_span list \<Rightarrow> nat \<Rightarrow> nat \<Rightarrow> nat" where
  "endLineFrom [] replacementEnd endLine = endLine"
| "endLineFrom (line # lines) replacementEnd endLine =
     (if sp_end line < replacementEnd then endLineFrom lines replacementEnd (endLine + 1) else endLine)"

definition getReplacementLineRange :: "line_span list \<Rightarrow> replacement \<Rightarrow> edit_error + nat \<times> nat" where
  "getReplacementLineRange lines r =
     (let replacementStart = r_matchIndex r; replacementEnd = r_matchIndex r + r_matchLength r in
      case findIndex (\<lambda>line. sp_start line \<le> replacementStart \<and> replacementStart < sp_end line) lines of
        None \<Rightarrow> Inl OutsideBase
      | Some startLine \<Rightarrow>
          let endLine = endLineFrom (drop startLine lines) replacementEnd startLine in
          if length lines \<le> endLine then Inl OutsideBase else Inr (startLine, endLine + 1))"

section \<open>Replacements\<close>

text \<open>\<open>substring\<close> takes a negative index as 0.\<close>

definition applyReplacement :: "nat \<Rightarrow> replacement \<Rightarrow> jsstring \<Rightarrow> jsstring" where
  "applyReplacement offset r result =
     (let matchIndex = int (r_matchIndex r) - int offset in
      take (nat matchIndex) result @ r_newText r @ drop (nat (matchIndex + int (r_matchLength r))) result)"

text \<open>From the last replacement to the first.\<close>

definition applyReplacements :: "jsstring \<Rightarrow> replacement list \<Rightarrow> nat \<Rightarrow> jsstring" where
  "applyReplacements content rs offset = foldr (applyReplacement offset) rs content"

record group =
  g_startLine :: nat
  g_endLine :: nat
  g_replacements :: "replacement list"

definition addReplacement :: "nat \<Rightarrow> nat \<Rightarrow> replacement \<Rightarrow> group list \<Rightarrow> group list" where
  "addReplacement startLine endLine r groups =
     (if groups \<noteq> [] \<and> startLine < g_endLine (last groups)
      then butlast groups @ [(last groups)\<lparr>g_endLine := max (g_endLine (last groups)) endLine,
             g_replacements := g_replacements (last groups) @ [r]\<rparr>]
      else groups @ [\<lparr>g_startLine = startLine, g_endLine = endLine, g_replacements = [r]\<rparr>])"

fun groupLoop :: "line_span list \<Rightarrow> replacement list \<Rightarrow> group list \<Rightarrow> edit_error + group list" where
  "groupLoop baseLines [] groups = Inr groups"
| "groupLoop baseLines (r # rs) groups =
     bindE (getReplacementLineRange baseLines r) (\<lambda>(startLine, endLine).
       groupLoop baseLines rs (addReplacement startLine endLine r groups))"

text \<open>The loop over the groups: the text so far and the next original line.\<close>

fun rewriteLoop :: "jsstring \<Rightarrow> line_span list \<Rightarrow> jsstring list \<Rightarrow> group list \<Rightarrow> nat \<Rightarrow> jsstring \<Rightarrow> jsstring" where
  "rewriteLoop baseContent baseLines originalLines [] originalLineIndex result =
     result @ concat (drop originalLineIndex originalLines)"
| "rewriteLoop baseContent baseLines originalLines (g # groups) originalLineIndex result =
     (let result = result @ concat (slice originalLineIndex (g_startLine g) originalLines);
          groupStartOffset = sp_start (baseLines ! g_startLine g);
          groupEndOffset = sp_end (baseLines ! (g_endLine g - 1));
          result = result @ applyReplacements (slice groupStartOffset groupEndOffset baseContent) (g_replacements g) groupStartOffset
      in rewriteLoop baseContent baseLines originalLines groups (g_endLine g) result)"

definition applyReplacementsPreservingUnchangedLines ::
    "jsstring \<Rightarrow> jsstring \<Rightarrow> replacement list \<Rightarrow> edit_error + jsstring" where
  "applyReplacementsPreservingUnchangedLines originalContent baseContent replacements =
     (let originalLines = splitLinesWithEndings originalContent; baseLines = getLineSpans baseContent in
      if length originalLines \<noteq> length baseLines then Inl LineCountDiffers
      else bindE (groupLoop baseLines (sort_key r_matchIndex replacements) []) (\<lambda>groups.
        Inr (rewriteLoop baseContent baseLines originalLines groups 0 [])))"

section \<open>Matching\<close>

record fuzzy_match =
  f_found :: bool
  f_index :: nat
  f_matchLength :: nat
  f_usedFuzzyMatch :: bool
  f_contentForReplacement :: jsstring

record edit =
  oldText :: jsstring
  newText :: jsstring

text \<open>The index of a match that was not found, -1 in the source, is not read; it is 0 here.\<close>

definition fuzzyFindText :: "(jsstring \<Rightarrow> jsstring) \<Rightarrow> jsstring \<Rightarrow> jsstring \<Rightarrow> fuzzy_match" where
  "fuzzyFindText nfkc content old =
     (case indexOf old content of
        Some exactIndex \<Rightarrow> \<lparr>f_found = True, f_index = exactIndex, f_matchLength = length old,
          f_usedFuzzyMatch = False, f_contentForReplacement = content\<rparr>
      | None \<Rightarrow>
          (let fuzzyContent = normalizeForFuzzyMatch nfkc content; fuzzyOldText = normalizeForFuzzyMatch nfkc old in
           case indexOf fuzzyOldText fuzzyContent of
             None \<Rightarrow> \<lparr>f_found = False, f_index = 0, f_matchLength = 0, f_usedFuzzyMatch = False,
               f_contentForReplacement = content\<rparr>
           | Some fuzzyIndex \<Rightarrow> \<lparr>f_found = True, f_index = fuzzyIndex, f_matchLength = length fuzzyOldText,
               f_usedFuzzyMatch = True, f_contentForReplacement = fuzzyContent\<rparr>))"

definition stripBom :: "jsstring \<Rightarrow> jsstring \<times> jsstring" where
  "stripBom content = (if startsWith [0xFEFF] content then ([0xFEFF], drop 1 content) else ([], content))"

text \<open>The number of pieces of \<open>split\<close>: with an empty separator, the code units.\<close>

function pieces :: "jsstring \<Rightarrow> jsstring \<Rightarrow> nat" where
  "pieces separator s =
     (if separator = [] then length s
      else case indexOf separator s of
        None \<Rightarrow> 1
      | Some i \<Rightarrow> 1 + pieces separator (drop (i + length separator) s))"
  by pat_completeness auto

termination pieces
proof (relation "measure (\<lambda>(p, s). length s)")
  fix separator s :: jsstring and i
  assume "separator \<noteq> []" "indexOf separator s = Some i"
  then show "((separator, drop (i + length separator) s), (separator, s)) \<in> measure (\<lambda>(p, s). length s)"
    using indexOf_Some [of separator s i] by (cases separator) auto
qed simp

declare pieces.simps [simp del]

definition countOccurrences :: "(jsstring \<Rightarrow> jsstring) \<Rightarrow> jsstring \<Rightarrow> jsstring \<Rightarrow> int" where
  "countOccurrences nfkc content old =
     int (pieces (normalizeForFuzzyMatch nfkc old) (normalizeForFuzzyMatch nfkc content)) - 1"

section \<open>Edits\<close>

text \<open>The messages of the errors.\<close>

definition edit_message :: "jsstring \<Rightarrow> edit_error \<Rightarrow> jsstring" where
  "edit_message path e =
     (case e of
        OutsideBase \<Rightarrow> js ''Replacement range is outside the base content.''
      | LineCountDiffers \<Rightarrow> js ''Cannot preserve unchanged lines because the base content has a different line count.''
      | EmptyOldText i totalEdits \<Rightarrow>
          if totalEdits = 1 then js ''oldText must not be empty in '' @ path @ js ''.''
          else js ''edits['' @ show_nat i @ js ''].oldText must not be empty in '' @ path @ js ''.''
      | TextNotFound i totalEdits \<Rightarrow>
          if totalEdits = 1
          then js ''Could not find the exact text in '' @ path
            @ js ''. The old text must match exactly including all whitespace and newlines.''
          else js ''Could not find edits['' @ show_nat i @ js ''] in '' @ path
            @ js ''. The oldText must match exactly including all whitespace and newlines.''
      | DuplicateText i totalEdits n \<Rightarrow>
          if totalEdits = 1
          then js ''Found '' @ show_int n @ js '' occurrences of the text in '' @ path
            @ js ''. The text must be unique. Please provide more context to make it unique.''
          else js ''Found '' @ show_int n @ js '' occurrences of edits['' @ show_nat i @ js ''] in '' @ path
            @ js ''. Each oldText must be unique. Please provide more context to make it unique.''
      | OverlappingEdits i j \<Rightarrow>
          js ''edits['' @ show_nat i @ js ''] and edits['' @ show_nat j @ js ''] overlap in '' @ path
            @ js ''. Merge them into one edit or target disjoint regions.''
      | NoChange totalEdits \<Rightarrow>
          if totalEdits = 1
          then js ''No changes made to '' @ path
            @ js ''. The replacement produced identical content. This might indicate an issue with special characters or the text not existing as expected.''
          else js ''No changes made to '' @ path @ js ''. The replacements produced identical content.'')"

text \<open>The loop that matches the edits, at index \<open>i\<close> of \<open>totalEdits\<close>.\<close>

fun matchLoop :: "(jsstring \<Rightarrow> jsstring) \<Rightarrow> jsstring \<Rightarrow> nat \<Rightarrow> nat \<Rightarrow> edit list \<Rightarrow> edit_error + replacement list" where
  "matchLoop nfkc base totalEdits i [] = Inr []"
| "matchLoop nfkc base totalEdits i (e # es) =
     (let matchResult = fuzzyFindText nfkc base (oldText e) in
      if \<not> f_found matchResult then Inl (TextNotFound i totalEdits)
      else let occurrences = countOccurrences nfkc base (oldText e) in
        if 1 < occurrences then Inl (DuplicateText i totalEdits occurrences)
        else bindE (matchLoop nfkc base totalEdits (i + 1) es) (\<lambda>rs.
          Inr (\<lparr>r_editIndex = i, r_matchIndex = f_index matchResult, r_matchLength = f_matchLength matchResult,
                r_newText = newText e\<rparr> # rs)))"

fun overlapCheck :: "replacement list \<Rightarrow> edit_error + unit" where
  "overlapCheck (previous # current # rs) =
     (if r_matchIndex current < r_matchIndex previous + r_matchLength previous
      then Inl (OverlappingEdits (r_editIndex previous) (r_editIndex current))
      else overlapCheck (current # rs))"
| "overlapCheck rs = Inr ()"

definition applyEditsToNormalizedContent ::
    "(jsstring \<Rightarrow> jsstring) \<Rightarrow> jsstring \<Rightarrow> edit list \<Rightarrow> edit_error + jsstring \<times> jsstring" where
  "applyEditsToNormalizedContent nfkc normalizedContent edits =
     (let normalizedEdits = map (\<lambda>e. \<lparr>oldText = normalizeToLF (oldText e), newText = normalizeToLF (newText e)\<rparr>) edits;
          totalEdits = length normalizedEdits in
      case findIndex (\<lambda>e. oldText e = []) normalizedEdits of
        Some i \<Rightarrow> Inl (EmptyOldText i totalEdits)
      | None \<Rightarrow>
          (let initialMatches = map (\<lambda>e. fuzzyFindText nfkc normalizedContent (oldText e)) normalizedEdits;
               usedFuzzyMatch = (\<exists>m\<in>set initialMatches. f_usedFuzzyMatch m);
               base = (if usedFuzzyMatch then normalizeForFuzzyMatch nfkc normalizedContent else normalizedContent) in
           bindE (matchLoop nfkc base totalEdits 0 normalizedEdits) (\<lambda>matched.
           let matchedEdits = sort_key r_matchIndex matched in
           bindE (overlapCheck matchedEdits) (\<lambda>_.
           bindE (if usedFuzzyMatch
                  then applyReplacementsPreservingUnchangedLines normalizedContent base matchedEdits
                  else Inr (applyReplacements base matchedEdits 0)) (\<lambda>newContent.
           if normalizedContent = newContent then Inl (NoChange totalEdits)
           else Inr (normalizedContent, newContent))))))"

section \<open>Display of a diff\<close>

record diff_part =
  d_value :: jsstring
  d_added :: bool
  d_removed :: bool

datatype shown = Added nat jsstring | Removed nat jsstring | Unchanged nat jsstring | Elided

record diff_state =
  x_output :: "shown list"
  x_oldLineNum :: nat
  x_newLineNum :: nat
  x_lastWasChange :: bool
  x_firstChangedLine :: "nat option"

text \<open>\<open>padStart\<close> with blanks.\<close>

definition padStart :: "nat \<Rightarrow> jsstring \<Rightarrow> jsstring" where
  "padStart width s = replicate (width - length s) 0x20 @ s"

definition render :: "nat \<Rightarrow> shown \<Rightarrow> jsstring" where
  "render width line =
     (case line of
        Added n l \<Rightarrow> js ''+'' @ padStart width (show_nat n) @ js '' '' @ l
      | Removed n l \<Rightarrow> js ''-'' @ padStart width (show_nat n) @ js '' '' @ l
      | Unchanged n l \<Rightarrow> js '' '' @ padStart width (show_nat n) @ js '' '' @ l
      | Elided \<Rightarrow> js '' '' @ padStart width [] @ js '' ...'')"

definition partLines :: "diff_part \<Rightarrow> jsstring list" where
  "partLines part = (let raw = splitChar NL (d_value part) in if last raw = [] then butlast raw else raw)"

definition showAdded :: "jsstring \<Rightarrow> diff_state \<Rightarrow> diff_state" where
  "showAdded line x = x\<lparr>x_output := x_output x @ [Added (x_newLineNum x) line], x_newLineNum := x_newLineNum x + 1\<rparr>"

definition showRemoved :: "jsstring \<Rightarrow> diff_state \<Rightarrow> diff_state" where
  "showRemoved line x = x\<lparr>x_output := x_output x @ [Removed (x_oldLineNum x) line], x_oldLineNum := x_oldLineNum x + 1\<rparr>"

definition showUnchanged :: "jsstring \<Rightarrow> diff_state \<Rightarrow> diff_state" where
  "showUnchanged line x = x\<lparr>x_output := x_output x @ [Unchanged (x_oldLineNum x) line],
     x_oldLineNum := x_oldLineNum x + 1, x_newLineNum := x_newLineNum x + 1\<rparr>"

definition skipLines :: "nat \<Rightarrow> diff_state \<Rightarrow> diff_state" where
  "skipLines n x = x\<lparr>x_oldLineNum := x_oldLineNum x + n, x_newLineNum := x_newLineNum x + n\<rparr>"

definition elide :: "nat \<Rightarrow> diff_state \<Rightarrow> diff_state" where
  "elide n x = skipLines n (x\<lparr>x_output := x_output x @ [Elided]\<rparr>)"

text \<open>One iteration; \<open>nextPartIsChange\<close> looks at the next part.\<close>

definition diffStep :: "nat \<Rightarrow> bool \<Rightarrow> diff_part \<Rightarrow> diff_state \<Rightarrow> diff_state" where
  "diffStep contextLines nextPartIsChange part x =
     (let raw = partLines part in
      if d_added part \<or> d_removed part
      then let x = (if x_firstChangedLine x = None then x\<lparr>x_firstChangedLine := Some (x_newLineNum x)\<rparr> else x);
               x = fold (if d_added part then showAdded else showRemoved) raw x
           in x\<lparr>x_lastWasChange := True\<rparr>
      else
        let y =
          (if x_lastWasChange x \<and> nextPartIsChange
           then if length raw \<le> contextLines * 2 then fold showUnchanged raw x
                else let leadingLines = take contextLines raw;
                         trailingLines = drop (length raw - contextLines) raw;
                         skippedLines = length raw - length leadingLines - length trailingLines
                     in fold showUnchanged trailingLines (elide skippedLines (fold showUnchanged leadingLines x))
           else if x_lastWasChange x
           then let shownLines = take contextLines raw;
                    skippedLines = length raw - length shownLines;
                    y = fold showUnchanged shownLines x
                in if 0 < skippedLines then elide skippedLines y else y
           else if nextPartIsChange
           then let skippedLines = length raw - contextLines;
                    y = (if 0 < skippedLines then elide skippedLines x else x)
                in fold showUnchanged (drop skippedLines raw) y
           else skipLines (length raw) x)
        in y\<lparr>x_lastWasChange := False\<rparr>)"

fun diffLoop :: "nat \<Rightarrow> diff_part list \<Rightarrow> diff_state \<Rightarrow> diff_state" where
  "diffLoop contextLines [] x = x"
| "diffLoop contextLines (part # parts) x =
     diffLoop contextLines parts
       (diffStep contextLines (case parts of [] \<Rightarrow> False | p # _ \<Rightarrow> d_added p \<or> d_removed p) part x)"

definition generateDiffString ::
    "(jsstring \<Rightarrow> jsstring \<Rightarrow> diff_part list) \<Rightarrow> jsstring \<Rightarrow> jsstring \<Rightarrow> nat \<Rightarrow> jsstring \<times> nat option" where
  "generateDiffString diffLines oldContent newContent contextLines =
     (let maxLineNum = max (length (splitChar NL oldContent)) (length (splitChar NL newContent));
          lineNumWidth = length (show_nat maxLineNum);
          x = diffLoop contextLines (diffLines oldContent newContent)
                \<lparr>x_output = [], x_oldLineNum = 1, x_newLineNum = 1, x_lastWasChange = False, x_firstChangedLine = None\<rparr>
      in (join [NL] (map (render lineNumWidth) (x_output x)), x_firstChangedLine x))"

end
