(* ===== verification/EditProps.thy ===== *)
theory EditProps
  imports EditDiff "HOL-Library.Multiset"
begin

text \<open>
  Properties of text edits: line endings round trip, exact edits are one splice of the text, an
  application that preserves lines rewrites only the lines the replacements touch and agrees with the
  direct one, and the display of a diff labels every line with its number.
\<close>

section \<open>Line endings\<close>

lemma replaceCRLF_plain: "CR \<notin> set s \<Longrightarrow> replaceCRLF s = s"
  by (induction s rule: replaceCRLF.induct) auto

lemma normalize_plain: "CR \<notin> set s \<Longrightarrow> normalizeToLF s = s"
  by (auto simp: normalizeToLF_def replaceCRLF_plain replaceCR_def intro: map_idI)

lemma restore_Cons: "restoreLineEndings (c # s) CRLF = (if c = NL then [CR, NL] else [c]) @ restoreLineEndings s CRLF"
  by (simp add: restoreLineEndings_def)

lemma restore_Nil: "restoreLineEndings [] CRLF = []"
  by (simp add: restoreLineEndings_def)

lemma replaceCRLF_Cons: "c \<noteq> CR \<Longrightarrow> replaceCRLF (c # s) = c # replaceCRLF s"
  by (cases s) simp_all

lemma normalize_restore: "CR \<notin> set t \<Longrightarrow> normalizeToLF (restoreLineEndings t CRLF) = t"
proof (induction t)
  case (Cons c t)
  then show ?case
    by (auto simp: normalizeToLF_def replaceCR_def restore_Cons replaceCRLF_Cons)
qed (simp add: restore_Nil normalizeToLF_def replaceCR_def)

lemma restore_prefix: "NL \<notin> set a \<Longrightarrow> restoreLineEndings (a @ s) CRLF = a @ restoreLineEndings s CRLF"
  by (induction a) (auto simp: restore_Cons)

lemma indexOf_unit: "c \<notin> set a \<Longrightarrow> indexOf [c] (a @ c # s) = Some (length a)"
  by (induction a) (auto simp: startsWith_def)

lemma indexOf_unit_None: "c \<notin> set s \<Longrightarrow> indexOf [c] s = None"
  by (induction s) (auto simp: startsWith_def)

lemma indexOf_pair: "c \<notin> set a \<Longrightarrow> indexOf [c, d] (a @ c # d # s) = Some (length a)"
  by (induction a) (auto simp: startsWith_def)

lemma detect_restored:
  assumes "CR \<notin> set t"
  shows "detectLineEnding (restoreLineEndings t CRLF) = (if NL \<in> set t then CRLF else LF)"
proof (cases "NL \<in> set t")
  case True
  then obtain a b where t: "t = a @ NL # b" "NL \<notin> set a"
    by (meson split_list_first)
  then have s: "restoreLineEndings t CRLF = a @ CR # NL # restoreLineEndings b CRLF"
    by (simp add: restore_prefix restore_Cons)
  have "indexOf [NL] ((a @ [CR]) @ NL # restoreLineEndings b CRLF) = Some (length (a @ [CR]))"
    using t(2) by (intro indexOf_unit) simp
  moreover have "indexOf [CR, NL] (a @ CR # NL # restoreLineEndings b CRLF) = Some (length a)"
    using assms t(1) by (intro indexOf_pair) simp
  ultimately show ?thesis
    using True by (simp add: detectLineEnding_def s)
next
  case False
  then have "restoreLineEndings t CRLF = t"
    using restore_prefix [of t "[]"] by (simp add: restore_Nil)
  then show ?thesis
    using False by (simp add: detectLineEnding_def indexOf_unit_None)
qed

lemma detect_plain: "CR \<notin> set t \<Longrightarrow> detectLineEnding t = LF"
proof -
  assume "CR \<notin> set t"
  then have "indexOf [CR, NL] t = None"
    by (induction t) (auto simp: startsWith_def)
  then show ?thesis
    by (simp add: detectLineEnding_def split: option.split)
qed

lemma normalize_no_CR: "CR \<notin> set (normalizeToLF s)"
  by (auto simp: normalizeToLF_def replaceCR_def split: if_splits)

section \<open>Replacements that do not overlap\<close>

text \<open>Replacements in order, none overlapping the next, between two positions.\<close>

fun laid :: "nat \<Rightarrow> nat \<Rightarrow> replacement list \<Rightarrow> bool" where
  "laid pos n [] = (pos \<le> n)"
| "laid pos n (r # rs) = (pos \<le> r_matchIndex r \<and> laid (r_matchIndex r + r_matchLength r) n rs)"

text \<open>The text \<open>s\<close>, which starts at \<open>off\<close>, from \<open>pos\<close> on with the replacements made, left to right.\<close>

fun spliced :: "nat \<Rightarrow> jsstring \<Rightarrow> nat \<Rightarrow> replacement list \<Rightarrow> jsstring" where
  "spliced off s pos [] = drop (pos - off) s"
| "spliced off s pos (r # rs) = slice (pos - off) (r_matchIndex r - off) s @ r_newText r
     @ spliced off s (r_matchIndex r + r_matchLength r) rs"

lemma laid_le: "laid pos n rs \<Longrightarrow> pos \<le> n"
  by (induction rs arbitrary: pos) force+

lemma laid_mono: "laid pos n rs \<Longrightarrow> p \<le> pos \<Longrightarrow> laid p n rs"
  by (cases rs) auto

lemma foldr_spliced:
  "laid pos n rs \<Longrightarrow> off \<le> pos \<Longrightarrow> n = off + length s \<Longrightarrow>
   foldr (applyReplacement off) rs s = take (pos - off) s @ spliced off s pos rs"
proof (induction rs arbitrary: pos)
  case (Cons r rs)
  define q where "q = r_matchIndex r + r_matchLength r"
  have q: "laid q n rs" "off \<le> q" "pos \<le> r_matchIndex r" "off \<le> r_matchIndex r" "r_matchIndex r \<le> q"
    using Cons.prems by (auto simp: q_def)
  have n: "q - off \<le> length s"
    using laid_le [OF q(1)] Cons.prems(3) by simp
  have IH: "foldr (applyReplacement off) rs s = take (q - off) s @ spliced off s q rs"
    using Cons.IH [OF q(1,2) Cons.prems(3)] .
  have idx: "nat (int (r_matchIndex r) - int off) = r_matchIndex r - off"
    "nat (int (r_matchIndex r) - int off + int (r_matchLength r)) = q - off"
    using q(4) by (auto simp: q_def)
  have "foldr (applyReplacement off) (r # rs) s
      = take (r_matchIndex r - off) s @ r_newText r @ spliced off s q rs"
    using n q(4,5) by (simp add: IH applyReplacement_def Let_def idx min_absorb2 diff_le_mono)
  also have "take (r_matchIndex r - off) s = take (pos - off) s @ slice (pos - off) (r_matchIndex r - off) s"
    using q(3) by (simp add: take_append_slice diff_le_mono)
  finally show ?case
    by (simp add: q_def)
qed simp

lemma applyReplacements_spliced:
  "laid off (off + length s) rs \<Longrightarrow> applyReplacements s rs off = spliced off s off rs"
  using foldr_spliced [of off "off + length s" rs off s] by (simp add: applyReplacements_def)

section \<open>Lines and spans\<close>

lemma concat_splitLines [simp]: "concat (splitLinesWithEndings s) = s"
  by (induction s) (auto split: list.split)

lemma splitLines_nonempty: "l \<in> set (splitLinesWithEndings s) \<Longrightarrow> l \<noteq> []"
  by (induction s arbitrary: l) (auto split: list.splits if_splits)

text \<open>The offset at which line \<open>i\<close> starts.\<close>

definition offset_of :: "jsstring list \<Rightarrow> nat \<Rightarrow> nat" where
  "offset_of lines i = length (concat (take i lines))"

lemma offset_mono: "i \<le> j \<Longrightarrow> offset_of lines i \<le> offset_of lines j"
proof -
  assume "i \<le> j"
  then have "take j lines = take i lines @ take (j - i) (drop i lines)"
    by (metis le_add_diff_inverse take_add)
  then show ?thesis
    by (simp add: offset_of_def)
qed

lemma offset_Suc: "i < length lines \<Longrightarrow> offset_of lines (Suc i) = offset_of lines i + length (lines ! i)"
  by (simp add: offset_of_def take_Suc_conv_app_nth)

lemma offset_all: "length lines \<le> i \<Longrightarrow> offset_of lines i = length (concat lines)"
  by (simp add: offset_of_def)

lemma length_spans [simp]: "length (spansFrom off lines) = length lines"
  by (induction lines arbitrary: off) simp_all

lemma nth_spans:
  "i < length lines \<Longrightarrow> spansFrom off lines ! i = \<lparr>sp_start = off + offset_of lines i, sp_end = off + offset_of lines (Suc i)\<rparr>"
proof (induction lines arbitrary: off i)
  case (Cons l lines)
  then show ?case
    by (cases i) (simp_all add: offset_of_def)
qed simp

lemma slice_concat:
  assumes "i \<le> j"
  shows "slice (offset_of lines i) (offset_of lines j) (concat lines) = concat (slice i j lines)"
proof -
  have "concat lines = concat (take i lines) @ concat (slice i j lines) @ concat (drop j lines)"
    by (simp flip: concat_append add: assms slice_append_drop)
  moreover have "offset_of lines j = length (concat (take i lines)) + length (concat (slice i j lines))"
    using take_append_slice [OF assms, of lines] by (metis concat_append length_append offset_of_def)
  ultimately show ?thesis
    by (simp add: slice_def offset_of_def)
qed

section \<open>Line ranges of replacements\<close>

lemma endLineFrom_spec:
  "endLineFrom ls e k = j \<Longrightarrow> k \<le> j \<and> j \<le> k + length ls \<and> (j < k + length ls \<longrightarrow> e \<le> sp_end (ls ! (j - k)))
    \<and> (\<forall>i. k \<le> i \<longrightarrow> i < k + length ls \<longrightarrow> e \<le> sp_end (ls ! (i - k)) \<longrightarrow> j \<le> i)"
proof (induction ls arbitrary: k)
  case (Cons l ls)
  show ?case
  proof (cases "sp_end l < e")
    case True
    then have j: "endLineFrom ls e (k + 1) = j"
      using Cons.prems by simp
    note IH = Cons.IH [OF j]
    have "j \<le> i" if i: "k \<le> i" "i < k + length (l # ls)" "e \<le> sp_end ((l # ls) ! (i - k))" for i
    proof (cases "i = k")
      case False
      then have "(l # ls) ! (i - k) = ls ! (i - (k + 1))"
        using i(1) by (simp add: nth_Cons')
      then show ?thesis
        using IH i False by auto
    qed (use i(3) True in simp)
    moreover have "j < k + length (l # ls) \<longrightarrow> e \<le> sp_end ((l # ls) ! (j - k))"
      using IH by (auto simp: nth_Cons')
    ultimately show ?thesis
      using IH by auto
  qed (use Cons.prems in auto)
qed simp

text \<open>A range with its meaning: the first line holds the start of the replacement, the end is in the last.\<close>

definition in_lines :: "jsstring list \<Rightarrow> replacement \<Rightarrow> nat \<Rightarrow> nat \<Rightarrow> bool" where
  "in_lines lines r a b \<longleftrightarrow> getReplacementLineRange (spansFrom 0 lines) r = Inr (a, b)"

lemma in_lines_bounds:
  assumes "in_lines lines r a b"
  shows "a < b" "b \<le> length lines" "offset_of lines a \<le> r_matchIndex r" "r_matchIndex r < offset_of lines (Suc a)"
    "r_matchIndex r + r_matchLength r \<le> offset_of lines b"
proof -
  define e where "e = r_matchIndex r + r_matchLength r"
  define k where "k = endLineFrom (drop a (spansFrom 0 lines)) e a"
  have f: "findIndex (\<lambda>line. sp_start line \<le> r_matchIndex r \<and> r_matchIndex r < sp_end line) (spansFrom 0 lines) = Some a"
    and k: "k < length lines" "b = k + 1"
    using assms by (auto simp: in_lines_def getReplacementLineRange_def Let_def e_def k_def split: option.splits if_splits)
  have a: "a < length lines"
    using findIndex_Some [OF f] by simp
  have ak: "a \<le> k"
    using endLineFrom_spec [OF k_def [symmetric]] by blast
  moreover have "e \<le> sp_end (drop a (spansFrom 0 lines) ! (k - a))"
    using endLineFrom_spec [OF k_def [symmetric]] k(1) a ak by (simp del: nth_drop)
  ultimately have "e \<le> sp_end (spansFrom 0 lines ! k)"
    using a by (simp only: nth_drop length_spans less_imp_le le_add_diff_inverse)
  then show "a < b" "b \<le> length lines" "r_matchIndex r + r_matchLength r \<le> offset_of lines b"
    using k ak by (simp_all add: e_def nth_spans)
  show "offset_of lines a \<le> r_matchIndex r" "r_matchIndex r < offset_of lines (Suc a)"
    using findIndex_Some [OF f] a by (simp_all add: nth_spans)
qed

lemma in_lines_exists:
  assumes "r_matchIndex r < length (concat lines)" "r_matchIndex r + r_matchLength r \<le> length (concat lines)"
  shows "\<exists>a b. in_lines lines r a b"
proof -
  define P where "P = (\<lambda>line :: line_span. sp_start line \<le> r_matchIndex r \<and> r_matchIndex r < sp_end line)"
  define m where "m = (LEAST i. r_matchIndex r < offset_of lines i)"
  have ex: "r_matchIndex r < offset_of lines (length lines)"
    using assms(1) by (simp add: offset_all)
  then have m: "r_matchIndex r < offset_of lines m" "m \<le> length lines"
    unfolding m_def by (rule LeastI, rule Least_le)
  have "m \<noteq> 0"
    using m(1) by (cases m) (auto simp: offset_of_def)
  then obtain i where i: "m = Suc i"
    by (cases m) auto
  have "\<not> r_matchIndex r < offset_of lines i"
    using not_less_Least [of i "\<lambda>i. r_matchIndex r < offset_of lines i"] i unfolding m_def by simp
  then have "P (spansFrom 0 lines ! i)" "i < length (spansFrom 0 lines)"
    using m i by (simp_all add: P_def nth_spans)
  then obtain a where f: "findIndex P (spansFrom 0 lines) = Some a"
    using findIndex_None [of P "spansFrom 0 lines"] nth_mem by (cases "findIndex P (spansFrom 0 lines)") blast+
  have a: "a < length lines"
    using findIndex_Some [OF f] by simp
  define e where "e = r_matchIndex r + r_matchLength r"
  define k where "k = endLineFrom (drop a (spansFrom 0 lines)) e a"
  have "e \<le> sp_end (drop a (spansFrom 0 lines) ! (length lines - 1 - a))"
    using a assms(2) by (simp add: nth_spans e_def offset_all)
  then have "k \<le> length lines - 1"
    using endLineFrom_spec [OF k_def [symmetric]] a by auto
  then have "getReplacementLineRange (spansFrom 0 lines) r = Inr (a, k + 1)"
    using f a by (simp add: getReplacementLineRange_def Let_def P_def k_def e_def)
  then show ?thesis
    unfolding in_lines_def by blast
qed

lemma in_lines_mono:
  assumes "in_lines lines r a b" "in_lines lines r' a' b'" "r_matchIndex r \<le> r_matchIndex r'"
  shows "a \<le> a'"
proof (rule ccontr)
  assume "\<not> a \<le> a'"
  then have "offset_of lines (Suc a') \<le> offset_of lines a"
    by (intro offset_mono) simp
  then show False
    using in_lines_bounds [OF assms(1)] in_lines_bounds [OF assms(2)] assms(3) by linarith
qed

section \<open>Groups of replacements\<close>

definition group_ok :: "jsstring list \<Rightarrow> group \<Rightarrow> bool" where
  "group_ok lines g \<longleftrightarrow> g_startLine g < g_endLine g \<and> g_endLine g \<le> length lines \<and> g_replacements g \<noteq> []
     \<and> (\<exists>b. in_lines lines (hd (g_replacements g)) (g_startLine g) b)
     \<and> (\<forall>r\<in>set (g_replacements g). \<exists>a b. in_lines lines r a b \<and> g_startLine g \<le> a \<and> b \<le> g_endLine g)
     \<and> (\<forall>i. g_startLine g \<le> i \<longrightarrow> i < g_endLine g \<longrightarrow>
          (\<exists>r\<in>set (g_replacements g). \<exists>a b. in_lines lines r a b \<and> a \<le> i \<and> i < b))"

definition groups_ok :: "jsstring list \<Rightarrow> group list \<Rightarrow> bool" where
  "groups_ok lines gs \<longleftrightarrow> sorted_wrt (\<lambda>g h. g_endLine g \<le> g_startLine h) gs \<and> (\<forall>g\<in>set gs. group_ok lines g)"

lemma addReplacement_ok:
  assumes "groups_ok lines gs" "in_lines lines r a b"
    and "\<forall>r'\<in>set (concat (map g_replacements gs)). r_matchIndex r' \<le> r_matchIndex r"
  shows "groups_ok lines (addReplacement a b r gs)"
    "concat (map g_replacements (addReplacement a b r gs)) = concat (map g_replacements gs) @ [r]"
proof -
  note ab = in_lines_bounds [OF assms(2)]
  have single: "group_ok lines \<lparr>g_startLine = a, g_endLine = b, g_replacements = [r]\<rparr>"
    using assms(2) ab by (auto simp: group_ok_def)
  show "groups_ok lines (addReplacement a b r gs)"
  proof (cases gs rule: rev_cases)
    case Nil
    then show ?thesis
      using single by (simp add: addReplacement_def groups_ok_def)
  next
    case (snoc hs g)
    have g: "group_ok lines g" and hs: "\<forall>h\<in>set hs. g_endLine h \<le> g_startLine g"
      and ok: "sorted_wrt (\<lambda>g h. g_endLine g \<le> g_startLine h) hs" "\<forall>h\<in>set hs. group_ok lines h"
      using assms(1) by (auto simp: snoc groups_ok_def sorted_wrt_append)
    obtain b0 where b0: "in_lines lines (hd (g_replacements g)) (g_startLine g) b0"
      using g by (auto simp: group_ok_def)
    have "hd (g_replacements g) \<in> set (g_replacements g)"
      using g by (simp add: group_ok_def)
    then have le: "g_startLine g \<le> a"
      using in_lines_mono [OF b0 assms(2)] assms(3) by (simp add: snoc)
    show ?thesis
    proof (cases "a < g_endLine g")
      case True
      define g' where "g' = g\<lparr>g_endLine := max (g_endLine g) b, g_replacements := g_replacements g @ [r]\<rparr>"
      have "\<exists>r\<in>set (g_replacements g'). \<exists>a b. in_lines lines r a b \<and> a \<le> i \<and> i < b"
        if i: "g_startLine g' \<le> i" "i < g_endLine g'" for i
      proof (cases "i < g_endLine g")
        case True
        then show ?thesis
          using g i(1) by (auto simp: group_ok_def g'_def)
      next
        case False
        then have "a \<le> i" "i < b"
          using i(2) \<open>a < g_endLine g\<close> by (auto simp: g'_def)
        then show ?thesis
          using assms(2) by (auto simp: g'_def)
      qed
      moreover have "\<exists>c d. in_lines lines x c d \<and> g_startLine g' \<le> c \<and> d \<le> g_endLine g'" if "x \<in> set (g_replacements g')" for x
        using that g assms(2) le unfolding g'_def group_ok_def by (fastforce simp: le_max_iff_disj)
      ultimately have "group_ok lines g'"
        using g ab(2) b0 by (auto simp: group_ok_def g'_def max_def)
      then show ?thesis
        using True ok hs by (simp add: snoc addReplacement_def groups_ok_def sorted_wrt_append g'_def)
    next
      case False
      have "g_startLine g \<le> g_endLine g"
        using g by (simp add: group_ok_def)
      then have "\<forall>h\<in>set (hs @ [g]). g_endLine h \<le> a"
        using hs False by fastforce
      then show ?thesis
        using False ok hs g single by (simp add: snoc addReplacement_def groups_ok_def sorted_wrt_append)
    qed
  qed
  show "concat (map g_replacements (addReplacement a b r gs)) = concat (map g_replacements gs) @ [r]"
    by (cases gs rule: rev_cases) (auto simp: addReplacement_def)
qed

lemma groupLoop_ok:
  assumes "groupLoop (spansFrom 0 lines) rs gs = Inr gs'" "groups_ok lines gs"
    and "sorted (map r_matchIndex (concat (map g_replacements gs) @ rs))"
  shows "groups_ok lines gs' \<and> concat (map g_replacements gs') = concat (map g_replacements gs) @ rs"
  using assms
proof (induction rs arbitrary: gs)
  case (Cons r rs)
  obtain a b where ab: "getReplacementLineRange (spansFrom 0 lines) r = Inr (a, b)"
    "groupLoop (spansFrom 0 lines) rs (addReplacement a b r gs) = Inr gs'"
    using Cons.prems(1) by auto
  have le: "\<forall>r'\<in>set (concat (map g_replacements gs)). r_matchIndex r' \<le> r_matchIndex r"
    using Cons.prems(3) by (simp add: sorted_append)
  note step = addReplacement_ok [OF Cons.prems(2) _ le, of a b]
  have "groups_ok lines (addReplacement a b r gs)"
    "concat (map g_replacements (addReplacement a b r gs)) = concat (map g_replacements gs) @ [r]"
    using step ab(1) by (simp_all add: in_lines_def)
  then show ?case
    using Cons.IH [OF ab(2)] Cons.prems(3) by simp
qed simp

lemma groupLoop_total:
  "\<forall>r\<in>set rs. \<exists>a b. in_lines lines r a b \<Longrightarrow> \<exists>gs'. groupLoop (spansFrom 0 lines) rs gs = Inr gs'"
  by (induction rs arbitrary: gs) (fastforce simp: in_lines_def)+

section \<open>The rewriting loop\<close>

definition touched :: "jsstring list \<Rightarrow> replacement list \<Rightarrow> nat \<Rightarrow> bool" where
  "touched lines rs i \<longleftrightarrow> (\<exists>r\<in>set rs. \<exists>a b. in_lines lines r a b \<and> a \<le> i \<and> i < b)"

lemma rewriteLoop_chunks:
  "\<lbrakk>sorted_wrt (\<lambda>g h. g_endLine g \<le> g_startLine h) gs; \<forall>g\<in>set gs. p \<le> g_startLine g \<and> g_startLine g < g_endLine g \<and> g_endLine g \<le> length os;
    p \<le> length os\<rbrakk> \<Longrightarrow>
   \<exists>chunks. length chunks = length os - p \<and> rewriteLoop base spans os gs p result = result @ concat chunks
     \<and> (\<forall>i<length chunks. (\<forall>g\<in>set gs. \<not> (g_startLine g \<le> p + i \<and> p + i < g_endLine g)) \<longrightarrow> chunks ! i = os ! (p + i))"
proof (induction gs arbitrary: p result)
  case Nil
  then show ?case
    by (intro exI [of _ "drop p os"]) simp
next
  case (Cons g gs)
  define piece where "piece = applyReplacements (slice (sp_start (spans ! g_startLine g)) (sp_end (spans ! (g_endLine g - 1))) base)
    (g_replacements g) (sp_start (spans ! g_startLine g))"
  have g: "p \<le> g_startLine g" "g_startLine g < g_endLine g" "g_endLine g \<le> length os"
    using Cons.prems(2) by simp_all
  have rest: "\<forall>h\<in>set gs. g_endLine g \<le> g_startLine h \<and> g_startLine h < g_endLine h \<and> g_endLine h \<le> length os"
    using Cons.prems(1,2) by simp
  obtain chunks where c: "length chunks = length os - g_endLine g"
    "rewriteLoop base spans os gs (g_endLine g) (result @ concat (slice p (g_startLine g) os) @ piece)
       = (result @ concat (slice p (g_startLine g) os) @ piece) @ concat chunks"
    "\<forall>i<length chunks. (\<forall>h\<in>set gs. \<not> (g_startLine h \<le> g_endLine g + i \<and> g_endLine g + i < g_endLine h)) \<longrightarrow> chunks ! i = os ! (g_endLine g + i)"
    using Cons.IH [OF _ rest g(3), of "result @ concat (slice p (g_startLine g) os) @ piece"] Cons.prems(1) by auto
  define n where "n = g_startLine g - p"
  define m where "m = g_endLine g - g_startLine g"
  have m: "0 < m" "g_startLine g = p + n" "g_endLine g = p + n + m"
    using g by (simp_all add: n_def m_def)
  have ls: "length (slice p (g_startLine g) os) = n"
    using g by (simp add: length_slice n_def)
  define all where "all = slice p (g_startLine g) os @ (piece # replicate (m - 1) []) @ chunks"
  have l: "length all = length os - p"
    using g m c(1) ls by (simp add: all_def)
  have "rewriteLoop base spans os (g # gs) p result = result @ concat all"
    using c(2) by (simp add: Let_def piece_def all_def)
  moreover have "all ! i = os ! (p + i)"
    if i: "i < length all" "\<forall>h\<in>set (g # gs). \<not> (g_startLine h \<le> p + i \<and> p + i < g_endLine h)" for i
  proof (cases "i < n")
    case True
    then show ?thesis
      using ls g by (simp add: all_def nth_append) (simp add: slice_def n_def)
  next
    case False
    then have "n + m \<le> i"
      using i(2) m by auto
    then obtain j where j: "i = n + m + j"
      using le_Suc_ex by blast
    then have "all ! i = chunks ! j"
      using ls m(1) by (auto simp: all_def nth_append nth_Cons')
    moreover have "j < length chunks"
      using i(1) l c(1) j m(3) by simp
    ultimately show ?thesis
      using c(3) i(2) m(3) j by (simp add: add.assoc)
  qed
  ultimately show ?case
    using l by blast
qed

lemma spliced_from:
  "laid p n rs \<Longrightarrow> pos \<le> p \<Longrightarrow> spliced 0 s pos rs = slice pos p s @ spliced 0 s p rs"
  by (cases rs) (simp_all add: slice_append_drop slice_append_slice flip: append_assoc)

lemma spliced_group:
  "laid pos o2 rs \<Longrightarrow> o1 \<le> pos \<Longrightarrow> laid o2 n rest \<Longrightarrow> o2 \<le> length s \<Longrightarrow>
   spliced 0 s pos (rs @ rest) = spliced o1 (slice o1 o2 s) pos rs @ spliced 0 s o2 rest"
proof (induction rs arbitrary: pos)
  case Nil
  have "drop (pos - o1) (slice o1 o2 s) = slice pos o2 s"
    using Nil.prems by (simp add: slice_def drop_take)
  then show ?case
    using spliced_from [OF Nil.prems(3), of pos s] Nil.prems by simp
next
  case (Cons r rs)
  have le: "r_matchIndex r + r_matchLength r \<le> o2" "pos \<le> r_matchIndex r"
    using Cons.prems(1) laid_le by auto
  have "slice (pos - o1) (r_matchIndex r - o1) (slice o1 o2 s) = slice pos (r_matchIndex r) s"
    using le Cons.prems(2) by (simp add: slice_def drop_take min_absorb1 diff_le_mono)
  then show ?case
    using Cons.IH [of "r_matchIndex r + r_matchLength r"] Cons.prems le by simp
qed

lemma laid_append:
  "laid pos n (rs @ r # rest) \<Longrightarrow> laid pos (r_matchIndex r) rs \<and> laid (r_matchIndex r) n (r # rest)"
  by (induction rs arbitrary: pos) auto

lemma laid_prefix: "laid pos n (xs @ ys) \<Longrightarrow> laid pos n xs"
  using laid_le by (induction xs arbitrary: pos) auto

lemma laid_within:
  "laid pos n rs \<Longrightarrow> (\<And>r. r \<in> set rs \<Longrightarrow> r_matchIndex r + r_matchLength r \<le> m) \<Longrightarrow> pos \<le> m \<Longrightarrow> laid pos m rs"
  by (induction rs arbitrary: pos) auto

lemma rewriteLoop_spliced:
  assumes lines: "lines = splitLinesWithEndings c"
  shows "\<lbrakk>sorted_wrt (\<lambda>g h. g_endLine g \<le> g_startLine h) gs; \<forall>g\<in>set gs. group_ok lines g \<and> p \<le> g_startLine g;
    p \<le> length lines; laid (offset_of lines p) (length c) (concat (map g_replacements gs))\<rbrakk> \<Longrightarrow>
   rewriteLoop c (spansFrom 0 lines) lines gs p result
     = result @ spliced 0 c (offset_of lines p) (concat (map g_replacements gs))"
proof (induction gs arbitrary: p result)
  case Nil
  have "concat (drop p lines) = drop (offset_of lines p) c"
    using lines by (metis append_eq_conv_conj append_take_drop_id concat_append concat_splitLines offset_of_def)
  then show ?case
    by simp
next
  case (Cons g gs)
  define o1 where "o1 = offset_of lines (g_startLine g)"
  define o2 where "o2 = offset_of lines (g_endLine g)"
  define rest where "rest = concat (map g_replacements gs)"
  have g: "group_ok lines g" "p \<le> g_startLine g"
    using Cons.prems(2) by simp_all
  have ge: "g_startLine g < g_endLine g" "g_endLine g \<le> length lines" "g_replacements g \<noteq> []"
    using g(1) by (simp_all add: group_ok_def)
  have c: "c = concat lines"
    using lines by simp
  have o: "offset_of lines p \<le> o1" "o1 \<le> o2" "o2 \<le> length c"
    using g(2) ge offset_mono [of "g_endLine g" "length lines" lines] by (simp_all add: o1_def o2_def offset_mono c offset_all)
  have spans: "sp_start (spansFrom 0 lines ! g_startLine g) = o1" "sp_end (spansFrom 0 lines ! (g_endLine g - 1)) = o2"
    using ge by (simp_all add: nth_spans o1_def o2_def)
  have inr: "o1 \<le> r_matchIndex r \<and> r_matchIndex r + r_matchLength r \<le> o2" if r: "r \<in> set (g_replacements g)" for r
  proof -
    obtain a b where ab: "in_lines lines r a b" "g_startLine g \<le> a" "b \<le> g_endLine g"
      using r g(1) unfolding group_ok_def by blast
    then show ?thesis
      using in_lines_bounds [OF ab(1)] offset_mono [OF ab(2), of lines] offset_mono [OF ab(3), of lines]
      unfolding o1_def o2_def by linarith
  qed
  have laid: "laid (offset_of lines p) (length c) (g_replacements g @ rest)"
    using Cons.prems(4) by (simp add: rest_def)
  have laid_rest: "laid o2 (length c) rest"
  proof (cases rest)
    case Nil
    then show ?thesis
      using o(3) by simp
  next
    case (Cons r rs)
    then have "r \<in> set rest"
      by simp
    then obtain h where h: "h \<in> set gs" "r \<in> set (g_replacements h)"
      by (auto simp: rest_def)
    obtain a b where ab: "in_lines lines r a b" "g_startLine h \<le> a"
      using Cons.prems(2) h by (fastforce simp: group_ok_def)
    have "g_endLine g \<le> a"
      using Cons.prems(1) h(1) ab(2) by fastforce
    then have "o2 \<le> r_matchIndex r"
      using in_lines_bounds(3) [OF ab(1)] offset_mono [of "g_endLine g" a lines] by (simp add: o2_def)
    moreover have "laid (r_matchIndex r) (length c) (r # rs)"
      using laid laid_append [of _ _ "g_replacements g" r rs] Cons by simp
    ultimately show ?thesis
      using laid_mono Cons by blast
  qed
  have "laid (offset_of lines p) (length c) (g_replacements g)"
    using laid laid_prefix by blast
  then have laid_g: "laid o1 o2 (g_replacements g)"
  proof -
    assume l: "laid (offset_of lines p) (length c) (g_replacements g)"
    obtain r rs where r: "g_replacements g = r # rs"
      using ge(3) by (cases "g_replacements g") auto
    then have "laid o1 (length c) (g_replacements g)"
      using l inr by simp
    then show ?thesis
      using laid_within inr o(2) by blast
  qed
  have piece: "applyReplacements (slice o1 o2 c) (g_replacements g) o1 = spliced o1 (slice o1 o2 c) o1 (g_replacements g)"
    using laid_g o by (intro applyReplacements_spliced) (simp add: length_slice)
  have "spliced 0 c (offset_of lines p) (g_replacements g @ rest)
      = slice (offset_of lines p) o1 c @ spliced 0 c o1 (g_replacements g @ rest)"
  proof (rule spliced_from [OF _ o(1)])
    obtain r rs where r: "g_replacements g = r # rs"
      using ge(3) by (cases "g_replacements g") auto
    then show "laid o1 (length c) (g_replacements g @ rest)"
      using laid inr by simp
  qed
  also have "spliced 0 c o1 (g_replacements g @ rest) = spliced o1 (slice o1 o2 c) o1 (g_replacements g) @ spliced 0 c o2 rest"
    by (rule spliced_group [OF laid_g order_refl laid_rest o(3)])
  finally have split: "spliced 0 c (offset_of lines p) (g_replacements g @ rest)
      = slice (offset_of lines p) o1 c @ spliced o1 (slice o1 o2 c) o1 (g_replacements g) @ spliced 0 c o2 rest" .
  have pre: "concat (slice p (g_startLine g) lines) = slice (offset_of lines p) o1 c"
    using slice_concat [OF g(2), of lines] by (simp add: o1_def c)
  have "\<forall>h\<in>set gs. group_ok lines h \<and> g_endLine g \<le> g_startLine h"
    using Cons.prems(1,2) by simp
  then show ?case
    using Cons.IH [of "g_endLine g" "result @ slice (offset_of lines p) o1 c @ spliced o1 (slice o1 o2 c) o1 (g_replacements g)"]
      Cons.prems(1) ge(2) laid_rest split
    by (simp add: Let_def spans spans [unfolded One_nat_def] pre piece piece [unfolded o2_def] rest_def o2_def)
qed

section \<open>Matching\<close>

lemma matchLoop_spec:
  "matchLoop nfkc base n i es = Inr rs \<Longrightarrow> map r_editIndex rs = [i..<i + length es] \<and>
    (\<forall>r\<in>set rs. r_editIndex r - i < length es \<and> (let e = es ! (r_editIndex r - i); m = fuzzyFindText nfkc base (oldText e) in
       f_found m \<and> r_matchIndex r = f_index m \<and> r_matchLength r = f_matchLength m \<and> r_newText r = newText e))"
proof (induction es arbitrary: i rs)
  case (Cons e es)
  obtain rs' where rs': "matchLoop nfkc base n (i + 1) es = Inr rs'"
    "rs = \<lparr>r_editIndex = i, r_matchIndex = f_index (fuzzyFindText nfkc base (oldText e)),
        r_matchLength = f_matchLength (fuzzyFindText nfkc base (oldText e)), r_newText = newText e\<rparr> # rs'"
    "f_found (fuzzyFindText nfkc base (oldText e))"
    using Cons.prems by (auto simp: Let_def split: if_splits)
  note IH = Cons.IH [OF rs'(1)]
  have "[i..<i + length (e # es)] = i # [i + 1..<i + 1 + length es]"
    by (subst upt_conv_Cons) simp_all
  then have "map r_editIndex rs = [i..<i + length (e # es)]"
    using IH rs'(2) by (simp only: list.map) simp
  moreover have "r_editIndex r \<ge> i + 1" if "r \<in> set rs'" for r
  proof -
    have "map r_editIndex rs' = [i + 1..<i + 1 + length es]"
      using IH by blast
    then have "r_editIndex r \<in> set [i + 1..<i + 1 + length es]"
      using that by (metis image_eqI list.set_map)
    then show ?thesis
      by auto
  qed
  then have "r_editIndex r - i = Suc (r_editIndex r - (i + 1))" if "r \<in> set rs'" for r
    using that by fastforce
  ultimately show ?case
    using IH rs'(2,3) by (auto simp: Let_def)
qed simp

lemma overlapCheck_laid:
  "overlapCheck rs = Inr () \<Longrightarrow> \<forall>r\<in>set rs. r_matchIndex r + r_matchLength r \<le> n \<Longrightarrow>
   pos \<le> (case rs of [] \<Rightarrow> n | r # _ \<Rightarrow> r_matchIndex r) \<Longrightarrow> laid pos n rs"
  by (induction rs arbitrary: pos rule: overlapCheck.induct) (auto split: if_splits)

lemma exact_match:
  assumes "indexOf old content = Some i"
  shows "fuzzyFindText nfkc content old = \<lparr>f_found = True, f_index = i, f_matchLength = length old,
    f_usedFuzzyMatch = False, f_contentForReplacement = content\<rparr>"
  using assms by (simp add: fuzzyFindText_def)

lemmas edit_eval = applyEditsToNormalizedContent_def normalizeToLF_def replaceCR_def cu_def fuzzyFindText_def startsWith_def
  normalizeForFuzzyMatch_def plain_unit_def trimEnd_def is_space_def countOccurrences_def applyReplacements_def applyReplacement_def

section \<open>Properties\<close>

text \<open>
  Line endings: normalized text has no carriage return and is left alone by normalizing again; a
  text whose lines all end the same way is restored exactly from its normalized form and its detected ending.
\<close>

theorem line_endings_roundtrip:
  assumes "CR \<notin> set t"
  shows "CR \<notin> set (normalizeToLF s) \<and> normalizeToLF (normalizeToLF s) = normalizeToLF s
    \<and> normalizeToLF (restoreLineEndings t e) = t
    \<and> restoreLineEndings (normalizeToLF (restoreLineEndings t e)) (detectLineEnding (restoreLineEndings t e)) = restoreLineEndings t e"
proof (cases e)
  case LF
  then have "restoreLineEndings t e = t"
    by (simp add: restoreLineEndings_def)
  then show ?thesis
    using assms normalize_no_CR [of s] detect_plain [OF assms] by (simp add: normalize_plain restoreLineEndings_def)
next
  case CRLF
  have "restoreLineEndings t CRLF = t" if "NL \<notin> set t"
    using restore_prefix [OF that, of "[]"] by (simp add: restore_Nil)
  moreover have "restoreLineEndings t LF = t"
    by (simp add: restoreLineEndings_def)
  ultimately show ?thesis
    using CRLF assms normalize_no_CR [of s] by (simp add: normalize_plain normalize_restore detect_restored)
qed

theorem line_endings_roundtrip_witness:
  "restoreLineEndings (normalizeToLF (js ''a'' @ [CR, NL])) (detectLineEnding (js ''a'' @ [CR, NL])) = js ''a'' @ [CR, NL]"
proof -
  have "CR \<notin> set (js ''a'' @ [NL])"
    by (simp add: cu_def)
  moreover have "restoreLineEndings (js ''a'' @ [NL]) CRLF = js ''a'' @ [CR, NL]"
    by (simp add: restoreLineEndings_def cu_def)
  ultimately show ?thesis
    using line_endings_roundtrip [of "js ''a'' @ [NL]" "[]" CRLF] by metis
qed

text \<open>
  C32. Edits whose old texts all occur exactly: a result is the content with each edit made once, at a place
  that holds its old text, the places not overlapping and everything between them unchanged.
\<close>

theorem exact_edits_splice:
  assumes "applyEditsToNormalizedContent nfkc content edits = Inr (base, new)"
    and "\<forall>e\<in>set edits. indexOf (normalizeToLF (oldText e)) content \<noteq> None"
  shows "base = content \<and> new \<noteq> content \<and> (\<exists>rs. laid 0 (length content) rs \<and> new = spliced 0 content 0 rs
    \<and> distinct (map r_editIndex rs) \<and> r_editIndex ` set rs = {..<length edits}
    \<and> (\<forall>r\<in>set rs. r_newText r = normalizeToLF (newText (edits ! r_editIndex r))
         \<and> slice (r_matchIndex r) (r_matchIndex r + r_matchLength r) content = normalizeToLF (oldText (edits ! r_editIndex r))))"
proof -
  define es where "es = map (\<lambda>e. \<lparr>oldText = normalizeToLF (oldText e), newText = normalizeToLF (newText e)\<rparr>) edits"
  have found: "\<exists>i. indexOf (oldText e) content = Some i" if "e \<in> set es" for e
    using that assms(2) by (auto simp: es_def)
  then have exact: "\<not> f_usedFuzzyMatch (fuzzyFindText nfkc content (oldText e))" if "e \<in> set es" for e
    using that exact_match by fastforce
  have nofuzzy: "(\<exists>m\<in>set (map (\<lambda>e. fuzzyFindText nfkc content (oldText e)) es). f_usedFuzzyMatch m) = False"
    using exact by auto
  obtain matched where m: "matchLoop nfkc content (length es) 0 es = Inr matched"
    "overlapCheck (sort_key r_matchIndex matched) = Inr ()" "base = content"
    "new = applyReplacements content (sort_key r_matchIndex matched) 0" "content \<noteq> new"
    using assms(1) unfolding applyEditsToNormalizedContent_def Let_def es_def [symmetric] nofuzzy
    by (auto split: option.splits if_splits)
  define rs where "rs = sort_key r_matchIndex matched"
  have place: "r_editIndex r < length es \<and> r_newText r = newText (es ! r_editIndex r)
      \<and> indexOf (oldText (es ! r_editIndex r)) content = Some (r_matchIndex r)
      \<and> r_matchLength r = length (oldText (es ! r_editIndex r))" if r: "r \<in> set rs" for r
  proof -
    have k: "r_editIndex r < length es"
      "let e = es ! r_editIndex r; m = fuzzyFindText nfkc content (oldText e) in
         f_found m \<and> r_matchIndex r = f_index m \<and> r_matchLength r = f_matchLength m \<and> r_newText r = newText e"
      using matchLoop_spec [OF m(1)] r by (auto simp: rs_def)
    obtain i where "indexOf (oldText (es ! r_editIndex r)) content = Some i"
      using found [OF nth_mem [OF k(1)]] by blast
    with k show ?thesis
      by (simp add: Let_def exact_match)
  qed
  have at: "r_matchIndex r + r_matchLength r \<le> length content
      \<and> slice (r_matchIndex r) (r_matchIndex r + r_matchLength r) content = oldText (es ! r_editIndex r)" if "r \<in> set rs" for r
    using place [OF that] indexOf_Some [of "oldText (es ! r_editIndex r)" content "r_matchIndex r"]
    by (simp add: slice_def)
  have "laid 0 (length content) rs"
    using m(2) at by (intro overlapCheck_laid) (auto simp: rs_def split: list.split)
  moreover from this have "new = spliced 0 content 0 rs"
    using applyReplacements_spliced [of 0 content rs] m(4) by (simp add: rs_def)
  moreover have "mset (map r_editIndex rs) = mset [0..<length es]"
    using matchLoop_spec [OF m(1)] by (metis add_0 mset_map mset_sort rs_def)
  then have "distinct (map r_editIndex rs)" "set (map r_editIndex rs) = {..<length edits}"
    by (metis distinct_upt mset_eq_imp_distinct_iff, metis atLeast_upt es_def length_map set_mset_mset)
  moreover have "r_newText r = normalizeToLF (newText (edits ! r_editIndex r))
      \<and> oldText (es ! r_editIndex r) = normalizeToLF (oldText (edits ! r_editIndex r))" if "r \<in> set rs" for r
    using place [OF that] by (simp add: es_def)
  ultimately show ?thesis
    using m(3,5) at by (intro conjI exI [of _ rs]) auto
qed

theorem exact_edits_splice_witness:
  "\<exists>rs. applyEditsToNormalizedContent id (js ''abc'') [\<lparr>oldText = js ''b'', newText = js ''x''\<rparr>] = Inr (js ''abc'', spliced 0 (js ''abc'') 0 rs)
    \<and> laid 0 3 rs \<and> length rs = 1"
proof -
  have run: "applyEditsToNormalizedContent id (js ''abc'') [\<lparr>oldText = js ''b'', newText = js ''x''\<rparr>] = Inr (js ''abc'', js ''axc'')"
    by (simp add: edit_eval pieces.simps)
  have found: "\<forall>e\<in>set [\<lparr>oldText = js ''b'', newText = js ''x''\<rparr>]. indexOf (normalizeToLF (oldText e)) (js ''abc'') \<noteq> None"
    by (simp add: edit_eval)
  obtain rs where rs: "laid 0 (length (js ''abc'')) rs" "js ''axc'' = spliced 0 (js ''abc'') 0 rs" "distinct (map r_editIndex rs)"
    "r_editIndex ` set rs = {..<length [\<lparr>oldText = js ''b'', newText = js ''x''\<rparr>]}"
    using exact_edits_splice [OF run found] by blast
  have "length rs = card (r_editIndex ` set rs)"
    using rs(3) distinct_card [of "map r_editIndex rs"] by simp
  then show ?thesis
    using run rs(1,2,4) by (intro exI [of _ rs]) (simp add: numeral_3_eq_3)
qed

text \<open>
Lines no replacement touches are kept: the line-preserving application returns, chunk by chunk, as
  many chunks as the original has lines, and the chunk of a line outside every replacement's range is that
  line of the original, whatever the normalized text has there.
\<close>

theorem untouched_lines_kept:
  assumes "applyReplacementsPreservingUnchangedLines original base rs = Inr result"
  shows "\<exists>chunks. result = concat chunks \<and> length chunks = length (splitLinesWithEndings original)
    \<and> (\<forall>i<length chunks. \<not> touched (splitLinesWithEndings base) rs i \<longrightarrow> chunks ! i = splitLinesWithEndings original ! i)"
proof -
  define os where "os = splitLinesWithEndings original"
  define lines where "lines = splitLinesWithEndings base"
  obtain gs where l: "length os = length lines" and gs: "groupLoop (spansFrom 0 lines) (sort_key r_matchIndex rs) [] = Inr gs"
    and res: "result = rewriteLoop base (spansFrom 0 lines) os gs 0 []"
    using assms by (auto simp: applyReplacementsPreservingUnchangedLines_def getLineSpans_def Let_def os_def lines_def split: if_splits)
  have ok: "groups_ok lines gs" "concat (map g_replacements gs) = sort_key r_matchIndex rs"
    using groupLoop_ok [OF gs] by (simp_all add: groups_ok_def)
  obtain chunks where c: "length chunks = length os" "result = concat chunks"
    "\<forall>i<length chunks. (\<forall>g\<in>set gs. \<not> (g_startLine g \<le> i \<and> i < g_endLine g)) \<longrightarrow> chunks ! i = os ! i"
    using rewriteLoop_chunks [of gs 0 os base "spansFrom 0 lines" "[]"] ok(1) l res by (auto simp: groups_ok_def group_ok_def)
  have "touched lines rs i" if g: "g \<in> set gs" "g_startLine g \<le> i" "i < g_endLine g" for g i
  proof -
    obtain r where "r \<in> set (g_replacements g)" "\<exists>a b. in_lines lines r a b \<and> a \<le> i \<and> i < b"
      using g ok(1) unfolding groups_ok_def group_ok_def by blast
    moreover from this have "r \<in> set (concat (map g_replacements gs))"
      using g(1) by auto
    ultimately show ?thesis
      unfolding ok(2) touched_def by auto
  qed
  then show ?thesis
    using c unfolding os_def lines_def by blast
qed

text \<open>
  The line-preserving application agrees with the direct one: on a text taken as its own normalized
  form, replacements that are in order, do not overlap and start inside the text give the same result.
\<close>

theorem preserving_agrees_with_direct:
  assumes "laid 0 (length content) rs" "\<forall>r\<in>set rs. r_matchIndex r < length content" "sorted (map r_matchIndex rs)"
  shows "applyReplacementsPreservingUnchangedLines content content rs = Inr (applyReplacements content rs 0)"
proof -
  define lines where "lines = splitLinesWithEndings content"
  have c: "concat lines = content"
    by (simp add: lines_def)
  have within: "r_matchIndex r + r_matchLength r \<le> n" if "laid p n xs" "r \<in> set xs" for p n xs r
    using that laid_le by (induction xs arbitrary: p) fastforce+
  have "\<exists>gs. groupLoop (spansFrom 0 lines) rs [] = Inr gs"
    using within [OF assms(1)] assms(2) c by (intro groupLoop_total ballI in_lines_exists) auto
  then obtain gs where gs: "groupLoop (spansFrom 0 lines) rs [] = Inr gs"
    by blast
  have ok: "groups_ok lines gs" "concat (map g_replacements gs) = rs"
    using groupLoop_ok [OF gs] assms(3) by (simp_all add: groups_ok_def)
  have "rewriteLoop content (spansFrom 0 lines) lines gs 0 [] = spliced 0 content 0 rs"
    using rewriteLoop_spliced [OF lines_def, of gs 0 "[]"] ok assms(1) by (simp add: groups_ok_def offset_of_def)
  moreover have "sort_key r_matchIndex rs = rs"
    using assms(3) by (rule sort_key_id_if_sorted)
  ultimately show ?thesis
    using gs applyReplacements_spliced [of 0 content rs] assms(1)
    by (simp add: applyReplacementsPreservingUnchangedLines_def getLineSpans_def Let_def lines_def)
qed

theorem preserving_agrees_with_direct_witness:
  "applyReplacementsPreservingUnchangedLines (js ''ab'') (js ''ab'')
     [\<lparr>r_editIndex = 0, r_matchIndex = 1, r_matchLength = 1, r_newText = js ''x''\<rparr>] = Inr (js ''ax'')"
  using preserving_agrees_with_direct [of "js ''ab''" "[\<lparr>r_editIndex = 0, r_matchIndex = 1, r_matchLength = 1, r_newText = js ''x''\<rparr>]"]
  by (simp add: applyReplacements_def applyReplacement_def)

theorem untouched_lines_kept_witness:
  "\<exists>chunks. [0x62, NL, 0x78] = concat chunks \<and> length chunks = 2"
proof -
  have "applyReplacementsPreservingUnchangedLines [0x62, NL, 0x63] [0x61, NL, 0x63]
      [\<lparr>r_editIndex = 0, r_matchIndex = 2, r_matchLength = 1, r_newText = [0x78]\<rparr>] = Inr [0x62, NL, 0x78]"
    by (simp add: applyReplacementsPreservingUnchangedLines_def getLineSpans_def getReplacementLineRange_def
        addReplacement_def applyReplacements_def applyReplacement_def slice_def)
  moreover have "length (splitLinesWithEndings [0x62, NL, 0x63]) = 2"
    by simp
  ultimately show ?thesis
    using untouched_lines_kept by metis
qed

text \<open>
  An old text of blanks only normalizes to nothing, and counting nothing in a text counts its units:
  a single such edit is refused as a duplicate although the old text is found, whenever the normalized text
  is longer than two units.
\<close>

theorem blank_old_text_refused:
  assumes "normalizeForFuzzyMatch nfkc (normalizeToLF (oldText e)) = []" "normalizeToLF (oldText e) \<noteq> []"
    and "indexOf (normalizeToLF (oldText e)) content \<noteq> None" "2 < length (normalizeForFuzzyMatch nfkc content)"
  shows "applyEditsToNormalizedContent nfkc content [e]
    = Inl (DuplicateText 0 1 (int (length (normalizeForFuzzyMatch nfkc content)) - 1))"
proof -
  obtain i where "indexOf (normalizeToLF (oldText e)) content = Some i"
    using assms(3) by blast
  then show ?thesis
    using assms by (simp add: applyEditsToNormalizedContent_def exact_match countOccurrences_def pieces.simps [of "[]"])
qed

theorem blank_old_text_refused_witness:
  "applyEditsToNormalizedContent id [0x61, 9, 0x62] [\<lparr>oldText = [9], newText = [0x20]\<rparr>] = Inl (DuplicateText 0 1 2)"
  using blank_old_text_refused [of id "\<lparr>oldText = [9], newText = [0x20]\<rparr>" "[0x61, 9, 0x62]"]
  by (simp add: edit_eval)

section \<open>Line numbers of a diff\<close>

text \<open>
  The parts of a line diff: each is whole lines, of which only the last of a text may lack its line
  break, and leaving out the added (removed) parts gives the old (new) text.
\<close>

fun whole_lines :: "jsstring list \<Rightarrow> bool" where
  "whole_lines [] = True"
| "whole_lines [v] = (v \<noteq> [])"
| "whole_lines (v # w # vs) = (v \<noteq> [] \<and> last v = NL \<and> whole_lines (w # vs))"

definition old_values :: "diff_part list \<Rightarrow> jsstring list" where
  "old_values parts = map d_value (filter (\<lambda>p. \<not> d_added p) parts)"

definition new_values :: "diff_part list \<Rightarrow> jsstring list" where
  "new_values parts = map d_value (filter (\<lambda>p. \<not> d_removed p) parts)"

definition parts_ok :: "jsstring \<Rightarrow> jsstring \<Rightarrow> diff_part list \<Rightarrow> bool" where
  "parts_ok old new parts \<longleftrightarrow> concat (old_values parts) = old \<and> concat (new_values parts) = new
     \<and> whole_lines (old_values parts) \<and> whole_lines (new_values parts) \<and> (\<forall>p\<in>set parts. \<not> (d_added p \<and> d_removed p))"

definition value_lines :: "jsstring \<Rightarrow> jsstring list" where
  "value_lines v = (let raw = splitChar NL v in if last raw = [] then butlast raw else raw)"

lemma partLines_value: "partLines p = value_lines (d_value p)"
  by (simp add: partLines_def value_lines_def)

lemma value_lines_first:
  assumes "whole_lines (v # vs)"
  shows "\<exists>rest. splitChar NL (concat (v # vs)) = value_lines v @ rest \<and> (vs \<noteq> [] \<longrightarrow> rest = splitChar NL (concat vs))"
proof (cases "last v = NL")
  case True
  then obtain x where x: "v = x @ [NL]"
    using assms by (cases v rule: rev_cases; cases vs) auto
  then have "value_lines v = splitChar NL x"
    by (simp add: value_lines_def splitChar_append)
  then show ?thesis
    by (simp add: x splitChar_append)
next
  case False
  then have "vs = []" "v \<noteq> []"
    using assms by (cases vs; simp)+
  have "butlast (splitChar NL v) @ [last (splitChar NL v)] = splitChar NL v"
    by (rule append_butlast_last_id [OF splitChar_not_Nil])
  then have "splitChar NL v = value_lines v @ (if last (splitChar NL v) = [] then [[]] else [])"
    by (cases "last (splitChar NL v) = []") (simp_all add: value_lines_def Let_def)
  then show ?thesis
    using \<open>vs = []\<close> by auto
qed

lemma whole_lines_tl: "whole_lines (v # vs) \<Longrightarrow> whole_lines vs"
  by (cases vs) simp_all

text \<open>The lines \<open>ls\<close> are those of the text from number \<open>n\<close> on.\<close>

definition numbered :: "jsstring list \<Rightarrow> nat \<Rightarrow> jsstring list \<Rightarrow> bool" where
  "numbered all n ls \<longleftrightarrow> (\<exists>pre rest. all = pre @ ls @ rest \<and> n = Suc (length pre))"

definition shown_ok :: "jsstring list \<Rightarrow> jsstring list \<Rightarrow> shown \<Rightarrow> bool" where
  "shown_ok old new s = (case s of
      Added n l \<Rightarrow> 0 < n \<and> n \<le> length new \<and> new ! (n - 1) = l
    | Removed n l \<Rightarrow> 0 < n \<and> n \<le> length old \<and> old ! (n - 1) = l
    | Unchanged n l \<Rightarrow> 0 < n \<and> n \<le> length old \<and> old ! (n - 1) = l
    | Elided \<Rightarrow> True)"

lemma numbered_append:
  "numbered all n (ls @ ms) \<Longrightarrow> numbered all n ls \<and> numbered all (n + length ls) ms"
  unfolding numbered_def by (metis add_Suc append.assoc length_append)

lemma numbered_Cons:
  assumes "numbered all n (l # ls)"
  shows "0 < n \<and> n \<le> length all \<and> all ! (n - 1) = l" "numbered all (Suc n) ls"
proof -
  obtain pre rest where "all = pre @ (l # ls) @ rest" "n = Suc (length pre)"
    using assms unfolding numbered_def by blast
  then show "0 < n \<and> n \<le> length all \<and> all ! (n - 1) = l"
    by (simp add: nth_append)
  show "numbered all (Suc n) ls"
    using assms numbered_append [of all n "[l]" ls] by simp
qed

definition next_lines :: "jsstring list \<Rightarrow> nat \<Rightarrow> jsstring list \<Rightarrow> bool" where
  "next_lines all n vals \<longleftrightarrow> (vals \<noteq> [] \<longrightarrow> (\<exists>pre. all = pre @ splitChar NL (concat vals) \<and> n = Suc (length pre)))"

lemma next_lines_step:
  assumes "whole_lines (v # vs)" "next_lines all n (v # vs)"
  shows "numbered all n (value_lines v)" "next_lines all (n + length (value_lines v)) vs"
proof -
  obtain rest where r: "splitChar NL (concat (v # vs)) = value_lines v @ rest" "vs \<noteq> [] \<longrightarrow> rest = splitChar NL (concat vs)"
    using value_lines_first [OF assms(1)] by blast
  obtain pre where "all = pre @ value_lines v @ rest" "n = Suc (length pre)"
    using assms(2) r(1) by (auto simp: next_lines_def)
  then show "numbered all n (value_lines v)" "next_lines all (n + length (value_lines v)) vs"
    using r(2) unfolding numbered_def next_lines_def by (blast, metis add_Suc append.assoc length_append)
qed

definition all_ok :: "jsstring list \<Rightarrow> jsstring list \<Rightarrow> diff_state \<Rightarrow> bool" where
  "all_ok old new x \<longleftrightarrow> (\<forall>s\<in>set (x_output x). shown_ok old new s)"

text \<open>What showing or skipping lines does to the counters.\<close>

definition moved :: "nat \<Rightarrow> nat \<Rightarrow> diff_state \<Rightarrow> diff_state \<Rightarrow> bool" where
  "moved i j x y \<longleftrightarrow> x_oldLineNum y = x_oldLineNum x + i \<and> x_newLineNum y = x_newLineNum x + j
     \<and> x_firstChangedLine y = x_firstChangedLine x \<and> x_lastWasChange y = x_lastWasChange x"

lemma showUnchanged_fold:
  "numbered old (x_oldLineNum x) ls \<Longrightarrow> all_ok old new x \<Longrightarrow>
   all_ok old new (fold showUnchanged ls x) \<and> moved (length ls) (length ls) x (fold showUnchanged ls x)"
proof (induction ls arbitrary: x)
  case (Cons l ls)
  note n = numbered_Cons [OF Cons.prems(1)]
  have "all_ok old new (showUnchanged l x)"
    using n(1) Cons.prems(2) by (simp add: all_ok_def showUnchanged_def shown_ok_def)
  then show ?case
    using Cons.IH [of "showUnchanged l x"] n(2) by (simp add: moved_def showUnchanged_def)
qed (simp add: moved_def)

lemma showAdded_fold:
  "numbered new (x_newLineNum x) ls \<Longrightarrow> all_ok old new x \<Longrightarrow>
   all_ok old new (fold showAdded ls x) \<and> moved 0 (length ls) x (fold showAdded ls x)"
proof (induction ls arbitrary: x)
  case (Cons l ls)
  note n = numbered_Cons [OF Cons.prems(1)]
  have "all_ok old new (showAdded l x)"
    using n(1) Cons.prems(2) by (simp add: all_ok_def showAdded_def shown_ok_def)
  then show ?case
    using Cons.IH [of "showAdded l x"] n(2) by (simp add: moved_def showAdded_def)
qed (simp add: moved_def)

lemma showRemoved_fold:
  "numbered old (x_oldLineNum x) ls \<Longrightarrow> all_ok old new x \<Longrightarrow>
   all_ok old new (fold showRemoved ls x) \<and> moved (length ls) 0 x (fold showRemoved ls x)"
proof (induction ls arbitrary: x)
  case (Cons l ls)
  note n = numbered_Cons [OF Cons.prems(1)]
  have "all_ok old new (showRemoved l x)"
    using n(1) Cons.prems(2) by (simp add: all_ok_def showRemoved_def shown_ok_def)
  then show ?case
    using Cons.IH [of "showRemoved l x"] n(2) by (simp add: moved_def showRemoved_def)
qed (simp add: moved_def)

lemma elide_moved: "all_ok old new x \<Longrightarrow> all_ok old new (elide n x) \<and> moved n n x (elide n x)"
  by (simp add: all_ok_def elide_def skipLines_def moved_def shown_ok_def)

lemma moved_trans: "moved i j x y \<Longrightarrow> moved k l y z \<Longrightarrow> moved (i + k) (j + l) x z"
  by (simp add: moved_def)

lemma diffStep_unchanged:
  assumes "\<not> d_added p" "\<not> d_removed p" "numbered old (x_oldLineNum x) (partLines p)" "all_ok old new x"
  shows "\<exists>y. diffStep c nextChange p x = y\<lparr>x_lastWasChange := False\<rparr> \<and> all_ok old new y
    \<and> moved (length (partLines p)) (length (partLines p)) x y"
proof -
  define raw where "raw = partLines p"
  have whole: "all_ok old new (fold showUnchanged raw x) \<and> moved (length raw) (length raw) x (fold showUnchanged raw x)"
    using showUnchanged_fold assms(3,4) by (simp add: raw_def)
  have parts: "\<exists>y. fold showUnchanged (drop n raw) (elide (n - m) (fold showUnchanged (take m raw) x)) = y
      \<and> all_ok old new y \<and> moved (length raw) (length raw) x y" if nm: "m \<le> n" "n \<le> length raw" for m n
  proof -
    define a where "a = fold showUnchanged (take m raw) x"
    define b where "b = elide (n - m) a"
    have raw: "raw = take m raw @ take (n - m) (drop m raw) @ drop n raw"
      using nm(1) by (metis append_take_drop_id drop_drop le_add_diff_inverse2)
    have 1: "numbered old (x_oldLineNum x) (take m raw)"
      using assms(3) raw numbered_append [of old "x_oldLineNum x" "take m raw"] by (metis raw_def append_take_drop_id)
    have a: "all_ok old new a" "moved m m x a"
      using showUnchanged_fold [OF 1 assms(4)] nm by (simp_all add: a_def)
    have b: "all_ok old new b" "moved (n - m) (n - m) a b"
      using elide_moved [OF a(1)] by (simp_all add: b_def)
    have old: "x_oldLineNum b = x_oldLineNum x + n"
      using a(2) b(2) nm(1) by (simp add: moved_def)
    have "numbered old (x_oldLineNum b) (drop n raw)"
      using numbered_append [of old "x_oldLineNum x" "take n raw" "drop n raw"] assms(3) nm(2) old by (simp add: raw_def)
    from showUnchanged_fold [OF this b(1)] have "all_ok old new (fold showUnchanged (drop n raw) b)"
      "moved (length raw - n) (length raw - n) b (fold showUnchanged (drop n raw) b)"
      by simp_all
    then show ?thesis
      using moved_trans [OF moved_trans [OF a(2) b(2)]] nm unfolding a_def b_def by fastforce
  qed
  have skip: "all_ok old new (skipLines (length raw) x) \<and> moved (length raw) (length raw) x (skipLines (length raw) x)"
    using assms(4) by (simp add: all_ok_def skipLines_def moved_def)
  consider (both) "x_lastWasChange x" nextChange | (after) "x_lastWasChange x" "\<not> nextChange"
    | (before) "\<not> x_lastWasChange x" nextChange | (none) "\<not> x_lastWasChange x" "\<not> nextChange"
    by blast
  then show ?thesis
  proof cases
    case both
    show ?thesis
    proof (cases "length raw \<le> c * 2")
      case True
      then show ?thesis
        using assms(1,2) both whole by (auto simp: diffStep_def raw_def [symmetric] Let_def)
    next
      case False
      then have "length raw - length (take c raw) - length (drop (length raw - c) raw) = length raw - c - c"
        by simp
      then show ?thesis
        using assms(1,2) both False parts [of c "length raw - c"] by (auto simp: diffStep_def raw_def [symmetric] Let_def)
    qed
  next
    case after
    have m: "take (min c (length raw)) raw = take c raw" "length raw - length (take c raw) = length raw - min c (length raw)"
      by (simp_all add: min_def)
    show ?thesis
      using assms(1,2) after whole parts [of "min c (length raw)" "length raw"]
      by (auto simp: diffStep_def raw_def [symmetric] Let_def m)
  next
    case before
    then show ?thesis
      using assms(1,2) whole parts [of 0 "length raw - c"] by (auto simp: diffStep_def raw_def [symmetric] Let_def)
  next
    case none
    then show ?thesis
      using assms(1,2) skip by (auto simp: diffStep_def raw_def [symmetric] Let_def)
  qed
qed

definition first_change :: "nat \<Rightarrow> diff_part list \<Rightarrow> nat option" where
  "first_change n parts = map_option (\<lambda>k. n + sum_list (map (length \<circ> partLines) (take k parts)))
     (findIndex (\<lambda>p. d_added p \<or> d_removed p) parts)"

lemma diffLoop_ok:
  assumes "whole_lines (old_values parts)" "whole_lines (new_values parts)" "\<forall>p\<in>set parts. \<not> (d_added p \<and> d_removed p)"
    and "next_lines old (x_oldLineNum x) (old_values parts)" "next_lines new (x_newLineNum x) (new_values parts)" "all_ok old new x"
  shows "all_ok old new (diffLoop c parts x) \<and> x_firstChangedLine (diffLoop c parts x)
    = (case x_firstChangedLine x of Some k \<Rightarrow> Some k | None \<Rightarrow> first_change (x_newLineNum x) parts)"
  using assms
proof (induction parts arbitrary: x)
  case Nil
  then show ?case
    by (simp add: first_change_def split: option.split)
next
  case (Cons p parts)
  define nextChange where "nextChange = (case parts of [] \<Rightarrow> False | p # _ \<Rightarrow> d_added p \<or> d_removed p)"
  define y where "y = diffStep c nextChange p x"
  have run: "diffLoop c (p # parts) x = diffLoop c parts y"
    by (simp add: y_def nextChange_def)
  have both: "\<not> (d_added p \<and> d_removed p)"
    using Cons.prems(3) by simp
  consider (add) "d_added p" "\<not> d_removed p" | (remove) "d_removed p" "\<not> d_added p" | (keep) "\<not> d_added p" "\<not> d_removed p"
    using both by blast
  then show ?case
  proof cases
    case add
    then have vals: "old_values (p # parts) = old_values parts" "new_values (p # parts) = d_value p # new_values parts"
      by (simp_all add: old_values_def new_values_def)
    define z where "z = (if x_firstChangedLine x = None then x\<lparr>x_firstChangedLine := Some (x_newLineNum x)\<rparr> else x)"
    have z: "moved 0 0 (x\<lparr>x_firstChangedLine := x_firstChangedLine z\<rparr>) z" "all_ok old new z"
      using Cons.prems(6) by (simp_all add: z_def moved_def all_ok_def)
    note step = next_lines_step [OF Cons.prems(2) [unfolded vals(2)] Cons.prems(5) [unfolded vals(2)]]
    have f: "all_ok old new (fold showAdded (partLines p) z)" "moved 0 (length (partLines p)) z (fold showAdded (partLines p) z)"
      using showAdded_fold [of new z "partLines p" old] step(1) z by (simp_all add: moved_def partLines_value)
    have y: "y = (fold showAdded (partLines p) z)\<lparr>x_lastWasChange := True\<rparr>"
      using add by (simp add: y_def diffStep_def Let_def z_def)
    have "next_lines old (x_oldLineNum y) (old_values parts)" "next_lines new (x_newLineNum y) (new_values parts)" "all_ok old new y"
      using f z step(2) Cons.prems(4) vals(1) by (simp_all add: y moved_def all_ok_def partLines_value)
    from Cons.IH [OF _ _ _ this] Cons.prems(1-3) have "all_ok old new (diffLoop c parts y)
        \<and> x_firstChangedLine (diffLoop c parts y) = (case x_firstChangedLine y of Some k \<Rightarrow> Some k | None \<Rightarrow> first_change (x_newLineNum y) parts)"
      using whole_lines_tl by (simp add: vals)
    moreover have "x_firstChangedLine y = Some (case x_firstChangedLine x of Some k \<Rightarrow> k | None \<Rightarrow> x_newLineNum x)"
      using f(2) by (simp add: y moved_def z_def split: option.split)
    ultimately show ?thesis
      using add unfolding run by (simp add: first_change_def split: option.split)
  next
    case remove
    then have vals: "new_values (p # parts) = new_values parts" "old_values (p # parts) = d_value p # old_values parts"
      by (simp_all add: old_values_def new_values_def)
    define z where "z = (if x_firstChangedLine x = None then x\<lparr>x_firstChangedLine := Some (x_newLineNum x)\<rparr> else x)"
    have z: "moved 0 0 (x\<lparr>x_firstChangedLine := x_firstChangedLine z\<rparr>) z" "all_ok old new z"
      using Cons.prems(6) by (simp_all add: z_def moved_def all_ok_def)
    note step = next_lines_step [OF Cons.prems(1) [unfolded vals(2)] Cons.prems(4) [unfolded vals(2)]]
    have f: "all_ok old new (fold showRemoved (partLines p) z)" "moved (length (partLines p)) 0 z (fold showRemoved (partLines p) z)"
      using showRemoved_fold [of old z "partLines p" new] step(1) z by (simp_all add: moved_def partLines_value)
    have y: "y = (fold showRemoved (partLines p) z)\<lparr>x_lastWasChange := True\<rparr>"
      using remove by (simp add: y_def diffStep_def Let_def z_def)
    have "next_lines old (x_oldLineNum y) (old_values parts)" "next_lines new (x_newLineNum y) (new_values parts)" "all_ok old new y"
      using f z step(2) Cons.prems(5) vals(1) by (simp_all add: y moved_def all_ok_def partLines_value)
    from Cons.IH [OF _ _ _ this] Cons.prems(1-3) have "all_ok old new (diffLoop c parts y)
        \<and> x_firstChangedLine (diffLoop c parts y) = (case x_firstChangedLine y of Some k \<Rightarrow> Some k | None \<Rightarrow> first_change (x_newLineNum y) parts)"
      using whole_lines_tl by (simp add: vals)
    moreover have "x_firstChangedLine y = Some (case x_firstChangedLine x of Some k \<Rightarrow> k | None \<Rightarrow> x_newLineNum x)"
      using f(2) by (simp add: y moved_def z_def split: option.split)
    ultimately show ?thesis
      using remove unfolding run by (simp add: first_change_def split: option.split)
  next
    case keep
    then have vals: "new_values (p # parts) = d_value p # new_values parts" "old_values (p # parts) = d_value p # old_values parts"
      by (simp_all add: old_values_def new_values_def)
    note old = next_lines_step [OF Cons.prems(1) [unfolded vals(2)] Cons.prems(4) [unfolded vals(2)]]
    note new = next_lines_step [OF Cons.prems(2) [unfolded vals(1)] Cons.prems(5) [unfolded vals(1)]]
    obtain w where w: "y = w\<lparr>x_lastWasChange := False\<rparr>" "all_ok old new w" "moved (length (partLines p)) (length (partLines p)) x w"
      using diffStep_unchanged [OF keep _ Cons.prems(6), of c nextChange] old(1) by (auto simp: y_def partLines_value)
    have "next_lines old (x_oldLineNum y) (old_values parts)" "next_lines new (x_newLineNum y) (new_values parts)" "all_ok old new y"
      using w old(2) new(2) by (simp_all add: moved_def all_ok_def partLines_value)
    from Cons.IH [OF _ _ _ this] Cons.prems(1-3) have "all_ok old new (diffLoop c parts y)
        \<and> x_firstChangedLine (diffLoop c parts y) = (case x_firstChangedLine y of Some k \<Rightarrow> Some k | None \<Rightarrow> first_change (x_newLineNum y) parts)"
      using whole_lines_tl by (simp add: vals)
    moreover have "x_firstChangedLine y = x_firstChangedLine x" "x_newLineNum y = x_newLineNum x + length (partLines p)"
      using w by (simp_all add: moved_def)
    moreover have "first_change n (p # parts) = first_change (n + length (partLines p)) parts" for n
      using keep by (cases "findIndex (\<lambda>p. d_added p \<or> d_removed p) parts") (simp_all add: first_change_def)
    ultimately show ?thesis
      unfolding run by (simp split: option.split)
  qed
qed

text \<open>
  The display of a diff: given parts that are whole lines of the two texts, every line shown as added
  is the line of the new text with the number shown, every removed or unchanged one is that line of the old
  text, and the first changed line is the number, in the new text, of the line after the unchanged parts
  before the first change.
\<close>

theorem diff_lines_numbered:
  assumes "parts_ok old new (diffLines old new)"
  shows "\<exists>out. fst (generateDiffString diffLines old new c)
      = join [NL] (map (render (length (show_nat (max (length (splitChar NL old)) (length (splitChar NL new)))))) out)
    \<and> (\<forall>s\<in>set out. shown_ok (splitChar NL old) (splitChar NL new) s)
    \<and> snd (generateDiffString diffLines old new c) = first_change 1 (diffLines old new)"
proof -
  define x where "x = \<lparr>x_output = [], x_oldLineNum = 1, x_newLineNum = 1, x_lastWasChange = False, x_firstChangedLine = None\<rparr>"
  note ok = assms [unfolded parts_ok_def]
  have "next_lines (splitChar NL old) (x_oldLineNum x) (old_values (diffLines old new))"
    "next_lines (splitChar NL new) (x_newLineNum x) (new_values (diffLines old new))"
    "all_ok (splitChar NL old) (splitChar NL new) x"
    using ok by (simp_all add: next_lines_def x_def all_ok_def)
  from diffLoop_ok [OF _ _ _ this, of c] ok
  have "all_ok (splitChar NL old) (splitChar NL new) (diffLoop c (diffLines old new) x)"
    "x_firstChangedLine (diffLoop c (diffLines old new) x) = first_change 1 (diffLines old new)"
    by (simp_all add: x_def)
  then show ?thesis
    by (intro exI [of _ "x_output (diffLoop c (diffLines old new) x)"])
      (simp add: generateDiffString_def Let_def all_ok_def x_def)
qed

theorem diff_lines_numbered_witness:
  "snd (generateDiffString (\<lambda>_ _. [\<lparr>d_value = [0x61, NL], d_added = False, d_removed = False\<rparr>,
      \<lparr>d_value = [0x62, NL], d_added = True, d_removed = False\<rparr>]) [0x61, NL] [0x61, NL, 0x62, NL] 4) = Some 2"
proof -
  define parts where "parts = [\<lparr>d_value = [0x61, NL], d_added = False, d_removed = False\<rparr>,
      \<lparr>d_value = [0x62, NL], d_added = True, d_removed = False\<rparr>]"
  have "parts_ok [0x61, NL] [0x61, NL, 0x62, NL] parts"
    by (simp add: parts_ok_def parts_def old_values_def new_values_def)
  then have "parts_ok [0x61, NL] [0x61, NL, 0x62, NL] ((\<lambda>_ _. parts) [0x61, NL] [0x61, NL, 0x62, NL])"
    by simp
  moreover have "first_change 1 parts = Some 2"
    by (simp add: first_change_def parts_def partLines_def)
  ultimately show ?thesis
    unfolding parts_def [symmetric] using diff_lines_numbered [of "[0x61, NL]" "[0x61, NL, 0x62, NL]" "\<lambda>_ _. parts" 4] by metis
qed


end
