(* ===== verification/Json.thy ===== *)
theory Json
  imports JsLib
begin

text \<open>
  Plain JSON data and \<open>JSON.stringify\<close>, and the reading of ISO time stamps
  (\<open>new Date(text).getTime()\<close>). A number is kept as the decimal that \<open>Number.prototype.toString\<close>
  shows: \<open>JNum m e\<close> is \<open>m * 10 ^ e\<close>, with \<open>m\<close> not divisible by ten.
\<close>

section \<open>JSON text\<close>

datatype json =
    JNull
  | JBool bool
  | JNum int int
  | JStr jsstring
  | JArr "json list"
  | JObj "(jsstring \<times> json) list"

definition hex_digit :: "nat \<Rightarrow> code_unit" where
  "hex_digit d = word_of_nat (if d < 10 then 48 + d else 87 + d)"

definition unicode_escape :: "code_unit \<Rightarrow> jsstring" where
  "unicode_escape c = (let n = unat c in
     [0x5C, 0x75, hex_digit (n div 4096), hex_digit (n div 256 mod 16), hex_digit (n div 16 mod 16), hex_digit (n mod 16)])"

definition escape_unit :: "code_unit \<Rightarrow> jsstring" where
  "escape_unit c =
     (if c = 0x22 then [0x5C, 0x22]
      else if c = 0x5C then [0x5C, 0x5C]
      else if c = 8 then [0x5C, 0x62]
      else if c = 9 then [0x5C, 0x74]
      else if c = 10 then [0x5C, 0x6E]
      else if c = 12 then [0x5C, 0x66]
      else if c = 13 then [0x5C, 0x72]
      else if c < 0x20 then unicode_escape c
      else [c])"

text \<open>Unpaired surrogates are escaped, pairs are copied.\<close>

fun escape :: "jsstring \<Rightarrow> jsstring" where
  "escape [] = []"
| "escape (c # s) =
     (if is_high c then
        (case s of
           [] \<Rightarrow> unicode_escape c
         | d # t \<Rightarrow> if is_low d then c # d # escape t else unicode_escape c @ escape s)
      else if is_low c then unicode_escape c @ escape s
      else escape_unit c @ escape s)"

definition quote :: "jsstring \<Rightarrow> jsstring" where
  "quote s = [0x22] @ escape s @ [0x22]"

text \<open>\<open>Number.prototype.toString\<close> on the digits and the exponent of the number.\<close>

definition number_text :: "int \<Rightarrow> int \<Rightarrow> jsstring" where
  "number_text m e =
     (if m = 0 then js ''0''
      else
        let ds = show_nat (nat \<bar>m\<bar>); k = int (length ds); n = k + e;
            body =
              (if k \<le> n \<and> n \<le> 21 then ds @ replicate (nat (n - k)) 0x30
               else if 0 < n \<and> n \<le> 21 then take (nat n) ds @ js ''.'' @ drop (nat n) ds
               else if -6 < n \<and> n \<le> 0 then js ''0.'' @ replicate (nat (- n)) 0x30 @ ds
               else take 1 ds @ (if k = 1 then [] else js ''.'' @ drop 1 ds) @ js ''e''
                      @ (if n - 1 < 0 then js ''-'' else js ''+'') @ show_nat (nat \<bar>n - 1\<bar>))
        in (if m < 0 then js ''-'' else []) @ body)"

fun stringify :: "json \<Rightarrow> jsstring" where
  "stringify JNull = js ''null''"
| "stringify (JBool b) = (if b then js ''true'' else js ''false'')"
| "stringify (JNum m e) = number_text m e"
| "stringify (JStr s) = quote s"
| "stringify (JArr xs) = js ''['' @ join (js '','') (map stringify xs) @ js '']''"
| "stringify (JObj kvs) =
     js ''{'' @ join (js '','') (map (\<lambda>(k, v). quote k @ js '':'' @ stringify v) kvs) @ js ''}''"

text \<open>One line of JSON text: no character below the space occurs in it.\<close>

definition printable :: "jsstring \<Rightarrow> bool" where
  "printable s \<longleftrightarrow> (\<forall>c\<in>set s. 0x20 \<le> c)"

lemma printable_simps [simp]:
  "printable []" "printable (s @ t) \<longleftrightarrow> printable s \<and> printable t"
  "printable (c # s) \<longleftrightarrow> 0x20 \<le> c \<and> printable s"
  by (auto simp: printable_def)

lemma printable_replicate: "0x20 \<le> c \<Longrightarrow> printable (replicate n c)"
  by (simp add: printable_def)

lemma printable_sub: "printable s \<Longrightarrow> printable (take n s) \<and> printable (drop n s)"
  by (auto simp: printable_def dest: in_set_takeD in_set_dropD)

lemma small_unit: "n < 65536 \<Longrightarrow> 32 \<le> n \<Longrightarrow> (0x20 :: code_unit) \<le> word_of_nat n"
  by (simp add: word_le_nat_alt unat_of_nat)

lemma printable_digits: "\<forall>d\<in>set ds. d < 10 \<Longrightarrow> printable (show_digits ds)"
  by (auto simp: printable_def show_digits_def simp del: of_nat_add of_nat_numeral intro!: small_unit)

lemma printable_show_nat [simp]: "printable (show_nat n)"
  unfolding show_nat_def by (intro printable_digits) (auto dest: digits_bound)

lemma printable_hex [simp]: "d < 16 \<Longrightarrow> 0x20 \<le> hex_digit d"
  unfolding hex_digit_def by (intro small_unit) auto

lemma printable_unicode_escape [simp]: "printable (unicode_escape c)"
proof -
  have "unat c div 4096 < 16"
    using unit_unat_bound [of c] by (intro less_mult_imp_div_less) simp
  then show ?thesis
    by (simp add: unicode_escape_def Let_def)
qed

lemma printable_escape_unit [simp]: "printable (escape_unit c)"
  by (auto simp: escape_unit_def not_less)

lemma printable_surrogate: "is_high c \<Longrightarrow> 0x20 \<le> c" "is_low c \<Longrightarrow> 0x20 \<le> c"
  by (simp_all add: is_high_nat is_low_nat word_le_nat_alt)

lemma printable_escape [simp]: "printable (escape s)"
  by (induction s rule: escape.induct) (auto simp: printable_surrogate split: list.split)

lemma printable_quote [simp]: "printable (quote s)"
  by (simp add: quote_def)

lemma printable_join: "printable sep \<Longrightarrow> \<forall>x\<in>set xs. printable x \<Longrightarrow> printable (join sep xs)"
  by (induction sep xs rule: join.induct) auto

lemma printable_number [simp]: "printable (number_text m e)"
  using printable_sub [OF printable_show_nat, of _ "nat \<bar>m\<bar>"]
  by (auto simp: number_text_def Let_def cu_def intro!: printable_replicate)

lemma printable_stringify: "printable (stringify v)"
  by (induction v rule: stringify.induct) (auto simp: cu_def intro!: printable_join)

lemma stringify_no_newline: "NL \<notin> set (stringify v)"
  using printable_stringify [of v] by (auto simp: printable_def)

section \<open>Time stamps\<close>

text \<open>Days from 1970-01-01 of a date of the proleptic Gregorian calendar.\<close>

definition days_from_civil :: "int \<Rightarrow> int \<Rightarrow> int \<Rightarrow> int" where
  "days_from_civil y m d =
     (let y' = (if m \<le> 2 then y - 1 else y);
          era = y' div 400;
          yoe = y' - era * 400;
          doy = (153 * (m + (if m > 2 then -3 else 9)) + 2) div 5 + d - 1;
          doe = yoe * 365 + yoe div 4 - yoe div 100 + doy
      in era * 146097 + doe - 719468)"

definition unit_digit :: "code_unit \<Rightarrow> nat option" where
  "unit_digit c = (if 48 \<le> c \<and> c \<le> 57 then Some (unat c - 48) else None)"

fun digit_value :: "nat \<Rightarrow> jsstring \<Rightarrow> nat option" where
  "digit_value acc [] = Some acc"
| "digit_value acc (c # s) = (case unit_digit c of None \<Rightarrow> None | Some d \<Rightarrow> digit_value (10 * acc + d) s)"

text \<open>
  The format of \<open>toISOString\<close>, \<open>YYYY-MM-DDTHH:mm:ss.sssZ\<close>; other texts have no value here
  (\<open>None\<close>, the \<open>NaN\<close> of the source).
\<close>

definition date_ms :: "jsstring \<Rightarrow> int option" where
  "date_ms s =
     (let field = (\<lambda>i n. digit_value 0 (take n (drop i s)));
          at = (\<lambda>i c. take 1 (drop i s) = js c)
      in if length s = 24 \<and> at 4 ''-'' \<and> at 7 ''-'' \<and> at 10 ''T'' \<and> at 13 '':'' \<and> at 16 '':'' \<and> at 19 ''.'' \<and> at 23 ''Z''
         then (case (field 0 4, field 5 2, field 8 2, field 11 2, field 14 2, field 17 2, field 20 3) of
             (Some y, Some mo, Some d, Some h, Some mi, Some sec, Some ms) \<Rightarrow>
               Some ((((days_from_civil (int y) (int mo) (int d) * 24 + int h) * 60 + int mi) * 60 + int sec) * 1000 + int ms)
           | _ \<Rightarrow> None)
         else None)"

lemma date_ms_example: "date_ms (js ''2024-02-29T12:30:45.678Z'') = Some 1709209845678"
  by (simp add: date_ms_def cu_def unit_digit_def days_from_civil_def)

end
