(* ===== verification/SessionTypes.thy ===== *)
theory SessionTypes
  imports Json
begin

text \<open>
  The messages of the agent (\<open>packages/ai/src/types.ts\<close>, \<open>packages/agent/src/harness/messages.ts\<close>)
  and the entries of a session tree (\<open>packages/agent/src/harness/types.ts\<close>), with the
  operations on single messages. Opaque payloads (\<open>details\<close>, \<open>data\<close>, tool arguments) are JSON.
  Token counts are exact integers; costs and provider signatures are not represented.
\<close>

section \<open>Messages\<close>

datatype block =
    TextBlock jsstring
  | ImageBlock jsstring jsstring
  | ThinkingBlock jsstring
  | ToolCallBlock jsstring jsstring "(jsstring \<times> json) list"

datatype content = TextContent jsstring | BlockContent "block list"

record usage =
  u_input :: int
  u_output :: int
  u_cacheRead :: int
  u_cacheWrite :: int
  u_cacheWrite1h :: "int option"
  u_reasoning :: "int option"
  u_totalTokens :: int

datatype stop_reason = Pending | Stop | Length | ToolUse | StopError | Aborted

record assistant =
  a_content :: "block list"
  a_provider :: jsstring
  a_model :: jsstring
  a_usage :: "usage option"
  a_stopReason :: stop_reason
  a_errorMessage :: "jsstring option"
  a_timestamp :: int

record tool_result =
  tr_toolCallId :: jsstring
  tr_toolName :: jsstring
  tr_content :: "block list"
  tr_details :: "json option"
  tr_usage :: "usage option"
  tr_addedToolNames :: "jsstring list option"
  tr_isError :: bool
  tr_timestamp :: int

record bash_execution =
  b_command :: jsstring
  b_output :: jsstring
  b_exitCode :: "int option"
  b_cancelled :: bool
  b_truncated :: bool
  b_fullOutputPath :: "jsstring option"
  b_timestamp :: int
  b_excludeFromContext :: bool

text \<open>A time of an entry read as a number can be \<open>NaN\<close>: it is \<open>None\<close> then.\<close>

record custom_message =
  c_customType :: jsstring
  c_content :: content
  c_display :: bool
  c_details :: "json option"
  c_timestamp :: "int option"

datatype message =
    UserMessage content int
  | AssistantMessage assistant
  | ToolResultMessage tool_result
  | BashExecution bash_execution
  | CustomMessage custom_message
  | BranchSummary jsstring jsstring "int option"
  | CompactionSummary jsstring int "int option"

datatype role = RUser | RAssistant | RToolResult | RBash | RCustom | RBranchSummary | RCompactionSummary

fun role_of :: "message \<Rightarrow> role" where
  "role_of (UserMessage _ _) = RUser"
| "role_of (AssistantMessage _) = RAssistant"
| "role_of (ToolResultMessage _) = RToolResult"
| "role_of (BashExecution _) = RBash"
| "role_of (CustomMessage _) = RCustom"
| "role_of (BranchSummary _ _ _) = RBranchSummary"
| "role_of (CompactionSummary _ _ _) = RCompactionSummary"

definition createBranchSummaryMessage :: "jsstring \<Rightarrow> jsstring \<Rightarrow> jsstring \<Rightarrow> message" where
  "createBranchSummaryMessage summary fromId timestamp = BranchSummary summary fromId (date_ms timestamp)"

definition createCompactionSummaryMessage :: "jsstring \<Rightarrow> int \<Rightarrow> jsstring \<Rightarrow> message" where
  "createCompactionSummaryMessage summary tokensBefore timestamp =
     CompactionSummary summary tokensBefore (date_ms timestamp)"

definition createCustomMessage ::
    "jsstring \<Rightarrow> content \<Rightarrow> bool \<Rightarrow> json option \<Rightarrow> jsstring \<Rightarrow> message" where
  "createCustomMessage customType content display details timestamp =
     CustomMessage \<lparr>c_customType = customType, c_content = content, c_display = display,
       c_details = details, c_timestamp = date_ms timestamp\<rparr>"

section \<open>Messages for the model\<close>

definition COMPACTION_SUMMARY_PREFIX :: jsstring where
  "COMPACTION_SUMMARY_PREFIX =
     js ''The conversation history before this point was compacted into the following summary:'' @ [NL, NL]
       @ js ''<summary>'' @ [NL]"

definition COMPACTION_SUMMARY_SUFFIX :: jsstring where
  "COMPACTION_SUMMARY_SUFFIX = [NL] @ js ''</summary>''"

definition BRANCH_SUMMARY_PREFIX :: jsstring where
  "BRANCH_SUMMARY_PREFIX =
     js ''The following is a summary of a branch that this conversation came back from:'' @ [NL, NL]
       @ js ''<summary>'' @ [NL]"

definition BRANCH_SUMMARY_SUFFIX :: jsstring where
  "BRANCH_SUMMARY_SUFFIX = js ''</summary>''"

definition bashExecutionToText :: "bash_execution \<Rightarrow> jsstring" where
  "bashExecutionToText msg =
     js ''Ran `'' @ b_command msg @ js ''`'' @ [NL]
     @ (if b_output msg \<noteq> [] then js ''```'' @ [NL] @ b_output msg @ [NL] @ js ''```'' else js ''(no output)'')
     @ (if b_cancelled msg then [NL, NL] @ js ''(command cancelled)''
        else (case b_exitCode msg of
            None \<Rightarrow> []
          | Some n \<Rightarrow> if n \<noteq> 0 then [NL, NL] @ js ''Command exited with code '' @ show_int n else []))
     @ (case b_fullOutputPath msg of
          None \<Rightarrow> []
        | Some path \<Rightarrow> if b_truncated msg \<and> path \<noteq> []
            then [NL, NL] @ js ''[Output truncated. Full output: '' @ path @ js '']'' else [])"

text \<open>A message for the provider: the user, assistant and tool result messages of \<open>message\<close>.\<close>

datatype llm_message =
    LUser content "int option"
  | LAssistant assistant
  | LToolResult tool_result

fun toLlm :: "message \<Rightarrow> llm_message option" where
  "toLlm (BashExecution m) =
     (if b_excludeFromContext m then None
      else Some (LUser (BlockContent [TextBlock (bashExecutionToText m)]) (Some (b_timestamp m))))"
| "toLlm (CustomMessage m) =
     Some (LUser (BlockContent (case c_content m of TextContent s \<Rightarrow> [TextBlock s] | BlockContent bs \<Rightarrow> bs)) (c_timestamp m))"
| "toLlm (BranchSummary summary fromId t) =
     Some (LUser (BlockContent [TextBlock (BRANCH_SUMMARY_PREFIX @ summary @ BRANCH_SUMMARY_SUFFIX)]) t)"
| "toLlm (CompactionSummary summary tokensBefore t) =
     Some (LUser (BlockContent [TextBlock (COMPACTION_SUMMARY_PREFIX @ summary @ COMPACTION_SUMMARY_SUFFIX)]) t)"
| "toLlm (UserMessage c t) = Some (LUser c (Some t))"
| "toLlm (AssistantMessage a) = Some (LAssistant a)"
| "toLlm (ToolResultMessage r) = Some (LToolResult r)"

definition convertToLlm :: "message list \<Rightarrow> llm_message list" where
  "convertToLlm messages = List.map_filter toLlm messages"

section \<open>Entries of a session\<close>

record compaction =
  k_summary :: jsstring
  k_firstKeptEntryId :: "jsstring option"
  k_tokensBefore :: int
  k_retainedTail :: "message list option"
  k_details :: "json option"
  k_usage :: "usage option"
  k_fromHook :: "bool option"

record branch_summary =
  s_fromId :: jsstring
  s_summary :: jsstring
  s_details :: "json option"
  s_usage :: "usage option"
  s_fromHook :: "bool option"

datatype entry_body =
    MessageEntry message
  | ThinkingLevelChange jsstring
  | ModelChange jsstring jsstring
  | ActiveToolsChange "jsstring list"
  | CompactionEntry compaction
  | BranchSummaryEntry branch_summary
  | CustomEntry jsstring "json option"
  | CustomMessageEntry jsstring content bool "json option"
  | LabelEntry jsstring "jsstring option"
  | SessionInfo "jsstring option"
  | LeafEntry "jsstring option"

record entry =
  e_id :: jsstring
  e_parentId :: "jsstring option"
  e_timestamp :: jsstring
  e_body :: entry_body

datatype entry_type =
    TMessage | TThinkingLevelChange | TModelChange | TActiveToolsChange | TCompaction | TBranchSummary
  | TCustom | TCustomMessage | TLabel | TSessionInfo | TLeaf

fun type_of_body :: "entry_body \<Rightarrow> entry_type" where
  "type_of_body (MessageEntry _) = TMessage"
| "type_of_body (ThinkingLevelChange _) = TThinkingLevelChange"
| "type_of_body (ModelChange _ _) = TModelChange"
| "type_of_body (ActiveToolsChange _) = TActiveToolsChange"
| "type_of_body (CompactionEntry _) = TCompaction"
| "type_of_body (BranchSummaryEntry _) = TBranchSummary"
| "type_of_body (CustomEntry _ _) = TCustom"
| "type_of_body (CustomMessageEntry _ _ _ _) = TCustomMessage"
| "type_of_body (LabelEntry _ _) = TLabel"
| "type_of_body (SessionInfo _) = TSessionInfo"
| "type_of_body (LeafEntry _) = TLeaf"

definition entry_type :: "entry \<Rightarrow> entry_type" where
  "entry_type e = type_of_body (e_body e)"

lemma entry_type_iff:
  "entry_type e = TCompaction \<longleftrightarrow> (\<exists>k. e_body e = CompactionEntry k)"
  "entry_type e = TLeaf \<longleftrightarrow> (\<exists>t. e_body e = LeafEntry t)"
  "entry_type e = TMessage \<longleftrightarrow> (\<exists>m. e_body e = MessageEntry m)"
  by (cases "e_body e"; simp add: entry_type_def)+

text \<open>Codes of \<open>SessionError\<close>, and the range error of a branch query.\<close>

datatype session_error =
    NotFound jsstring
  | InvalidSession
  | InvalidEntry jsstring
  | InvalidForkTarget jsstring
  | StorageError
  | QueryRange

text \<open>The entry a new entry makes the head of the session.\<close>

definition leaf_after :: "entry \<Rightarrow> jsstring option" where
  "leaf_after e = (case e_body e of LeafEntry target \<Rightarrow> target | _ \<Rightarrow> Some (e_id e))"

text \<open>A string is truthy unless it is empty; \<open>null\<close> and \<open>undefined\<close> are not.\<close>

definition truthy :: "jsstring option \<Rightarrow> bool" where
  "truthy s = (case s of None \<Rightarrow> False | Some x \<Rightarrow> x \<noteq> [])"

lemma truthy_simps [simp]: "\<not> truthy None" "truthy (Some x) \<longleftrightarrow> x \<noteq> []"
  by (simp_all add: truthy_def)

end
