(* ===== verification/SessionContext.thy ===== *)
theory SessionContext
  imports SessionTypes
begin

text \<open>
  From the entries of a branch to the context of the model (\<open>session.ts\<close>:
  \<open>deriveSessionContextState\<close>, \<open>defaultContextEntryTransform\<close>, \<open>buildContextEntries\<close>,
  \<open>sessionEntryToContextMessages\<close>, \<open>buildSessionContext\<close>, and the class
  \<open>HydratedSessionState\<close>).
\<close>

section \<open>Definitions\<close>

record context_state =
  x_thinkingLevel :: jsstring
  x_model :: "(jsstring \<times> jsstring) option"
  x_activeToolNames :: "jsstring list option"

record session_context = context_state +
  x_messages :: "message list"

type_synonym projector = "entry \<Rightarrow> nat \<Rightarrow> entry list \<Rightarrow> message list option"

record context_options =
  o_entryTransforms :: "(entry list \<Rightarrow> entry list) list"
  o_entryProjectors :: "jsstring \<Rightarrow> projector option"

definition no_options :: context_options where
  "no_options = \<lparr>o_entryTransforms = [], o_entryProjectors = (\<lambda>_. None)\<rparr>"

definition deriveStep :: "context_state \<Rightarrow> entry \<Rightarrow> context_state" where
  "deriveStep s e =
     (case e_body e of
        ThinkingLevelChange l \<Rightarrow> s\<lparr>x_thinkingLevel := l\<rparr>
      | ModelChange provider modelId \<Rightarrow> s\<lparr>x_model := Some (provider, modelId)\<rparr>
      | MessageEntry (AssistantMessage a) \<Rightarrow> s\<lparr>x_model := Some (a_provider a, a_model a)\<rparr>
      | ActiveToolsChange names \<Rightarrow> s\<lparr>x_activeToolNames := Some names\<rparr>
      | _ \<Rightarrow> s)"

definition deriveSessionContextState :: "entry list \<Rightarrow> context_state" where
  "deriveSessionContextState pathEntries =
     foldl deriveStep \<lparr>x_thinkingLevel = js ''off'', x_model = None, x_activeToolNames = None\<rparr> pathEntries"

fun lastCompaction :: "(entry \<times> compaction) option \<Rightarrow> entry list \<Rightarrow> (entry \<times> compaction) option" where
  "lastCompaction c [] = c"
| "lastCompaction c (e # es) =
     lastCompaction (case e_body e of CompactionEntry k \<Rightarrow> Some (e, k) | _ \<Rightarrow> c) es"

fun keepFrom :: "jsstring \<Rightarrow> bool \<Rightarrow> entry list \<Rightarrow> entry list" where
  "keepFrom firstKept found [] = []"
| "keepFrom firstKept found (e # es) =
     (let found = (found \<or> e_id e = firstKept)
      in if found then e # keepFrom firstKept found es else keepFrom firstKept found es)"

definition defaultContextEntryTransform :: "entry list \<Rightarrow> entry list" where
  "defaultContextEntryTransform pathEntries =
     (case lastCompaction None pathEntries of
        None \<Rightarrow> pathEntries
      | Some (c, k) \<Rightarrow>
          (case findIndex (\<lambda>e. entry_type e = TCompaction \<and> e_id e = e_id c) pathEntries of
             None \<Rightarrow> c # pathEntries
           | Some i \<Rightarrow>
               if k_retainedTail k \<noteq> None then c # drop (i + 1) pathEntries
               else if truthy (k_firstKeptEntryId k)
               then c # keepFrom (the (k_firstKeptEntryId k)) False (take i pathEntries) @ drop (i + 1) pathEntries
               else c # drop (i + 1) pathEntries))"

definition buildContextEntries :: "entry list \<Rightarrow> context_options \<Rightarrow> entry list" where
  "buildContextEntries pathEntries options =
     foldl (\<lambda>entries transform. transform entries) (defaultContextEntryTransform pathEntries)
       (o_entryTransforms options)"

definition sessionEntryToContextMessages :: "entry \<Rightarrow> nat \<Rightarrow> entry list \<Rightarrow> context_options \<Rightarrow> message list" where
  "sessionEntryToContextMessages e index entries options =
     (case e_body e of
        MessageEntry m \<Rightarrow> [m]
      | CustomMessageEntry customType c display details \<Rightarrow>
          [createCustomMessage customType c display details (e_timestamp e)]
      | CompactionEntry k \<Rightarrow>
          createCompactionSummaryMessage (k_summary k) (k_tokensBefore k) (e_timestamp e)
            # (case k_retainedTail k of None \<Rightarrow> [] | Some tail \<Rightarrow> tail)
      | BranchSummaryEntry s \<Rightarrow>
          (if s_summary s \<noteq> [] then [createBranchSummaryMessage (s_summary s) (s_fromId s) (e_timestamp e)] else [])
      | CustomEntry customType data \<Rightarrow>
          (case o_entryProjectors options customType of
             None \<Rightarrow> []
           | Some project \<Rightarrow> (case project e index entries of None \<Rightarrow> [] | Some ms \<Rightarrow> ms))
      | _ \<Rightarrow> [])"

definition contextMessages :: "entry list \<Rightarrow> context_options \<Rightarrow> message list" where
  "contextMessages entries options =
     concat (map (\<lambda>(index, e). sessionEntryToContextMessages e index entries options) (enumerate 0 entries))"

definition buildSessionContext :: "entry list \<Rightarrow> context_options \<Rightarrow> session_context" where
  "buildSessionContext pathEntries options =
     (let contextEntries = buildContextEntries pathEntries options
      in context_state.extend (deriveSessionContextState pathEntries)
           (session_context.fields (contextMessages contextEntries options)))"

section \<open>The hydrated state\<close>

record session_stats =
  t_messageCount :: nat
  t_cachedTokens :: int
  t_uncachedTokens :: int
  t_totalTokens :: int

record hydrated =
  h_entries :: "entry list"
  h_labelsById :: "jsstring \<rightharpoonup> jsstring"

definition applyProjection :: "entry \<Rightarrow> (jsstring \<rightharpoonup> jsstring) \<Rightarrow> (jsstring \<rightharpoonup> jsstring)" where
  "applyProjection e labels =
     (case e_body e of
        LabelEntry targetId label \<Rightarrow>
          (let trimmed = map_option trim label in
           if truthy trimmed then labels(targetId \<mapsto> the trimmed) else labels(targetId := None))
      | _ \<Rightarrow> labels)"

definition hydrate :: "entry list \<Rightarrow> hydrated" where
  "hydrate entries = \<lparr>h_entries = entries, h_labelsById = fold applyProjection entries Map.empty\<rparr>"

definition hydrated_getLabel :: "hydrated \<Rightarrow> jsstring \<Rightarrow> jsstring option" where
  "hydrated_getLabel h i = h_labelsById h i"

text \<open>The backward loop of \<open>getSessionName\<close>, over the reversed entries.\<close>

fun latestName :: "entry list \<Rightarrow> jsstring option" where
  "latestName [] = None"
| "latestName (e # es) =
     (case e_body e of
        SessionInfo name \<Rightarrow> (let trimmed = map_option trim name in if truthy trimmed then trimmed else None)
      | _ \<Rightarrow> latestName es)"

definition hydrated_getSessionName :: "hydrated \<Rightarrow> jsstring option" where
  "hydrated_getSessionName h = latestName (rev (h_entries h))"

definition usageOfEntry :: "entry \<Rightarrow> usage option" where
  "usageOfEntry e =
     (case e_body e of
        MessageEntry (AssistantMessage a) \<Rightarrow> a_usage a
      | CompactionEntry k \<Rightarrow> k_usage k
      | BranchSummaryEntry s \<Rightarrow> s_usage s
      | _ \<Rightarrow> None)"

definition addStats :: "session_stats \<Rightarrow> entry \<Rightarrow> session_stats" where
  "addStats s e =
     (let s = (if entry_type e = TMessage then s\<lparr>t_messageCount := t_messageCount s + 1\<rparr> else s) in
      case usageOfEntry e of
        None \<Rightarrow> s
      | Some u \<Rightarrow> s\<lparr>t_cachedTokens := t_cachedTokens s + u_cacheRead u,
                   t_uncachedTokens := t_uncachedTokens s + (u_input u + u_cacheWrite u),
                   t_totalTokens := t_totalTokens s + (u_input u + u_output u + u_cacheRead u + u_cacheWrite u)\<rparr>)"

definition hydrated_getSessionStats :: "hydrated \<Rightarrow> session_stats" where
  "hydrated_getSessionStats h =
     foldl addStats \<lparr>t_messageCount = 0, t_cachedTokens = 0, t_uncachedTokens = 0, t_totalTokens = 0\<rparr> (h_entries h)"

section \<open>The default transform\<close>

definition is_compaction :: "entry \<Rightarrow> bool" where
  "is_compaction e \<longleftrightarrow> entry_type e = TCompaction"

lemma is_compaction_body [simp]: "e_body e = CompactionEntry k \<Longrightarrow> is_compaction e"
  by (simp add: is_compaction_def entry_type_def)

lemma lastCompaction_none: "\<forall>e\<in>set es. \<not> is_compaction e \<Longrightarrow> lastCompaction c es = c"
  by (induction es arbitrary: c) (auto split: entry_body.split)

lemma lastCompaction_append: "lastCompaction c (xs @ ys) = lastCompaction (lastCompaction c xs) ys"
  by (induction xs arbitrary: c) simp_all

lemma keepFrom_True [simp]: "keepFrom f True es = es"
  by (induction es) simp_all

lemma keepFrom_dropWhile: "keepFrom f False es = dropWhile (\<lambda>e. e_id e \<noteq> f) es"
  by (induction es) (auto simp: Let_def)

lemma findIndex_append_miss:
  "\<forall>x\<in>set xs. \<not> P x \<Longrightarrow> findIndex P (xs @ ys) = map_option (\<lambda>i. length xs + i) (findIndex P ys)"
  by (cases "findIndex P ys"; induction xs) simp_all

text \<open>What stays of the entries before the last compaction \<open>k\<close>.\<close>

definition kept :: "compaction \<Rightarrow> entry list \<Rightarrow> entry list" where
  "kept k pre =
     (if k_retainedTail k \<noteq> None \<or> \<not> truthy (k_firstKeptEntryId k) then []
      else dropWhile (\<lambda>e. e_id e \<noteq> the (k_firstKeptEntryId k)) pre)"

lemma transform_no_compaction:
  "\<forall>e\<in>set es. \<not> is_compaction e \<Longrightarrow> defaultContextEntryTransform es = es"
  by (simp add: defaultContextEntryTransform_def lastCompaction_none)

lemma transform_compaction:
  assumes "e_body c = CompactionEntry k" "\<forall>e\<in>set post. \<not> is_compaction e"
    and "\<forall>e\<in>set pre. e_id e \<noteq> e_id c"
  shows "defaultContextEntryTransform (pre @ c # post) = c # kept k pre @ post"
proof -
  have "lastCompaction None (pre @ c # post) = Some (c, k)"
    using assms(1) lastCompaction_none [OF assms(2)] by (simp add: lastCompaction_append)
  moreover have "findIndex (\<lambda>e. entry_type e = TCompaction \<and> e_id e = e_id c) (pre @ c # post) = Some (length pre)"
    using assms by (simp add: findIndex_append_miss entry_type_def)
  ultimately show ?thesis
    by (simp add: defaultContextEntryTransform_def kept_def keepFrom_dropWhile)
qed

lemma contextMessages_no_projectors:
  assumes "\<forall>t. o_entryProjectors options t = None"
  shows "contextMessages es options = concat (map (\<lambda>e. sessionEntryToContextMessages e 0 [] options) es)"
proof -
  have *: "sessionEntryToContextMessages e i es' options = sessionEntryToContextMessages e 0 [] options" for e i es'
    using assms by (simp add: sessionEntryToContextMessages_def split: entry_body.split)
  have "contextMessages es options
      = concat (map (\<lambda>p. sessionEntryToContextMessages (snd p) 0 [] options) (enumerate 0 es))"
    unfolding contextMessages_def by (intro arg_cong [where f = concat] map_cong refl) (auto intro: *)
  also have "map (\<lambda>p. sessionEntryToContextMessages (snd p) 0 [] options) (enumerate 0 es)
      = map (\<lambda>e. sessionEntryToContextMessages e 0 [] options) (map snd (enumerate 0 es))"
    by (simp only: map_map comp_def)
  finally show ?thesis
    by (simp only: map_snd_enumerate)
qed

section \<open>Labels and names\<close>

lemma fold_applyProjection_snoc:
  "h_labelsById (hydrate (es @ [e])) = applyProjection e (h_labelsById (hydrate es))"
  by (simp add: hydrate_def)

end
