(* ===== verification/AgentLoop.thy ===== *)
theory AgentLoop
  imports SessionTypes "HOL-Library.Multiset"
begin

text \<open>
  The loop of the agent (\<open>packages/agent/src/agent-loop.ts\<close>, its types in
  \<open>packages/agent/src/types.ts\<close>): prompts and queued messages enter the context, the response of the
  model is streamed, its tool calls are prepared, executed and reported, and the loop goes on until
  there is nothing left to do. Everything outside the loop acts on a world of type \<open>'w\<close>: the
  model, the tools, the hooks, the queues, the sink of the events, the clock and the abort signal are
  functions over it, so that each may depend on all that happened before. A tool that throws, and a hook
  that throws while a call is handled, return \<open>Inl\<close> the message of the error; the other callbacks
  must not throw by their contract. A tool settles and a stream ends. Callbacks do not mutate the
  arrays they are handed.
\<close>

section \<open>Types\<close>

datatype thinking_level = ThinkOff | ThinkMinimal | ThinkLow | ThinkMedium | ThinkHigh | ThinkXhigh | ThinkMax

record model =
  mo_id :: jsstring
  mo_provider :: jsstring
  mo_reasoning :: bool
  mo_maxTokens :: int
  mo_contextWindow :: int

type_synonym args = "(jsstring \<times> json) list"

record tool_call =
  tc_id :: jsstring
  tc_name :: jsstring
  tc_arguments :: args

text \<open>What a tool returns. An untyped tool can leave the content out.\<close>

record tool_output =
  o_content :: "block list option"
  o_details :: "json option"
  o_usage :: "usage option"
  o_addedToolNames :: "jsstring list option"
  o_terminate :: "bool option"

datatype delta_kind =
    TextStart | TextDelta | TextEnd | ThinkingStart | ThinkingDelta | ThinkingEnd
  | ToolCallStart | ToolCallDelta | ToolCallEnd

datatype stream_event = StreamStart assistant | StreamDelta delta_kind assistant | StreamDone | StreamError

record response =
  rs_events :: "stream_event list"
  rs_result :: assistant

datatype event =
    AgentStart
  | AgentEnd "message list"
  | TurnStart
  | TurnEnd message "tool_result list"
  | MessageStart message
  | MessageUpdate message stream_event
  | MessageEnd message
  | ToolStart jsstring jsstring args
  | ToolUpdate jsstring jsstring args tool_output
  | ToolEnd jsstring jsstring tool_output bool

datatype execution_mode = Sequential | Parallel

text \<open>One run of a tool: the partial results it reports until it settles, and how it settles.
  What it reports later is dropped.\<close>

record execution =
  x_updates :: "tool_output list"
  x_outcome :: "jsstring + tool_output"

record 'w agent_tool =
  t_name :: jsstring
  t_executionMode :: "execution_mode option"
  t_prepareArguments :: "(args \<Rightarrow> jsstring + args) option"
  t_validate :: "args \<Rightarrow> jsstring + args"
  t_execute :: "jsstring \<Rightarrow> args \<Rightarrow> 'w \<Rightarrow> execution \<times> 'w"

record 'w agent_context =
  cx_systemPrompt :: jsstring
  cx_messages :: "message list"
  cx_tools :: "'w agent_tool list option"

record before_result =
  br_block :: "bool option"
  br_reason :: "jsstring option"

record after_result =
  ar_content :: "block list option"
  ar_details :: "json option"
  ar_usage :: "usage option"
  ar_isError :: "bool option"
  ar_terminate :: "bool option"

record 'w before_info =
  bi_assistant :: assistant
  bi_toolCall :: tool_call
  bi_args :: args
  bi_context :: "'w agent_context"

record 'w after_info =
  ai_assistant :: assistant
  ai_toolCall :: tool_call
  ai_args :: args
  ai_result :: tool_output
  ai_isError :: bool
  ai_context :: "'w agent_context"

record 'w turn_info =
  ti_message :: assistant
  ti_toolResults :: "tool_result list"
  ti_context :: "'w agent_context"
  ti_newMessages :: "message list"

record 'w turn_update =
  tu_context :: "'w agent_context option"
  tu_model :: "model option"
  tu_thinkingLevel :: "thinking_level option"

record 'w config =
  g_model :: model
  g_reasoning :: "thinking_level option"
  g_apiKey :: "jsstring option"
  g_toolExecution :: "execution_mode option"
  g_convertToLlm :: "message list \<Rightarrow> 'w \<Rightarrow> llm_message list \<times> 'w"
  g_transformContext :: "(message list \<Rightarrow> 'w \<Rightarrow> message list \<times> 'w) option"
  g_getApiKey :: "(jsstring \<Rightarrow> 'w \<Rightarrow> jsstring option \<times> 'w) option"
  g_shouldStopAfterTurn :: "('w turn_info \<Rightarrow> 'w \<Rightarrow> bool \<times> 'w) option"
  g_prepareNextTurn :: "('w turn_info \<Rightarrow> 'w \<Rightarrow> 'w turn_update option \<times> 'w) option"
  g_getSteeringMessages :: "('w \<Rightarrow> message list \<times> 'w) option"
  g_getFollowUpMessages :: "('w \<Rightarrow> message list \<times> 'w) option"
  g_beforeToolCall :: "('w before_info \<Rightarrow> 'w \<Rightarrow> (jsstring + before_result option) \<times> 'w) option"
  g_afterToolCall :: "('w after_info \<Rightarrow> 'w \<Rightarrow> (jsstring + after_result option) \<times> 'w) option"

record 'w llm_context =
  lc_systemPrompt :: jsstring
  lc_messages :: "llm_message list"
  lc_tools :: "'w agent_tool list option"

text \<open>What a run is started with besides the configuration: the sink of the events, the abort
  signal, the clock, the model, and the order in which concurrent tool calls advance.\<close>

record 'w env =
  v_sink :: "event \<Rightarrow> 'w \<Rightarrow> 'w"
  v_aborted :: "'w \<Rightarrow> bool"
  v_now :: "'w \<Rightarrow> int"
  v_stream :: "model \<Rightarrow> 'w llm_context \<Rightarrow> 'w config \<Rightarrow> 'w \<Rightarrow> response \<times> 'w"
  v_pick :: "'w \<Rightarrow> nat list \<Rightarrow> nat"

text \<open>The world, and the events emitted so far.\<close>

record 'w run =
  r_trace :: "event list"
  r_world :: 'w

definition emit :: "'w env \<Rightarrow> event \<Rightarrow> 'w run \<Rightarrow> 'w run" where
  "emit env e s = s\<lparr>r_trace := r_trace s @ [e], r_world := v_sink env e (r_world s)\<rparr>"

definition call :: "('w \<Rightarrow> 'a \<times> 'w) \<Rightarrow> 'w run \<Rightarrow> 'a \<times> 'w run" where
  "call f s = (let (a, w) = f (r_world s) in (a, s\<lparr>r_world := w\<rparr>))"

section \<open>The response of the model\<close>

text \<open>\<open>messages[messages.length - 1] = x\<close>, for a message pushed before.\<close>

definition setLast :: "message list \<Rightarrow> message \<Rightarrow> message list" where
  "setLast xs x = (if xs = [] then [] else butlast xs @ [x])"

definition pushMessage :: "message \<Rightarrow> 'w agent_context \<Rightarrow> 'w agent_context" where
  "pushMessage m ctx = ctx\<lparr>cx_messages := cx_messages ctx @ [m]\<rparr>"

definition replaceLast :: "message \<Rightarrow> 'w agent_context \<Rightarrow> 'w agent_context" where
  "replaceLast m ctx = ctx\<lparr>cx_messages := setLast (cx_messages ctx) m\<rparr>"

definition finishResponse ::
    "'w env \<Rightarrow> assistant \<Rightarrow> bool \<Rightarrow> 'w agent_context \<Rightarrow> 'w run \<Rightarrow> assistant \<times> 'w agent_context \<times> 'w run" where
  "finishResponse env final addedPartial ctx s =
     (let ctx = (if addedPartial then replaceLast (AssistantMessage final) ctx
                 else pushMessage (AssistantMessage final) ctx);
          s = (if addedPartial then s else emit env (MessageStart (AssistantMessage final)) s)
      in (final, ctx, emit env (MessageEnd (AssistantMessage final)) s))"

text \<open>The flag says that a start event has come: then there is a partial message, the last of the
  context.\<close>

fun responseLoop ::
    "'w env \<Rightarrow> assistant \<Rightarrow> stream_event list \<Rightarrow> bool \<Rightarrow> 'w agent_context \<Rightarrow> 'w run
      \<Rightarrow> assistant \<times> 'w agent_context \<times> 'w run" where
  "responseLoop env final [] added ctx s = finishResponse env final added ctx s"
| "responseLoop env final (StreamStart p # es) added ctx s =
     responseLoop env final es True (pushMessage (AssistantMessage p) ctx)
       (emit env (MessageStart (AssistantMessage p)) s)"
| "responseLoop env final (StreamDelta k p # es) added ctx s =
     (if added then responseLoop env final es True (replaceLast (AssistantMessage p) ctx)
                      (emit env (MessageUpdate (AssistantMessage p) (StreamDelta k p)) s)
      else responseLoop env final es False ctx s)"
| "responseLoop env final (StreamDone # es) added ctx s = finishResponse env final added ctx s"
| "responseLoop env final (StreamError # es) added ctx s = finishResponse env final added ctx s"

definition streamAssistantResponse ::
    "'w env \<Rightarrow> 'w config \<Rightarrow> 'w agent_context \<Rightarrow> 'w run \<Rightarrow> assistant \<times> 'w agent_context \<times> 'w run" where
  "streamAssistantResponse env cfg ctx s =
     (let (messages, s) = (case g_transformContext cfg of
              None \<Rightarrow> (cx_messages ctx, s)
            | Some f \<Rightarrow> call (f (cx_messages ctx)) s);
          (llmMessages, s) = call (g_convertToLlm cfg messages) s;
          llmContext = \<lparr>lc_systemPrompt = cx_systemPrompt ctx, lc_messages = llmMessages, lc_tools = cx_tools ctx\<rparr>;
          (key, s) = (case g_getApiKey cfg of None \<Rightarrow> (None, s) | Some f \<Rightarrow> call (f (mo_provider (g_model cfg))) s);
          resolvedApiKey = (if truthy key then key else g_apiKey cfg);
          (response, s) = call (v_stream env (g_model cfg) llmContext (cfg\<lparr>g_apiKey := resolvedApiKey\<rparr>)) s
      in responseLoop env (rs_result response) (rs_events response) False ctx s)"

section \<open>Tool calls\<close>

definition toolCallOf :: "block \<Rightarrow> tool_call option" where
  "toolCallOf b = (case b of ToolCallBlock i n a \<Rightarrow> Some \<lparr>tc_id = i, tc_name = n, tc_arguments = a\<rparr> | _ \<Rightarrow> None)"

definition toolCallsOf :: "assistant \<Rightarrow> tool_call list" where
  "toolCallsOf m = List.map_filter toolCallOf (a_content m)"

definition createErrorToolResult :: "jsstring \<Rightarrow> tool_output" where
  "createErrorToolResult message =
     \<lparr>o_content = Some [TextBlock message], o_details = Some (JObj []), o_usage = None,
      o_addedToolNames = None, o_terminate = None\<rparr>"

record finalized =
  f_toolCall :: tool_call
  f_result :: tool_output
  f_isError :: bool

definition emitToolExecutionStart :: "'w env \<Rightarrow> tool_call \<Rightarrow> 'w run \<Rightarrow> 'w run" where
  "emitToolExecutionStart env tc s = emit env (ToolStart (tc_id tc) (tc_name tc) (tc_arguments tc)) s"

definition emitToolExecutionEnd :: "'w env \<Rightarrow> finalized \<Rightarrow> 'w run \<Rightarrow> 'w run" where
  "emitToolExecutionEnd env f s =
     emit env (ToolEnd (tc_id (f_toolCall f)) (tc_name (f_toolCall f)) (f_result f) (f_isError f)) s"

definition createToolResultMessage :: "finalized \<Rightarrow> int \<Rightarrow> tool_result" where
  "createToolResultMessage f timestamp =
     \<lparr>tr_toolCallId = tc_id (f_toolCall f), tr_toolName = tc_name (f_toolCall f),
      tr_content = (case o_content (f_result f) of Some c \<Rightarrow> c | None \<Rightarrow> []),
      tr_details = o_details (f_result f), tr_usage = o_usage (f_result f),
      tr_addedToolNames = (case o_addedToolNames (f_result f) of
          Some (n # ns) \<Rightarrow> Some (n # ns) | _ \<Rightarrow> None),
      tr_isError = f_isError f, tr_timestamp = timestamp\<rparr>"

definition emitToolResultMessage :: "'w env \<Rightarrow> tool_result \<Rightarrow> 'w run \<Rightarrow> 'w run" where
  "emitToolResultMessage env r s =
     emit env (MessageEnd (ToolResultMessage r)) (emit env (MessageStart (ToolResultMessage r)) s)"

definition reportResult :: "'w env \<Rightarrow> finalized \<Rightarrow> 'w run \<Rightarrow> tool_result \<times> 'w run" where
  "reportResult env f s =
     (let r = createToolResultMessage f (v_now env (r_world s)) in (r, emitToolResultMessage env r s))"

definition shouldTerminateToolBatch :: "finalized list \<Rightarrow> bool" where
  "shouldTerminateToolBatch fs \<longleftrightarrow> fs \<noteq> [] \<and> list_all (\<lambda>f. o_terminate (f_result f) = Some True) fs"

definition truncatedMessage :: "tool_call \<Rightarrow> jsstring" where
  "truncatedMessage tc = js ''Tool call \"'' @ tc_name tc
     @ js ''\" was not executed: the response hit the output token limit, so its arguments may be truncated.''
     @ js '' Re-issue the tool call with complete arguments.''"

fun failToolCalls :: "'w env \<Rightarrow> tool_call list \<Rightarrow> 'w run \<Rightarrow> tool_result list \<times> 'w run" where
  "failToolCalls env [] s = ([], s)"
| "failToolCalls env (tc # tcs) s =
     (let s = emitToolExecutionStart env tc s;
          f = \<lparr>f_toolCall = tc, f_result = createErrorToolResult (truncatedMessage tc), f_isError = True\<rparr>;
          s = emitToolExecutionEnd env f s;
          (r, s) = reportResult env f s;
          (rs, s) = failToolCalls env tcs s
      in (r # rs, s))"

definition failToolCallsFromTruncatedMessage ::
    "'w env \<Rightarrow> tool_call list \<Rightarrow> 'w run \<Rightarrow> (tool_result list \<times> bool) \<times> 'w run" where
  "failToolCallsFromTruncatedMessage env tcs s = (let (rs, s) = failToolCalls env tcs s in ((rs, False), s))"

subsection \<open>Preparing a call\<close>

definition prepareToolCallArguments :: "'w agent_tool \<Rightarrow> tool_call \<Rightarrow> jsstring + tool_call" where
  "prepareToolCallArguments t tc =
     (case t_prepareArguments t of
        None \<Rightarrow> Inr tc
      | Some f \<Rightarrow> (case f (tc_arguments tc) of Inl e \<Rightarrow> Inl e | Inr a \<Rightarrow> Inr (tc\<lparr>tc_arguments := a\<rparr>)))"

definition validatedArguments :: "'w agent_tool \<Rightarrow> tool_call \<Rightarrow> jsstring + args" where
  "validatedArguments t tc =
     (case prepareToolCallArguments t tc of Inl e \<Rightarrow> Inl e | Inr p \<Rightarrow> t_validate t (tc_arguments p))"

record 'w prepared =
  p_toolCall :: tool_call
  p_tool :: "'w agent_tool"
  p_args :: args

datatype 'w preparation = Immediate tool_output bool | Prepared "'w prepared"

definition findTool :: "'w agent_context \<Rightarrow> jsstring \<Rightarrow> 'w agent_tool option" where
  "findTool ctx name = (case cx_tools ctx of None \<Rightarrow> None | Some ts \<Rightarrow> List.find (\<lambda>t. t_name t = name) ts)"

definition failed :: "jsstring \<Rightarrow> 'w preparation" where
  "failed message = Immediate (createErrorToolResult message) True"

definition prepareToolCall ::
    "'w env \<Rightarrow> 'w config \<Rightarrow> 'w agent_context \<Rightarrow> assistant \<Rightarrow> tool_call \<Rightarrow> 'w run \<Rightarrow> 'w preparation \<times> 'w run" where
  "prepareToolCall env cfg ctx m tc s =
     (case findTool ctx (tc_name tc) of
        None \<Rightarrow> (failed (js ''Tool '' @ tc_name tc @ js '' not found''), s)
      | Some t \<Rightarrow>
        (case validatedArguments t tc of
           Inl e \<Rightarrow> (failed e, s)
         | Inr args \<Rightarrow>
           (let (verdict, s) = (case g_beforeToolCall cfg of
                    None \<Rightarrow> (Inr None, s)
                  | Some hook \<Rightarrow> call (hook \<lparr>bi_assistant = m, bi_toolCall = tc, bi_args = args, bi_context = ctx\<rparr>) s)
            in case verdict of
                 Inl e \<Rightarrow> (failed e, s)
               | Inr b \<Rightarrow>
                 if v_aborted env (r_world s) then (failed (js ''Operation aborted''), s)
                 else (case b of
                     Some r \<Rightarrow>
                       if br_block r = Some True
                       then (failed (if truthy (br_reason r) then the (br_reason r) else js ''Tool execution was blocked''), s)
                       else (Prepared \<lparr>p_toolCall = tc, p_tool = t, p_args = args\<rparr>, s)
                   | None \<Rightarrow> (Prepared \<lparr>p_toolCall = tc, p_tool = t, p_args = args\<rparr>, s)))))"

subsection \<open>Executing a call\<close>

definition emitUpdate :: "'w env \<Rightarrow> 'w prepared \<Rightarrow> tool_output \<Rightarrow> 'w run \<Rightarrow> 'w run" where
  "emitUpdate env p u s =
     emit env (ToolUpdate (tc_id (p_toolCall p)) (tc_name (p_toolCall p)) (tc_arguments (p_toolCall p)) u) s"

definition startExecution :: "'w prepared \<Rightarrow> 'w run \<Rightarrow> execution \<times> 'w run" where
  "startExecution p s = call (t_execute (p_tool p) (tc_id (p_toolCall p)) (p_args p)) s"

definition settledOutcome :: "jsstring + tool_output \<Rightarrow> tool_output \<times> bool" where
  "settledOutcome outcome = (case outcome of Inl e \<Rightarrow> (createErrorToolResult e, True) | Inr r \<Rightarrow> (r, False))"

definition executePreparedToolCall :: "'w env \<Rightarrow> 'w prepared \<Rightarrow> 'w run \<Rightarrow> (tool_output \<times> bool) \<times> 'w run" where
  "executePreparedToolCall env p s =
     (let (x, s) = startExecution p s in (settledOutcome (x_outcome x), fold (emitUpdate env p) (x_updates x) s))"

definition orElse :: "'a option \<Rightarrow> 'a option \<Rightarrow> 'a option" where
  "orElse a b = (case a of None \<Rightarrow> b | Some _ \<Rightarrow> a)"

definition overrideResult :: "after_result \<Rightarrow> tool_output \<Rightarrow> tool_output" where
  "overrideResult a r = r\<lparr>o_content := orElse (ar_content a) (o_content r), o_details := orElse (ar_details a) (o_details r),
     o_usage := orElse (ar_usage a) (o_usage r), o_terminate := orElse (ar_terminate a) (o_terminate r)\<rparr>"

definition finalizeExecutedToolCall ::
    "'w config \<Rightarrow> 'w agent_context \<Rightarrow> assistant \<Rightarrow> 'w prepared \<Rightarrow> tool_output \<times> bool \<Rightarrow> 'w run \<Rightarrow> finalized \<times> 'w run" where
  "finalizeExecutedToolCall cfg ctx m p executed s =
     (let (result, isError) = executed in
      case g_afterToolCall cfg of
        None \<Rightarrow> (\<lparr>f_toolCall = p_toolCall p, f_result = result, f_isError = isError\<rparr>, s)
      | Some hook \<Rightarrow>
        (let (verdict, s) = call (hook \<lparr>ai_assistant = m, ai_toolCall = p_toolCall p, ai_args = p_args p,
                ai_result = result, ai_isError = isError, ai_context = ctx\<rparr>) s
         in case verdict of
              Inl e \<Rightarrow> (\<lparr>f_toolCall = p_toolCall p, f_result = createErrorToolResult e, f_isError = True\<rparr>, s)
            | Inr None \<Rightarrow> (\<lparr>f_toolCall = p_toolCall p, f_result = result, f_isError = isError\<rparr>, s)
            | Inr (Some a) \<Rightarrow>
                (\<lparr>f_toolCall = p_toolCall p, f_result = overrideResult a result,
                  f_isError = (case ar_isError a of None \<Rightarrow> isError | Some b \<Rightarrow> b)\<rparr>, s)))"

subsection \<open>One call after the other\<close>

definition handleToolCall ::
    "'w env \<Rightarrow> 'w config \<Rightarrow> 'w agent_context \<Rightarrow> assistant \<Rightarrow> tool_call \<Rightarrow> 'w run \<Rightarrow> finalized \<times> 'w run" where
  "handleToolCall env cfg ctx m tc s =
     (let (preparation, s) = prepareToolCall env cfg ctx m tc s in
      case preparation of
        Immediate result isError \<Rightarrow> (\<lparr>f_toolCall = tc, f_result = result, f_isError = isError\<rparr>, s)
      | Prepared p \<Rightarrow>
          (let (executed, s) = executePreparedToolCall env p s in finalizeExecutedToolCall cfg ctx m p executed s))"

fun sequentialLoop ::
    "'w env \<Rightarrow> 'w config \<Rightarrow> 'w agent_context \<Rightarrow> assistant \<Rightarrow> tool_call list \<Rightarrow> 'w run
      \<Rightarrow> (finalized list \<times> tool_result list) \<times> 'w run" where
  "sequentialLoop env cfg ctx m [] s = (([], []), s)"
| "sequentialLoop env cfg ctx m (tc # tcs) s =
     (let s = emitToolExecutionStart env tc s;
          (f, s) = handleToolCall env cfg ctx m tc s;
          s = emitToolExecutionEnd env f s;
          (r, s) = reportResult env f s
      in if v_aborted env (r_world s) then (([f], [r]), s)
         else (let ((fs, rs), s) = sequentialLoop env cfg ctx m tcs s in ((f # fs, r # rs), s)))"

definition executeToolCallsSequential ::
    "'w env \<Rightarrow> 'w config \<Rightarrow> 'w agent_context \<Rightarrow> assistant \<Rightarrow> tool_call list \<Rightarrow> 'w run
      \<Rightarrow> (tool_result list \<times> bool) \<times> 'w run" where
  "executeToolCallsSequential env cfg ctx m tcs s =
     (let ((fs, rs), s) = sequentialLoop env cfg ctx m tcs s in ((rs, shouldTerminateToolBatch fs), s))"

subsection \<open>Calls side by side\<close>

text \<open>
  The calls are prepared one after the other; those that may run are started in their order and then
  advance in an order the world picks, one step at a time: start the tool, report a partial result, run
  the hook after it settled, report the end.
\<close>

datatype 'w task =
    Waiting "'w prepared"
  | Executing "'w prepared" "tool_output list" "jsstring + tool_output"
  | Ending finalized
  | Finished finalized

fun prepareLoop ::
    "'w env \<Rightarrow> 'w config \<Rightarrow> 'w agent_context \<Rightarrow> assistant \<Rightarrow> tool_call list \<Rightarrow> 'w run \<Rightarrow> 'w task list \<times> 'w run" where
  "prepareLoop env cfg ctx m [] s = ([], s)"
| "prepareLoop env cfg ctx m (tc # tcs) s =
     (let s = emitToolExecutionStart env tc s;
          (preparation, s) = prepareToolCall env cfg ctx m tc s;
          (t, s) = (case preparation of
              Immediate result isError \<Rightarrow>
                (let f = \<lparr>f_toolCall = tc, f_result = result, f_isError = isError\<rparr>
                 in (Finished f, emitToolExecutionEnd env f s))
            | Prepared p \<Rightarrow> (Waiting p, s))
      in if v_aborted env (r_world s) then ([t], s)
         else (let (ts, s) = prepareLoop env cfg ctx m tcs s in (t # ts, s)))"

definition stepTask ::
    "'w env \<Rightarrow> 'w config \<Rightarrow> 'w agent_context \<Rightarrow> assistant \<Rightarrow> 'w task \<Rightarrow> 'w run \<Rightarrow> 'w task \<times> 'w run" where
  "stepTask env cfg ctx m t s =
     (case t of
        Waiting p \<Rightarrow> (let (x, s) = startExecution p s in (Executing p (x_updates x) (x_outcome x), s))
      | Executing p (u # us) outcome \<Rightarrow> (Executing p us outcome, emitUpdate env p u s)
      | Executing p [] outcome \<Rightarrow>
          (let (f, s) = finalizeExecutedToolCall cfg ctx m p (settledOutcome outcome) s in (Ending f, s))
      | Ending f \<Rightarrow> (Finished f, emitToolExecutionEnd env f s)
      | Finished f \<Rightarrow> (Finished f, s))"

fun is_waiting :: "'w task \<Rightarrow> bool" where
  "is_waiting (Waiting _) = True"
| "is_waiting _ = False"

fun is_finished :: "'w task \<Rightarrow> bool" where
  "is_finished (Finished _) = True"
| "is_finished _ = False"

text \<open>The tasks that can advance: of those that wait, the first.\<close>

definition enabled :: "'w task list \<Rightarrow> nat list" where
  "enabled ts = filter (\<lambda>i. \<not> is_finished (ts ! i) \<and> (is_waiting (ts ! i) \<longrightarrow> list_all (\<lambda>t. \<not> is_waiting t) (take i ts)))
     [0..<length ts]"

definition pickTask :: "'w env \<Rightarrow> 'w \<Rightarrow> nat list \<Rightarrow> nat" where
  "pickTask env w ks = ks ! (v_pick env w ks mod length ks)"

fun phases :: "'w task \<Rightarrow> nat" where
  "phases (Waiting _) = 3"
| "phases (Executing _ _ _) = 2"
| "phases (Ending _) = 1"
| "phases (Finished _) = 0"

fun updates_left :: "'w task \<Rightarrow> nat" where
  "updates_left (Executing _ us _) = Suc (length us)"
| "updates_left _ = 0"

lemma enabled_range: "i \<in> set (enabled ts) \<Longrightarrow> i < length ts \<and> \<not> is_finished (ts ! i)"
  by (auto simp: enabled_def)

lemma pickTask_in: "ks \<noteq> [] \<Longrightarrow> pickTask env w ks \<in> set ks"
  by (simp add: pickTask_def)

lemma sum_list_update:
  "i < length ts \<Longrightarrow> sum_list (map f (ts[i := t])) + f (ts ! i) = sum_list (map f ts) + (f t :: nat)"
  by (induction ts arbitrary: i) (auto simp: nth_Cons split: nat.split)

lemma stepTask_cases:
  assumes "stepTask env cfg ctx m t s = (t', s')" "\<not> is_finished t"
  shows "phases t' < phases t \<or> phases t' = phases t \<and> updates_left t' < updates_left t"
  using assms by (cases t) (auto simp: stepTask_def split: list.splits prod.splits)

lemma settle_decreases:
  assumes "enabled ts \<noteq> []"
    and "stepTask env cfg ctx m (ts ! pickTask env w (enabled ts)) s = (t, s')"
  shows "(ts[pickTask env w (enabled ts) := t], ts)
    \<in> measures [\<lambda>ts. sum_list (map phases ts), \<lambda>ts. sum_list (map updates_left ts)]"
proof -
  let ?i = "pickTask env w (enabled ts)"
  have i: "?i < length ts" "\<not> is_finished (ts ! ?i)"
    using enabled_range [OF pickTask_in [OF assms(1)], of env w] by simp_all
  then show ?thesis
    using stepTask_cases [OF assms(2)] sum_list_update [of ?i ts phases t] sum_list_update [of ?i ts updates_left t]
    by auto
qed

function settleTasks ::
    "'w env \<Rightarrow> 'w config \<Rightarrow> 'w agent_context \<Rightarrow> assistant \<Rightarrow> 'w task list \<Rightarrow> 'w run \<Rightarrow> 'w task list \<times> 'w run" where
  "settleTasks env cfg ctx m ts s =
     (if enabled ts = [] then (ts, s)
      else (let i = pickTask env (r_world s) (enabled ts);
                (t, s) = stepTask env cfg ctx m (ts ! i) s
            in settleTasks env cfg ctx m (ts[i := t]) s))"
  by pat_completeness auto
termination
proof (relation "inv_image (measures [\<lambda>ts. sum_list (map phases ts), \<lambda>ts. sum_list (map updates_left ts)])
        (\<lambda>(env, cfg, ctx, m, ts, s). ts)", goal_cases)
  case 1
  show ?case by (intro wf_inv_image wf_measures)
next
  case (2 env cfg ctx m ts s i ts' t s')
  then have "stepTask env cfg ctx m (ts ! pickTask env (r_world s) (enabled ts)) s = (t, s')"
    by simp
  from settle_decreases [OF 2(1) this] show ?case
    using 2(2) by (simp del: in_measures)
qed

declare settleTasks.simps [simp del]

text \<open>What \<open>Promise.all\<close> hands back: the outcomes in the order of the calls.\<close>

fun outcomeOf :: "'w task \<Rightarrow> finalized option" where
  "outcomeOf (Finished f) = Some f"
| "outcomeOf _ = None"

fun reportResults :: "'w env \<Rightarrow> finalized list \<Rightarrow> 'w run \<Rightarrow> tool_result list \<times> 'w run" where
  "reportResults env [] s = ([], s)"
| "reportResults env (f # fs) s =
     (let (r, s) = reportResult env f s; (rs, s) = reportResults env fs s in (r # rs, s))"

definition executeToolCallsParallel ::
    "'w env \<Rightarrow> 'w config \<Rightarrow> 'w agent_context \<Rightarrow> assistant \<Rightarrow> tool_call list \<Rightarrow> 'w run
      \<Rightarrow> (tool_result list \<times> bool) \<times> 'w run" where
  "executeToolCallsParallel env cfg ctx m tcs s =
     (let (ts, s) = prepareLoop env cfg ctx m tcs s;
          (ts, s) = settleTasks env cfg ctx m ts s;
          fs = List.map_filter outcomeOf ts;
          (rs, s) = reportResults env fs s
      in ((rs, shouldTerminateToolBatch fs), s))"

definition is_sequential :: "'w agent_context \<Rightarrow> tool_call \<Rightarrow> bool" where
  "is_sequential ctx tc =
     (case findTool ctx (tc_name tc) of None \<Rightarrow> False | Some t \<Rightarrow> t_executionMode t = Some Sequential)"

definition executeToolCalls ::
    "'w env \<Rightarrow> 'w config \<Rightarrow> 'w agent_context \<Rightarrow> assistant \<Rightarrow> 'w run \<Rightarrow> (tool_result list \<times> bool) \<times> 'w run" where
  "executeToolCalls env cfg ctx m s =
     (let tcs = toolCallsOf m in
      if g_toolExecution cfg = Some Sequential \<or> list_ex (is_sequential ctx) tcs
      then executeToolCallsSequential env cfg ctx m tcs s
      else executeToolCallsParallel env cfg ctx m tcs s)"

section \<open>The loop\<close>

record 'w loop =
  l_context :: "'w agent_context"
  l_config :: "'w config"
  l_firstTurn :: bool
  l_pending :: "message list"
  l_newMessages :: "message list"
  l_hasMoreToolCalls :: bool
  l_run :: "'w run"

definition pollMessages :: "('w \<Rightarrow> message list \<times> 'w) option \<Rightarrow> 'w run \<Rightarrow> message list \<times> 'w run" where
  "pollMessages f s = (case f of None \<Rightarrow> ([], s) | Some g \<Rightarrow> call g s)"

definition emitMessage :: "'w env \<Rightarrow> message \<Rightarrow> 'w run \<Rightarrow> 'w run" where
  "emitMessage env m s = emit env (MessageEnd m) (emit env (MessageStart m) s)"

text \<open>The messages that wait enter the context.\<close>

definition injectPending :: "'w env \<Rightarrow> 'w loop \<Rightarrow> 'w loop" where
  "injectPending env l = l\<lparr>
     l_context := (l_context l)\<lparr>cx_messages := cx_messages (l_context l) @ l_pending l\<rparr>,
     l_newMessages := l_newMessages l @ l_pending l,
     l_run := fold (emitMessage env) (l_pending l) (l_run l),
     l_pending := []\<rparr>"

definition beginTurn :: "'w env \<Rightarrow> 'w loop \<Rightarrow> 'w loop" where
  "beginTurn env l =
     (if l_firstTurn l then l\<lparr>l_firstTurn := False\<rparr> else l\<lparr>l_run := emit env TurnStart (l_run l)\<rparr>)"

definition applyUpdate :: "'w turn_update option \<Rightarrow> 'w loop \<Rightarrow> 'w loop" where
  "applyUpdate update l =
     (case update of
        None \<Rightarrow> l
      | Some u \<Rightarrow> l\<lparr>
          l_context := (case tu_context u of None \<Rightarrow> l_context l | Some ctx \<Rightarrow> ctx),
          l_config := (l_config l)\<lparr>
            g_model := (case tu_model u of None \<Rightarrow> g_model (l_config l) | Some mo \<Rightarrow> mo),
            g_reasoning := (case tu_thinkingLevel u of
                None \<Rightarrow> g_reasoning (l_config l)
              | Some level \<Rightarrow> if level = ThinkOff then None else Some level)\<rparr>\<rparr>)"

definition runToolCalls ::
    "'w env \<Rightarrow> 'w config \<Rightarrow> 'w agent_context \<Rightarrow> assistant \<Rightarrow> 'w run \<Rightarrow> (tool_result list \<times> bool) \<times> 'w run" where
  "runToolCalls env cfg ctx m s =
     (if toolCallsOf m = [] then (([], True), s)
      else if a_stopReason m = Length then failToolCallsFromTruncatedMessage env (toolCallsOf m) s
      else executeToolCalls env cfg ctx m s)"

definition turnInfo :: "assistant \<Rightarrow> tool_result list \<Rightarrow> 'w loop \<Rightarrow> 'w turn_info" where
  "turnInfo m results l =
     \<lparr>ti_message = m, ti_toolResults = results, ti_context = l_context l, ti_newMessages = l_newMessages l\<rparr>"

definition askForUpdate :: "assistant \<Rightarrow> tool_result list \<Rightarrow> 'w loop \<Rightarrow> 'w loop" where
  "askForUpdate m results l =
     (case g_prepareNextTurn (l_config l) of
        None \<Rightarrow> l
      | Some f \<Rightarrow> (let (u, s) = call (f (turnInfo m results l)) (l_run l) in applyUpdate u (l\<lparr>l_run := s\<rparr>)))"

definition askToStop :: "assistant \<Rightarrow> tool_result list \<Rightarrow> 'w loop \<Rightarrow> bool \<times> 'w loop" where
  "askToStop m results l =
     (case g_shouldStopAfterTurn (l_config l) of
        None \<Rightarrow> (False, l)
      | Some f \<Rightarrow> (let (b, s) = call (f (turnInfo m results l)) (l_run l) in (b, l\<lparr>l_run := s\<rparr>)))"

definition endRun :: "'w env \<Rightarrow> 'w loop \<Rightarrow> 'w loop" where
  "endRun env l = l\<lparr>l_run := emit env (AgentEnd (l_newMessages l)) (l_run l)\<rparr>"

text \<open>The tool calls of the response, their results, and the end of the turn.\<close>

definition toolPhase :: "'w env \<Rightarrow> assistant \<Rightarrow> 'w loop \<Rightarrow> tool_result list \<times> 'w loop" where
  "toolPhase env m l =
     (let ((results, terminate), s) = runToolCalls env (l_config l) (l_context l) m (l_run l);
          msgs = map ToolResultMessage results
      in (results, l\<lparr>
           l_hasMoreToolCalls := \<not> terminate,
           l_context := (l_context l)\<lparr>cx_messages := cx_messages (l_context l) @ msgs\<rparr>,
           l_newMessages := l_newMessages l @ msgs,
           l_run := emit env (TurnEnd (AssistantMessage m) results) s\<rparr>))"

definition responsePhase :: "'w env \<Rightarrow> 'w loop \<Rightarrow> assistant \<times> 'w loop" where
  "responsePhase env l =
     (let (m, ctx, s) = streamAssistantResponse env (l_config l) (l_context l) (l_run l)
      in (m, l\<lparr>l_context := ctx, l_newMessages := l_newMessages l @ [AssistantMessage m], l_run := s\<rparr>))"

text \<open>One pass of the inner loop; the flag says that the run is over.\<close>

definition turn :: "'w env \<Rightarrow> 'w loop \<Rightarrow> bool \<times> 'w loop" where
  "turn env l =
     (let l = injectPending env (beginTurn env l);
          (m, l) = responsePhase env l
      in if a_stopReason m = StopError \<or> a_stopReason m = Aborted
         then (True, endRun env (l\<lparr>l_run := emit env (TurnEnd (AssistantMessage m) []) (l_run l)\<rparr>))
         else
           (let (results, l) = toolPhase env m l;
                (stop, l) = askToStop m results (askForUpdate m results l)
            in if stop then (True, endRun env l)
               else (let (pending, s) = pollMessages (g_getSteeringMessages (l_config l)) (l_run l)
                     in (False, l\<lparr>l_pending := pending, l_run := s\<rparr>))))"

partial_function (option) innerLoop :: "'w env \<Rightarrow> 'w loop \<Rightarrow> (bool \<times> 'w loop) option" where
  "innerLoop env l =
     (if l_hasMoreToolCalls l \<or> l_pending l \<noteq> []
      then (let (over, l) = turn env l in if over then Some (True, l) else innerLoop env l)
      else Some (False, l))"

partial_function (option) outerLoop :: "'w env \<Rightarrow> 'w loop \<Rightarrow> 'w loop option" where
  "outerLoop env l =
     Option.bind (innerLoop env (l\<lparr>l_hasMoreToolCalls := True\<rparr>)) (\<lambda>(over, l).
       if over then Some l
       else (let (followUps, s) = pollMessages (g_getFollowUpMessages (l_config l)) (l_run l);
                 l = l\<lparr>l_run := s\<rparr>
             in if followUps \<noteq> [] then outerLoop env (l\<lparr>l_pending := followUps\<rparr>)
                else Some (endRun env l)))"

definition runLoop ::
    "'w env \<Rightarrow> 'w config \<Rightarrow> 'w agent_context \<Rightarrow> message list \<Rightarrow> 'w run \<Rightarrow> (message list \<times> 'w run) option" where
  "runLoop env cfg ctx newMessages s =
     (let (pending, s) = pollMessages (g_getSteeringMessages cfg) s
      in map_option (\<lambda>l. (l_newMessages l, l_run l))
           (outerLoop env \<lparr>l_context = ctx, l_config = cfg, l_firstTurn = True, l_pending = pending,
              l_newMessages = newMessages, l_hasMoreToolCalls = True, l_run = s\<rparr>))"

definition runAgentLoop ::
    "'w env \<Rightarrow> message list \<Rightarrow> 'w agent_context \<Rightarrow> 'w config \<Rightarrow> 'w \<Rightarrow> (message list \<times> 'w run) option" where
  "runAgentLoop env prompts ctx cfg w =
     (let s = emit env TurnStart (emit env AgentStart \<lparr>r_trace = [], r_world = w\<rparr>);
          s = fold (emitMessage env) prompts s
      in runLoop env cfg (ctx\<lparr>cx_messages := cx_messages ctx @ prompts\<rparr>) prompts s)"

datatype continue_error = NoMessages | LastIsAssistant

definition canContinue :: "'w agent_context \<Rightarrow> continue_error + unit" where
  "canContinue ctx =
     (if cx_messages ctx = [] then Inl NoMessages
      else if role_of (last (cx_messages ctx)) = RAssistant then Inl LastIsAssistant
      else Inr ())"

text \<open>A refusal is an error thrown before anything is emitted.\<close>

definition runAgentLoopContinue ::
    "'w env \<Rightarrow> 'w agent_context \<Rightarrow> 'w config \<Rightarrow> 'w \<Rightarrow> (continue_error + message list \<times> 'w run) option" where
  "runAgentLoopContinue env ctx cfg w =
     (case canContinue ctx of
        Inl e \<Rightarrow> Some (Inl e)
      | Inr _ \<Rightarrow> map_option Inr (runLoop env cfg ctx []
          (emit env TurnStart (emit env AgentStart \<lparr>r_trace = [], r_world = w\<rparr>))))"

end
