(* ===== verification/Compaction.thy ===== *)
theory Compaction
  imports SessionContext AgentLoop "HOL-Library.List_Lexorder"
begin

text \<open>
  Compaction of a session (\<open>packages/agent/src/harness/compaction/compaction.ts\<close> and \<open>utils.ts\<close>):
  the estimate of tokens, the cut point, the parts a compaction is prepared from, the text of the
  requests for summaries, and the result. The model behind its retries (\<open>completeSimpleWithRetries\<close>)
  is the parameter \<open>ask\<close> over a world. Token counts are exact integers.
\<close>

section \<open>File operations\<close>

record file_ops =
  fo_read :: "jsstring list"
  fo_written :: "jsstring list"
  fo_edited :: "jsstring list"

definition createFileOps :: file_ops where
  "createFileOps = \<lparr>fo_read = [], fo_written = [], fo_edited = []\<rparr>"

definition pathArgument :: "args \<Rightarrow> jsstring option" where
  "pathArgument a = (case map_of a (js ''path'') of
       Some (JStr p) \<Rightarrow> if p \<noteq> [] then Some p else None
     | _ \<Rightarrow> None)"

definition addFileOp :: "block \<Rightarrow> file_ops \<Rightarrow> file_ops" where
  "addFileOp b ops = (case b of
       ToolCallBlock i name a \<Rightarrow>
         (case pathArgument a of
            None \<Rightarrow> ops
          | Some p \<Rightarrow>
              if name = js ''read'' then ops\<lparr>fo_read := set_add p (fo_read ops)\<rparr>
              else if name = js ''write'' then ops\<lparr>fo_written := set_add p (fo_written ops)\<rparr>
              else if name = js ''edit'' then ops\<lparr>fo_edited := set_add p (fo_edited ops)\<rparr>
              else ops)
     | _ \<Rightarrow> ops)"

definition extractFileOpsFromMessage :: "message \<Rightarrow> file_ops \<Rightarrow> file_ops" where
  "extractFileOpsFromMessage m ops = (case m of
       AssistantMessage a \<Rightarrow> fold addFileOp (a_content a) ops
     | _ \<Rightarrow> ops)"

text \<open>Both lists are sorted by the code units of the paths.\<close>

definition computeFileLists :: "file_ops \<Rightarrow> jsstring list \<times> jsstring list" where
  "computeFileLists ops =
     (let modified = fold set_add (fo_written ops) (fold set_add (fo_edited ops) [])
      in (sort (filter (\<lambda>f. f \<notin> set modified) (fo_read ops)), sort modified))"

definition formatFileOperations :: "jsstring list \<Rightarrow> jsstring list \<Rightarrow> jsstring" where
  "formatFileOperations readFiles modifiedFiles =
     (let sections =
        (if readFiles \<noteq> [] then [js ''<read-files>'' @ [NL] @ join [NL] readFiles @ [NL] @ js ''</read-files>''] else [])
        @ (if modifiedFiles \<noteq> []
           then [js ''<modified-files>'' @ [NL] @ join [NL] modifiedFiles @ [NL] @ js ''</modified-files>''] else [])
      in if sections = [] then [] else [NL, NL] @ join [NL, NL] sections)"

text \<open>The elements of an array of strings stored in the details of an entry.\<close>

definition stringOf :: "json \<Rightarrow> jsstring option" where
  "stringOf j = (case j of JStr s \<Rightarrow> Some s | _ \<Rightarrow> None)"

definition stringsIn :: "json \<Rightarrow> jsstring \<Rightarrow> jsstring list" where
  "stringsIn j key = (case j of
       JObj kvs \<Rightarrow> (case map_of kvs key of Some (JArr xs) \<Rightarrow> List.map_filter stringOf xs | _ \<Rightarrow> [])
     | _ \<Rightarrow> [])"

definition addDetails :: "bool option \<Rightarrow> json option \<Rightarrow> file_ops \<Rightarrow> file_ops" where
  "addDetails fromHook details ops =
     (if fromHook = Some True then ops
      else (case details of
          None \<Rightarrow> ops
        | Some d \<Rightarrow> ops\<lparr>fo_read := fold set_add (stringsIn d (js ''readFiles'')) (fo_read ops),
                       fo_edited := fold set_add (stringsIn d (js ''modifiedFiles'')) (fo_edited ops)\<rparr>))"

definition extractFileOperations :: "message list \<Rightarrow> entry list \<Rightarrow> nat option \<Rightarrow> file_ops" where
  "extractFileOperations messages entries prevCompactionIndex =
     (let ops = (case prevCompactionIndex of
            None \<Rightarrow> createFileOps
          | Some i \<Rightarrow> (case e_body (entries ! i) of
                CompactionEntry k \<Rightarrow> addDetails (k_fromHook k) (k_details k) createFileOps
              | _ \<Rightarrow> createFileOps))
      in fold extractFileOpsFromMessage messages ops)"

section \<open>The text of a conversation\<close>

definition textOf :: "block \<Rightarrow> jsstring option" where
  "textOf b = (case b of TextBlock t \<Rightarrow> Some t | _ \<Rightarrow> None)"

definition blocksText :: "block list \<Rightarrow> jsstring \<Rightarrow> jsstring" where
  "blocksText bs separator = join separator (List.map_filter textOf bs)"

definition contentText :: "content \<Rightarrow> jsstring \<Rightarrow> jsstring" where
  "contentText c separator = (case c of TextContent s \<Rightarrow> s | BlockContent bs \<Rightarrow> blocksText bs separator)"

definition TOOL_RESULT_MAX_CHARS :: nat where
  "TOOL_RESULT_MAX_CHARS = 2000"

definition truncateForSummary :: "jsstring \<Rightarrow> nat \<Rightarrow> jsstring" where
  "truncateForSummary s maxChars =
     (if length s \<le> maxChars then s
      else take maxChars s @ [NL, NL] @ js ''[... '' @ show_nat (length s - maxChars) @ js '' more characters truncated]'')"

definition thinkingOf :: "block \<Rightarrow> jsstring option" where
  "thinkingOf b = (case b of ThinkingBlock t \<Rightarrow> Some t | _ \<Rightarrow> None)"

definition showToolCall :: "block \<Rightarrow> jsstring option" where
  "showToolCall b = (case b of
       ToolCallBlock i name a \<Rightarrow>
         Some (name @ js ''('' @ join (js '', '') (map (\<lambda>(k, v). k @ js ''='' @ stringify v) a) @ js '')'')
     | _ \<Rightarrow> None)"

definition serializeMessage :: "llm_message \<Rightarrow> jsstring list" where
  "serializeMessage m = (case m of
       LUser c t \<Rightarrow> (let s = contentText c [] in if s \<noteq> [] then [js ''[User]: '' @ s] else [])
     | LAssistant a \<Rightarrow>
         (let thinking = List.map_filter thinkingOf (a_content a);
              calls = List.map_filter showToolCall (a_content a)
          in (if thinking \<noteq> [] then [js ''[Assistant thinking]: '' @ join [NL] thinking] else [])
             @ (if list_ex (\<lambda>b. textOf b \<noteq> None) (a_content a)
                then [js ''[Assistant]: '' @ blocksText (a_content a) [NL]] else [])
             @ (if calls \<noteq> [] then [js ''[Assistant tool calls]: '' @ join (js ''; '') calls] else []))
     | LToolResult r \<Rightarrow>
         (let s = blocksText (tr_content r) []
          in if s \<noteq> [] then [js ''[Tool result]: '' @ truncateForSummary s TOOL_RESULT_MAX_CHARS] else []))"

definition serializeConversation :: "llm_message list \<Rightarrow> jsstring" where
  "serializeConversation messages = join [NL, NL] (concat (map serializeMessage messages))"

section \<open>Messages of entries\<close>

definition getMessageFromEntry :: "entry \<Rightarrow> message option" where
  "getMessageFromEntry e = (case e_body e of
       MessageEntry m \<Rightarrow> Some m
     | CustomMessageEntry customType content display details \<Rightarrow>
         Some (createCustomMessage customType content display details (e_timestamp e))
     | BranchSummaryEntry s \<Rightarrow> Some (createBranchSummaryMessage (s_summary s) (s_fromId s) (e_timestamp e))
     | CompactionEntry k \<Rightarrow> Some (createCompactionSummaryMessage (k_summary k) (k_tokensBefore k) (e_timestamp e))
     | _ \<Rightarrow> None)"

definition getMessageFromEntryForCompaction :: "entry \<Rightarrow> message option" where
  "getMessageFromEntryForCompaction e = (if entry_type e = TCompaction then None else getMessageFromEntry e)"

section \<open>Tokens\<close>

record compaction_settings =
  se_enabled :: bool
  se_reserveTokens :: int
  se_keepRecentTokens :: int

definition DEFAULT_COMPACTION_SETTINGS :: compaction_settings where
  "DEFAULT_COMPACTION_SETTINGS = \<lparr>se_enabled = True, se_reserveTokens = 16384, se_keepRecentTokens = 20000\<rparr>"

definition orZero :: "int option \<Rightarrow> int" where
  "orZero a = (case a of None \<Rightarrow> 0 | Some n \<Rightarrow> n)"

definition combineOptional :: "int option \<Rightarrow> int option \<Rightarrow> int option" where
  "combineOptional a b = (if a \<noteq> None \<or> b \<noteq> None then Some (orZero a + orZero b) else None)"

definition combineUsage :: "usage \<Rightarrow> usage \<Rightarrow> usage" where
  "combineUsage a b = \<lparr>u_input = u_input a + u_input b, u_output = u_output a + u_output b,
     u_cacheRead = u_cacheRead a + u_cacheRead b, u_cacheWrite = u_cacheWrite a + u_cacheWrite b,
     u_cacheWrite1h = combineOptional (u_cacheWrite1h a) (u_cacheWrite1h b),
     u_reasoning = combineOptional (u_reasoning a) (u_reasoning b),
     u_totalTokens = u_totalTokens a + u_totalTokens b\<rparr>"

definition calculateContextTokens :: "usage \<Rightarrow> int" where
  "calculateContextTokens u =
     (if u_totalTokens u \<noteq> 0 then u_totalTokens u else u_input u + u_output u + u_cacheRead u + u_cacheWrite u)"

definition getAssistantUsage :: "message \<Rightarrow> usage option" where
  "getAssistantUsage m = (case m of
       AssistantMessage a \<Rightarrow>
         (case a_usage a of
            Some u \<Rightarrow> if a_stopReason a \<noteq> Aborted \<and> a_stopReason a \<noteq> StopError \<and> 0 < calculateContextTokens u
                      then Some u else None
          | None \<Rightarrow> None)
     | _ \<Rightarrow> None)"

definition getLastAssistantUsage :: "entry list \<Rightarrow> usage option" where
  "getLastAssistantUsage entries =
     (case List.map_filter (\<lambda>e. case e_body e of MessageEntry m \<Rightarrow> getAssistantUsage m | _ \<Rightarrow> None) (rev entries) of
        [] \<Rightarrow> None | u # us \<Rightarrow> Some u)"

definition ESTIMATED_IMAGE_CHARS :: nat where
  "ESTIMATED_IMAGE_CHARS = 4800"

definition blockChars :: "block \<Rightarrow> nat" where
  "blockChars b = (case b of TextBlock t \<Rightarrow> length t | ImageBlock d m \<Rightarrow> ESTIMATED_IMAGE_CHARS | _ \<Rightarrow> 0)"

definition estimateTextAndImageContentChars :: "content \<Rightarrow> nat" where
  "estimateTextAndImageContentChars c = (case c of
       TextContent s \<Rightarrow> length s | BlockContent bs \<Rightarrow> sum_list (map blockChars bs))"

definition assistantChars :: "block \<Rightarrow> nat" where
  "assistantChars b = (case b of
       TextBlock t \<Rightarrow> length t
     | ThinkingBlock t \<Rightarrow> length t
     | ToolCallBlock i name a \<Rightarrow> length name + length (stringify (JObj a))
     | ImageBlock d m \<Rightarrow> 0)"

text \<open>\<open>Math.ceil(chars / 4)\<close>\<close>

definition quarter :: "nat \<Rightarrow> int" where
  "quarter chars = int ((chars + 3) div 4)"

definition estimateTokens :: "message \<Rightarrow> int" where
  "estimateTokens m = quarter (case m of
       UserMessage c t \<Rightarrow> estimateTextAndImageContentChars c
     | AssistantMessage a \<Rightarrow> sum_list (map assistantChars (a_content a))
     | CustomMessage c \<Rightarrow> estimateTextAndImageContentChars (c_content c)
     | ToolResultMessage r \<Rightarrow> estimateTextAndImageContentChars (BlockContent (tr_content r))
     | BashExecution b \<Rightarrow> length (b_command b) + length (b_output b)
     | BranchSummary s i t \<Rightarrow> length s
     | CompactionSummary s n t \<Rightarrow> length s)"

record context_usage =
  cu_tokens :: int
  cu_usageTokens :: int
  cu_trailingTokens :: int
  cu_lastUsageIndex :: "nat option"

text \<open>The last message with usage, looking back over the first \<open>n\<close>.\<close>

fun lastUsageBefore :: "message list \<Rightarrow> nat \<Rightarrow> (usage \<times> nat) option" where
  "lastUsageBefore messages 0 = None"
| "lastUsageBefore messages (Suc i) =
     (case getAssistantUsage (messages ! i) of
        Some u \<Rightarrow> Some (u, i) | None \<Rightarrow> lastUsageBefore messages i)"

definition getLastAssistantUsageInfo :: "message list \<Rightarrow> (usage \<times> nat) option" where
  "getLastAssistantUsageInfo messages = lastUsageBefore messages (length messages)"

definition estimateContextTokens :: "message list \<Rightarrow> context_usage" where
  "estimateContextTokens messages =
     (case getLastAssistantUsageInfo messages of
        None \<Rightarrow>
          (let estimated = sum_list (map estimateTokens messages)
           in \<lparr>cu_tokens = estimated, cu_usageTokens = 0, cu_trailingTokens = estimated, cu_lastUsageIndex = None\<rparr>)
      | Some (u, i) \<Rightarrow>
          (let usageTokens = calculateContextTokens u;
               trailingTokens = sum_list (map estimateTokens (drop (Suc i) messages))
           in \<lparr>cu_tokens = usageTokens + trailingTokens, cu_usageTokens = usageTokens,
               cu_trailingTokens = trailingTokens, cu_lastUsageIndex = Some i\<rparr>))"

definition shouldCompact :: "int \<Rightarrow> int \<Rightarrow> compaction_settings \<Rightarrow> bool" where
  "shouldCompact contextTokens contextWindow settings \<longleftrightarrow>
     se_enabled settings \<and> contextTokens > contextWindow - se_reserveTokens settings"

section \<open>The cut point\<close>

definition is_cut_point :: "entry \<Rightarrow> bool" where
  "is_cut_point e \<longleftrightarrow> (case e_body e of
       MessageEntry m \<Rightarrow> role_of m \<noteq> RToolResult
     | BranchSummaryEntry s \<Rightarrow> True
     | CustomMessageEntry t c d j \<Rightarrow> True
     | _ \<Rightarrow> False)"

definition findValidCutPoints :: "entry list \<Rightarrow> nat \<Rightarrow> nat \<Rightarrow> nat list" where
  "findValidCutPoints entries startIndex endIndex = filter (\<lambda>i. is_cut_point (entries ! i)) [startIndex..<endIndex]"

definition starts_turn :: "entry \<Rightarrow> bool" where
  "starts_turn e \<longleftrightarrow> (case e_body e of
       MessageEntry m \<Rightarrow> role_of m = RUser \<or> role_of m = RBash
     | BranchSummaryEntry s \<Rightarrow> True
     | CustomMessageEntry t c d j \<Rightarrow> True
     | _ \<Rightarrow> False)"

text \<open>\<open>-1\<close> is \<open>None\<close>.\<close>

fun findTurnStartIndex :: "entry list \<Rightarrow> nat \<Rightarrow> nat \<Rightarrow> nat option" where
  "findTurnStartIndex entries entryIndex startIndex =
     (if entryIndex < startIndex then None
      else if starts_turn (entries ! entryIndex) then Some entryIndex
      else (case entryIndex of 0 \<Rightarrow> None | Suc i \<Rightarrow> findTurnStartIndex entries i startIndex))"

declare findTurnStartIndex.simps [simp del]

record cut_point =
  cp_firstKeptEntryIndex :: nat
  cp_turnStartIndex :: "nat option"
  cp_isSplitTurn :: bool

text \<open>Where the messages from the end on reach the budget, looking back over the entries before \<open>n\<close>.\<close>

fun budgetIndex :: "entry list \<Rightarrow> nat \<Rightarrow> int \<Rightarrow> int \<Rightarrow> nat \<Rightarrow> nat option" where
  "budgetIndex entries startIndex keepRecentTokens accumulated 0 = None"
| "budgetIndex entries startIndex keepRecentTokens accumulated (Suc i) =
     (if i < startIndex then None
      else (case e_body (entries ! i) of
          MessageEntry m \<Rightarrow>
            (let accumulated = accumulated + estimateTokens m
             in if accumulated \<ge> keepRecentTokens then Some i
                else budgetIndex entries startIndex keepRecentTokens accumulated i)
        | _ \<Rightarrow> budgetIndex entries startIndex keepRecentTokens accumulated i))"

text \<open>Entries that are neither messages nor compactions go with the entry after them.\<close>

fun includePreceding :: "entry list \<Rightarrow> nat \<Rightarrow> nat \<Rightarrow> nat" where
  "includePreceding entries startIndex 0 = 0"
| "includePreceding entries startIndex (Suc i) =
     (if Suc i > startIndex \<and> entry_type (entries ! i) \<noteq> TCompaction \<and> entry_type (entries ! i) \<noteq> TMessage
      then includePreceding entries startIndex i else Suc i)"

definition is_user_entry :: "entry \<Rightarrow> bool" where
  "is_user_entry e \<longleftrightarrow> (case e_body e of MessageEntry m \<Rightarrow> role_of m = RUser | _ \<Rightarrow> False)"

definition findCutPoint :: "entry list \<Rightarrow> nat \<Rightarrow> nat \<Rightarrow> int \<Rightarrow> cut_point" where
  "findCutPoint entries startIndex endIndex keepRecentTokens =
     (case findValidCutPoints entries startIndex endIndex of
        [] \<Rightarrow> \<lparr>cp_firstKeptEntryIndex = startIndex, cp_turnStartIndex = None, cp_isSplitTurn = False\<rparr>
      | c # cs \<Rightarrow>
          (let cutIndex = (case budgetIndex entries startIndex keepRecentTokens 0 endIndex of
                   None \<Rightarrow> c
                 | Some i \<Rightarrow> (case List.find (\<lambda>k. k \<ge> i) (c # cs) of None \<Rightarrow> c | Some k \<Rightarrow> k));
               cutIndex = includePreceding entries startIndex cutIndex;
               isUserMessage = is_user_entry (entries ! cutIndex);
               turnStartIndex = (if isUserMessage then None else findTurnStartIndex entries cutIndex startIndex)
           in \<lparr>cp_firstKeptEntryIndex = cutIndex, cp_turnStartIndex = turnStartIndex,
               cp_isSplitTurn = (\<not> isUserMessage \<and> turnStartIndex \<noteq> None)\<rparr>))"

section \<open>Preparing a compaction\<close>

datatype compaction_code = CompactionAborted | SummarizationFailed | CompactionInvalidSession

text \<open>A \<open>CompactionError\<close>, or the error thrown when the usage of a response is read and is not there.\<close>

datatype compaction_error = CompactionError compaction_code jsstring | UsageMissing

record preparation_data =
  pr_firstKeptEntryId :: jsstring
  pr_messagesToSummarize :: "message list"
  pr_turnPrefixMessages :: "message list"
  pr_retainedTail :: "message list"
  pr_isSplitTurn :: bool
  pr_tokensBefore :: int
  pr_previousSummary :: "jsstring option"
  pr_fileOps :: file_ops
  pr_settings :: compaction_settings

fun lastIndexBefore :: "entry list \<Rightarrow> nat \<Rightarrow> nat option" where
  "lastIndexBefore entries 0 = None"
| "lastIndexBefore entries (Suc i) =
     (if entry_type (entries ! i) = TCompaction then Some i else lastIndexBefore entries i)"

definition messagesBetween :: "entry list \<Rightarrow> nat \<Rightarrow> nat \<Rightarrow> message list" where
  "messagesBetween entries a b = List.map_filter (\<lambda>i. getMessageFromEntryForCompaction (entries ! i)) [a..<b]"

definition boundaryOf :: "entry list \<Rightarrow> nat option \<Rightarrow> nat \<times> jsstring option" where
  "boundaryOf entries prevCompactionIndex =
     (case prevCompactionIndex of
        None \<Rightarrow> (0, None)
      | Some p \<Rightarrow> (case e_body (entries ! p) of
            CompactionEntry k \<Rightarrow>
              ((case (if truthy (k_firstKeptEntryId k)
                      then findIndex (\<lambda>e. e_id e = the (k_firstKeptEntryId k)) entries else None) of
                  Some i \<Rightarrow> i | None \<Rightarrow> p + 1),
               Some (k_summary k))
          | _ \<Rightarrow> (0, None)))"

definition NO_UUID :: jsstring where
  "NO_UUID = js ''First kept entry has no UUID - session may need migration''"

text \<open>An entry at an index past the end is \<open>undefined\<close>, and so is its identifier.\<close>

definition prepareCompaction ::
    "entry list \<Rightarrow> compaction_settings \<Rightarrow> compaction_error + preparation_data option" where
  "prepareCompaction pathEntries settings =
     (if pathEntries = [] \<or> entry_type (last pathEntries) = TCompaction then Inr None
      else
        let prevCompactionIndex = lastIndexBefore pathEntries (length pathEntries);
            (boundaryStart, previousSummary) = boundaryOf pathEntries prevCompactionIndex;
            boundaryEnd = length pathEntries;
            tokensBefore = cu_tokens (estimateContextTokens (x_messages (buildSessionContext pathEntries no_options)));
            cut = findCutPoint pathEntries boundaryStart boundaryEnd (se_keepRecentTokens settings);
            firstKept = cp_firstKeptEntryIndex cut
        in if \<not> firstKept < length pathEntries \<or> e_id (pathEntries ! firstKept) = []
           then Inl (CompactionError CompactionInvalidSession NO_UUID)
           else
             let historyEnd = (if cp_isSplitTurn cut then the (cp_turnStartIndex cut) else firstKept);
                 messagesToSummarize = messagesBetween pathEntries boundaryStart historyEnd;
                 turnPrefixMessages = (if cp_isSplitTurn cut
                   then messagesBetween pathEntries (the (cp_turnStartIndex cut)) firstKept else []);
                 retainedTail = messagesBetween pathEntries firstKept boundaryEnd;
                 fileOps = extractFileOperations messagesToSummarize pathEntries prevCompactionIndex;
                 fileOps = (if cp_isSplitTurn cut then fold extractFileOpsFromMessage turnPrefixMessages fileOps else fileOps)
             in Inr (Some \<lparr>pr_firstKeptEntryId = e_id (pathEntries ! firstKept),
                  pr_messagesToSummarize = messagesToSummarize, pr_turnPrefixMessages = turnPrefixMessages,
                  pr_retainedTail = retainedTail, pr_isSplitTurn = cp_isSplitTurn cut, pr_tokensBefore = tokensBefore,
                  pr_previousSummary = previousSummary, pr_fileOps = fileOps, pr_settings = settings\<rparr>))"

section \<open>The summaries\<close>

definition SUMMARIZATION_SYSTEM_PROMPT :: jsstring where
  "SUMMARIZATION_SYSTEM_PROMPT = join [NL] [
     js ''You are a context summarization assistant. Your task is to read a conversation between a user and an AI assistant, then produce a structured summary following the exact format specified.'',
     [],
     js ''Do NOT continue the conversation. Do NOT respond to any questions in the conversation. ONLY output the structured summary.'']"

definition SUMMARIZATION_PROMPT :: jsstring where
  "SUMMARIZATION_PROMPT = join [NL] [
     js ''The messages above are a conversation to summarize. Create a structured context checkpoint summary that another LLM will use to continue the work.'',
     [],
     js ''Use this EXACT format:'',
     [],
     js ''## Goal'',
     js ''[What is the user trying to accomplish? Can be multiple items if the session covers different tasks.]'',
     [],
     js ''## Constraints & Preferences'',
     js ''- [Any constraints, preferences, or requirements mentioned by user]'',
     js ''- [Or \"(none)\" if none were mentioned]'',
     [],
     js ''## Progress'',
     js ''### Done'',
     js ''- [x] [Completed tasks/changes]'',
     [],
     js ''### In Progress'',
     js ''- [ ] [Current work]'',
     [],
     js ''### Blocked'',
     js ''- [Issues preventing progress, if any]'',
     [],
     js ''## Key Decisions'',
     js ''- **[Decision]**: [Brief rationale]'',
     [],
     js ''## Next Steps'',
     js ''1. [Ordered list of what should happen next]'',
     [],
     js ''## Critical Context'',
     js ''- [Any data, examples, or references needed to continue]'',
     js ''- [Or \"(none)\" if not applicable]'',
     [],
     js ''Keep each section concise. Preserve exact file paths, function names, and error messages.'']"

definition UPDATE_SUMMARIZATION_PROMPT :: jsstring where
  "UPDATE_SUMMARIZATION_PROMPT = join [NL] [
     js ''The messages above are NEW conversation messages to incorporate into the existing summary provided in <previous-summary> tags.'',
     [],
     js ''Update the existing structured summary with new information. RULES:'',
     js ''- PRESERVE all existing information from the previous summary'',
     js ''- ADD new progress, decisions, and context from the new messages'',
     js ''- UPDATE the Progress section: move items from \"In Progress\" to \"Done\" when completed'',
     js ''- UPDATE \"Next Steps\" based on what was accomplished'',
     js ''- PRESERVE exact file paths, function names, and error messages'',
     js ''- If something is no longer relevant, you may remove it'',
     [],
     js ''Use this EXACT format:'',
     [],
     js ''## Goal'',
     js ''[Preserve existing goals, add new ones if the task expanded]'',
     [],
     js ''## Constraints & Preferences'',
     js ''- [Preserve existing, add new ones discovered]'',
     [],
     js ''## Progress'',
     js ''### Done'',
     js ''- [x] [Include previously done items AND newly completed items]'',
     [],
     js ''### In Progress'',
     js ''- [ ] [Current work - update based on progress]'',
     [],
     js ''### Blocked'',
     js ''- [Current blockers - remove if resolved]'',
     [],
     js ''## Key Decisions'',
     js ''- **[Decision]**: [Brief rationale] (preserve all previous, add new)'',
     [],
     js ''## Next Steps'',
     js ''1. [Update based on current state]'',
     [],
     js ''## Critical Context'',
     js ''- [Preserve important context, add new if needed]'',
     [],
     js ''Keep each section concise. Preserve exact file paths, function names, and error messages.'']"

definition TURN_PREFIX_SUMMARIZATION_PROMPT :: jsstring where
  "TURN_PREFIX_SUMMARIZATION_PROMPT = join [NL] [
     js ''This is the PREFIX of a turn that was too large to keep. The SUFFIX (recent work) is retained.'',
     [],
     js ''Summarize the prefix to provide context for the retained suffix:'',
     [],
     js ''## Original Request'',
     js ''[What did the user ask for in this turn?]'',
     [],
     js ''## Early Progress'',
     js ''- [Key decisions and work done in the prefix]'',
     [],
     js ''## Context for Suffix'',
     js ''- [Information needed to understand the retained recent work]'',
     [],
     js ''Be concise. Focus on what's needed to understand the kept suffix.'']"

text \<open>A request for a summary: one message of the user with the text.\<close>

record summary_request =
  sq_systemPrompt :: jsstring
  sq_prompt :: jsstring
  sq_maxTokens :: int
  sq_reasoning :: "thinking_level option"

type_synonym 'w asker = "model \<Rightarrow> summary_request \<Rightarrow> 'w \<Rightarrow> assistant \<times> 'w"

record summary_result =
  sr_text :: jsstring
  sr_usage :: "usage option"

text \<open>The limit of the model counts only when it is positive.\<close>

definition tokenLimit :: "int \<Rightarrow> model \<Rightarrow> int" where
  "tokenLimit n mo = (if 0 < mo_maxTokens mo then min n (mo_maxTokens mo) else n)"

definition reasoningOption :: "model \<Rightarrow> thinking_level option \<Rightarrow> thinking_level option" where
  "reasoningOption mo level = (if mo_reasoning mo \<and> level \<noteq> Some ThinkOff then level else None)"

definition conversationTag :: "message list \<Rightarrow> jsstring" where
  "conversationTag messages =
     js ''<conversation>'' @ [NL] @ serializeConversation (convertToLlm messages) @ [NL] @ js ''</conversation>'' @ [NL, NL]"

definition readSummary :: "jsstring \<Rightarrow> jsstring \<Rightarrow> assistant \<Rightarrow> compaction_error + summary_result" where
  "readSummary aborted_text failed_text response =
     (if a_stopReason response = Aborted then
        Inl (CompactionError CompactionAborted
          (if truthy (a_errorMessage response) then the (a_errorMessage response) else aborted_text))
      else if a_stopReason response = StopError then
        Inl (CompactionError SummarizationFailed (failed_text @ js '': ''
          @ (if truthy (a_errorMessage response) then the (a_errorMessage response) else js ''Unknown error'')))
      else Inr \<lparr>sr_text = blocksText (a_content response) [NL], sr_usage = a_usage response\<rparr>)"

text \<open>\<open>Math.floor(0.8 * reserveTokens)\<close>: below \<open>2 ^ 49\<close> the product of the doubles rounds to the
  integer when it is one, and else stays between the same integers.\<close>

definition generateSummaryWithUsage ::
    "'w asker \<Rightarrow> message list \<Rightarrow> model \<Rightarrow> int \<Rightarrow> jsstring option \<Rightarrow> jsstring option \<Rightarrow> thinking_level option \<Rightarrow> 'w
      \<Rightarrow> (compaction_error + summary_result) \<times> 'w" where
  "generateSummaryWithUsage ask currentMessages mo reserveTokens customInstructions previousSummary level w =
     (let basePrompt = (if truthy previousSummary then UPDATE_SUMMARIZATION_PROMPT else SUMMARIZATION_PROMPT);
          basePrompt = (if truthy customInstructions
            then basePrompt @ [NL, NL] @ js ''Additional focus: '' @ the customInstructions else basePrompt);
          promptText = conversationTag currentMessages
            @ (if truthy previousSummary
               then js ''<previous-summary>'' @ [NL] @ the previousSummary @ [NL] @ js ''</previous-summary>'' @ [NL, NL] else [])
            @ basePrompt;
          (response, w) = ask mo \<lparr>sq_systemPrompt = SUMMARIZATION_SYSTEM_PROMPT, sq_prompt = promptText,
              sq_maxTokens = tokenLimit (4 * reserveTokens div 5) mo, sq_reasoning = reasoningOption mo level\<rparr> w
      in (readSummary (js ''Summarization aborted'') (js ''Summarization failed'') response, w))"

definition generateSummary ::
    "'w asker \<Rightarrow> message list \<Rightarrow> model \<Rightarrow> int \<Rightarrow> jsstring option \<Rightarrow> jsstring option \<Rightarrow> thinking_level option \<Rightarrow> 'w
      \<Rightarrow> (compaction_error + jsstring) \<times> 'w" where
  "generateSummary ask currentMessages mo reserveTokens customInstructions previousSummary level w =
     apfst (map_sum id sr_text)
       (generateSummaryWithUsage ask currentMessages mo reserveTokens customInstructions previousSummary level w)"

definition generateTurnPrefixSummary ::
    "'w asker \<Rightarrow> message list \<Rightarrow> model \<Rightarrow> int \<Rightarrow> thinking_level option \<Rightarrow> 'w
      \<Rightarrow> (compaction_error + summary_result) \<times> 'w" where
  "generateTurnPrefixSummary ask messages mo reserveTokens level w =
     (let (response, w) = ask mo \<lparr>sq_systemPrompt = SUMMARIZATION_SYSTEM_PROMPT,
              sq_prompt = conversationTag messages @ TURN_PREFIX_SUMMARIZATION_PROMPT,
              sq_maxTokens = tokenLimit (reserveTokens div 2) mo, sq_reasoning = reasoningOption mo level\<rparr> w
      in (readSummary (js ''Turn prefix summarization aborted'') (js ''Turn prefix summarization failed'') response, w))"

record compaction_result =
  cr_summary :: jsstring
  cr_firstKeptEntryId :: jsstring
  cr_tokensBefore :: int
  cr_usage :: "usage option"
  cr_retainedTail :: "message list"
  cr_readFiles :: "jsstring list"
  cr_modifiedFiles :: "jsstring list"

text \<open>The usage of both requests; to add to a usage, the second must be there.\<close>

definition totalUsage :: "usage option \<Rightarrow> usage option \<Rightarrow> compaction_error + usage option" where
  "totalUsage history prefix = (case history of
       None \<Rightarrow> Inr prefix
     | Some u \<Rightarrow> (case prefix of None \<Rightarrow> Inl UsageMissing | Some v \<Rightarrow> Inr (Some (combineUsage u v))))"

definition summarizeHistory ::
    "'w asker \<Rightarrow> preparation_data \<Rightarrow> model \<Rightarrow> jsstring option \<Rightarrow> thinking_level option \<Rightarrow> 'w
      \<Rightarrow> (compaction_error + summary_result) \<times> 'w" where
  "summarizeHistory ask p mo customInstructions level w =
     generateSummaryWithUsage ask (pr_messagesToSummarize p) mo (se_reserveTokens (pr_settings p))
       customInstructions (pr_previousSummary p) level w"

definition summarizeSplitTurn ::
    "'w asker \<Rightarrow> preparation_data \<Rightarrow> model \<Rightarrow> jsstring option \<Rightarrow> thinking_level option \<Rightarrow> 'w
      \<Rightarrow> (compaction_error + summary_result) \<times> 'w" where
  "summarizeSplitTurn ask p mo customInstructions level w =
     (let (history, w) = (if pr_messagesToSummarize p \<noteq> [] then summarizeHistory ask p mo customInstructions level w
            else (Inr \<lparr>sr_text = js ''No prior history.'', sr_usage = None\<rparr>, w))
      in case history of
           Inl e \<Rightarrow> (Inl e, w)
         | Inr h \<Rightarrow>
             (let (prefix, w) = generateTurnPrefixSummary ask (pr_turnPrefixMessages p) mo
                     (se_reserveTokens (pr_settings p)) level w
              in case prefix of
                   Inl e \<Rightarrow> (Inl e, w)
                 | Inr t \<Rightarrow> (case totalUsage (sr_usage h) (sr_usage t) of
                       Inl e \<Rightarrow> (Inl e, w)
                     | Inr u \<Rightarrow> (Inr \<lparr>sr_text = sr_text h @ [NL, NL] @ js ''---'' @ [NL, NL]
                             @ js ''**Turn Context (split turn):**'' @ [NL, NL] @ sr_text t, sr_usage = u\<rparr>, w))))"

definition compact ::
    "'w asker \<Rightarrow> preparation_data \<Rightarrow> model \<Rightarrow> jsstring option \<Rightarrow> thinking_level option \<Rightarrow> 'w
      \<Rightarrow> (compaction_error + compaction_result) \<times> 'w" where
  "compact ask p mo customInstructions level w =
     (if pr_firstKeptEntryId p = [] then (Inl (CompactionError CompactionInvalidSession NO_UUID), w)
      else
        let (summary, w) = (if pr_isSplitTurn p \<and> pr_turnPrefixMessages p \<noteq> []
              then summarizeSplitTurn ask p mo customInstructions level w
              else summarizeHistory ask p mo customInstructions level w)
        in case summary of
             Inl e \<Rightarrow> (Inl e, w)
           | Inr s \<Rightarrow>
               (let (readFiles, modifiedFiles) = computeFileLists (pr_fileOps p)
                in (Inr \<lparr>cr_summary = sr_text s @ formatFileOperations readFiles modifiedFiles,
                      cr_firstKeptEntryId = pr_firstKeptEntryId p, cr_tokensBefore = pr_tokensBefore p,
                      cr_usage = sr_usage s, cr_retainedTail = pr_retainedTail p,
                      cr_readFiles = readFiles, cr_modifiedFiles = modifiedFiles\<rparr>, w)))"

end
