(* ===== verification/ArrayReader.thy ===== *)
theory ArrayReader
  imports SessionContext JsNumber "HOL-Library.Finite_Map"
begin

text \<open>
  Reads of one stored session over the array of its entries
  (\<open>packages/agent/src/harness/session/array-session-reader.ts\<close>) and the selection of entries
  for a fork (\<open>fork.ts\<close>). The reader's index is shown to be a function of the entries, the
  traversals to follow the parent chain.
\<close>

section \<open>The reader\<close>

text \<open>
  The identity of the array the index was made from is a number: a store that replaces its
  array of entries gives the new one another identity.
\<close>

record array_reader =
  ar_indexedCount :: nat
  ar_indexedEntries :: "nat option"
  ar_leafId :: "jsstring option"
  ar_byId :: "(jsstring, entry) fmap"

definition new_reader :: array_reader where
  "new_reader = \<lparr>ar_indexedCount = 0, ar_indexedEntries = None, ar_leafId = None, ar_byId = fmempty\<rparr>"

definition indexEntry :: "entry \<Rightarrow> array_reader \<Rightarrow> array_reader" where
  "indexEntry e r = r\<lparr>ar_indexedCount := ar_indexedCount r + 1,
     ar_byId := fmupd (e_id e) e (ar_byId r), ar_leafId := leaf_after e\<rparr>"

definition updateIndex :: "nat \<Rightarrow> entry list \<Rightarrow> array_reader \<Rightarrow> array_reader" where
  "updateIndex array entries r =
     (let r = (if ar_indexedEntries r \<noteq> Some array \<or> length entries < ar_indexedCount r
               then r\<lparr>ar_indexedCount := 0, ar_leafId := None, ar_byId := fmempty, ar_indexedEntries := Some array\<rparr>
               else r)
      in fold indexEntry (drop (ar_indexedCount r) entries) r)"

type_synonym index = "(jsstring, entry) fmap"

definition readHead :: "array_reader \<Rightarrow> session_error + jsstring option" where
  "readHead r =
     (case ar_leafId r of
        None \<Rightarrow> Inr None
      | Some l \<Rightarrow> if fmlookup (ar_byId r) l = None then Inl InvalidSession else Inr (Some l))"

definition readEntry :: "jsstring \<Rightarrow> array_reader \<Rightarrow> entry option" where
  "readEntry i r = fmlookup (ar_byId r) i"

definition readEntries :: "nat option \<Rightarrow> nat option \<Rightarrow> entry list \<Rightarrow> entry list" where
  "readEntries afterEntrySeq limit entries =
     (let start = (case afterEntrySeq of None \<Rightarrow> 0 | Some n \<Rightarrow> n) in
      case limit of None \<Rightarrow> drop start entries | Some l \<Rightarrow> slice start (start + l) entries)"

section \<open>Branch queries\<close>

record branch_query =
  q_start :: "jsstring option"
  q_stopAtType :: "entry_type option"
  q_stopAtId :: "jsstring option"
  q_type :: "entry_type option"
  q_customType :: "jsstring option"
  q_oldestFirst :: bool
  q_limit :: "jsnumber option"

definition stops_at :: "branch_query \<Rightarrow> entry \<Rightarrow> bool" where
  "stops_at q e \<longleftrightarrow> q_stopAtId q = Some (e_id e) \<or> q_stopAtType q = Some (entry_type e)"

definition selects :: "branch_query \<Rightarrow> entry \<Rightarrow> bool" where
  "selects q e \<longleftrightarrow> (q_type q = None \<or> q_type q = Some (entry_type e))
     \<and> (q_customType q = None \<or> (case e_body e of CustomEntry t _ \<Rightarrow> q_customType q = Some t | _ \<Rightarrow> False))"

text \<open>The loop that collects the path, newest entry first; it looks the current entry up itself.\<close>

function branchWalk ::
    "index \<Rightarrow> branch_query \<Rightarrow> jsstring set \<Rightarrow> entry list \<Rightarrow> jsstring \<Rightarrow> session_error + entry list" where
  "branchWalk m q visited pathFromStart key =
     (case fmlookup m key of
        None \<Rightarrow> Inl InvalidSession
      | Some current \<Rightarrow>
          if e_id current \<in> visited then Inl InvalidSession
          else
            let path = pathFromStart @ [current] in
            if \<not> q_oldestFirst q \<and> stops_at q current then Inr path
            else if \<not> truthy (e_parentId current) then Inr path
            else if fmlookup m (the (e_parentId current)) = None then Inl InvalidSession
            else branchWalk m q (insert (e_id current) visited) path (the (e_parentId current)))"
  by pat_completeness auto

lemma walk_decreases:
  assumes "fmlookup m key = Some e" "e_id e \<notin> visited"
  shows "card (e_id ` fmran' m - insert (e_id e) visited) < card (e_id ` fmran' m - visited)"
proof (intro psubset_card_mono)
  have "finite (fmran' m)"
    by (simp add: fmran'_alt_def)
  then show "finite (e_id ` fmran' m - visited)"
    by simp
  have "e_id e \<in> e_id ` fmran' m"
    using assms(1) by (auto intro: fmran'I)
  then show "e_id ` fmran' m - insert (e_id e) visited \<subset> e_id ` fmran' m - visited"
    using assms(2) by blast
qed

termination branchWalk
  by (relation "measure (\<lambda>(m, q, visited, path, key). card (e_id ` fmran' m - visited))")
    (simp_all add: walk_decreases)

declare branchWalk.simps [simp del]

definition findEntriesOnBranch :: "branch_query \<Rightarrow> array_reader \<Rightarrow> session_error + entry list" where
  "findEntriesOnBranch q r =
     (if (case q_limit q of None \<Rightarrow> False | Some l \<Rightarrow> \<not> is_integer l \<or> int_of_num l \<le> 0) then Inl QueryRange
      else case q_start q of
        None \<Rightarrow> Inr []
      | Some start \<Rightarrow>
          if fmlookup (ar_byId r) start = None then Inl (NotFound start)
          else bindE (branchWalk (ar_byId r) q {} [] start) (\<lambda>pathFromStart.
            let traversal = (if q_oldestFirst q then rev pathFromStart else pathFromStart);
                stopIndex = (if q_oldestFirst q then findIndex (stops_at q) traversal else None);
                bounded = (case stopIndex of None \<Rightarrow> traversal | Some i \<Rightarrow> take (i + 1) traversal);
                entries = filter (selects q) bounded
            in Inr (case q_limit q of None \<Rightarrow> entries | Some l \<Rightarrow> take (nat (int_of_num l)) entries)))"

section \<open>The path to the root or to the last compaction\<close>

text \<open>\<open>None\<close> stands for a loop that does not end: this traversal does not look for cycles.\<close>

partial_function (option) pathLoop ::
    "index \<Rightarrow> jsstring option \<Rightarrow> entry list \<Rightarrow> entry \<Rightarrow> (session_error + entry list) option" where
  "pathLoop m stopAt path current =
     (let path = path @ [current] in
      if stopAt = Some (e_id current) then Some (Inr path)
      else case (case e_body current of
                   CompactionEntry k \<Rightarrow> (if k_retainedTail k \<noteq> None then None else Some (k_firstKeptEntryId k))
                 | _ \<Rightarrow> Some stopAt) of
        None \<Rightarrow> Some (Inr path)
      | Some stopAt \<Rightarrow>
          if \<not> truthy (e_parentId current) then Some (Inr path)
          else (case fmlookup m (the (e_parentId current)) of
              None \<Rightarrow> Some (Inl InvalidSession)
            | Some parent \<Rightarrow> pathLoop m stopAt path parent))"

definition readPathToRootOrCompaction :: "jsstring option \<Rightarrow> array_reader \<Rightarrow> (session_error + entry list) option" where
  "readPathToRootOrCompaction requestedLeafId r =
     (case requestedLeafId of
        None \<Rightarrow> Some (Inr [])
      | Some l \<Rightarrow>
          (case fmlookup (ar_byId r) l of
             None \<Rightarrow> Some (Inl (NotFound l))
           | Some current \<Rightarrow> map_option (\<lambda>x. bindE x (\<lambda>path. Inr (rev path))) (pathLoop (ar_byId r) None [] current)))"

section \<open>Forks\<close>

datatype fork_selection = ForkAll | BeforeUserMessage jsstring | ThroughEntry jsstring

definition createSessionForkSelection :: "jsstring option \<Rightarrow> bool \<Rightarrow> fork_selection" where
  "createSessionForkSelection entryId positionAt =
     (if \<not> truthy entryId then ForkAll
      else if positionAt then ThroughEntry (the entryId)
      else BeforeUserMessage (the entryId))"

definition readSessionEntriesForFork ::
    "fork_selection \<Rightarrow> entry list \<Rightarrow> array_reader \<Rightarrow> (session_error + entry list) option" where
  "readSessionEntriesForFork selection entries r =
     (case selection of
        ForkAll \<Rightarrow> Some (Inr (readEntries None None entries))
      | ThroughEntry i \<Rightarrow>
          (case readEntry i r of
             None \<Rightarrow> Some (Inl (InvalidForkTarget i))
           | Some target \<Rightarrow> readPathToRootOrCompaction (Some (e_id target)) r)
      | BeforeUserMessage i \<Rightarrow>
          (case readEntry i r of
             None \<Rightarrow> Some (Inl (InvalidForkTarget i))
           | Some target \<Rightarrow>
               (case e_body target of
                  MessageEntry (UserMessage _ _) \<Rightarrow> readPathToRootOrCompaction (e_parentId target) r
                | _ \<Rightarrow> Some (Inl (InvalidForkTarget i)))))"

section \<open>The index is a function of the entries\<close>

definition index_of :: "entry list \<Rightarrow> index" where
  "index_of es = fold (\<lambda>e. fmupd (e_id e) e) es fmempty"

definition leaf_of :: "entry list \<Rightarrow> jsstring option" where
  "leaf_of es = (if es = [] then None else leaf_after (last es))"

lemma index_of_simps [simp]:
  "index_of [] = fmempty" "index_of (es @ [e]) = fmupd (e_id e) e (index_of es)"
  by (simp_all add: index_of_def)

lemma leaf_of_simps [simp]: "leaf_of [] = None" "leaf_of (es @ [e]) = leaf_after e"
  by (simp_all add: leaf_of_def)

text \<open>What the reader knows about a prefix of the entries of the array it indexed.\<close>

definition indexed :: "nat \<Rightarrow> entry list \<Rightarrow> array_reader \<Rightarrow> bool" where
  "indexed array es r \<longleftrightarrow> (ar_indexedEntries r = Some array \<longrightarrow>
     ar_indexedCount r \<le> length es \<and> ar_byId r = index_of (take (ar_indexedCount r) es)
       \<and> ar_leafId r = leaf_of (take (ar_indexedCount r) es))"

definition reader_of :: "nat \<Rightarrow> entry list \<Rightarrow> array_reader" where
  "reader_of array es = \<lparr>ar_indexedCount = length es, ar_indexedEntries = Some array,
     ar_leafId = leaf_of es, ar_byId = index_of es\<rparr>"

lemma indexed_new [simp]: "indexed array es new_reader"
  by (simp add: indexed_def new_reader_def)

lemma indexed_reader_of [simp]: "indexed array (es @ es') (reader_of array es)"
  by (simp add: indexed_def reader_of_def)

lemma fold_indexEntry:
  assumes "ar_byId r = index_of es" "ar_leafId r = leaf_of es" "ar_indexedCount r = length es"
  shows "fold indexEntry es' r = r\<lparr>ar_indexedCount := length (es @ es'), ar_byId := index_of (es @ es'),
    ar_leafId := leaf_of (es @ es')\<rparr>"
  using assms
proof (induction es' arbitrary: es r)
  case Nil
  then show ?case by simp
next
  case (Cons e es')
  have "fold indexEntry es' (indexEntry e r) = (indexEntry e r)\<lparr>ar_indexedCount := length ((es @ [e]) @ es'),
      ar_byId := index_of ((es @ [e]) @ es'), ar_leafId := leaf_of ((es @ [e]) @ es')\<rparr>"
    using Cons.prems by (intro Cons.IH) (simp_all add: indexEntry_def)
  moreover have "(indexEntry e r)\<lparr>ar_indexedCount := length ((es @ [e]) @ es'),
      ar_byId := index_of ((es @ [e]) @ es'), ar_leafId := leaf_of ((es @ [e]) @ es')\<rparr>
      = r\<lparr>ar_indexedCount := length (es @ e # es'), ar_byId := index_of (es @ e # es'),
          ar_leafId := leaf_of (es @ e # es')\<rparr>"
    by (simp add: indexEntry_def)
  ultimately show ?case
    by simp
qed

lemma fold_indexEntry_reader:
  assumes "ar_byId r = index_of es" "ar_leafId r = leaf_of es" "ar_indexedCount r = length es"
    and "ar_indexedEntries r = Some array"
  shows "fold indexEntry es' r = reader_of array (es @ es')"
  unfolding fold_indexEntry [OF assms(1-3)] reader_of_def
  using assms(4) by (intro array_reader.equality) simp_all

lemma updateIndex_reader_of:
  assumes "indexed array es r"
  shows "updateIndex array es r = reader_of array es"
proof (cases "ar_indexedEntries r \<noteq> Some array \<or> length es < ar_indexedCount r")
  case True
  then show ?thesis
    using fold_indexEntry_reader [of _ "[]" array es] by (simp add: updateIndex_def)
next
  case False
  then have r: "ar_indexedEntries r = Some array" "ar_indexedCount r \<le> length es"
    by simp_all
  then have "ar_byId r = index_of (take (ar_indexedCount r) es)" "ar_leafId r = leaf_of (take (ar_indexedCount r) es)"
    using assms by (simp_all add: indexed_def)
  from fold_indexEntry_reader [OF this _ r(1), of "drop (ar_indexedCount r) es"] show ?thesis
    using False r(2) by (simp add: updateIndex_def)
qed

section \<open>Trees of entries\<close>

definition ids :: "entry list \<Rightarrow> jsstring set" where
  "ids es = e_id ` set es"

lemma ids_simps [simp]: "ids [] = {}" "ids (e # es) = insert (e_id e) (ids es)" "ids (xs @ ys) = ids xs \<union> ids ys"
  by (auto simp: ids_def)

text \<open>An entry that may follow entries with the identifiers \<open>seen\<close>.\<close>

definition entry_fits :: "jsstring set \<Rightarrow> entry \<Rightarrow> bool" where
  "entry_fits seen e \<longleftrightarrow> e_id e \<notin> seen \<and> e_id e \<noteq> []
     \<and> (case e_parentId e of None \<Rightarrow> True | Some p \<Rightarrow> p \<in> seen)
     \<and> (case e_body e of LeafEntry (Some t) \<Rightarrow> t \<in> seen | _ \<Rightarrow> True)"

fun tree_from :: "jsstring set \<Rightarrow> entry list \<Rightarrow> bool" where
  "tree_from seen [] = True"
| "tree_from seen (e # es) = (entry_fits seen e \<and> tree_from (insert (e_id e) seen) es)"

definition tree_ok :: "entry list \<Rightarrow> bool" where
  "tree_ok es \<longleftrightarrow> tree_from {} es"

lemma tree_from_append: "tree_from seen (xs @ ys) \<longleftrightarrow> tree_from seen xs \<and> tree_from (seen \<union> ids xs) ys"
  by (induction xs arbitrary: seen) (auto simp: Un_commute)

lemma tree_ok_snoc [simp]: "tree_ok (es @ [e]) \<longleftrightarrow> tree_ok es \<and> entry_fits (ids es) e"
  by (simp add: tree_ok_def tree_from_append)

lemma tree_ok_Nil [simp]: "tree_ok []"
  by (simp add: tree_ok_def)

lemma lookup_index:
  "tree_ok es \<Longrightarrow> fmlookup (index_of es) i = Some e \<longleftrightarrow> e \<in> set es \<and> e_id e = i"
  by (induction es arbitrary: e rule: rev_induct) (auto simp: entry_fits_def ids_def image_iff)

lemma lookup_index_None: "tree_ok es \<Longrightarrow> fmlookup (index_of es) i = None \<longleftrightarrow> i \<notin> ids es"
  by (induction es rule: rev_induct) (auto simp: entry_fits_def)

lemma tree_ok_leaf: "tree_ok es \<Longrightarrow> leaf_of es = Some l \<Longrightarrow> l \<in> ids es"
  by (cases es rule: rev_cases)
    (auto simp: leaf_after_def entry_fits_def split: entry_body.splits option.splits)

text \<open>The path from an entry to its root, newest entry first.\<close>

inductive is_path :: "index \<Rightarrow> entry \<Rightarrow> entry list \<Rightarrow> bool" for m where
  root: "\<not> truthy (e_parentId e) \<Longrightarrow> is_path m e [e]"
| step: "e_parentId e = Some p \<Longrightarrow> p \<noteq> [] \<Longrightarrow> fmlookup m p = Some q \<Longrightarrow> is_path m q path \<Longrightarrow> is_path m e (e # path)"

inductive_cases is_pathE: "is_path m e path"

lemma is_path_unique: "is_path m e p \<Longrightarrow> is_path m e p' \<Longrightarrow> p' = p"
proof (induction arbitrary: p' rule: is_path.induct)
  case (root e)
  from root.prems show ?case
    by cases (use root.hyps in simp_all)
next
  case (step e p q path)
  from step.prems show ?case
  proof cases
    case root
    then show ?thesis
      using step.hyps by simp
  next
    case (step p2 q2 path2)
    then have "q2 = q"
      using step.hyps \<open>e_parentId e = Some p\<close> \<open>fmlookup m p = Some q\<close> by simp
    then show ?thesis
      using step by (simp add: step.IH)
  qed
qed

lemma is_path_mono:
  "is_path m e p \<Longrightarrow> \<forall>k x. fmlookup m k = Some x \<longrightarrow> fmlookup m' k = Some x \<Longrightarrow> is_path m' e p"
  by (induction rule: is_path.induct) (auto intro: is_path.intros)

lemma lookup_append:
  assumes "tree_ok (es @ [e])"
  shows "\<forall>k x. fmlookup (index_of es) k = Some x \<longrightarrow> fmlookup (index_of (es @ [e])) k = Some x"
proof (intro allI impI)
  fix k x
  assume k: "fmlookup (index_of es) k = Some x"
  then have "k \<noteq> e_id e"
    using assms lookup_index_None [of es "e_id e"] by (auto simp: entry_fits_def)
  with k show "fmlookup (index_of (es @ [e])) k = Some x"
    by simp
qed

lemma is_path_append:
  "tree_ok (es @ [e]) \<Longrightarrow> is_path (index_of es) x p \<Longrightarrow> is_path (index_of (es @ [e])) x p"
  using is_path_mono lookup_append by blast

lemma path_exists:
  "tree_ok es \<Longrightarrow> e \<in> set es \<Longrightarrow> \<exists>p. is_path (index_of es) e p \<and> set p \<subseteq> set es \<and> distinct (map e_id p)"
proof (induction es arbitrary: e rule: rev_induct)
  case Nil
  then show ?case by simp
next
  case (snoc x es)
  show ?case
  proof (cases "e \<in> set es")
    case True
    then show ?thesis
      using snoc.IH [of e] snoc.prems is_path_append [of es x e] by auto
  next
    case False
    then have x: "e = x"
      using snoc.prems by simp
    show ?thesis
    proof (cases "e_parentId x")
      case None
      then show ?thesis
        by (intro exI [of _ "[x]"]) (auto simp: x intro: is_path.intros)
    next
      case (Some q)
      have fits: "entry_fits (ids es) x" "tree_ok es"
        using snoc.prems by simp_all
      then have "q \<in> ids es"
        using Some by (simp add: entry_fits_def)
      then obtain y where y: "y \<in> set es" "e_id y = q"
        by (auto simp: ids_def)
      obtain p where p: "is_path (index_of es) y p" "set p \<subseteq> set es" "distinct (map e_id p)"
        using snoc.IH [OF fits(2) y(1)] by blast
      have "y \<in> set (es @ [x])"
        using y by simp
      then have "fmlookup (index_of (es @ [x])) q = Some y"
        using lookup_index [OF snoc.prems(1)] y(2) by blast
      moreover have "q \<noteq> []"
        using fits(2) y by (induction es rule: rev_induct) (auto simp: entry_fits_def)
      ultimately have "is_path (index_of (es @ [x])) x (x # p)"
        using Some is_path_append [OF snoc.prems(1) p(1)] by (rule_tac is_path.step)
      moreover have "e_id x \<notin> e_id ` set p"
        using fits p(2) by (auto simp: entry_fits_def ids_def)
      ultimately show ?thesis
        using p x by (intro exI [of _ "x # p"]) auto
    qed
  qed
qed

section \<open>The traversals follow the path\<close>

text \<open>Where the path to the root is cut, newest entry first.\<close>

fun cut :: "jsstring option \<Rightarrow> entry list \<Rightarrow> entry list" where
  "cut stopAt [] = []"
| "cut stopAt (e # path) =
     (if stopAt = Some (e_id e) then [e]
      else case e_body e of
        CompactionEntry k \<Rightarrow> if k_retainedTail k \<noteq> None then [e] else e # cut (k_firstKeptEntryId k) path
      | _ \<Rightarrow> e # cut stopAt path)"

lemma pathLoop_cut: "is_path m e p \<Longrightarrow> pathLoop m stopAt acc e = Some (Inr (acc @ cut stopAt p))"
proof (induction arbitrary: stopAt acc rule: is_path.induct)
  case (root e)
  then show ?case
    by (subst pathLoop.simps) (simp split: entry_body.split)
next
  case (step e p q path)
  then show ?case
    by (subst pathLoop.simps) (simp split: entry_body.split)
qed

fun takeUntil :: "('a \<Rightarrow> bool) \<Rightarrow> 'a list \<Rightarrow> 'a list" where
  "takeUntil P [] = []"
| "takeUntil P (x # xs) = x # (if P x then [] else takeUntil P xs)"

lemma takeUntil_False [simp]: "takeUntil (\<lambda>_. False) xs = xs"
  by (induction xs) simp_all

lemma takeUntil_findIndex: "takeUntil P xs = (case findIndex P xs of None \<Rightarrow> xs | Some i \<Rightarrow> take (i + 1) xs)"
  by (induction xs) (auto split: option.splits)

text \<open>Every key of the index is the identifier of its entry.\<close>

definition keyed :: "index \<Rightarrow> bool" where
  "keyed m \<longleftrightarrow> (\<forall>k e. fmlookup m k = Some e \<longrightarrow> e_id e = k)"

lemma keyed_index_of [simp]: "keyed (index_of es)"
  by (induction es rule: rev_induct) (auto simp: keyed_def)

definition stop_when :: "branch_query \<Rightarrow> entry \<Rightarrow> bool" where
  "stop_when q e \<longleftrightarrow> \<not> q_oldestFirst q \<and> stops_at q e"

lemma branchWalk_path:
  "is_path m e p \<Longrightarrow> keyed m \<Longrightarrow> fmlookup m key = Some e \<Longrightarrow> distinct (map e_id p) \<Longrightarrow>
   visited \<inter> e_id ` set p = {} \<Longrightarrow>
   branchWalk m q visited acc key = Inr (acc @ takeUntil (stop_when q) p)"
proof (induction arbitrary: visited acc key rule: is_path.induct)
  case (root e)
  then show ?case
    by (subst branchWalk.simps) (simp add: stop_when_def)
next
  case (step e p q' path)
  have "e_id q' = p"
    using step.prems(1) step.hyps(3) by (simp add: keyed_def)
  then have "branchWalk m q (insert (e_id e) visited) (acc @ [e]) p = Inr ((acc @ [e]) @ takeUntil (stop_when q) path)"
    using step.prems step.hyps by (intro step.IH) auto
  then show ?case
    using step.prems step.hyps by (subst branchWalk.simps) (auto simp: stop_when_def Let_def)
qed

text \<open>What a branch query returns, in terms of the path.\<close>

definition query_spec :: "branch_query \<Rightarrow> entry list \<Rightarrow> entry list" where
  "query_spec q path =
     (let entries = filter (selects q) (takeUntil (stops_at q) (if q_oldestFirst q then rev path else path))
      in case q_limit q of None \<Rightarrow> entries | Some l \<Rightarrow> take (nat (int_of_num l)) entries)"

lemma findEntriesOnBranch_path:
  assumes "tree_ok es" "e \<in> set es" "is_path (index_of es) e p" "distinct (map e_id p)"
    and "q_start q = Some (e_id e)" "\<And>l. q_limit q = Some l \<Longrightarrow> is_integer l \<and> 0 < int_of_num l"
  shows "findEntriesOnBranch q (reader_of array es) = Inr (query_spec q p)"
proof -
  have l: "fmlookup (index_of es) (e_id e) = Some e"
    using lookup_index [OF assms(1)] assms(2) by blast
  have "stop_when q = (if q_oldestFirst q then (\<lambda>_. False) else stops_at q)"
    by (auto simp: stop_when_def)
  then have "branchWalk (index_of es) q {} [] (e_id e) = Inr (if q_oldestFirst q then p else takeUntil (stops_at q) p)"
    using branchWalk_path [OF assms(3) _ l assms(4), of "{}" q "[]"] by simp
  moreover have "\<not> (case q_limit q of None \<Rightarrow> False | Some l \<Rightarrow> \<not> is_integer l \<or> int_of_num l \<le> 0)"
    using assms(6) by (auto split: option.split)
  ultimately show ?thesis
    using l assms(5)
    by (cases "q_limit q"; simp add: findEntriesOnBranch_def reader_of_def query_spec_def Let_def
        takeUntil_findIndex [of "stops_at q" "rev p"])
qed

lemma readPath_path:
  assumes "tree_ok es" "e \<in> set es" "is_path (index_of es) e p"
  shows "readPathToRootOrCompaction (Some (e_id e)) (reader_of array es) = Some (Inr (rev (cut None p)))"
proof -
  have "fmlookup (index_of es) (e_id e) = Some e"
    using lookup_index [OF assms(1)] assms(2) by blast
  then show ?thesis
    using pathLoop_cut [OF assms(3)] by (simp add: readPathToRootOrCompaction_def reader_of_def)
qed

section \<open>Cutting the path does not change the context\<close>

lemma cut_no_compaction: "\<forall>e\<in>set path. \<not> is_compaction e \<Longrightarrow> cut None path = path"
  by (induction path) (auto split: entry_body.split)

lemma cut_prefix: "\<forall>e\<in>set xs. \<not> is_compaction e \<Longrightarrow> cut None (xs @ ys) = xs @ cut None ys"
  by (induction xs) (auto split: entry_body.split)

text \<open>The entries from the first kept one on, read from the newest side.\<close>

lemma cut_stop:
  assumes "\<forall>e\<in>set (dropWhile (\<lambda>e. e_id e \<noteq> f) pre). \<not> is_compaction e" "distinct (map e_id pre)" "f \<in> e_id ` set pre"
  shows "cut (Some f) (rev pre) = rev (dropWhile (\<lambda>e. e_id e \<noteq> f) pre)"
proof -
  have *: "cut (Some f) (xs @ x # ys) = xs @ [x]"
    if "\<forall>e\<in>set xs. e_id e \<noteq> f \<and> \<not> is_compaction e" "e_id x = f" for xs x ys
    using that by (induction xs) (auto split: entry_body.split)
  define post where "post = dropWhile (\<lambda>e. e_id e \<noteq> f) pre"
  have pre: "pre = takeWhile (\<lambda>e. e_id e \<noteq> f) pre @ post"
    by (simp add: post_def)
  have "post \<noteq> []"
    using assms(3) by (auto simp: post_def dropWhile_eq_Nil_conv)
  then obtain x zs where x: "post = x # zs" "e_id x = f"
    using hd_dropWhile [of "\<lambda>e. e_id e \<noteq> f" pre] by (cases post) (auto simp: post_def)
  have "distinct (map e_id post)"
    using assms(2) by (subst (asm) pre) (simp only: map_append distinct_append)
  then have "\<forall>e\<in>set (rev zs). e_id e \<noteq> f \<and> \<not> is_compaction e"
    using assms(1) x unfolding post_def [symmetric] by (auto simp: image_iff)
  from * [OF this x(2)] show ?thesis
    unfolding post_def [symmetric] by (subst pre) (simp add: x)
qed

lemma kept_cut:
  assumes "\<forall>e\<in>set (kept k pre). \<not> is_compaction e" "distinct (map e_id pre)" "k_retainedTail k = None"
  shows "kept k (rev (cut (k_firstKeptEntryId k) (rev pre))) = kept k pre"
proof (cases "truthy (k_firstKeptEntryId k)")
  case False
  then show ?thesis by (simp add: kept_def)
next
  case True
  then obtain f where f: "k_firstKeptEntryId k = Some f" "f \<noteq> []"
    by (auto simp: truthy_def split: option.splits)
  show ?thesis
  proof (cases "f \<in> e_id ` set pre")
    case True
    then have "cut (Some f) (rev pre) = rev (dropWhile (\<lambda>e. e_id e \<noteq> f) pre)"
      using assms f by (intro cut_stop) (simp_all add: kept_def)
    then show ?thesis
      using f assms(3) by (simp add: kept_def)
  next
    case False
    have "set (cut s xs) \<subseteq> set xs" for s xs
      by (induction s xs rule: cut.induct) (auto split: entry_body.splits)
    then have "f \<notin> e_id ` set (rev (cut (Some f) (rev pre)))"
      using False by fastforce
    moreover have *: "dropWhile (\<lambda>e. e_id e \<noteq> f) xs = []" if "f \<notin> e_id ` set xs" for xs :: "entry list"
      using that by (auto simp: dropWhile_eq_Nil_conv image_iff)
    ultimately show ?thesis
      using f * [OF False] by (simp only: kept_def f option.sel * if_True if_False simp_thms split: if_split)
  qed
qed

text \<open>
  The condition under which the cut is harmless: the entries a compaction keeps contain no older
  compaction (otherwise the older one replaces the position at which the walk stops).
\<close>

definition compactions_nest :: "entry list \<Rightarrow> bool" where
  "compactions_nest path \<longleftrightarrow> (\<forall>pre c k post. path = pre @ c # post \<longrightarrow> e_body c = CompactionEntry k \<longrightarrow>
     (\<forall>e\<in>set post. \<not> is_compaction e) \<longrightarrow> (\<forall>e\<in>set (kept k pre). \<not> is_compaction e))"

lemma transform_cut:
  assumes "distinct (map e_id path)" "compactions_nest path"
  shows "defaultContextEntryTransform (rev (cut None (rev path))) = defaultContextEntryTransform path"
proof (cases "\<exists>e\<in>set path. is_compaction e")
  case False
  then show ?thesis
    by (simp add: cut_no_compaction)
next
  case True
  then obtain pre c post where p: "path = pre @ c # post" "is_compaction c" "\<forall>e\<in>set post. \<not> is_compaction e"
    using split_list_last_prop [of path is_compaction] by blast
  obtain k where k: "e_body c = CompactionEntry k"
    using p(2) by (auto simp: is_compaction_def entry_type_iff)
  have pre: "\<forall>e\<in>set pre. e_id e \<noteq> e_id c" "distinct (map e_id pre)"
    using assms(1) by (auto simp: p(1) image_iff)
  have nest: "\<forall>e\<in>set (kept k pre). \<not> is_compaction e"
    using assms(2) p k by (auto simp: compactions_nest_def)
  have t: "defaultContextEntryTransform path = c # kept k pre @ post"
    unfolding p(1) using k p(3) pre(1) by (rule transform_compaction)
  show ?thesis
  proof (cases "k_retainedTail k = None")
    case False
    then have "rev (cut None (rev path)) = [] @ c # post"
      using p(3) k by (simp add: p(1) cut_prefix)
    then have "defaultContextEntryTransform (rev (cut None (rev path))) = c # kept k [] @ post"
      using transform_compaction [OF k p(3), of "[]"] by simp
    then show ?thesis
      using False t by (simp add: kept_def)
  next
    case True
    define pre' where "pre' = rev (cut (k_firstKeptEntryId k) (rev pre))"
    have "set (cut s xs) \<subseteq> set xs" for s xs
      by (induction s xs rule: cut.induct) (auto split: entry_body.splits)
    then have "\<forall>e\<in>set pre'. e_id e \<noteq> e_id c"
      using pre(1) by (fastforce simp: pre'_def)
    moreover have "rev (cut None (rev path)) = pre' @ c # post"
      using True p(3) k by (simp add: p(1) cut_prefix pre'_def)
    ultimately have "defaultContextEntryTransform (rev (cut None (rev path))) = c # kept k pre' @ post"
      using transform_compaction [OF k p(3), of pre'] by simp
    moreover have "kept k pre' = kept k pre"
      unfolding pre'_def using nest pre(2) True by (rule kept_cut)
    ultimately show ?thesis
      using t by simp
  qed
qed

section \<open>A parent cycle\<close>

lemma pathLoop_self_loop:
  assumes e: "fmlookup m (e_id e) = Some e" "e_parentId e = Some (e_id e)" "e_id e \<noteq> []"
    and plain: "\<not> is_compaction e"
  shows "pathLoop m None acc e = None"
proof -
  have b: "(case e_body e of CompactionEntry k \<Rightarrow> (if k_retainedTail k \<noteq> None then None else Some (k_firstKeptEntryId k))
      | _ \<Rightarrow> Some x) = Some x" for x
    using plain by (cases "e_body e") auto
  have none: "\<not> (m' = m \<and> s = None \<and> c = e)" if "pathLoop m' s p c = Some y" for m' s p y and c :: entry
  proof (rule pathLoop.raw_induct [where P = "\<lambda>m' s p c y. \<not> (m' = m \<and> s = None \<and> c = e)", OF _ that])
    fix f m' s p y and c :: entry
    assume IH: "\<And>m' s p c y. f m' s p c = Some y \<Longrightarrow> \<not> (m' = m \<and> s = None \<and> c = e)"
      and body: "(let path = p @ [c] in
        if s = Some (e_id c) then Some (Inr path)
        else case (case e_body c of
                     CompactionEntry k \<Rightarrow> (if k_retainedTail k \<noteq> None then None else Some (k_firstKeptEntryId k))
                   | _ \<Rightarrow> Some s) of
          None \<Rightarrow> Some (Inr path)
        | Some s \<Rightarrow>
            if \<not> truthy (e_parentId c) then Some (Inr path)
            else (case fmlookup m' (the (e_parentId c)) of
                None \<Rightarrow> Some (Inl InvalidSession)
              | Some parent \<Rightarrow> f m' s path parent)) = Some y"
    show "\<not> (m' = m \<and> s = None \<and> c = e)"
    proof
      assume "m' = m \<and> s = None \<and> c = e"
      with body have "f m None (p @ [e]) e = Some y"
        using e by (simp only: Let_def b) simp
      from IH [OF this] show False by simp
    qed
  qed
  show ?thesis
    using none [of m None acc e] by (cases "pathLoop m None acc e") auto
qed

section \<open>Properties of the session reader\<close>

definition sample_entry :: "string \<Rightarrow> string option \<Rightarrow> entry_body \<Rightarrow> entry" where
  "sample_entry i p b = \<lparr>e_id = js i, e_parentId = map_option js p,
     e_timestamp = js ''2024-02-29T12:30:45.678Z'', e_body = b\<rparr>"

definition user_says :: "string \<Rightarrow> entry_body" where
  "user_says s = MessageEntry (UserMessage (TextContent (js s)) 0)"

definition sample_compaction :: compaction where
  "sample_compaction = \<lparr>k_summary = js ''sum'', k_firstKeptEntryId = Some (js ''b''), k_tokensBefore = 9,
     k_retainedTail = None, k_details = None, k_usage = None, k_fromHook = None\<rparr>"

definition sample_session :: "entry list" where
  "sample_session =
     [sample_entry ''a'' None (user_says ''one''), sample_entry ''b'' (Some ''a'') (user_says ''two''),
      sample_entry ''c'' (Some ''b'') (CompactionEntry sample_compaction),
      sample_entry ''d'' (Some ''c'') (user_says ''three''), sample_entry ''x'' (Some ''a'') (user_says ''side'')]"

definition sample_branch :: "entry list" where
  "sample_branch = take 4 sample_session"

lemmas sample_session_eval = sample_session_def sample_entry_def user_says_def sample_compaction_def

lemma sample_tree_ok: "tree_ok sample_session"
  by (simp add: sample_session_eval tree_ok_def entry_fits_def cu_def)

lemma sample_branch_path: "is_path (index_of sample_session) (sample_session ! 3) (rev sample_branch)"
  apply (simp add: sample_branch_def sample_session_eval index_of_def cu_def numeral_eq_Suc)
  apply (rule is_path.step, simp, simp, simp)+
  apply (rule is_path.root, simp)
  done

lemma sample_branch_nests: "compactions_nest sample_branch"
  unfolding compactions_nest_def
proof (intro allI impI)
  fix pre c k post
  assume p: "sample_branch = pre @ c # post" and c: "e_body c = CompactionEntry k"
  have "pre = take 2 sample_branch \<and> k = sample_compaction"
    using p c
    by (auto simp: sample_branch_def sample_session_eval append_eq_Cons_conv Cons_eq_append_conv numeral_eq_Suc)
  then show "\<forall>e\<in>set (kept k pre). \<not> is_compaction e"
    by (simp add: sample_branch_def sample_session_eval kept_def is_compaction_def entry_type_def cu_def numeral_eq_Suc)
qed

text \<open>
  C13. The incremental index is exact: however the reads of a session interleave with appends to its
  array, the reader answers as if it had just indexed all the entries, and on a well-formed session
  \<open>readEntry\<close> finds exactly the stored entries and \<open>readHead\<close> returns the stored head.
\<close>

theorem reader_incremental:
  assumes "indexed array es r" "tree_ok (es @ es')"
  shows "updateIndex array (es @ es') (updateIndex array es r) = reader_of array (es @ es')
    \<and> (readEntry i (reader_of array (es @ es')) = Some e \<longleftrightarrow> e \<in> set (es @ es') \<and> e_id e = i)
    \<and> readHead (reader_of array (es @ es')) = Inr (leaf_of (es @ es'))"
proof -
  have "updateIndex array (es @ es') (updateIndex array es r) = reader_of array (es @ es')"
    using updateIndex_reader_of [OF assms(1)] by (simp add: updateIndex_reader_of)
  moreover have "readHead (reader_of array (es @ es')) = Inr (leaf_of (es @ es'))"
    using tree_ok_leaf [OF assms(2)] lookup_index_None [OF assms(2)]
    by (auto simp: readHead_def reader_of_def split: option.split)
  ultimately show ?thesis
    using lookup_index [OF assms(2)] by (simp add: readEntry_def reader_of_def)
qed

theorem reader_incremental_witness:
  "updateIndex 1 sample_session (updateIndex 1 sample_branch new_reader) = reader_of 1 sample_session
    \<and> readHead (reader_of 1 sample_session) = Inr (Some (js ''x''))"
proof -
  have s: "sample_session = sample_branch @ [sample_session ! 4]"
    by (simp add: sample_branch_def sample_session_def)
  have "leaf_of sample_session = Some (js ''x'')"
    by (simp add: leaf_of_def sample_session_eval leaf_after_def)
  then show ?thesis
    using reader_incremental [of 1 sample_branch new_reader "[sample_session ! 4]"] sample_tree_ok
    unfolding s [symmetric] by simp
qed



text \<open>
  A branch query with a positive limit returns, on a well-formed session, the entries of the parent
  chain in the requested order, up to and including the first stop entry, filtered by the requested types
  and cut to the limit.
\<close>

theorem branch_query_result:
  assumes "tree_ok es" "e \<in> set es" "q_start q = Some (e_id e)"
    and "\<And>l. q_limit q = Some l \<Longrightarrow> is_integer l \<and> 0 < int_of_num l"
  shows "\<exists>p. is_path (index_of es) e p \<and> findEntriesOnBranch q (reader_of array es) = Inr (query_spec q p)"
  using path_exists [OF assms(1,2)] findEntriesOnBranch_path [OF assms(1,2)] assms(3,4) by blast

theorem branch_query_result_witness:
  "\<exists>p. is_path (index_of sample_session) (sample_session ! 3) p
    \<and> findEntriesOnBranch \<lparr>q_start = Some (js ''d''), q_stopAtType = Some TCompaction, q_stopAtId = None, q_type = None,
         q_customType = None, q_oldestFirst = False, q_limit = None\<rparr> (reader_of 1 sample_session)
      = Inr (query_spec \<lparr>q_start = Some (js ''d''), q_stopAtType = Some TCompaction, q_stopAtId = None, q_type = None,
         q_customType = None, q_oldestFirst = False, q_limit = None\<rparr> p)"
  by (rule branch_query_result [OF sample_tree_ok])
    (simp_all add: sample_session_def sample_entry_def)



text \<open>
  The context of a compacted branch: the summary of its last compaction, the messages retained with
  it, the messages of the entries it keeps (those from its first kept entry on, none when a tail was
  retained), and the messages of the entries after it, in order.
\<close>

theorem compacted_context_messages:
  assumes "e_body c = CompactionEntry k" "\<forall>e\<in>set post. \<not> is_compaction e" "\<forall>e\<in>set pre. e_id e \<noteq> e_id c"
  shows "x_messages (buildSessionContext (pre @ c # post) no_options) =
      createCompactionSummaryMessage (k_summary k) (k_tokensBefore k) (e_timestamp c)
      # (case k_retainedTail k of None \<Rightarrow> [] | Some tail \<Rightarrow> tail)
      @ concat (map (\<lambda>e. sessionEntryToContextMessages e 0 [] no_options) (kept k pre @ post))"
  using transform_compaction [OF assms] assms(1)
  by (simp add: buildSessionContext_def buildContextEntries_def no_options_def contextMessages_no_projectors
      session_context.fields_def context_state.extend_def sessionEntryToContextMessages_def)

theorem compacted_context_messages_witness:
  "x_messages (buildSessionContext sample_branch no_options) =
     [CompactionSummary (js ''sum'') 9 (Some 1709209845678), UserMessage (TextContent (js ''two'')) 0,
      UserMessage (TextContent (js ''three'')) 0]"
proof -
  define c where "c = sample_session ! 2"
  have b: "sample_branch = take 2 sample_session @ c # [sample_session ! 3]"
    by (simp add: sample_branch_def sample_session_def c_def numeral_eq_Suc)
  have "date_ms (e_timestamp c) = Some 1709209845678"
    using date_ms_example by (simp add: c_def sample_session_def sample_entry_def)
  then show ?thesis
    unfolding b
    by (subst compacted_context_messages [of _ sample_compaction])
      (simp_all add: c_def sample_session_eval is_compaction_def entry_type_def createCompactionSummaryMessage_def
        kept_def sessionEntryToContextMessages_def cu_def numeral_eq_Suc)
qed

end
