(* ===== verification/CompactionProps.thy ===== *)
theory CompactionProps
  imports Compaction ArrayReader
begin

text \<open>
  Properties of a compaction: the parts it is prepared from cover the branch from the boundary on, the
  part that is retained stays near the budget, and what a second compaction leaves out.
\<close>

section \<open>Messages and tokens of a range of entries\<close>

abbreviation messagesOf :: "entry list \<Rightarrow> message list" where
  "messagesOf es \<equiv> List.map_filter getMessageFromEntryForCompaction es"

lemma upt_split: "a \<le> b \<Longrightarrow> b \<le> c \<Longrightarrow> [a..<c] = [a..<b] @ [b..<c]"
  by (metis le_Suc_ex upt_add_eq_append)

lemma messagesBetween_append:
  "a \<le> b \<Longrightarrow> b \<le> c \<Longrightarrow> messagesBetween es a c = messagesBetween es a b @ messagesBetween es b c"
  by (simp add: messagesBetween_def upt_split [of a b c] List.map_filter_def)

lemma messagesBetween_drop: "messagesBetween es a (length es) = messagesOf (drop a es)"
proof -
  have "drop a es = map (\<lambda>i. es ! i) [a..<length es]"
    by (rule nth_equalityI) simp_all
  then show ?thesis
    by (simp add: messagesBetween_def List.map_filter_def filter_map comp_def)
qed

definition messageTokens :: "entry \<Rightarrow> int" where
  "messageTokens e = (case e_body e of MessageEntry m \<Rightarrow> estimateTokens m | _ \<Rightarrow> 0)"

definition tokensBetween :: "entry list \<Rightarrow> nat \<Rightarrow> nat \<Rightarrow> int" where
  "tokensBetween es a b = sum_list (map (\<lambda>i. messageTokens (es ! i)) [a..<b])"

lemma messageTokens_nonneg: "0 \<le> messageTokens e"
  by (simp add: messageTokens_def estimateTokens_def quarter_def split: entry_body.split)

lemma tokensBetween_append: "a \<le> b \<Longrightarrow> b \<le> c \<Longrightarrow> tokensBetween es a c = tokensBetween es a b + tokensBetween es b c"
  by (simp add: tokensBetween_def upt_split [of a b c])

lemma tokensBetween_nonneg: "0 \<le> tokensBetween es a b"
  unfolding tokensBetween_def by (intro sum_list_nonneg) (auto simp: messageTokens_nonneg)

lemma tokensBetween_later: "a \<le> b \<Longrightarrow> tokensBetween es b c \<le> tokensBetween es a c"
proof (cases "b \<le> c")
  case True
  assume "a \<le> b"
  with True tokensBetween_nonneg [of es a b] show ?thesis by (simp add: tokensBetween_append [of a b c])
next
  case False
  then show ?thesis using tokensBetween_nonneg [of es a c] by (simp add: tokensBetween_def)
qed

lemma tokensBetween_Suc: "a \<le> n \<Longrightarrow> tokensBetween es a (Suc n) = tokensBetween es a n + messageTokens (es ! n)"
  by (simp add: tokensBetween_def)

section \<open>The cut point\<close>

lemma findTurnStart_range:
  "findTurnStartIndex es n st = Some t \<Longrightarrow> st \<le> t \<and> t \<le> n \<and> starts_turn (es ! t)"
proof (induction es n st rule: findTurnStartIndex.induct)
  case (1 es n st)
  then show ?case
    by (subst (asm) (2) findTurnStartIndex.simps) (fastforce split: if_splits nat.splits)
qed

lemma includePreceding_range:
  "st \<le> n \<Longrightarrow> includePreceding es st n \<le> n \<and> st \<le> includePreceding es st n
    \<and> (\<forall>j. includePreceding es st n \<le> j \<and> j < n \<longrightarrow> entry_type (es ! j) \<noteq> TCompaction \<and> entry_type (es ! j) \<noteq> TMessage)"
proof (induction n)
  case (Suc n)
  show ?case
  proof (cases "Suc n > st \<and> entry_type (es ! n) \<noteq> TCompaction \<and> entry_type (es ! n) \<noteq> TMessage")
    case True
    with Suc show ?thesis by (auto simp: less_Suc_eq)
  next
    case False
    have "includePreceding es st (Suc n) = Suc n"
      by (subst includePreceding.simps) (use False in \<open>simp only: if_False\<close>)
    with Suc.prems show ?thesis by (simp only:) auto
  qed
qed simp

lemma budgetIndex_Some:
  assumes "budgetIndex es st keep acc n = Some i" "acc < keep"
  shows "st \<le> i \<and> i < n \<and> entry_type (es ! i) = TMessage \<and> acc + tokensBetween es (Suc i) n < keep
    \<and> keep \<le> acc + tokensBetween es i n"
  using assms
proof (induction n arbitrary: acc)
  case (Suc n)
  then have st: "st \<le> n" by (auto split: if_splits)
  show ?case
  proof (cases "\<exists>m. e_body (es ! n) = MessageEntry m \<and> keep \<le> acc + estimateTokens m")
    case True
    with Suc.prems st have "i = n" by (auto split: if_splits)
    with True Suc.prems st show ?thesis
      by (auto simp: tokensBetween_def messageTokens_def entry_type_def)
  next
    case False
    have "budgetIndex es st keep (acc + messageTokens (es ! n)) n = Some i" "acc + messageTokens (es ! n) < keep"
      using Suc.prems False st by (auto simp: messageTokens_def Let_def split: entry_body.splits if_splits)
    from Suc.IH [OF this] show ?thesis
      by (auto simp: tokensBetween_Suc algebra_simps)
  qed
qed simp

lemma budgetIndex_None:
  assumes "budgetIndex es st keep acc n = None" "acc < keep" "st \<le> n"
  shows "acc + tokensBetween es st n < keep"
  using assms
proof (induction n arbitrary: acc)
  case 0
  then show ?case by (simp add: tokensBetween_def)
next
  case (Suc n)
  show ?case
  proof (cases "Suc n = st")
    case True
    with Suc.prems show ?thesis by (simp add: tokensBetween_def)
  next
    case False
    with Suc.prems(3) have st: "st \<le> n" by simp
    have "budgetIndex es st keep (acc + messageTokens (es ! n)) n = None" "acc + messageTokens (es ! n) < keep"
      using Suc.prems st by (auto simp: messageTokens_def Let_def split: entry_body.splits if_splits)
    from Suc.IH [OF this st] st show ?thesis
      by (simp add: tokensBetween_Suc algebra_simps)
  qed
qed

text \<open>The cut falls on a valid cut point, with the settings before it, and what it keeps after that
  entry is below the budget, unless the messages past the last cut point fill it.\<close>

lemma findCutPoint_spec:
  assumes "findCutPoint es st en keep = c" "st \<le> en"
  shows "st \<le> cp_firstKeptEntryIndex c
    \<and> (cp_isSplitTurn c \<longrightarrow> (\<exists>t. cp_turnStartIndex c = Some t \<and> st \<le> t \<and> t \<le> cp_firstKeptEntryIndex c \<and> starts_turn (es ! t)))
    \<and> (findValidCutPoints es st en = [] \<longrightarrow> cp_firstKeptEntryIndex c = st)
    \<and> (findValidCutPoints es st en \<noteq> [] \<longrightarrow> (\<exists>k \<in> set (findValidCutPoints es st en). cp_firstKeptEntryIndex c \<le> k
        \<and> (\<forall>j. cp_firstKeptEntryIndex c \<le> j \<and> j < k \<longrightarrow> entry_type (es ! j) \<noteq> TCompaction \<and> entry_type (es ! j) \<noteq> TMessage)
        \<and> (0 < keep \<longrightarrow> tokensBetween es (Suc k) en < keep
            \<or> (\<exists>i. \<forall>j \<in> set (findValidCutPoints es st en). j < i \<and> st \<le> i \<and> i < en \<and> keep \<le> tokensBetween es i en))))"
proof (cases "findValidCutPoints es st en")
  case Nil
  with assms show ?thesis by (auto simp: findCutPoint_def)
next
  case (Cons a as)
  define k where "k = (case budgetIndex es st keep 0 en of None \<Rightarrow> a
      | Some i \<Rightarrow> (case List.find (\<lambda>k. k \<ge> i) (a # as) of None \<Rightarrow> a | Some k \<Rightarrow> k))"
  define f where "f = includePreceding es st k"
  have k: "k \<in> set (a # as)"
    by (auto simp: k_def find_Some_iff dest: nth_mem split: option.split)
  then have "st \<le> k" unfolding Cons [symmetric] by (simp add: findValidCutPoints_def)
  from includePreceding_range [OF this, of es] have f: "f \<le> k" "st \<le> f"
      "\<And>j. f \<le> j \<Longrightarrow> j < k \<Longrightarrow> entry_type (es ! j) \<noteq> TCompaction \<and> entry_type (es ! j) \<noteq> TMessage"
    by (auto simp: f_def)
  have c: "cp_firstKeptEntryIndex c = f" "cp_turnStartIndex c = (if is_user_entry (es ! f) then None else findTurnStartIndex es f st)"
      "cp_isSplitTurn c \<longleftrightarrow> \<not> is_user_entry (es ! f) \<and> cp_turnStartIndex c \<noteq> None"
    using assms(1) Cons by (auto simp: findCutPoint_def k_def f_def Let_def)
  have budget: "tokensBetween es (Suc k) en < keep
      \<or> (\<exists>i. \<forall>j \<in> set (a # as). j < i \<and> st \<le> i \<and> i < en \<and> keep \<le> tokensBetween es i en)" if "0 < keep"
  proof (cases "budgetIndex es st keep 0 en")
    case None
    from budgetIndex_None [OF None that assms(2)] have "tokensBetween es st en < keep" by simp
    with tokensBetween_later [of st "Suc k" es en] \<open>st \<le> k\<close> show ?thesis by simp
  next
    case (Some i)
    note b = budgetIndex_Some [OF Some that]
    show ?thesis
    proof (cases "List.find (\<lambda>k. k \<ge> i) (a # as)")
      case None
      then have "\<forall>j \<in> set (a # as). j < i" unfolding find_None_iff by (metis not_less)
      with b show ?thesis by auto
    next
      case find: (Some k')
      then have "i \<le> k" using Some by (auto simp: k_def find_Some_iff split: if_splits)
      with tokensBetween_later [of "Suc i" "Suc k" es en] b show ?thesis by simp
    qed
  qed
  have split: "\<exists>t. cp_turnStartIndex c = Some t \<and> st \<le> t \<and> t \<le> cp_firstKeptEntryIndex c \<and> starts_turn (es ! t)"
    if "cp_isSplitTurn c"
    using that c findTurnStart_range [of es f st] by (auto split: if_splits)
  show ?thesis
    using k f c split budget unfolding Cons by blast
qed

section \<open>What is prepared\<close>

lemma lastIndexBefore_Some: "lastIndexBefore es n = Some p \<Longrightarrow> p < n \<and> entry_type (es ! p) = TCompaction"
  by (induction n) (auto split: if_splits)

lemma boundary_start:
  assumes "boundaryOf es (lastIndexBefore es (length es)) = (st, s)" "es \<noteq> []" "entry_type (last es) \<noteq> TCompaction"
  shows "st < length es"
proof (cases "lastIndexBefore es (length es)")
  case None
  with assms show ?thesis by (auto simp: boundaryOf_def)
next
  case (Some p)
  from lastIndexBefore_Some [OF this] have p: "p < length es" "entry_type (es ! p) = TCompaction" by simp_all
  then obtain k where k: "e_body (es ! p) = CompactionEntry k" by (auto simp: entry_type_iff)
  have "p \<noteq> length es - 1" using p(2) assms(2,3) by (auto simp: last_conv_nth)
  with p(1) have "p + 1 < length es" by simp
  with assms(1) Some k show ?thesis
    by (auto simp: boundaryOf_def dest: findIndex_Some split: option.splits if_splits)
qed

lemma cut_point_message: "is_cut_point e \<Longrightarrow> \<exists>m. getMessageFromEntryForCompaction e = Some m \<and> role_of m \<noteq> RToolResult"
  by (auto simp: is_cut_point_def getMessageFromEntryForCompaction_def getMessageFromEntry_def entry_type_def
      createCustomMessage_def createBranchSummaryMessage_def split: entry_body.splits)

lemma setting_message:
  "entry_type e \<noteq> TMessage \<Longrightarrow> getMessageFromEntryForCompaction e = Some m \<Longrightarrow> role_of m \<noteq> RToolResult"
  by (auto simp: getMessageFromEntryForCompaction_def getMessageFromEntry_def entry_type_def
      createCustomMessage_def createBranchSummaryMessage_def split: entry_body.splits if_splits)

text \<open>Settings, then an entry where a cut is valid: the first message is no tool result.\<close>

lemma first_message:
  assumes "a \<le> k" "k < length es" "is_cut_point (es ! k)" "\<And>j. a \<le> j \<Longrightarrow> j < k \<Longrightarrow> entry_type (es ! j) \<noteq> TMessage"
  shows "\<exists>m ms. messagesBetween es a (length es) = m # ms \<and> role_of m \<noteq> RToolResult"
  using assms
proof (induction "k - a" arbitrary: a)
  case 0
  then have "a = k" by simp
  with 0 cut_point_message [of "es ! k"] show ?case
    by (auto simp: messagesBetween_def upt_conv_Cons List.map_filter_def)
next
  case (Suc n)
  then have "a < k" by simp
  with Suc obtain m ms where "messagesBetween es (Suc a) (length es) = m # ms" "role_of m \<noteq> RToolResult"
    by (metis Suc_leI diff_Suc_Suc Suc_diff_le Suc_leD diff_Suc_1 less_or_eq_imp_le)
  moreover have "[a..<length es] = a # [Suc a..<length es]"
    using \<open>a < k\<close> Suc.prems(2) by (simp add: upt_conv_Cons)
  ultimately show ?case
    using setting_message [of "es ! a"] Suc.prems(4) [of a] \<open>a < k\<close>
    by (cases "getMessageFromEntryForCompaction (es ! a)") (auto simp: messagesBetween_def List.map_filter_def)
qed

lemma prepareCompaction_spec:
  assumes "prepareCompaction es settings = Inr (Some p)"
    and "boundaryOf es (lastIndexBefore es (length es)) = (st, previous)"
    and "findCutPoint es st (length es) (se_keepRecentTokens settings) = c"
  shows "es \<noteq> [] \<and> st < length es \<and> cp_firstKeptEntryIndex c < length es
    \<and> pr_previousSummary p = previous \<and> pr_firstKeptEntryId p = e_id (es ! cp_firstKeptEntryIndex c)
    \<and> pr_isSplitTurn p = cp_isSplitTurn c
    \<and> pr_messagesToSummarize p = messagesBetween es st (if cp_isSplitTurn c then the (cp_turnStartIndex c) else cp_firstKeptEntryIndex c)
    \<and> pr_turnPrefixMessages p = (if cp_isSplitTurn c then messagesBetween es (the (cp_turnStartIndex c)) (cp_firstKeptEntryIndex c) else [])
    \<and> pr_retainedTail p = messagesBetween es (cp_firstKeptEntryIndex c) (length es)"
proof -
  have ne: "es \<noteq> []" "entry_type (last es) \<noteq> TCompaction"
    using assms(1) by (auto simp: prepareCompaction_def split: if_splits)
  have k: "cp_firstKeptEntryIndex c < length es" "e_id (es ! cp_firstKeptEntryIndex c) \<noteq> []"
    using assms ne by (auto simp: prepareCompaction_def Let_def split: if_splits)
  from assms(1) ne k show ?thesis
    using boundary_start [OF assms(2) ne] unfolding prepareCompaction_def
    by (simp add: assms(2,3) Let_def cong: if_cong) auto
qed

lemma parts_cover:
  assumes "prepareCompaction es settings = Inr (Some p)"
    and "boundaryOf es (lastIndexBefore es (length es)) = (st, previous)"
  shows "messagesOf (drop st es) = pr_messagesToSummarize p @ pr_turnPrefixMessages p @ pr_retainedTail p"
proof -
  define c where "c = findCutPoint es st (length es) (se_keepRecentTokens settings)"
  define k where "k = cp_firstKeptEntryIndex c"
  note spec = prepareCompaction_spec [OF assms c_def [symmetric]]
  then have st: "st \<le> length es" "k < length es" by (simp_all add: k_def)
  note cut = findCutPoint_spec [OF c_def [symmetric] st(1)]
  show ?thesis
  proof (cases "cp_isSplitTurn c")
    case True
    with cut obtain t where "cp_turnStartIndex c = Some t" "st \<le> t" "t \<le> k" by (auto simp: k_def)
    with spec True st show ?thesis
      using messagesBetween_append [of st t "length es" es] messagesBetween_append [of t k "length es" es]
      by (simp add: k_def messagesBetween_drop)
  next
    case False
    with spec cut st messagesBetween_append [of st k "length es" es] show ?thesis
      by (simp add: k_def messagesBetween_drop)
  qed
qed

section \<open>A small branch\<close>

definition demo_says :: "code_unit \<Rightarrow> message \<Rightarrow> entry" where
  "demo_says i m = \<lparr>e_id = [i], e_parentId = None, e_timestamp = [], e_body = MessageEntry m\<rparr>"

definition demo_reply :: "block list \<Rightarrow> message" where
  "demo_reply bs = AssistantMessage \<lparr>a_content = bs, a_provider = [], a_model = [], a_usage = None, a_stopReason = Stop,
     a_errorMessage = None, a_timestamp = 0\<rparr>"

definition demo_user :: "jsstring \<Rightarrow> message" where
  "demo_user t = UserMessage (TextContent t) 0"

text \<open>Two turns; the second one is long and is split by the cut.\<close>

definition demo_branch :: "entry list" where
  "demo_branch = [demo_says 1 (demo_user [1]), demo_says 2 (demo_reply [TextBlock [2]]), demo_says 3 (demo_user [3]),
     demo_says 4 (demo_reply [TextBlock [4, 4, 4, 4]]), demo_says 5 (demo_reply [TextBlock [5, 5, 5, 5, 5]])]"

definition demo_settings :: compaction_settings where
  "demo_settings = \<lparr>se_enabled = True, se_reserveTokens = 10, se_keepRecentTokens = 2\<rparr>"

definition demo_compaction :: compaction where
  "demo_compaction = \<lparr>k_summary = [7], k_firstKeptEntryId = Some [9], k_tokensBefore = 9,
     k_retainedTail = Some [demo_user [8]], k_details = None, k_usage = None, k_fromHook = None\<rparr>"

definition demo_compacted :: entry where
  "demo_compacted = \<lparr>e_id = [6], e_parentId = None, e_timestamp = [], e_body = CompactionEntry demo_compaction\<rparr>"

section \<open>The properties\<close>

text \<open>
What a compaction is prepared from: from the boundary of the previous compaction on, the messages of
  the branch are those to summarize, then those of a turn that is split, then those retained, with
  nothing lost, repeated or moved; the retained ones are those from the entry named as first kept on; a
  split turn begins where a turn starts; and when a cut is possible at all, something is retained and it
  does not begin with a tool result torn from its call.
\<close>

theorem prepare_partition:
  assumes "prepareCompaction entries settings = Inr (Some p)"
  shows "\<exists>start k. boundaryOf entries (lastIndexBefore entries (length entries)) = (start, pr_previousSummary p)
    \<and> start \<le> k \<and> k < length entries \<and> pr_firstKeptEntryId p = e_id (entries ! k)
    \<and> messagesOf (drop start entries) = pr_messagesToSummarize p @ pr_turnPrefixMessages p @ pr_retainedTail p
    \<and> pr_retainedTail p = messagesOf (drop k entries)
    \<and> (pr_isSplitTurn p \<longrightarrow> (\<exists>t. start \<le> t \<and> t \<le> k \<and> starts_turn (entries ! t)
          \<and> pr_turnPrefixMessages p = messagesBetween entries t k))
    \<and> (list_ex is_cut_point (drop start entries) \<longrightarrow>
          pr_retainedTail p \<noteq> [] \<and> role_of (hd (pr_retainedTail p)) \<noteq> RToolResult)"
proof -
  obtain st previous where b: "boundaryOf entries (lastIndexBefore entries (length entries)) = (st, previous)" by fastforce
  define c where "c = findCutPoint entries st (length entries) (se_keepRecentTokens settings)"
  define k where "k = cp_firstKeptEntryIndex c"
  note spec = prepareCompaction_spec [OF assms b c_def [symmetric]]
  then have st: "st \<le> length entries" "k < length entries" by (simp_all add: k_def)
  note cut = findCutPoint_spec [OF c_def [symmetric] st(1)]
  have "messagesOf (drop st entries) = pr_messagesToSummarize p @ pr_turnPrefixMessages p @ pr_retainedTail p"
    by (rule parts_cover [OF assms b])
  moreover have "pr_retainedTail p \<noteq> [] \<and> role_of (hd (pr_retainedTail p)) \<noteq> RToolResult"
    if "list_ex is_cut_point (drop st entries)"
  proof -
    from that obtain i where "i < length (drop st entries)" "is_cut_point (drop st entries ! i)"
      by (auto simp: list_ex_length)
    then have "st + i < length entries" "is_cut_point (entries ! (st + i))" by simp_all
    then have "findValidCutPoints entries st (length entries) \<noteq> []"
      by (auto simp: findValidCutPoints_def filter_empty_conv intro: bexI [of _ "st + i"])
    with cut obtain j where j: "j \<in> set (findValidCutPoints entries st (length entries))" "k \<le> j"
        "\<And>i. k \<le> i \<Longrightarrow> i < j \<Longrightarrow> entry_type (entries ! i) \<noteq> TMessage" by (auto simp: k_def)
    with first_message [of k j entries] spec show ?thesis by (auto simp: findValidCutPoints_def k_def)
  qed
  moreover have "\<exists>t. st \<le> t \<and> t \<le> k \<and> starts_turn (entries ! t) \<and> pr_turnPrefixMessages p = messagesBetween entries t k"
    if "pr_isSplitTurn p"
  proof -
    have "cp_isSplitTurn c" using that spec by simp
    with cut obtain t where "cp_turnStartIndex c = Some t" "st \<le> t" "t \<le> k" "starts_turn (entries ! t)"
      by (auto simp: k_def)
    with spec \<open>cp_isSplitTurn c\<close> show ?thesis by (intro exI [of _ t]) (simp add: k_def)
  qed
  moreover have "st \<le> k" using cut by (simp add: k_def)
  moreover have "pr_retainedTail p = messagesOf (drop k entries)" using spec by (simp add: k_def messagesBetween_drop)
  moreover have "pr_firstKeptEntryId p = e_id (entries ! k)" "pr_previousSummary p = previous" using spec by (simp_all add: k_def)
  ultimately show ?thesis
    using b st by (intro exI [of _ st] exI [of _ k] conjI) simp_all
qed

theorem prepare_partition_witness:
  "\<exists>p. prepareCompaction demo_branch demo_settings = Inr (Some p)
    \<and> pr_messagesToSummarize p @ pr_turnPrefixMessages p @ pr_retainedTail p = messagesOf demo_branch
    \<and> pr_isSplitTurn p \<and> pr_turnPrefixMessages p = [demo_user [3], demo_reply [TextBlock [4, 4, 4, 4]]]"
proof -
  let ?r = "prepareCompaction demo_branch demo_settings"
  have "map_sum id (map_option (\<lambda>p. (pr_isSplitTurn p, pr_turnPrefixMessages p))) ?r
      = Inr (Some (True, [demo_user [3], demo_reply [TextBlock [4, 4, 4, 4]]]))" by code_simp
  then obtain p where p: "?r = Inr (Some p)" "pr_isSplitTurn p"
      "pr_turnPrefixMessages p = [demo_user [3], demo_reply [TextBlock [4, 4, 4, 4]]]"
    by (cases ?r) auto
  have "boundaryOf demo_branch (lastIndexBefore demo_branch (length demo_branch)) = (0, None)" by code_simp
  with prepare_partition [OF p(1)] p show ?thesis by auto
qed



text \<open>
  C9. A branch whose last compaction retained a tail is read from that compaction on, and its context shows
  the summary, the tail and the messages after it. A further compaction of that branch is prepared
  from the messages after it alone, with the previous summary to update: the messages of the tail are
  neither summarized nor retained, and no request mentions them.
\<close>

theorem second_compaction_drops_tail:
  assumes "e_body c = CompactionEntry k" and "k_retainedTail k = Some tail"
    and "list_all (\<lambda>e. \<not> is_compaction e) post"
    and "list_all (\<lambda>e. Some (e_id e) \<noteq> k_firstKeptEntryId k) (c # post)"
    and "prepareCompaction (c # post) settings = Inr (Some p)"
  shows "x_messages (buildSessionContext (c # post) no_options) =
      createCompactionSummaryMessage (k_summary k) (k_tokensBefore k) (e_timestamp c) # tail
        @ concat (map (\<lambda>e. sessionEntryToContextMessages e 0 [] no_options) post)
    \<and> pr_messagesToSummarize p @ pr_turnPrefixMessages p @ pr_retainedTail p = messagesOf post
    \<and> pr_previousSummary p = Some (k_summary k)"
proof -
  have none: "\<forall>e\<in>set post. \<not> is_compaction e" using assms(3) by (simp add: list_all_iff)
  have entries: "defaultContextEntryTransform ([] @ c # post) = c # kept k [] @ post"
    by (rule transform_compaction [OF assms(1) none]) simp
  have found: "n \<le> length post \<Longrightarrow> lastIndexBefore (c # post) (Suc n) = Some 0" for n
  proof (induction n)
    case 0
    then show ?case using assms(1) by (simp add: entry_type_def)
  next
    case (Suc n)
    then have "\<not> is_compaction (post ! n)" using none by simp
    with Suc show ?case by (simp add: is_compaction_def)
  qed
  have "findIndex (\<lambda>e. e_id e = the (k_firstKeptEntryId k)) (c # post) = None" if "truthy (k_firstKeptEntryId k)"
    using assms(4) that unfolding findIndex_None by (cases "k_firstKeptEntryId k") (auto simp: list_all_iff)
  then have b: "boundaryOf (c # post) (lastIndexBefore (c # post) (length (c # post))) = (1, Some (k_summary k))"
    using found [of "length post"] assms(1) by (auto simp: boundaryOf_def simp del: findIndex.simps split: option.split)
  have "messagesOf post = pr_messagesToSummarize p @ pr_turnPrefixMessages p @ pr_retainedTail p"
    using parts_cover [OF assms(5) b] by simp
  moreover have "x_messages (buildSessionContext (c # post) no_options) =
      createCompactionSummaryMessage (k_summary k) (k_tokensBefore k) (e_timestamp c) # tail
        @ concat (map (\<lambda>e. sessionEntryToContextMessages e 0 [] no_options) post)"
    using entries assms(1,2)
    by (simp add: buildSessionContext_def buildContextEntries_def no_options_def contextMessages_no_projectors
        session_context.fields_def context_state.extend_def sessionEntryToContextMessages_def kept_def)
  ultimately show ?thesis using prepareCompaction_spec [OF assms(5) b refl] by simp
qed

theorem second_compaction_drops_tail_witness:
  "\<exists>p. prepareCompaction (demo_compacted # demo_branch) (demo_settings\<lparr>se_keepRecentTokens := 1\<rparr>) = Inr (Some p)
    \<and> demo_user [8] \<in> set (x_messages (buildSessionContext (demo_compacted # demo_branch) no_options))
    \<and> demo_user [8] \<notin> set (pr_messagesToSummarize p @ pr_turnPrefixMessages p @ pr_retainedTail p)"
proof -
  let ?es = "demo_compacted # demo_branch"
  let ?r = "prepareCompaction ?es (demo_settings\<lparr>se_keepRecentTokens := 1\<rparr>)"
  have "map_sum id (map_option (\<lambda>p. ())) ?r = Inr (Some ())" by code_simp
  then obtain p where p: "?r = Inr (Some p)" by (cases ?r) auto
  have body: "e_body demo_compacted = CompactionEntry demo_compaction"
    and tail: "k_retainedTail demo_compaction = Some [demo_user [8]]"
    by (simp_all add: demo_compacted_def demo_compaction_def)
  have none: "list_all (\<lambda>e. \<not> is_compaction e) demo_branch"
    by (simp add: demo_branch_def demo_says_def is_compaction_def entry_type_def)
  have ids: "list_all (\<lambda>e. Some (e_id e) \<noteq> k_firstKeptEntryId demo_compaction) ?es"
    by (simp add: demo_branch_def demo_says_def demo_compacted_def demo_compaction_def)
  note result = second_compaction_drops_tail [OF body tail none ids p]
  have "demo_user [8] \<notin> set (messagesOf demo_branch)" by code_simp
  then have "demo_user [8] \<notin> set (pr_messagesToSummarize p @ pr_turnPrefixMessages p @ pr_retainedTail p)"
    using result by (simp only:) simp
  moreover have "demo_user [8] \<in> set (x_messages (buildSessionContext ?es no_options))"
    by (simp only: conjunct1 [OF result]) simp
  ultimately show ?thesis using p by blast
qed

end
