(* ===== verification/StoreSession.thy ===== *)
theory StoreSession
  imports ArrayReader
begin

text \<open>
  The session of the harness (\<open>class StoreSession\<close> of
  \<open>packages/agent/src/harness/session/session.ts\<close>), over the operations of a store and its
  reader. What it needs of them is the locale \<open>session_store\<close>; under it, every sequence of
  calls keeps the session's tree well formed and its head the head of the stored entries.
\<close>

section \<open>The interface to a store\<close>

text \<open>
  \<open>SessionStore.appendEntry\<close> for the session's metadata and the methods of its
  \<open>SessionReader\<close>; each returns the store after the call.
\<close>

record 's session_ops =
  so_appendEntry :: "entry \<Rightarrow> 's \<Rightarrow> (session_error + unit) \<times> 's"
  so_readHead :: "'s \<Rightarrow> (session_error + jsstring option) \<times> 's"
  so_readEntry :: "jsstring \<Rightarrow> 's \<Rightarrow> (session_error + entry option) \<times> 's"
  so_readEntries :: "nat option \<Rightarrow> nat option \<Rightarrow> 's \<Rightarrow> (session_error + entry list) \<times> 's"
  so_findEntriesOnBranch :: "branch_query \<Rightarrow> 's \<Rightarrow> (session_error + entry list) \<times> 's"
  so_readPath :: "jsstring option \<Rightarrow> 's \<Rightarrow> ((session_error + entry list) \<times> 's) option"

section \<open>The session\<close>

text \<open>\<open>ss_uuids\<close> counts the identifiers drawn from \<open>uuidv7\<close>, a function of the draw here.\<close>

record 's session =
  ss_store :: 's
  ss_leafId :: "jsstring option"
  ss_hydratedState :: "hydrated option"
  ss_uuids :: nat

type_synonym ('s, 'a) call = "'s session \<Rightarrow> (session_error + 'a) \<times> 's session"

text \<open>A read of the store, and sequencing.\<close>

definition on_store :: "('s \<Rightarrow> (session_error + 'a) \<times> 's) \<Rightarrow> ('s, 'a) call" where
  "on_store f ss = (case f (ss_store ss) of (r, s) \<Rightarrow> (r, ss\<lparr>ss_store := s\<rparr>))"

definition andThen :: "('s, 'a) call \<Rightarrow> ('a \<Rightarrow> ('s, 'b) call) \<Rightarrow> ('s, 'b) call" where
  "andThen m f ss = (case m ss of (Inl e, ss) \<Rightarrow> (Inl e, ss) | (Inr x, ss) \<Rightarrow> f x ss)"

definition createSessionFromReader :: "'s session_ops \<Rightarrow> 's \<Rightarrow> session_error + 's session" where
  "createSessionFromReader ops s =
     (case so_readHead ops s of
        (Inl e, s) \<Rightarrow> Inl e
      | (Inr leafId, s) \<Rightarrow> Inr \<lparr>ss_store = s, ss_leafId = leafId, ss_hydratedState = None, ss_uuids = 0\<rparr>)"

definition session_getEntry :: "'s session_ops \<Rightarrow> jsstring \<Rightarrow> ('s, entry option) call" where
  "session_getEntry ops i = on_store (so_readEntry ops i)"

definition session_getEntries :: "'s session_ops \<Rightarrow> nat option \<Rightarrow> nat option \<Rightarrow> ('s, entry list) call" where
  "session_getEntries ops afterEntrySeq limit = on_store (so_readEntries ops afterEntrySeq limit)"

text \<open>\<open>fromId\<close> is \<open>None\<close> where it is undefined, \<open>Some None\<close> where it is null.\<close>

definition session_getBranch ::
    "'s session_ops \<Rightarrow> jsstring option option \<Rightarrow> 's session \<Rightarrow> ((session_error + entry list) \<times> 's session) option" where
  "session_getBranch ops fromId ss =
     map_option (\<lambda>(r, s). (r, ss\<lparr>ss_store := s\<rparr>))
       (so_readPath ops (case fromId of None \<Rightarrow> ss_leafId ss | Some i \<Rightarrow> i) (ss_store ss))"

definition session_findEntriesOnBranch ::
    "'s session_ops \<Rightarrow> jsstring option option \<Rightarrow> branch_query \<Rightarrow> ('s, entry list) call" where
  "session_findEntriesOnBranch ops start q ss =
     on_store (so_findEntriesOnBranch ops (q\<lparr>q_start := (case start of None \<Rightarrow> ss_leafId ss | Some i \<Rightarrow> i)\<rparr>)) ss"

definition session_findEntryOnBranch ::
    "'s session_ops \<Rightarrow> jsstring option option \<Rightarrow> branch_query \<Rightarrow> ('s, entry option) call" where
  "session_findEntryOnBranch ops start q =
     andThen (session_findEntriesOnBranch ops start (q\<lparr>q_limit := Some (num_of_int 1)\<rparr>)) (\<lambda>entries ss.
     (Inr (case entries of [] \<Rightarrow> None | e # _ \<Rightarrow> Some e), ss))"

definition mergeContextBuildOptions :: "context_options \<Rightarrow> context_options \<Rightarrow> context_options" where
  "mergeContextBuildOptions base options =
     \<lparr>o_entryTransforms = o_entryTransforms base @ o_entryTransforms options,
      o_entryProjectors = o_entryProjectors base ++ o_entryProjectors options\<rparr>"

definition session_buildContextEntries ::
    "'s session_ops \<Rightarrow> context_options \<Rightarrow> context_options \<Rightarrow> 's session \<Rightarrow>
     ((session_error + entry list) \<times> 's session) option" where
  "session_buildContextEntries ops base options ss =
     map_option (\<lambda>(r, ss). (bindE r (\<lambda>es. Inr (buildContextEntries es (mergeContextBuildOptions base options))), ss))
       (session_getBranch ops None ss)"

definition session_buildContext ::
    "'s session_ops \<Rightarrow> context_options \<Rightarrow> context_options \<Rightarrow> 's session \<Rightarrow>
     ((session_error + session_context) \<times> 's session) option" where
  "session_buildContext ops base options ss =
     map_option (\<lambda>(r, ss). (bindE r (\<lambda>es. Inr (buildSessionContext es (mergeContextBuildOptions base options))), ss))
       (session_getBranch ops None ss)"

definition getHydratedState :: "'s session_ops \<Rightarrow> ('s, hydrated) call" where
  "getHydratedState ops ss =
     (case ss_hydratedState ss of
        Some h \<Rightarrow> (Inr h, ss)
      | None \<Rightarrow> andThen (on_store (so_readEntries ops None None)) (\<lambda>entries ss.
          (Inr (hydrate entries), ss\<lparr>ss_hydratedState := Some (hydrate entries)\<rparr>)) ss)"

definition session_getLabel :: "'s session_ops \<Rightarrow> jsstring \<Rightarrow> ('s, jsstring option) call" where
  "session_getLabel ops i = andThen (getHydratedState ops) (\<lambda>h ss. (Inr (hydrated_getLabel h i), ss))"

definition session_getSessionStats :: "'s session_ops \<Rightarrow> ('s, session_stats) call" where
  "session_getSessionStats ops = andThen (getHydratedState ops) (\<lambda>h ss. (Inr (hydrated_getSessionStats h), ss))"

definition session_getSessionName :: "'s session_ops \<Rightarrow> ('s, jsstring option) call" where
  "session_getSessionName ops = andThen (getHydratedState ops) (\<lambda>h ss. (Inr (hydrated_getSessionName h), ss))"

section \<open>Appending\<close>

text \<open>\<open>uuidv7().slice(-8)\<close>.\<close>

definition short_id :: "jsstring \<Rightarrow> jsstring" where
  "short_id u = drop (length u - 8) u"

text \<open>Identifiers have at least the eight characters the short form takes.\<close>

definition uuid_ok :: "(nat \<Rightarrow> jsstring) \<Rightarrow> bool" where
  "uuid_ok uuid \<longleftrightarrow> (\<forall>k. 8 \<le> length (uuid k))"

fun tryEntryIds :: "'s session_ops \<Rightarrow> (nat \<Rightarrow> jsstring) \<Rightarrow> nat \<Rightarrow> ('s, jsstring) call" where
  "tryEntryIds ops uuid 0 ss = (Inr (uuid (ss_uuids ss)), ss\<lparr>ss_uuids := Suc (ss_uuids ss)\<rparr>)"
| "tryEntryIds ops uuid (Suc n) ss =
     (let i = short_id (uuid (ss_uuids ss)); ss = ss\<lparr>ss_uuids := Suc (ss_uuids ss)\<rparr> in
      andThen (session_getEntry ops i) (\<lambda>existing ss.
        if existing = None then (Inr i, ss) else tryEntryIds ops uuid n ss) ss)"

definition createEntryId :: "'s session_ops \<Rightarrow> (nat \<Rightarrow> jsstring) \<Rightarrow> ('s, jsstring) call" where
  "createEntryId ops uuid = tryEntryIds ops uuid 100"

text \<open>One operation of the append chain; \<open>timestamp\<close> is the time it runs at.\<close>

definition enqueueAppend ::
    "'s session_ops \<Rightarrow> (nat \<Rightarrow> jsstring) \<Rightarrow> jsstring \<Rightarrow> entry_body \<Rightarrow> ('s, entry) call" where
  "enqueueAppend ops uuid timestamp body =
     andThen (createEntryId ops uuid) (\<lambda>i ss.
     let e = \<lparr>e_id = i, e_parentId = ss_leafId ss, e_timestamp = timestamp, e_body = body\<rparr> in
     andThen (on_store (so_appendEntry ops e)) (\<lambda>_ ss.
       (Inr e, ss\<lparr>ss_leafId := leaf_after e, ss_hydratedState := None\<rparr>)) ss)"

definition appendTypedEntry ::
    "'s session_ops \<Rightarrow> (nat \<Rightarrow> jsstring) \<Rightarrow> jsstring \<Rightarrow> entry_body \<Rightarrow> ('s, jsstring) call" where
  "appendTypedEntry ops uuid timestamp body =
     andThen (enqueueAppend ops uuid timestamp body) (\<lambda>e ss. (Inr (e_id e), ss))"

definition requireEntry :: "'s session_ops \<Rightarrow> jsstring \<Rightarrow> ('s, unit) call" where
  "requireEntry ops i =
     andThen (session_getEntry ops i) (\<lambda>existing ss.
       if existing = None then (Inl (NotFound i), ss) else (Inr (), ss))"

definition setLeafId ::
    "'s session_ops \<Rightarrow> (nat \<Rightarrow> jsstring) \<Rightarrow> jsstring \<Rightarrow> jsstring option \<Rightarrow> ('s, entry) call" where
  "setLeafId ops uuid timestamp leafId =
     andThen (case leafId of None \<Rightarrow> (\<lambda>ss. (Inr (), ss)) | Some l \<Rightarrow> requireEntry ops l) (\<lambda>_.
     enqueueAppend ops uuid timestamp (LeafEntry leafId))"

definition appendMessage where
  "appendMessage ops uuid t m = appendTypedEntry ops uuid t (MessageEntry m)"

definition appendThinkingLevelChange where
  "appendThinkingLevelChange ops uuid t level = appendTypedEntry ops uuid t (ThinkingLevelChange level)"

definition appendModelChange where
  "appendModelChange ops uuid t provider modelId = appendTypedEntry ops uuid t (ModelChange provider modelId)"

definition appendActiveToolsChange where
  "appendActiveToolsChange ops uuid t names = appendTypedEntry ops uuid t (ActiveToolsChange names)"

definition appendCompaction where
  "appendCompaction ops uuid t k = appendTypedEntry ops uuid t (CompactionEntry k)"

definition appendCustomEntry where
  "appendCustomEntry ops uuid t customType data = appendTypedEntry ops uuid t (CustomEntry customType data)"

definition appendCustomMessageEntry where
  "appendCustomMessageEntry ops uuid t customType c display details =
     appendTypedEntry ops uuid t (CustomMessageEntry customType c display details)"

definition appendLabel where
  "appendLabel ops uuid t targetId label =
     andThen (requireEntry ops targetId) (\<lambda>_. appendTypedEntry ops uuid t (LabelEntry targetId label))"

text \<open>\<open>name.replace(/[\\r\\n]+/g, " ").trim()\<close>.\<close>

fun replaceLineBreaks :: "bool \<Rightarrow> jsstring \<Rightarrow> jsstring" where
  "replaceLineBreaks inRun [] = []"
| "replaceLineBreaks inRun (c # s) =
     (if c = CR \<or> c = NL then (if inRun then replaceLineBreaks True s else 0x20 # replaceLineBreaks True s)
      else c # replaceLineBreaks False s)"

definition appendSessionName where
  "appendSessionName ops uuid t name =
     appendTypedEntry ops uuid t (SessionInfo (Some (trim (replaceLineBreaks False name))))"

text \<open>\<open>fromId\<close> of the summary is \<open>entryId ?? "root"\<close>.\<close>

definition moveTo ::
    "'s session_ops \<Rightarrow> (nat \<Rightarrow> jsstring) \<Rightarrow> jsstring \<Rightarrow> jsstring \<Rightarrow> jsstring option \<Rightarrow>
     branch_summary option \<Rightarrow> ('s, jsstring option) call" where
  "moveTo ops uuid t t' entryId summary =
     andThen (case entryId of None \<Rightarrow> (\<lambda>ss. (Inr (), ss)) | Some i \<Rightarrow> requireEntry ops i) (\<lambda>_.
     andThen (setLeafId ops uuid t entryId) (\<lambda>_.
     case summary of
       None \<Rightarrow> (\<lambda>ss. (Inr None, ss))
     | Some s \<Rightarrow>
         andThen (appendTypedEntry ops uuid t'
             (BranchSummaryEntry (s\<lparr>s_fromId := (case entryId of None \<Rightarrow> js ''root'' | Some i \<Rightarrow> i)\<rparr>)))
           (\<lambda>i ss. (Inr (Some i), ss))))"

section \<open>Sessions in use\<close>

text \<open>One call of a public method of the session.\<close>

inductive session_step :: "'s session_ops \<Rightarrow> (nat \<Rightarrow> jsstring) \<Rightarrow> 's session \<Rightarrow> 's session \<Rightarrow> bool"
  for ops uuid where
  message: "appendMessage ops uuid t m ss = (r, ss') \<Longrightarrow> session_step ops uuid ss ss'"
| thinking: "appendThinkingLevelChange ops uuid t level ss = (r, ss') \<Longrightarrow> session_step ops uuid ss ss'"
| model: "appendModelChange ops uuid t provider modelId ss = (r, ss') \<Longrightarrow> session_step ops uuid ss ss'"
| tools: "appendActiveToolsChange ops uuid t names ss = (r, ss') \<Longrightarrow> session_step ops uuid ss ss'"
| compact: "appendCompaction ops uuid t k ss = (r, ss') \<Longrightarrow> session_step ops uuid ss ss'"
| custom: "appendCustomEntry ops uuid t customType data ss = (r, ss') \<Longrightarrow> session_step ops uuid ss ss'"
| custom_message: "appendCustomMessageEntry ops uuid t customType c display details ss = (r, ss') \<Longrightarrow>
    session_step ops uuid ss ss'"
| label: "appendLabel ops uuid t targetId l ss = (r, ss') \<Longrightarrow> session_step ops uuid ss ss'"
| name: "appendSessionName ops uuid t n ss = (r, ss') \<Longrightarrow> session_step ops uuid ss ss'"
| move: "moveTo ops uuid t t' entryId summary ss = (r, ss') \<Longrightarrow> session_step ops uuid ss ss'"
| entry: "session_getEntry ops i ss = (r, ss') \<Longrightarrow> session_step ops uuid ss ss'"
| branch: "session_getBranch ops fromId ss = Some (r, ss') \<Longrightarrow> session_step ops uuid ss ss'"
| get_label: "session_getLabel ops i ss = (r, ss') \<Longrightarrow> session_step ops uuid ss ss'"
| get_stats: "session_getSessionStats ops ss = (r, ss') \<Longrightarrow> session_step ops uuid ss ss'"
| get_name: "session_getSessionName ops ss = (r, ss') \<Longrightarrow> session_step ops uuid ss ss'"

section \<open>The contract\<close>

text \<open>
  A store for a session: it holds a list of entries, appends what has a new identifier at its
  end and refuses the rest, and answers reads as a fresh reader of that list does.
\<close>

locale session_store =
  fixes ops :: "'s session_ops"
    and ok :: "'s \<Rightarrow> bool"
    and stored :: "'s \<Rightarrow> entry list"
  assumes append_new: "ok s \<Longrightarrow> e_id e \<notin> ids (stored s) \<Longrightarrow>
      \<exists>s'. so_appendEntry ops e s = (Inr (), s') \<and> ok s' \<and> stored s' = stored s @ [e]"
    and append_old: "ok s \<Longrightarrow> e_id e \<in> ids (stored s) \<Longrightarrow>
      \<exists>s'. so_appendEntry ops e s = (Inl (InvalidEntry (e_id e)), s') \<and> ok s' \<and> stored s' = stored s"
    and head_law: "ok s \<Longrightarrow> \<exists>s'. so_readHead ops s = (readHead (reader_of 0 (stored s)), s') \<and> ok s' \<and> stored s' = stored s"
    and entry_law: "ok s \<Longrightarrow> \<exists>s'. so_readEntry ops i s = (Inr (readEntry i (reader_of 0 (stored s))), s')
      \<and> ok s' \<and> stored s' = stored s"
    and entries_law: "ok s \<Longrightarrow> \<exists>s'. so_readEntries ops a l s = (Inr (readEntries a l (stored s)), s')
      \<and> ok s' \<and> stored s' = stored s"
    and find_law: "ok s \<Longrightarrow> \<exists>s'. so_findEntriesOnBranch ops q s = (findEntriesOnBranch q (reader_of 0 (stored s)), s')
      \<and> ok s' \<and> stored s' = stored s"
    and path_law: "ok s \<Longrightarrow> \<exists>s'. so_readPath ops leaf s
        = map_option (\<lambda>r. (r, s')) (readPathToRootOrCompaction leaf (reader_of 0 (stored s))) \<and> ok s' \<and> stored s' = stored s"
begin

definition session_entries :: "'s session \<Rightarrow> entry list" where
  "session_entries ss = stored (ss_store ss)"

text \<open>The invariant of a session over the store.\<close>

definition session_ok :: "'s session \<Rightarrow> bool" where
  "session_ok ss \<longleftrightarrow> ok (ss_store ss) \<and> tree_ok (session_entries ss) \<and> ss_leafId ss = leaf_of (session_entries ss)
     \<and> (ss_hydratedState ss = None \<or> ss_hydratedState ss = Some (hydrate (session_entries ss)))"

definition same_session :: "'s session \<Rightarrow> 's session \<Rightarrow> bool" where
  "same_session ss ss' \<longleftrightarrow> session_ok ss' \<and> session_entries ss' = session_entries ss \<and> ss_leafId ss' = ss_leafId ss"

lemma same_session_trans: "same_session a b \<Longrightarrow> same_session b c \<Longrightarrow> same_session a c"
  by (simp add: same_session_def)

lemma getEntry_spec:
  assumes "session_ok ss"
  shows "\<exists>ss'. session_getEntry ops i ss = (Inr (fmlookup (index_of (session_entries ss)) i), ss') \<and> same_session ss ss'"
proof -
  obtain s' where "so_readEntry ops i (ss_store ss) = (Inr (readEntry i (reader_of 0 (session_entries ss))), s')"
    "ok s'" "stored s' = session_entries ss"
    using entry_law [of "ss_store ss" i] assms by (auto simp: session_ok_def session_entries_def)
  then show ?thesis
    using assms by (auto simp: session_getEntry_def on_store_def readEntry_def reader_of_def same_session_def
        session_ok_def session_entries_def)
qed

lemma getBranch_spec:
  assumes "session_ok ss"
  shows "\<exists>ss'. session_getBranch ops fromId ss
      = map_option (\<lambda>r. (r, ss'))
          (readPathToRootOrCompaction (case fromId of None \<Rightarrow> ss_leafId ss | Some i \<Rightarrow> i) (reader_of 0 (session_entries ss)))
    \<and> same_session ss ss'"
proof -
  define leaf where "leaf = (case fromId of None \<Rightarrow> ss_leafId ss | Some i \<Rightarrow> i)"
  obtain s' where s: "so_readPath ops leaf (ss_store ss)
      = map_option (\<lambda>r. (r, s')) (readPathToRootOrCompaction leaf (reader_of 0 (session_entries ss)))"
    "ok s'" "stored s' = session_entries ss"
    using path_law [of "ss_store ss" leaf] assms by (auto simp: session_ok_def session_entries_def)
  have "session_getBranch ops fromId ss = map_option (\<lambda>r. (r, ss\<lparr>ss_store := s'\<rparr>))
      (readPathToRootOrCompaction leaf (reader_of 0 (session_entries ss)))"
    by (cases "readPathToRootOrCompaction leaf (reader_of 0 (session_entries ss))")
      (simp_all add: session_getBranch_def s(1) flip: leaf_def)
  moreover have "same_session ss (ss\<lparr>ss_store := s'\<rparr>)"
    using assms s(2,3) by (auto simp: same_session_def session_ok_def session_entries_def)
  ultimately show ?thesis
    unfolding leaf_def by blast
qed

lemma hydrated_spec:
  assumes "session_ok ss"
  shows "\<exists>ss'. getHydratedState ops ss = (Inr (hydrate (session_entries ss)), ss') \<and> same_session ss ss'"
proof (cases "ss_hydratedState ss")
  case None
  obtain s' where "so_readEntries ops None None (ss_store ss) = (Inr (session_entries ss), s')"
    "ok s'" "stored s' = session_entries ss"
    using entries_law [of "ss_store ss" None None] assms
    by (auto simp: session_ok_def session_entries_def readEntries_def)
  then show ?thesis
    using None assms
    by (auto simp: getHydratedState_def andThen_def on_store_def same_session_def session_ok_def session_entries_def)
next
  case (Some h)
  then show ?thesis
    using assms by (auto simp: getHydratedState_def same_session_def session_ok_def)
qed

lemma tryEntryIds_spec:
  assumes "session_ok ss" "uuid_ok uuid"
  shows "\<exists>i ss'. tryEntryIds ops uuid n ss = (Inr i, ss') \<and> same_session ss ss' \<and> i \<noteq> []
    \<and> ((\<exists>k<n. short_id (uuid (ss_uuids ss + k)) \<notin> ids (session_entries ss)) \<longrightarrow> i \<notin> ids (session_entries ss))"
  using assms(1)
proof (induction n arbitrary: ss)
  case 0
  have "uuid (ss_uuids ss) \<noteq> []"
    using assms(2) by (auto simp: uuid_ok_def dest: spec [of _ "ss_uuids ss"])
  with 0 show ?case
    by (auto simp: same_session_def session_ok_def session_entries_def)
next
  case (Suc n)
  define i where "i = short_id (uuid (ss_uuids ss))"
  define s1 where "s1 = ss\<lparr>ss_uuids := Suc (ss_uuids ss)\<rparr>"
  have s1: "same_session ss s1" "session_ok s1" "session_entries s1 = session_entries ss"
    using Suc.prems by (auto simp: s1_def same_session_def session_ok_def session_entries_def)
  obtain s2 where s2: "session_getEntry ops i s1 = (Inr (fmlookup (index_of (session_entries ss)) i), s2)" "same_session s1 s2"
    using getEntry_spec [OF s1(2), of i] s1(3) by auto
  have u2: "ss_uuids s2 = Suc (ss_uuids ss)"
    using s2(1) by (auto simp: session_getEntry_def on_store_def s1_def split: prod.splits)
  have i: "i \<noteq> []"
    using assms(2) by (auto simp: i_def short_id_def uuid_ok_def dest: spec [of _ "ss_uuids ss"])
  have t: "tree_ok (session_entries ss)"
    using Suc.prems by (simp add: session_ok_def)
  show ?case
  proof (cases "i \<in> ids (session_entries ss)")
    case False
    then have "tryEntryIds ops uuid (Suc n) ss = (Inr i, s2)"
      using s2(1) lookup_index_None [OF t] by (simp add: Let_def andThen_def flip: i_def s1_def)
    then show ?thesis
      using False i same_session_trans [OF s1(1) s2(2)] by blast
  next
    case True
    then have rec: "tryEntryIds ops uuid (Suc n) ss = tryEntryIds ops uuid n s2"
      using s2(1) lookup_index_None [OF t, of i] by (auto simp: Let_def andThen_def simp flip: i_def s1_def)
    have ok2: "session_ok s2" "session_entries s2 = session_entries ss"
      using s2(2) s1(3) by (simp_all add: same_session_def)
    have "\<exists>k<n. short_id (uuid (ss_uuids s2 + k)) \<notin> ids (session_entries s2)"
      if ex: "\<exists>k<Suc n. short_id (uuid (ss_uuids ss + k)) \<notin> ids (session_entries ss)"
    proof -
      obtain k where k: "k < Suc n" "short_id (uuid (ss_uuids ss + k)) \<notin> ids (session_entries ss)"
        using ex by blast
      then have "k \<noteq> 0"
        using True by (metis add_0_right i_def)
      then show ?thesis
        using k u2 ok2(2) by (intro exI [of _ "k - 1"]) auto
    qed
    then show ?thesis
      using Suc.IH [OF ok2(1)] rec ok2(2) same_session_trans [OF same_session_trans [OF s1(1) s2(2)]] by auto
  qed
qed

text \<open>Bodies an append can carry: a leaf entry points at a stored entry.\<close>

definition body_ok :: "'s session \<Rightarrow> entry_body \<Rightarrow> bool" where
  "body_ok ss body \<longleftrightarrow> (case body of LeafEntry (Some i) \<Rightarrow> i \<in> ids (session_entries ss) | _ \<Rightarrow> True)"

definition appended :: "'s session \<Rightarrow> jsstring \<Rightarrow> entry_body \<Rightarrow> entry \<Rightarrow> 's session \<Rightarrow> bool" where
  "appended ss t body e ss' \<longleftrightarrow> session_ok ss' \<and> session_entries ss' = session_entries ss @ [e]
     \<and> e_body e = body \<and> e_parentId e = ss_leafId ss \<and> e_timestamp e = t \<and> ss_leafId ss' = leaf_after e"

lemma enqueueAppend_spec:
  assumes ok: "session_ok ss" and body: "body_ok ss body" and uuid: "uuid_ok uuid"
  shows "\<exists>r ss'. enqueueAppend ops uuid t body ss = (r, ss') \<and> session_ok ss'
    \<and> (case r of
        Inr e \<Rightarrow> appended ss t body e ss'
      | Inl err \<Rightarrow> same_session ss ss' \<and> (\<forall>k<100. short_id (uuid (ss_uuids ss + k)) \<in> ids (session_entries ss)))"
proof -
  obtain i s1 where i: "createEntryId ops uuid ss = (Inr i, s1)" "same_session ss s1" "i \<noteq> []"
    "(\<exists>k<100. short_id (uuid (ss_uuids ss + k)) \<notin> ids (session_entries ss)) \<longrightarrow> i \<notin> ids (session_entries ss)"
    using tryEntryIds_spec [OF ok uuid, of 100] by (auto simp: createEntryId_def)
  define e where "e = \<lparr>e_id = i, e_parentId = ss_leafId ss, e_timestamp = t, e_body = body\<rparr>"
  have ok1: "session_ok s1" "session_entries s1 = session_entries ss" "ss_leafId s1 = ss_leafId ss"
    using i(2) by (simp_all add: same_session_def)
  then have st: "ok (ss_store s1)" "stored (ss_store s1) = session_entries ss"
    by (simp_all add: session_ok_def session_entries_def)
  have run: "enqueueAppend ops uuid t body ss = andThen (on_store (so_appendEntry ops e)) (\<lambda>_ ss.
       (Inr e, ss\<lparr>ss_leafId := leaf_after e, ss_hydratedState := None\<rparr>)) s1"
    unfolding enqueueAppend_def andThen_def [of "createEntryId ops uuid"] i(1)
    by (simp add: e_def ok1(3) Let_def)
  show ?thesis
  proof (cases "i \<in> ids (session_entries ss)")
    case True
    then obtain s' where "so_appendEntry ops e (ss_store s1) = (Inl (InvalidEntry (e_id e)), s')" "ok s'"
      "stored s' = session_entries ss"
      using append_old [OF st(1), of e] st(2) by (auto simp: e_def)
    then have "enqueueAppend ops uuid t body ss = (Inl (InvalidEntry (e_id e)), s1\<lparr>ss_store := s'\<rparr>)"
      and "same_session ss (s1\<lparr>ss_store := s'\<rparr>)"
      using run ok1 by (simp_all add: andThen_def on_store_def same_session_def session_ok_def session_entries_def)
    moreover have "\<forall>k<100. short_id (uuid (ss_uuids ss + k)) \<in> ids (session_entries ss)"
      using i(4) True by blast
    ultimately show ?thesis
      by (simp add: same_session_def)
  next
    case False
    then obtain s' where s': "so_appendEntry ops e (ss_store s1) = (Inr (), s')" "ok s'"
      "stored s' = session_entries ss @ [e]"
      using append_new [OF st(1), of e] st(2) by (auto simp: e_def)
    have "entry_fits (ids (session_entries ss)) e"
      using False i(3) body ok tree_ok_leaf [of "session_entries ss"]
      by (auto simp: entry_fits_def e_def body_ok_def session_ok_def split: option.splits entry_body.splits)
    then have "tree_ok (session_entries ss @ [e])"
      using ok by (simp add: session_ok_def)
    then have "appended ss t body e (s1\<lparr>ss_store := s', ss_leafId := leaf_after e, ss_hydratedState := None\<rparr>)"
      using s' by (simp add: appended_def session_ok_def session_entries_def e_def)
    moreover have "enqueueAppend ops uuid t body ss
        = (Inr e, s1\<lparr>ss_store := s', ss_leafId := leaf_after e, ss_hydratedState := None\<rparr>)"
      using run s'(1) by (simp add: andThen_def on_store_def)
    ultimately show ?thesis
      by (simp add: appended_def)
  qed
qed

lemma appendTyped_spec:
  assumes ok: "session_ok ss" and body: "body_ok ss body" and uuid: "uuid_ok uuid"
  shows "\<exists>r ss'. appendTypedEntry ops uuid t body ss = (r, ss') \<and> session_ok ss'
    \<and> (case r of
        Inr i \<Rightarrow> \<exists>e. e_id e = i \<and> appended ss t body e ss'
      | Inl err \<Rightarrow> same_session ss ss' \<and> (\<forall>k<100. short_id (uuid (ss_uuids ss + k)) \<in> ids (session_entries ss)))"
proof -
  obtain r ss' where r: "enqueueAppend ops uuid t body ss = (r, ss')" "session_ok ss'"
    "case r of
        Inr e \<Rightarrow> appended ss t body e ss'
      | Inl err \<Rightarrow> same_session ss ss' \<and> (\<forall>k<100. short_id (uuid (ss_uuids ss + k)) \<in> ids (session_entries ss))"
    using enqueueAppend_spec [OF assms] by blast
  then show ?thesis
    by (cases r) (auto simp: appendTypedEntry_def andThen_def)
qed

text \<open>A session that has only grown.\<close>

definition grown :: "'s session \<Rightarrow> 's session \<Rightarrow> bool" where
  "grown ss ss' \<longleftrightarrow> session_ok ss' \<and> (\<exists>es. session_entries ss' = session_entries ss @ es)"

lemma grown_same: "same_session ss ss' \<Longrightarrow> grown ss ss'"
  by (simp add: grown_def same_session_def)

lemma grown_trans: "grown a b \<Longrightarrow> grown b c \<Longrightarrow> grown a c"
  by (auto simp: grown_def)

lemma grown_ids: "grown a b \<Longrightarrow> i \<in> ids (session_entries a) \<Longrightarrow> i \<in> ids (session_entries b)"
  by (auto simp: grown_def)

lemma append_grown:
  assumes "session_ok ss" "body_ok ss body" "uuid_ok uuid" "appendTypedEntry ops uuid t body ss = (r, ss')"
  shows "grown ss ss'"
proof (cases r)
  case (Inl err)
  then show ?thesis
    using appendTyped_spec [OF assms(1-3), of t] assms(4) by (auto intro: grown_same)
next
  case (Inr i)
  then show ?thesis
    using appendTyped_spec [OF assms(1-3), of t] assms(4) by (auto simp: grown_def appended_def)
qed

lemma enqueue_grown:
  assumes "session_ok ss" "body_ok ss body" "uuid_ok uuid" "enqueueAppend ops uuid t body ss = (r, ss')"
  shows "grown ss ss'"
  using append_grown [OF assms(1-3), of t "case r of Inl e \<Rightarrow> Inl e | Inr e \<Rightarrow> Inr (e_id e)" ss'] assms(4)
  by (auto simp: appendTypedEntry_def andThen_def split: sum.split)

lemma andThen_grown:
  assumes "andThen m f ss = (r, ss')" "\<And>x s. m ss = (x, s) \<Longrightarrow> grown ss s"
    and "\<And>x s. m ss = (Inr x, s) \<Longrightarrow> f x s = (r, ss') \<Longrightarrow> grown s ss'"
  shows "grown ss ss'"
  using assms by (auto simp: andThen_def split: prod.splits sum.splits intro: grown_trans)

lemma requireEntry_spec:
  assumes "session_ok ss" "requireEntry ops i ss = (r, ss')"
  shows "same_session ss ss'" "r = (if i \<in> ids (session_entries ss) then Inr () else Inl (NotFound i))"
proof -
  obtain s where "session_getEntry ops i ss = (Inr (fmlookup (index_of (session_entries ss)) i), s)" "same_session ss s"
    using getEntry_spec [OF assms(1)] by blast
  then show "same_session ss ss'" "r = (if i \<in> ids (session_entries ss) then Inr () else Inl (NotFound i))"
    using assms lookup_index_None [of "session_entries ss" i]
    by (auto simp: requireEntry_def andThen_def session_ok_def split: if_splits)
qed

lemma requireTarget_spec:
  assumes "session_ok ss"
    and "(case target of None \<Rightarrow> (\<lambda>ss. (Inr (), ss)) | Some l \<Rightarrow> requireEntry ops l) ss = (r, ss')"
  shows "same_session ss ss'"
    "r = (case target of None \<Rightarrow> Inr () | Some i \<Rightarrow> if i \<in> ids (session_entries ss) then Inr () else Inl (NotFound i))"
  using assms(1) assms(2) requireEntry_spec [OF assms(1)] by (cases target; force simp: same_session_def)+

lemma setLeafId_spec:
  assumes "session_ok ss" "uuid_ok uuid" "setLeafId ops uuid t target ss = (r, ss')"
  shows "grown ss ss'" "r = Inr e \<Longrightarrow> ss_leafId ss' = target \<and> session_entries ss' = session_entries ss @ [e] \<and> e_body e = LeafEntry target"
    "target = Some i \<Longrightarrow> i \<notin> ids (session_entries ss) \<Longrightarrow> r = Inl (NotFound i) \<and> same_session ss ss'"
proof -
  obtain q s1 where q: "(case target of None \<Rightarrow> (\<lambda>ss. (Inr (), ss)) | Some l \<Rightarrow> requireEntry ops l) ss = (q, s1)"
    by fastforce
  note req = requireTarget_spec [OF assms(1) q]
  have s1: "session_ok s1" "session_entries s1 = session_entries ss"
    using req(1) by (simp_all add: same_session_def)
  have run: "(r, ss') = (case q of Inl e \<Rightarrow> (Inl e, s1) | Inr _ \<Rightarrow> enqueueAppend ops uuid t (LeafEntry target) s1)"
    using assms(3) unfolding setLeafId_def andThen_def q by (cases q) auto
  have b: "body_ok s1 (LeafEntry target)" if "q = Inr u" for u
    using req(2) that s1(2) by (auto simp: body_ok_def split: option.splits if_splits)
  have spec: "session_ok ss' \<and> (case r of
        Inr e \<Rightarrow> appended s1 t (LeafEntry target) e ss'
      | Inl err \<Rightarrow> same_session s1 ss')" if inr: "q = Inr u" for u
  proof -
    obtain r1 ss1 where r1: "enqueueAppend ops uuid t (LeafEntry target) s1 = (r1, ss1)" "session_ok ss1"
      "case r1 of Inr e \<Rightarrow> appended s1 t (LeafEntry target) e ss1
       | Inl err \<Rightarrow> same_session s1 ss1 \<and> (\<forall>k<100. short_id (uuid (ss_uuids s1 + k)) \<in> ids (session_entries s1))"
      using enqueueAppend_spec [OF s1(1) b [OF inr] assms(2), of t] by blast
    moreover have "r = r1" "ss' = ss1"
      using run inr r1(1) by simp_all
    ultimately show ?thesis
      by (cases r1) simp_all
  qed
  show "grown ss ss'"
  proof (cases q)
    case (Inl x)
    then show ?thesis
      using run req(1) grown_same by simp
  next
    case (Inr u)
    have "grown s1 ss'"
      using spec [OF Inr] by (cases r) (auto simp: appended_def grown_def same_session_def)
    then show ?thesis
      using grown_trans [OF grown_same [OF req(1)]] by blast
  qed
  show "ss_leafId ss' = target \<and> session_entries ss' = session_entries ss @ [e] \<and> e_body e = LeafEntry target" if "r = Inr e"
  proof (cases q)
    case (Inr u)
    then show ?thesis
      using spec [OF Inr] that s1(2) by (auto simp: appended_def leaf_after_def)
  qed (use run that in auto)
  show "r = Inl (NotFound i) \<and> same_session ss ss'" if "target = Some i" "i \<notin> ids (session_entries ss)"
    using run req that by simp
qed

lemma getEntry_grown: "session_ok ss \<Longrightarrow> session_getEntry ops i ss = (r, ss') \<Longrightarrow> grown ss ss'"
  using getEntry_spec [of ss i] by (auto intro: grown_same)

lemma getBranch_grown:
  assumes "session_ok ss" "session_getBranch ops fromId ss = Some (r, ss')"
  shows "grown ss ss'"
proof -
  define path where "path = readPathToRootOrCompaction (case fromId of None \<Rightarrow> ss_leafId ss | Some i \<Rightarrow> i)
      (reader_of 0 (session_entries ss))"
  obtain s where "session_getBranch ops fromId ss = map_option (\<lambda>r. (r, s)) path" "same_session ss s"
    using getBranch_spec [OF assms(1), of fromId] unfolding path_def by blast
  then show ?thesis
    using assms(2) by (cases path) (simp_all add: grown_same)
qed

lemma getHydrated_grown: "session_ok ss \<Longrightarrow> getHydratedState ops ss = (h, ss') \<Longrightarrow> grown ss ss'"
  using hydrated_spec [of ss] by (auto intro: grown_same)

lemma grown_refl: "session_ok ss \<Longrightarrow> grown ss ss"
  by (simp add: grown_def)

lemma grown_ok: "grown a b \<Longrightarrow> session_ok b"
  by (simp add: grown_def)

lemma hydrated_read_grown:
  assumes "session_ok ss" "andThen (getHydratedState ops) (\<lambda>h s. (f h, s)) ss = (r, ss')"
  shows "grown ss ss'"
  using assms hydrated_spec [OF assms(1)] by (auto simp: andThen_def intro: grown_same)

lemma move_grown:
  assumes "session_ok ss" "uuid_ok uuid" "moveTo ops uuid t t' target summary ss = (r, ss')"
  shows "grown ss ss'"
proof -
  define req where "req = (case target of None \<Rightarrow> (\<lambda>ss. (Inr (), ss)) | Some l \<Rightarrow> requireEntry ops l)"
  show ?thesis
    using assms(3) unfolding moveTo_def req_def [symmetric]
  proof (rule andThen_grown)
    show g1: "grown ss s" if "req ss = (x, s)" for x s
      using requireTarget_spec(1) [OF assms(1)] that unfolding req_def by (blast intro: grown_same)
    fix x s
    assume x: "req ss = (Inr x, s)" and rest: "andThen (setLeafId ops uuid t target) (\<lambda>_. case summary of
        None \<Rightarrow> (\<lambda>ss. (Inr None, ss))
      | Some b \<Rightarrow> andThen (appendTypedEntry ops uuid t'
             (BranchSummaryEntry (b\<lparr>s_fromId := (case target of None \<Rightarrow> js ''root'' | Some i \<Rightarrow> i)\<rparr>)))
           (\<lambda>i ss. (Inr (Some i), ss))) s = (r, ss')"
    note ok = grown_ok [OF g1 [OF x]]
    from rest show "grown s ss'"
    proof (rule andThen_grown)
      show g2: "grown s u" if "setLeafId ops uuid t target s = (y, u)" for y u
        by (rule setLeafId_spec(1) [OF ok assms(2) that])
      fix y u
      assume y: "setLeafId ops uuid t target s = (Inr y, u)" and rest2: "(case summary of
        None \<Rightarrow> (\<lambda>ss. (Inr None, ss))
      | Some b \<Rightarrow> andThen (appendTypedEntry ops uuid t'
             (BranchSummaryEntry (b\<lparr>s_fromId := (case target of None \<Rightarrow> js ''root'' | Some i \<Rightarrow> i)\<rparr>)))
           (\<lambda>i ss. (Inr (Some i), ss))) u = (r, ss')"
      note ok2 = grown_ok [OF g2 [OF y]]
      show "grown u ss'"
      proof (cases summary)
        case None
        then show ?thesis
          using rest2 ok2 by (simp add: grown_refl)
      next
        case (Some b)
        from rest2 [unfolded Some option.case] show ?thesis
        proof (rule andThen_grown)
          show "grown u w" if "appendTypedEntry ops uuid t'
             (BranchSummaryEntry (b\<lparr>s_fromId := (case target of None \<Rightarrow> js ''root'' | Some i \<Rightarrow> i)\<rparr>)) u = (z, w)" for z w
            using append_grown [OF ok2 _ assms(2) that] by (simp add: body_ok_def)
          then show "grown w ss'" if "appendTypedEntry ops uuid t'
             (BranchSummaryEntry (b\<lparr>s_fromId := (case target of None \<Rightarrow> js ''root'' | Some i \<Rightarrow> i)\<rparr>)) u = (Inr z, w)"
            "(Inr (Some z), w) = (r, ss')" for z w
            using that grown_ok grown_refl by blast
        qed
      qed
    qed
  qed
qed

lemma label_grown:
  assumes "session_ok ss" "uuid_ok uuid" "appendLabel ops uuid t target l ss = (r, ss')"
  shows "grown ss ss'"
  using assms(3) unfolding appendLabel_def
proof (rule andThen_grown)
  show g: "grown ss s" if "requireEntry ops target ss = (x, s)" for x s
    by (rule grown_same [OF requireEntry_spec(1) [OF assms(1) that]])
  show "grown s ss'" if "requireEntry ops target ss = (Inr x, s)"
    "appendTypedEntry ops uuid t (LabelEntry target l) s = (r, ss')" for x s
    using append_grown [OF grown_ok [OF g [OF that(1)]] _ assms(2) that(2)] by (simp add: body_ok_def)
qed

text \<open>Every call keeps the invariant and only adds entries.\<close>

lemma step_grown:
  assumes "session_step ops uuid ss ss'" "session_ok ss" "uuid_ok uuid"
  shows "grown ss ss'"
  using assms(1)
proof (cases rule: session_step.cases)
  case label
  then show ?thesis
    using label_grown assms by blast
next
  case move
  then show ?thesis
    using move_grown assms by blast
next
  case entry
  then show ?thesis
    using getEntry_grown assms by blast
next
  case (branch fromId r)
  then show ?thesis
    using getBranch_grown assms by blast
next
  case get_label
  then show ?thesis
    using hydrated_read_grown [OF assms(2)] by (auto simp: session_getLabel_def)
next
  case get_stats
  then show ?thesis
    using hydrated_read_grown [OF assms(2)] by (auto simp: session_getSessionStats_def)
next
  case get_name
  then show ?thesis
    using hydrated_read_grown [OF assms(2)] by (auto simp: session_getSessionName_def)
qed (auto intro!: append_grown [OF assms(2) _ assms(3)]
    simp: appendMessage_def appendThinkingLevelChange_def appendModelChange_def appendActiveToolsChange_def
      appendCompaction_def appendCustomEntry_def appendCustomMessageEntry_def appendSessionName_def body_ok_def)

lemma run_grown:
  assumes "(session_step ops uuid)\<^sup>*\<^sup>* ss ss'" "session_ok ss" "uuid_ok uuid"
  shows "grown ss ss'"
  using assms(1)
proof (induction rule: rtranclp_induct)
  case base
  then show ?case
    by (rule grown_refl [OF assms(2)])
next
  case (step b c)
  then show ?case
    using step_grown [OF step(2) grown_ok assms(3)] grown_trans by blast
qed

lemma open_spec:
  assumes "ok s" "tree_ok (stored s)"
  shows "\<exists>ss. createSessionFromReader ops s = Inr ss \<and> session_ok ss \<and> session_entries ss = stored s
    \<and> ss_leafId ss = leaf_of (stored s)"
proof -
  have "readHead (reader_of 0 (stored s)) = Inr (leaf_of (stored s))"
    using tree_ok_leaf [OF assms(2)] lookup_index_None [OF assms(2)]
    by (auto simp: readHead_def reader_of_def split: option.split)
  then obtain s' where "so_readHead ops s = (Inr (leaf_of (stored s)), s')" "ok s'" "stored s' = stored s"
    using head_law [OF assms(1)] by auto
  then show ?thesis
    using assms(2) by (simp add: createSessionFromReader_def session_ok_def session_entries_def)
qed

lemma move_spec:
  assumes "session_ok ss" "uuid_ok uuid" "moveTo ops uuid t t' target summary ss = (r, ss')"
  shows "target = Some i \<Longrightarrow> i \<notin> ids (session_entries ss) \<Longrightarrow> r = Inl (NotFound i) \<and> same_session ss ss'"
    "r = Inr None \<Longrightarrow> summary = None \<and> ss_leafId ss' = target
        \<and> (\<exists>e. session_entries ss' = session_entries ss @ [e] \<and> e_body e = LeafEntry target)"
    "r = Inr (Some i) \<Longrightarrow> \<exists>b e e'. summary = Some b \<and> ss_leafId ss' = Some i \<and> e_id e' = i
        \<and> session_entries ss' = session_entries ss @ [e, e'] \<and> e_body e = LeafEntry target
        \<and> e_parentId e' = target \<and> e_body e'
            = BranchSummaryEntry (b\<lparr>s_fromId := (case target of None \<Rightarrow> js ''root'' | Some i \<Rightarrow> i)\<rparr>)"
proof -
  define summarize where "summarize = (case summary of
        None \<Rightarrow> (\<lambda>ss. (Inr None, ss))
      | Some b \<Rightarrow> andThen (appendTypedEntry ops uuid t'
             (BranchSummaryEntry (b\<lparr>s_fromId := (case target of None \<Rightarrow> js ''root'' | Some i \<Rightarrow> i)\<rparr>)))
           (\<lambda>i ss. (Inr (Some i), ss)))"
  obtain q s1 where q: "(case target of None \<Rightarrow> (\<lambda>ss. (Inr (), ss)) | Some l \<Rightarrow> requireEntry ops l) ss = (q, s1)"
    by fastforce
  note req = requireTarget_spec [OF assms(1) q]
  have s1: "session_ok s1" "session_entries s1 = session_entries ss"
    using req(1) by (simp_all add: same_session_def)
  obtain x s2 where x: "setLeafId ops uuid t target s1 = (x, s2)"
    by fastforce
  note leaf = setLeafId_spec [OF s1(1) assms(2) x]
  have run: "(r, ss') = (case q of Inl e \<Rightarrow> (Inl e, s1) | Inr _ \<Rightarrow> (case x of Inl e \<Rightarrow> (Inl e, s2) | Inr _ \<Rightarrow> summarize s2))"
    using assms(3) unfolding moveTo_def andThen_def [of "case target of None \<Rightarrow> _ | Some i \<Rightarrow> _ i"] q summarize_def [symmetric]
    by (cases q; cases x) (auto simp: andThen_def x)
  show "r = Inl (NotFound i) \<and> same_session ss ss'" if "target = Some i" "i \<notin> ids (session_entries ss)"
    using run req that by simp
  obtain e where e: "ss_leafId s2 = target" "session_entries s2 = session_entries ss @ [e]" "summarize s2 = (r, ss')"
     "e_body e = LeafEntry target" if "\<exists>y. r = Inr y"
    using run leaf(2) s1(2) by (cases q; cases x) auto
  show "summary = None \<and> ss_leafId ss' = target
        \<and> (\<exists>e. session_entries ss' = session_entries ss @ [e] \<and> e_body e = LeafEntry target)" if "r = Inr None"
    using e that by (cases summary) (auto simp: summarize_def andThen_def split: prod.splits sum.splits)
  show "\<exists>b e e'. summary = Some b \<and> ss_leafId ss' = Some i \<and> e_id e' = i
        \<and> session_entries ss' = session_entries ss @ [e, e'] \<and> e_body e = LeafEntry target
        \<and> e_parentId e' = target \<and> e_body e'
            = BranchSummaryEntry (b\<lparr>s_fromId := (case target of None \<Rightarrow> js ''root'' | Some i \<Rightarrow> i)\<rparr>)" if some: "r = Inr (Some i)"
  proof -
    obtain b where b: "summary = Some b"
      using e(3) some by (cases summary) (auto simp: summarize_def)
    define body where "body = BranchSummaryEntry (b\<lparr>s_fromId := (case target of None \<Rightarrow> js ''root'' | Some i \<Rightarrow> i)\<rparr>)"
    have "appendTypedEntry ops uuid t' body s2 = (Inr i, ss')"
      using e(3) some b unfolding summarize_def body_def
      by (auto simp: andThen_def split: prod.splits sum.splits)
    moreover have "session_ok s2" "body_ok s2 body"
      using leaf(1) by (simp_all add: grown_def body_ok_def body_def)
    ultimately obtain e' where "e_id e' = i" "appended s2 t' body e' ss'"
      using appendTyped_spec [OF _ _ assms(2), of s2 body t'] by auto
    then show ?thesis
      using b e some by (auto simp: appended_def body_def leaf_after_def)
  qed
qed

lemma label_spec:
  assumes "session_ok ss" "uuid_ok uuid" "appendLabel ops uuid t target l ss = (Inr i, ss')"
  shows "session_ok ss'" "\<exists>e. session_entries ss' = session_entries ss @ [e] \<and> e_body e = LabelEntry target l"
    "target \<in> ids (session_entries ss)"
proof -
  obtain q s1 where q: "requireEntry ops target ss = (q, s1)"
    by fastforce
  note req = requireEntry_spec [OF assms(1) q]
  have s1: "session_ok s1" "session_entries s1 = session_entries ss" "body_ok s1 (LabelEntry target l)"
    using req(1) by (simp_all add: same_session_def body_ok_def)
  have run: "appendTypedEntry ops uuid t (LabelEntry target l) s1 = (Inr i, ss')" "q = Inr ()"
    using assms(3) q by (cases q; simp add: appendLabel_def andThen_def)+
  obtain e where "appended s1 t (LabelEntry target l) e ss'"
    using appendTyped_spec [OF s1(1,3) assms(2), of t] run(1) by auto
  then show "session_ok ss'" "\<exists>e. session_entries ss' = session_entries ss @ [e] \<and> e_body e = LabelEntry target l"
    using s1(2) by (auto simp: appended_def)
  show "target \<in> ids (session_entries ss)"
    using req(2) run(2) by (simp split: if_splits)
qed

lemma label_fresh:
  assumes "session_ok ss" "uuid_ok uuid" "target \<in> ids (session_entries ss)"
    and "short_id (uuid (ss_uuids ss)) \<notin> ids (session_entries ss)"
  shows "\<exists>i ss'. appendLabel ops uuid t target l ss = (Inr i, ss')"
proof -
  obtain q s1 where q: "requireEntry ops target ss = (q, s1)"
    by fastforce
  then have s1: "requireEntry ops target ss = (Inr (), s1)"
    using requireEntry_spec(2) [OF assms(1) q] assms(3) by simp
  have same: "session_ok s1" "session_entries s1 = session_entries ss"
    using requireEntry_spec(1) [OF assms(1) s1] by (simp_all add: same_session_def)
  have "ss_uuids s1 = ss_uuids ss"
    using s1 by (auto simp: requireEntry_def session_getEntry_def on_store_def andThen_def
        split: prod.splits sum.splits if_splits)
  then have "\<not> (\<forall>k<100. short_id (uuid (ss_uuids s1 + k)) \<in> ids (session_entries s1))"
    using assms(4) same(2) by (metis add_0_right zero_less_numeral)
  moreover obtain r ss' where r: "appendTypedEntry ops uuid t (LabelEntry target l) s1 = (r, ss')"
    by fastforce
  ultimately have "\<exists>i. r = Inr i"
    using appendTyped_spec [OF same(1) _ assms(2), of "LabelEntry target l" t]
    by (cases r) (auto simp: body_ok_def)
  then show ?thesis
    using s1 r by (auto simp: appendLabel_def andThen_def)
qed

lemma getLabel_spec:
  assumes "session_ok ss"
  shows "fst (session_getLabel ops i ss) = Inr (h_labelsById (hydrate (session_entries ss)) i)"
  using hydrated_spec [OF assms] by (auto simp: session_getLabel_def andThen_def hydrated_getLabel_def)

end

end
