(* ===== verification/MemoryStore.thy ===== *)
theory MemoryStore
  imports StoreSession "HOL-Library.AList"
begin

text \<open>
  The in-memory session store (\<open>packages/agent/src/harness/session/memory-store.ts\<close>). Its
  operations on one session run one at a time (\<open>KeyedQueue\<close>), so each is an atomic step here.
  A session state is an object that the readers of the session keep: it is an address in
  \<open>st_states\<close>, and it outlives the deletion of the session from the map.
\<close>

section \<open>State\<close>

record session_metadata =
  md_id :: jsstring
  md_createdAt :: jsstring

record memory_session =
  ms_metadata :: session_metadata
  ms_entries :: "entry list"

record memory_store =
  st_states :: "memory_session list"
  st_sessions :: "(jsstring \<times> nat) list"
  st_disposed :: bool

text \<open>A reader: the state object it reads, and the index of its \<open>createArraySessionReader\<close>.\<close>

record memory_reader =
  mr_state :: nat
  mr_index :: array_reader

definition createInMemorySessionStore :: memory_store where
  "createInMemorySessionStore = \<lparr>st_states = [], st_sessions = [], st_disposed = False\<rparr>"

definition assertOpen :: "memory_store \<Rightarrow> session_error + unit" where
  "assertOpen st = (if st_disposed st then Inl StorageError else Inr ())"

definition memory_getState :: "session_metadata \<Rightarrow> memory_store \<Rightarrow> session_error + nat" where
  "memory_getState metadata st =
     (case map_of (st_sessions st) (md_id metadata) of
        None \<Rightarrow> Inl (NotFound (md_id metadata))
      | Some a \<Rightarrow> Inr a)"

definition newMemoryReader :: "nat \<Rightarrow> memory_reader" where
  "newMemoryReader a = \<lparr>mr_state = a, mr_index = new_reader\<rparr>"

section \<open>Operations of the store\<close>

definition addSession :: "session_metadata \<Rightarrow> entry list \<Rightarrow> memory_store \<Rightarrow> memory_reader \<times> memory_store" where
  "addSession metadata entries st =
     (let a = length (st_states st)
      in (newMemoryReader a,
          st\<lparr>st_states := st_states st @ [\<lparr>ms_metadata = metadata, ms_entries = entries\<rparr>],
             st_sessions := AList.update (md_id metadata) a (st_sessions st)\<rparr>))"

definition memory_create :: "session_metadata \<Rightarrow> memory_store \<Rightarrow> (session_error + memory_reader) \<times> memory_store" where
  "memory_create metadata st =
     (case assertOpen st of
        Inl e \<Rightarrow> (Inl e, st)
      | Inr _ \<Rightarrow> (case addSession metadata [] st of (r, st) \<Rightarrow> (Inr r, st)))"

definition memory_load :: "session_metadata \<Rightarrow> memory_store \<Rightarrow> session_error + memory_reader" where
  "memory_load metadata st =
     bindE (assertOpen st) (\<lambda>_. bindE (memory_getState metadata st) (\<lambda>a. Inr (newMemoryReader a)))"

definition memory_list :: "memory_store \<Rightarrow> session_error + session_metadata list" where
  "memory_list st =
     bindE (assertOpen st) (\<lambda>_. Inr (map (\<lambda>(i, a). ms_metadata (st_states st ! a)) (st_sessions st)))"

definition memory_appendEntry ::
    "session_metadata \<Rightarrow> entry \<Rightarrow> memory_store \<Rightarrow> (session_error + unit) \<times> memory_store" where
  "memory_appendEntry metadata e st =
     (case bindE (assertOpen st) (\<lambda>_. memory_getState metadata st) of
        Inl err \<Rightarrow> (Inl err, st)
      | Inr a \<Rightarrow>
          (let s = st_states st ! a in
           if \<exists>x\<in>set (ms_entries s). e_id x = e_id e then (Inl (InvalidEntry (e_id e)), st)
           else (Inr (), st\<lparr>st_states := (st_states st)[a := s\<lparr>ms_entries := ms_entries s @ [e]\<rparr>]\<rparr>)))"

definition memory_delete :: "session_metadata \<Rightarrow> memory_store \<Rightarrow> (session_error + unit) \<times> memory_store" where
  "memory_delete metadata st =
     (case assertOpen st of
        Inl e \<Rightarrow> (Inl e, st)
      | Inr _ \<Rightarrow> (Inr (), st\<lparr>st_sessions := AList.delete (md_id metadata) (st_sessions st)\<rparr>))"

text \<open>The two queued steps of \<open>fork\<close>: read the source, then add the new session.\<close>

definition memory_forkRead ::
    "session_metadata \<Rightarrow> fork_selection \<Rightarrow> memory_store \<Rightarrow> (session_error + entry list) option" where
  "memory_forkRead source selection st =
     (case memory_getState source st of
        Inl e \<Rightarrow> Some (Inl e)
      | Inr a \<Rightarrow>
          (let entries = ms_entries (st_states st ! a)
           in readSessionEntriesForFork selection entries (updateIndex a entries new_reader)))"

definition memory_fork ::
    "session_metadata \<Rightarrow> session_metadata \<Rightarrow> fork_selection \<Rightarrow> memory_store \<Rightarrow>
     ((session_error + memory_reader) \<times> memory_store) option" where
  "memory_fork source metadata selection st =
     (case assertOpen st of
        Inl e \<Rightarrow> Some (Inl e, st)
      | Inr _ \<Rightarrow>
          Option.bind (memory_forkRead source selection st) (\<lambda>r.
          Some (case r of
            Inl e \<Rightarrow> (Inl e, st)
          | Inr entries \<Rightarrow> (case addSession metadata entries st of (r, st) \<Rightarrow> (Inr r, st)))))"

definition memory_dispose :: "memory_store \<Rightarrow> memory_store" where
  "memory_dispose st = st\<lparr>st_disposed := True\<rparr>"

section \<open>Reads\<close>

definition readerEntries :: "memory_reader \<Rightarrow> memory_store \<Rightarrow> entry list" where
  "readerEntries r st = ms_entries (st_states st ! mr_state r)"

text \<open>Every read brings the index up to date first.\<close>

definition refresh :: "memory_reader \<Rightarrow> memory_store \<Rightarrow> memory_reader" where
  "refresh r st = r\<lparr>mr_index := updateIndex (mr_state r) (readerEntries r st) (mr_index r)\<rparr>"

definition memory_read ::
    "(entry list \<Rightarrow> array_reader \<Rightarrow> session_error + 'a) \<Rightarrow> memory_reader \<Rightarrow> memory_store \<Rightarrow>
     (session_error + 'a) \<times> memory_reader" where
  "memory_read f r st =
     (case assertOpen st of
        Inl e \<Rightarrow> (Inl e, r)
      | Inr _ \<Rightarrow> (let r = refresh r st in (f (readerEntries r st) (mr_index r), r)))"

definition memory_readHead where
  "memory_readHead = memory_read (\<lambda>_. readHead)"

definition memory_readEntry where
  "memory_readEntry i = memory_read (\<lambda>_ x. Inr (readEntry i x))"

definition memory_readEntries where
  "memory_readEntries afterEntrySeq limit = memory_read (\<lambda>entries _. Inr (readEntries afterEntrySeq limit entries))"

definition memory_findEntriesOnBranch where
  "memory_findEntriesOnBranch q = memory_read (\<lambda>_. findEntriesOnBranch q)"

definition memory_readPath ::
    "jsstring option \<Rightarrow> memory_reader \<Rightarrow> memory_store \<Rightarrow> ((session_error + entry list) \<times> memory_reader) option" where
  "memory_readPath leafId r st =
     (case assertOpen st of
        Inl e \<Rightarrow> Some (Inl e, r)
      | Inr _ \<Rightarrow>
          (let r = refresh r st
           in map_option (\<lambda>x. (x, r)) (readPathToRootOrCompaction leafId (mr_index r))))"

section \<open>Consistency\<close>

text \<open>Every session of the map has a state object of its own.\<close>

definition store_ok :: "memory_store \<Rightarrow> bool" where
  "store_ok st \<longleftrightarrow> distinct (map fst (st_sessions st)) \<and> distinct (map snd (st_sessions st))
     \<and> (\<forall>(i, a)\<in>set (st_sessions st). a < length (st_states st) \<and> md_id (ms_metadata (st_states st ! a)) = i)"

definition reader_ok :: "memory_reader \<Rightarrow> memory_store \<Rightarrow> bool" where
  "reader_ok r st \<longleftrightarrow> mr_state r < length (st_states st)
     \<and> indexed (mr_state r) (readerEntries r st) (mr_index r)"

lemma refresh_reader_of:
  "reader_ok r st \<Longrightarrow> mr_index (refresh r st) = reader_of (mr_state r) (readerEntries r st)"
  by (simp add: refresh_def reader_ok_def updateIndex_reader_of)

lemma indexed_extends: "indexed a es r \<Longrightarrow> indexed a (es @ es') r"
  by (auto simp: indexed_def)

lemma refresh_ok: "reader_ok r st \<Longrightarrow> reader_ok (refresh r st) st"
  using indexed_reader_of [of "mr_state r" "readerEntries r st" "[]"]
  by (simp add: reader_ok_def refresh_def updateIndex_reader_of readerEntries_def)

section \<open>The store under a session\<close>

text \<open>
  The operations a session of this metadata uses: \<open>appendEntry\<close> of the store, and the methods of
  the reader the session holds.
\<close>

definition memory_ops :: "session_metadata \<Rightarrow> (memory_reader \<times> memory_store) session_ops" where
  "memory_ops md = \<lparr>
     so_appendEntry = (\<lambda>e (r, st). case memory_appendEntry md e st of (x, st) \<Rightarrow> (x, r, st)),
     so_readHead = (\<lambda>(r, st). case memory_readHead r st of (x, r) \<Rightarrow> (x, r, st)),
     so_readEntry = (\<lambda>i (r, st). case memory_readEntry i r st of (x, r) \<Rightarrow> (x, r, st)),
     so_readEntries = (\<lambda>a l (r, st). case memory_readEntries a l r st of (x, r) \<Rightarrow> (x, r, st)),
     so_findEntriesOnBranch = (\<lambda>q (r, st). case memory_findEntriesOnBranch q r st of (x, r) \<Rightarrow> (x, r, st)),
     so_readPath = (\<lambda>l (r, st). map_option (\<lambda>(x, r). (x, r, st)) (memory_readPath l r st))\<rparr>"

definition opened :: "session_metadata \<Rightarrow> memory_reader \<times> memory_store \<Rightarrow> bool" where
  "opened md = (\<lambda>(r, st). store_ok st \<and> \<not> st_disposed st \<and> reader_ok r st
     \<and> map_of (st_sessions st) (md_id md) = Some (mr_state r))"

definition opened_entries :: "memory_reader \<times> memory_store \<Rightarrow> entry list" where
  "opened_entries = (\<lambda>(r, st). readerEntries r st)"

lemma readers_agree:
  "readHead (reader_of a es) = readHead (reader_of 0 es)"
  "readEntry i (reader_of a es) = readEntry i (reader_of 0 es)"
  "findEntriesOnBranch q (reader_of a es) = findEntriesOnBranch q (reader_of 0 es)"
  "readPathToRootOrCompaction l (reader_of a es) = readPathToRootOrCompaction l (reader_of 0 es)"
  by (simp_all add: readHead_def readEntry_def findEntriesOnBranch_def readPathToRootOrCompaction_def reader_of_def
      cong: option.case_cong if_cong)

lemma opened_refresh:
  assumes "opened md (r, st)"
  shows "opened md (refresh r st, st)" "opened_entries (refresh r st, st) = opened_entries (r, st)"
    "mr_index (refresh r st) = reader_of (mr_state r) (opened_entries (r, st))"
    "readerEntries (refresh r st) st = opened_entries (r, st)" "\<not> st_disposed st"
  using assms refresh_ok [of r st] refresh_reader_of [of r st]
  by (auto simp: opened_def opened_entries_def refresh_def readerEntries_def)

lemma opened_append:
  assumes "opened md (r, st)" "e_id e \<notin> ids (opened_entries (r, st))"
  shows "\<exists>st'. memory_appendEntry md e st = (Inr (), st') \<and> opened md (r, st')
    \<and> opened_entries (r, st') = opened_entries (r, st) @ [e]"
proof -
  define st' where "st' = st\<lparr>st_states := (st_states st)[mr_state r := (st_states st ! mr_state r)
    \<lparr>ms_entries := ms_entries (st_states st ! mr_state r) @ [e]\<rparr>]\<rparr>"
  have a: "mr_state r < length (st_states st)" "map_of (st_sessions st) (md_id md) = Some (mr_state r)"
    "\<not> st_disposed st" "store_ok st"
    using assms(1) by (auto simp: opened_def reader_ok_def)
  have "\<not> (\<exists>x\<in>set (ms_entries (st_states st ! mr_state r)). e_id x = e_id e)"
    using assms(2) by (auto simp: opened_entries_def readerEntries_def ids_def image_iff)
  then have "memory_appendEntry md e st = (Inr (), st')"
    using a by (simp add: memory_appendEntry_def assertOpen_def memory_getState_def bindE_def st'_def Let_def)
  moreover have "opened_entries (r, st') = opened_entries (r, st) @ [e]"
    using a(1) by (simp add: st'_def opened_entries_def readerEntries_def)
  moreover have "store_ok st'"
    using a(1,4) unfolding store_ok_def st'_def
    by (auto simp: nth_list_update split: prod.splits if_splits)
  then have "opened md (r, st')"
    using assms(1) a indexed_extends [of "mr_state r" "readerEntries r st" "mr_index r" "[e]"]
    by (auto simp: opened_def reader_ok_def st'_def readerEntries_def)
  ultimately show ?thesis
    by blast
qed

lemma opened_append_old:
  assumes "opened md (r, st)" "e_id e \<in> ids (opened_entries (r, st))"
  shows "memory_appendEntry md e st = (Inl (InvalidEntry (e_id e)), st)"
  using assms
  by (auto simp: memory_appendEntry_def opened_def assertOpen_def memory_getState_def bindE_def Let_def
      opened_entries_def readerEntries_def ids_def)

interpretation ms: session_store "memory_ops md" "opened md" opened_entries
proof (unfold_locales, goal_cases)
  case (1 s e)
  then show ?case
    using opened_append [of md "fst s" "snd s" e] by (cases s) (auto simp: memory_ops_def)
next
  case (2 s e)
  then show ?case
    using opened_append_old [of md "fst s" "snd s" e] by (cases s) (auto simp: memory_ops_def)
next
  case (3 s)
  then show ?case
    using opened_refresh [of md "fst s" "snd s"] readers_agree
    by (cases s) (simp add: memory_ops_def memory_readHead_def memory_read_def assertOpen_def Let_def)
next
  case (4 s i)
  then show ?case
    using opened_refresh [of md "fst s" "snd s"] readers_agree
    by (cases s) (simp add: memory_ops_def memory_readEntry_def memory_read_def assertOpen_def Let_def)
next
  case (5 s a l)
  then show ?case
    using opened_refresh [of md "fst s" "snd s"]
    by (cases s) (simp add: memory_ops_def memory_readEntries_def memory_read_def assertOpen_def Let_def)
next
  case (6 s q)
  then show ?case
    using opened_refresh [of md "fst s" "snd s"] readers_agree
    by (cases s) (simp add: memory_ops_def memory_findEntriesOnBranch_def memory_read_def assertOpen_def Let_def)
next
  case (7 s leaf)
  then show ?case
    using opened_refresh [of md "fst s" "snd s"] readers_agree(4) [of leaf "mr_state (fst s)" "opened_entries s"]
    by (intro exI [of _ "(refresh (fst s) (snd s), snd s)"])
      (cases s, simp add: memory_ops_def memory_readPath_def assertOpen_def Let_def option.map_comp comp_def)
qed

end
