(* ===== verification/SessionProps.thy ===== *)
theory SessionProps
  imports MemoryStore
begin

text \<open>
  Properties of sessions over the in-memory store: the invariants of the store and of a session
  under every sequence of calls, what an append, a move, a label and a fork do. They are instances
  of the session's laws through the interpretation \<open>ms\<close>.
\<close>

section \<open>The store in use\<close>

text \<open>One call of a method of the store, for the session it names.\<close>

inductive memory_step :: "jsstring \<Rightarrow> memory_store \<Rightarrow> memory_store \<Rightarrow> bool" where
  create: "memory_create md st = (r, st') \<Longrightarrow> memory_step (md_id md) st st'"
| append: "memory_appendEntry md e st = (r, st') \<Longrightarrow> memory_step (md_id md) st st'"
| delete: "memory_delete md st = (r, st') \<Longrightarrow> memory_step (md_id md) st st'"
| fork: "memory_fork source md selection st = Some (r, st') \<Longrightarrow> memory_step (md_id md) st st'"
| dispose: "memory_step i st (memory_dispose st)"

inductive_cases memory_stepE: "memory_step i st st'"

text \<open>What a step does to the state object of a reader: it may grow by one entry.\<close>

definition kept_object :: "jsstring \<Rightarrow> memory_reader \<Rightarrow> memory_store \<Rightarrow> memory_store \<Rightarrow> bool" where
  "kept_object i r st st' \<longleftrightarrow> reader_ok r st' \<and>
     (readerEntries r st' = readerEntries r st \<or>
      map_of (st_sessions st) i = Some (mr_state r) \<and> (\<exists>e. e_id e \<notin> ids (readerEntries r st)
        \<and> readerEntries r st' = readerEntries r st @ [e]))"

lemma kept_refl: "reader_ok r st \<Longrightarrow> kept_object i r st st"
  by (simp add: kept_object_def)

lemma addSession_ok:
  assumes "store_ok st" "addSession md es st = (r', st')"
  shows "store_ok st'" "reader_ok r st \<Longrightarrow> kept_object i r st st'"
    "readerEntries r' st' = es" "reader_ok r' st'" "map_of (st_sessions st') (md_id md) = Some (mr_state r')"
    "st_disposed st' = st_disposed st"
proof -
  let ?ss = "AList.update (md_id md) (length (st_states st)) (st_sessions st)"
  have st': "st' = st\<lparr>st_states := st_states st @ [\<lparr>ms_metadata = md, ms_entries = es\<rparr>], st_sessions := ?ss\<rparr>"
    "r' = newMemoryReader (length (st_states st))"
    using assms(2) by (simp_all add: addSession_def Let_def)
  have old: "\<forall>(i, a)\<in>set (st_sessions st). a < length (st_states st) \<and> md_id (ms_metadata (st_states st ! a)) = i"
    and d: "distinct (map fst (st_sessions st))" "distinct (map snd (st_sessions st))"
    using assms(1) by (auto simp: store_ok_def)
  have new: "(i, a) \<in> set ?ss \<longleftrightarrow> (if i = md_id md then a = length (st_states st) else (i, a) \<in> set (st_sessions st))" for i a
  proof -
    have "(i, a) \<in> set ?ss \<longleftrightarrow> map_of ?ss i = Some a"
      using map_of_eq_Some_iff [OF distinct_update [OF d(1)]] by simp
    also have "\<dots> \<longleftrightarrow> (if i = md_id md then a = length (st_states st) else map_of (st_sessions st) i = Some a)"
      by (auto simp: update_conv')
    also have "map_of (st_sessions st) i = Some a \<longleftrightarrow> (i, a) \<in> set (st_sessions st)"
      using map_of_eq_Some_iff [OF d(1)] by simp
    finally show ?thesis .
  qed
  have "inj_on snd (set ?ss)"
  proof (rule inj_onI)
    fix x y
    assume xy: "x \<in> set ?ss" "y \<in> set ?ss" "snd x = snd y"
    obtain i j a where [simp]: "x = (i, a)" "y = (j, a)"
      using xy(3) by (cases x; cases y) simp
    have lt: "(k, a) \<in> set (st_sessions st) \<Longrightarrow> a \<noteq> length (st_states st)" for k
      using old by fastforce
    have "inj_on snd (set (st_sessions st))"
      using d(2) by (simp add: distinct_map)
    then have "(i, a) \<in> set (st_sessions st) \<Longrightarrow> (j, a) \<in> set (st_sessions st) \<Longrightarrow> i = j"
      unfolding inj_on_def by fastforce
    then show "x = y"
      using xy(1,2) new [of i a] new [of j a] lt by (auto split: if_splits)
  qed
  moreover have "distinct ?ss"
    using d(1) by (meson distinct_map distinct_update)
  ultimately have "distinct (map snd ?ss)"
    by (simp add: distinct_map)
  moreover have "distinct (map fst ?ss)"
    using d(1) by (simp add: distinct_update)
  moreover have "a < length (st_states st') \<and> md_id (ms_metadata (st_states st' ! a)) = i" if "(i, a) \<in> set ?ss" for i a
    using that old new [of i a] by (auto simp: st' nth_append split: if_splits)
  ultimately show "store_ok st'"
    by (auto simp: store_ok_def st')
  show "readerEntries r' st' = es" "reader_ok r' st'" "st_disposed st' = st_disposed st"
    by (simp_all add: st' readerEntries_def newMemoryReader_def reader_ok_def)
  show "map_of (st_sessions st') (md_id md) = Some (mr_state r')"
    by (simp add: st' newMemoryReader_def update_conv')
  show "kept_object i r st st'" if "reader_ok r st"
    using that by (simp add: kept_object_def reader_ok_def readerEntries_def st' nth_append)
qed

lemma append_ok:
  assumes "store_ok st" "memory_appendEntry md e st = (x, st')"
  shows "store_ok st'" "reader_ok r st \<Longrightarrow> kept_object (md_id md) r st st'"
proof -
  consider (same) "st' = st" | (new) a where "map_of (st_sessions st) (md_id md) = Some a"
    "e_id e \<notin> ids (ms_entries (st_states st ! a))"
    "st' = st\<lparr>st_states := (st_states st)[a := (st_states st ! a)\<lparr>ms_entries := ms_entries (st_states st ! a) @ [e]\<rparr>]\<rparr>"
  proof (cases "st_disposed st \<or> map_of (st_sessions st) (md_id md) = None")
    case True
    then have "st' = st"
      using assms(2)
      by (cases "st_disposed st") (simp_all add: memory_appendEntry_def assertOpen_def memory_getState_def)
    then show ?thesis
      by (rule that(1))
  next
    case False
    then obtain a where a: "\<not> st_disposed st" "map_of (st_sessions st) (md_id md) = Some a"
      by auto
    have dup: "(\<exists>x\<in>set (ms_entries (st_states st ! a)). e_id x = e_id e) \<longleftrightarrow> e_id e \<in> ids (ms_entries (st_states st ! a))"
      by (simp add: ids_def image_iff eq_commute [of "e_id e"])
    show ?thesis
    proof (cases "e_id e \<in> ids (ms_entries (st_states st ! a))")
      case True
      then have "st' = st"
        using assms(2) a by (simp add: memory_appendEntry_def assertOpen_def memory_getState_def Let_def dup)
      then show ?thesis
        by (rule that(1))
    next
      case False
      have "st' = st\<lparr>st_states := (st_states st)[a := (st_states st ! a)\<lparr>ms_entries := ms_entries (st_states st ! a) @ [e]\<rparr>]\<rparr>"
        using assms(2) a False by (simp add: memory_appendEntry_def assertOpen_def memory_getState_def Let_def dup)
      then show ?thesis
        by (rule that(2) [OF a(2) False])
    qed
  qed
  then have "store_ok st' \<and> (reader_ok r st \<longrightarrow> kept_object (md_id md) r st st')"
  proof cases
    case new
    have "(md_id md, a) \<in> set (st_sessions st)"
      using new(1) by (rule map_of_SomeD)
    then have a: "a < length (st_states st)"
      using assms(1) by (auto simp: store_ok_def)
    have ok: "store_ok st'"
      using assms(1) a unfolding store_ok_def new(3) by (auto simp: nth_list_update split: prod.splits if_splits)
    have "kept_object (md_id md) r st st'" if "reader_ok r st"
    proof (cases "mr_state r = a")
      case True
      then show ?thesis
        using that new a indexed_extends [of a "readerEntries r st" "mr_index r" "[e]"]
        by (auto simp: kept_object_def reader_ok_def readerEntries_def)
    next
      case False
      then show ?thesis
        using that new by (simp add: kept_object_def reader_ok_def readerEntries_def)
    qed
    with ok show ?thesis
      by blast
  qed (use assms(1) kept_refl in blast)
  then show "store_ok st'" "reader_ok r st \<Longrightarrow> kept_object (md_id md) r st st'"
    by simp_all
qed

lemma delete_ok:
  assumes "store_ok st" "memory_delete md st = (x, st')"
  shows "store_ok st'" "st_states st' = st_states st"
proof -
  have "set (AList.delete k xs) \<subseteq> set xs" for k and xs :: "(jsstring \<times> nat) list"
    by (simp add: AList.delete_eq)
  moreover have "distinct (map fst (AList.delete k xs)) \<and> distinct (map snd (AList.delete k xs))"
    if "distinct (map fst xs)" "distinct (map snd xs)" for k and xs :: "(jsstring \<times> nat) list"
    using that by (simp add: AList.delete_eq distinct_map_filter)
  ultimately show "store_ok st'" "st_states st' = st_states st"
    using assms by (fastforce simp: memory_delete_def store_ok_def assertOpen_def split: if_splits)+
qed

lemma memory_step_ok:
  assumes "memory_step i st st'" "store_ok st"
  shows "store_ok st' \<and> (reader_ok r st \<longrightarrow> kept_object i r st st')"
  using assms(1)
proof cases
  case (create md x)
  show ?thesis
  proof (cases "st_disposed st")
    case True
    then show ?thesis
      using create(2) assms(2) kept_refl by (auto simp: memory_create_def assertOpen_def)
  next
    case False
    then have "addSession md [] st = (fst (addSession md [] st), st')"
      using create(2) by (auto simp: memory_create_def assertOpen_def split: prod.splits)
    from addSession_ok [OF assms(2) this] show ?thesis
      by blast
  qed
next
  case (append md e x)
  then show ?thesis
    using append_ok [OF assms(2)] by blast
next
  case (delete md x)
  then show ?thesis
    using delete_ok [OF assms(2) delete(2)] by (simp add: kept_object_def reader_ok_def readerEntries_def)
next
  case (fork source md selection x)
  show ?thesis
  proof (cases "st_disposed st")
    case True
    then show ?thesis
      using fork(2) assms(2) kept_refl by (auto simp: memory_fork_def assertOpen_def)
  next
    case False
    then obtain y where y: "memory_forkRead source selection st = Some y"
      using fork(2) by (cases "memory_forkRead source selection st") (simp_all add: memory_fork_def assertOpen_def)
    show ?thesis
    proof (cases y)
      case (Inl err)
      then show ?thesis
        using fork(2) y False assms(2) kept_refl by (auto simp: memory_fork_def assertOpen_def)
    next
      case (Inr entries)
      then have "addSession md entries st = (fst (addSession md entries st), st')"
        using fork(2) y False by (auto simp: memory_fork_def assertOpen_def split: prod.splits)
      from addSession_ok [OF assms(2) this] show ?thesis
        by blast
    qed
  qed
next
  case dispose
  then show ?thesis
    using assms(2) by (simp add: memory_dispose_def store_ok_def kept_object_def reader_ok_def readerEntries_def)
qed

section \<open>Sessions\<close>

definition session_log :: "(memory_reader \<times> memory_store) session \<Rightarrow> entry list" where
  "session_log ss = opened_entries (ss_store ss)"

text \<open>A session on an open store whose state is that of the stored entries.\<close>

definition sound :: "session_metadata \<Rightarrow> (memory_reader \<times> memory_store) session \<Rightarrow> bool" where
  "sound md ss \<longleftrightarrow> opened md (ss_store ss) \<and> tree_ok (session_log ss) \<and> ss_leafId ss = leaf_of (session_log ss)
     \<and> (ss_hydratedState ss = None \<or> ss_hydratedState ss = Some (hydrate (session_log ss)))"

lemma session_log_ms: "ms.session_entries = session_log"
  by (simp add: fun_eq_iff ms.session_entries_def session_log_def)

lemma sound_ms: "ms.session_ok md = sound md"
  by (simp add: fun_eq_iff ms.session_ok_def sound_def session_log_ms)

section \<open>Forks\<close>

lemma is_path_head: "is_path m e p \<Longrightarrow> e \<in> set p"
  by (induction rule: is_path.induct) simp_all

lemma path_tree_ok:
  "is_path m e p \<Longrightarrow> keyed m \<Longrightarrow> distinct (map e_id p) \<Longrightarrow>
   \<forall>x\<in>set p. e_id x \<noteq> [] \<and> e_parentId x \<noteq> Some [] \<and> (\<forall>t. e_body x \<noteq> LeafEntry t) \<Longrightarrow> tree_ok (rev p)"
proof (induction rule: is_path.induct)
  case (root e)
  then have "e_parentId e = None"
    by (cases "e_parentId e") auto
  then show ?case
    using root.prems by (auto simp: tree_ok_def entry_fits_def split: entry_body.split option.split)
next
  case (step e p q path)
  have "e_id q = p" "q \<in> set path"
    using step by (auto simp: keyed_def dest: is_path_head)
  then have "entry_fits (ids (rev path)) e"
    using step by (auto simp: entry_fits_def ids_def split: entry_body.split option.split)
  with step show ?case
    by simp
qed

lemma tree_ok_ids: "tree_ok es \<Longrightarrow> [] \<notin> ids es"
  by (induction es rule: rev_induct) (auto simp: entry_fits_def)

lemma tree_ok_parent:
  "tree_ok es \<Longrightarrow> e \<in> set es \<Longrightarrow> e_parentId e = Some p \<Longrightarrow> p \<in> ids es"
  by (induction es rule: rev_induct) (auto simp: entry_fits_def)

lemma tree_ok_entries:
  assumes "tree_ok es" "e \<in> set es"
  shows "e_id e \<noteq> []" "e_parentId e \<noteq> Some []"
proof -
  have "e_id e \<in> ids es"
    using assms(2) by (simp add: ids_def)
  then show "e_id e \<noteq> []"
    using tree_ok_ids [OF assms(1)] by auto
  show "e_parentId e \<noteq> Some []"
    using tree_ok_ids [OF assms(1)] tree_ok_parent [OF assms] by auto
qed

lemma fork_path:
  assumes "tree_ok es" "e \<in> set es"
  shows "\<exists>p. is_path (index_of es) e p \<and> readPathToRootOrCompaction (Some (e_id e)) (reader_of a es) = Some (Inr (rev (cut None p)))
    \<and> ((\<forall>x\<in>set es. \<not> is_compaction x \<and> (\<forall>t. e_body x \<noteq> LeafEntry t)) \<longrightarrow> cut None p = p \<and> tree_ok (rev p))"
proof -
  obtain p where p: "is_path (index_of es) e p" "set p \<subseteq> set es" "distinct (map e_id p)"
    using path_exists [OF assms] by blast
  have "cut None p = p \<and> tree_ok (rev p)" if "\<forall>x\<in>set es. \<not> is_compaction x \<and> (\<forall>t. e_body x \<noteq> LeafEntry t)"
    using that p cut_no_compaction [of p] path_tree_ok [OF p(1) _ p(3)] tree_ok_entries [OF assms(1)]
    by (auto simp: subset_iff)
  then show ?thesis
    using p(1) readPath_path [OF assms p(1)] by blast
qed

text \<open>The branch of the entry \<open>e\<close>, oldest first, as a fork copies it.\<close>

definition branch_copy :: "entry list \<Rightarrow> entry \<Rightarrow> entry list \<Rightarrow> bool" where
  "branch_copy es e copy \<longleftrightarrow> e \<in> set es \<and> (\<exists>p. is_path (index_of es) e p \<and> copy = rev (cut None p))"

definition fork_spec :: "fork_selection \<Rightarrow> entry list \<Rightarrow> session_error + entry list \<Rightarrow> bool" where
  "fork_spec selection es r \<longleftrightarrow> (case selection of
      ForkAll \<Rightarrow> r = Inr es
    | ThroughEntry i \<Rightarrow> (if i \<in> ids es then \<exists>e copy. e_id e = i \<and> branch_copy es e copy \<and> r = Inr copy
        else r = Inl (InvalidForkTarget i))
    | BeforeUserMessage i \<Rightarrow>
        (if \<exists>e\<in>set es. e_id e = i \<and> (\<exists>c t. e_body e = MessageEntry (UserMessage c t))
         then \<exists>e\<in>set es. e_id e = i \<and> (if e_parentId e = None then r = Inr []
            else \<exists>q copy. e_parentId e = Some (e_id q) \<and> branch_copy es q copy \<and> r = Inr copy)
         else r = Inl (InvalidForkTarget i)))"

lemma fork_read_spec:
  assumes "tree_ok es"
  shows "\<exists>x. readSessionEntriesForFork selection es (reader_of a es) = Some x \<and> fork_spec selection es x"
proof (cases selection)
  case ForkAll
  then show ?thesis
    by (simp add: readSessionEntriesForFork_def readEntries_def fork_spec_def)
next
  case (ThroughEntry i)
  show ?thesis
  proof (cases "i \<in> ids es")
    case True
    then obtain e where e: "e \<in> set es" "e_id e = i"
      by (auto simp: ids_def)
    then have "readEntry i (reader_of a es) = Some e"
      using lookup_index [OF assms] by (simp add: readEntry_def reader_of_def)
    moreover obtain p where "is_path (index_of es) e p"
      "readPathToRootOrCompaction (Some i) (reader_of a es) = Some (Inr (rev (cut None p)))"
      using fork_path [OF assms e(1), of a] e(2) by blast
    moreover have "branch_copy es e (rev (cut None p))"
      using calculation e(1) by (auto simp: branch_copy_def)
    ultimately show ?thesis
      using True ThroughEntry e
      by (intro exI [of _ "Inr (rev (cut None p))"]) (auto simp: readSessionEntriesForFork_def fork_spec_def)
  next
    case False
    then show ?thesis
      using lookup_index_None [OF assms, of i] ThroughEntry
      by (simp add: readSessionEntriesForFork_def fork_spec_def readEntry_def reader_of_def)
  qed
next
  case (BeforeUserMessage i)
  show ?thesis
  proof (cases "i \<in> ids es")
    case True
    then obtain e where e: "e \<in> set es" "e_id e = i"
      by (auto simp: ids_def)
    then have look: "readEntry i (reader_of a es) = Some e"
      using lookup_index [OF assms] by (simp add: readEntry_def reader_of_def)
    have uniq: "e' = e" if "e' \<in> set es" "e_id e' = i" for e'
      using lookup_index [OF assms, of i] that e by (metis option.inject)
    show ?thesis
    proof (cases "\<exists>c t. e_body e = MessageEntry (UserMessage c t)")
      case False
      then have "readSessionEntriesForFork selection es (reader_of a es) = Some (Inl (InvalidForkTarget i))"
        using look BeforeUserMessage
        by (simp add: readSessionEntriesForFork_def split: entry_body.split message.split)
      then show ?thesis
        using False uniq BeforeUserMessage by (auto simp: fork_spec_def)
    next
      case user: True
      then have run: "readSessionEntriesForFork selection es (reader_of a es)
          = readPathToRootOrCompaction (e_parentId e) (reader_of a es)"
        using look BeforeUserMessage by (auto simp: readSessionEntriesForFork_def)
      have spec: "fork_spec selection es x" if "if e_parentId e = None then x = Inr []
            else \<exists>q copy. e_parentId e = Some (e_id q) \<and> branch_copy es q copy \<and> x = Inr copy" for x
        using that user e BeforeUserMessage unfolding fork_spec_def by auto
      show ?thesis
      proof (cases "e_parentId e")
        case None
        then show ?thesis
          using run spec [of "Inr []"] by (simp add: readPathToRootOrCompaction_def)
      next
        case (Some p)
        then obtain q where q: "q \<in> set es" "e_id q = p"
          using tree_ok_parent [OF assms e(1)] by (auto simp: ids_def)
        then obtain path where "is_path (index_of es) q path"
          "readPathToRootOrCompaction (Some p) (reader_of a es) = Some (Inr (rev (cut None path)))"
          using fork_path [OF assms q(1), of a] by auto
        then show ?thesis
          using run Some q spec [of "Inr (rev (cut None path))"] by (auto simp: branch_copy_def)
      qed
    qed
  next
    case False
    then have "\<not> (\<exists>e\<in>set es. e_id e = i \<and> (\<exists>c t. e_body e = MessageEntry (UserMessage c t)))"
      by (auto simp: ids_def)
    then show ?thesis
      using False lookup_index_None [OF assms, of i] BeforeUserMessage
      by (auto simp: readSessionEntriesForFork_def fork_spec_def readEntry_def reader_of_def)
  qed
qed

lemma fork_spec_copy:
  assumes "tree_ok es" "fork_spec selection es (Inr copy)"
    and "\<forall>x\<in>set es. \<not> is_compaction x \<and> (\<forall>t. e_body x \<noteq> LeafEntry t)"
  shows "tree_ok copy"
proof -
  have "tree_ok c" if "branch_copy es e c" for e c
    using that fork_path [OF assms(1), of e] assms(3) is_path_unique [of "index_of es" e]
    by (metis branch_copy_def)
  then show ?thesis
    using assms(1,2) by (auto simp: fork_spec_def split: fork_selection.splits if_splits)
qed

lemma memory_fork_run:
  assumes "opened md (r, st)" "tree_ok (readerEntries r st)"
  shows "\<exists>x st'. memory_fork md md' selection st = Some (x, st') \<and> readerEntries r st' = readerEntries r st
    \<and> (case x of
         Inl err \<Rightarrow> st' = st \<and> fork_spec selection (readerEntries r st) (Inl err)
       | Inr r' \<Rightarrow> opened md' (r', st') \<and> fork_spec selection (readerEntries r st) (Inr (readerEntries r' st')))"
proof -
  obtain y where y: "readSessionEntriesForFork selection (readerEntries r st) (reader_of (mr_state r) (readerEntries r st)) = Some y"
    "fork_spec selection (readerEntries r st) y"
    using fork_read_spec [OF assms(2)] by blast
  have o: "store_ok st" "\<not> st_disposed st" "reader_ok r st" "map_of (st_sessions st) (md_id md) = Some (mr_state r)"
    using assms(1) by (simp_all add: opened_def)
  have read: "memory_forkRead md selection st = Some y"
    using y(1) o(4) updateIndex_reader_of [OF indexed_new, of "mr_state r" "[]"]
    by (simp add: memory_forkRead_def memory_getState_def readerEntries_def Let_def updateIndex_reader_of)
  show ?thesis
  proof (cases y)
    case (Inl err)
    then show ?thesis
      using y(2) read o(2) by (simp add: memory_fork_def assertOpen_def)
  next
    case (Inr entries)
    obtain r' st' where add: "addSession md' entries st = (r', st')"
      by fastforce
    note ok = addSession_ok [OF o(1) add]
    have "memory_fork md md' selection st = Some (Inr r', st')"
      using read o(2) add Inr by (simp add: memory_fork_def assertOpen_def)
    moreover have "readerEntries r st' = readerEntries r st"
      using add o(3) by (auto simp: addSession_def Let_def readerEntries_def reader_ok_def nth_append)
    ultimately show ?thesis
      using ok o(2) y(2) Inr by (auto simp: opened_def)
  qed
qed

text \<open>A branch cut before its root: its oldest entry names a parent the index does not have.\<close>

fun broken :: "index \<Rightarrow> entry list \<Rightarrow> bool" where
  "broken m [] = False"
| "broken m [e] = (\<exists>p. e_parentId e = Some p \<and> p \<noteq> [] \<and> fmlookup m p = None)"
| "broken m (e # q # xs) = (e_parentId e = Some (e_id q) \<and> e_id q \<noteq> [] \<and> broken m (q # xs))"

lemma walk_broken:
  "broken m xs \<Longrightarrow> \<forall>x\<in>set xs. fmlookup m (e_id x) = Some x \<Longrightarrow> \<forall>x. \<not> stops_at q x \<Longrightarrow>
   branchWalk m q visited acc (e_id (hd xs)) = Inl InvalidSession"
proof (induction m xs arbitrary: visited acc rule: broken.induct)
  case (2 m e)
  then show ?case
    by (subst branchWalk.simps) auto
next
  case (3 m e x xs)
  then show ?case
    by (subst branchWalk.simps) auto
qed simp

lemma prefix_broken:
  "is_path m e p \<Longrightarrow> keyed m \<Longrightarrow> p = xs @ y # ys \<Longrightarrow> xs \<noteq> [] \<Longrightarrow> fmlookup m' (e_id y) = None \<Longrightarrow> broken m' xs"
proof (induction arbitrary: xs rule: is_path.induct)
  case (root e)
  then show ?case
    by (cases xs) simp_all
next
  case (step e p q path)
  have q: "e_id q = p"
    using step.hyps(3) step.prems(1) by (simp add: keyed_def)
  obtain rest where rest: "path = q # rest"
    using step.hyps(4) by (cases rule: is_path.cases) auto
  obtain zs where xs: "xs = e # zs" "path = zs @ y # ys"
    using step.prems(2,3) by (cases xs) auto
  show ?case
  proof (cases zs)
    case Nil
    then show ?thesis
      using xs rest q step.hyps(1,2) step.prems(4) by simp
  next
    case (Cons z zs')
    then have "broken m' zs"
      using step.IH [OF step.prems(1) xs(2)] step.prems(4) by simp
    then show ?thesis
      using xs rest q step.hyps(1,2) Cons by simp
  qed
qed

lemma path_root: "is_path m e p \<Longrightarrow> p \<noteq> [] \<and> \<not> truthy (e_parentId (last p))"
  by (induction rule: is_path.induct) auto

lemma cut_is_prefix: "\<exists>ys. p = cut s p @ ys"
proof (induction p arbitrary: s)
  case (Cons e p)
  show ?case
  proof (cases "s = Some (e_id e)")
    case False
    have "\<exists>ys. p = cut k p @ ys" for k
      using Cons by blast
    then show ?thesis
      using False by (cases "e_body e") auto
  qed simp
qed simp

lemma index_of_distinct:
  "distinct (map e_id es) \<Longrightarrow> fmlookup (index_of es) i = Some e \<longleftrightarrow> e \<in> set es \<and> e_id e = i"
  by (induction es rule: rev_induct) (auto simp: image_iff)

lemma cut_branch_broken:
  assumes "tree_ok es" "branch_copy es e copy" "copy = x # xs" "e_parentId x \<noteq> None" "\<forall>x. \<not> stops_at q x"
  shows "branchWalk (index_of copy) q {} [] (e_id e) = Inl InvalidSession \<and> fmlookup (index_of copy) (e_id e) = Some e"
proof -
  obtain p where p: "is_path (index_of es) e p" "copy = rev (cut None p)" "e \<in> set es"
    using assms(2) by (auto simp: branch_copy_def)
  have d: "distinct (map e_id p)" "set p \<subseteq> set es"
    using path_exists [OF assms(1) p(3)] is_path_unique [OF _ p(1)] by blast+
  obtain ys where ys: "p = cut None p @ ys"
    using cut_is_prefix by blast
  have cutp: "cut None p = rev copy" "last (cut None p) = x" "cut None p \<noteq> []"
    using p(2) assms(3) by (simp, metis last_rev list.sel(1) rev_rev_ident, auto)
  have "x \<in> set es"
    using cutp d(2) ys last_in_set [OF cutp(3)] by (metis Un_iff set_append subsetD)
  then have "truthy (e_parentId x)"
    using tree_ok_entries(2) [OF assms(1)] assms(4) by (cases "e_parentId x") auto
  moreover have "\<not> truthy (e_parentId (last p))"
    using path_root [OF p(1)] by blast
  ultimately have "ys \<noteq> []"
    using ys cutp(2) by (metis append_Nil2)
  then obtain y zs where y: "p = cut None p @ y # zs"
    using ys by (cases ys) simp_all
  have "distinct (map e_id (cut None p @ y # zs))"
    using d(1) y by simp
  then have dc: "distinct (map e_id copy)" "e_id y \<notin> e_id ` set copy"
    using cutp(1) by (auto simp: rev_map [symmetric])
  then have "fmlookup (index_of copy) (e_id y) = None"
    using index_of_distinct [OF dc(1), of "e_id y"] by (metis image_eqI not_None_eq)
  then have "broken (index_of copy) (cut None p)"
    using prefix_broken [OF p(1) keyed_index_of y cutp(3)] by blast
  moreover have "hd (cut None p) = e"
  proof -
    have "hd p = e"
      using p(1) by (cases rule: is_path.cases) auto
    then show ?thesis
      using y cutp(3) by (metis hd_append2)
  qed
  moreover have "\<forall>z\<in>set (cut None p). fmlookup (index_of copy) (e_id z) = Some z"
    using index_of_distinct [OF dc(1)] cutp(1) by simp
  ultimately show ?thesis
    using walk_broken [OF _ _ assms(5)] cutp(3) by (metis list.set_sel(1))
qed

section \<open>Properties\<close>

definition sample_md :: session_metadata where
  "sample_md = \<lparr>md_id = js ''s'', md_createdAt = js ''t''\<rparr>"

definition sample_store :: "entry list \<Rightarrow> memory_store" where
  "sample_store es = \<lparr>st_states = [\<lparr>ms_metadata = sample_md, ms_entries = es\<rparr>],
     st_sessions = [(js ''s'', 0)], st_disposed = False\<rparr>"

definition sample_uuid :: "nat \<Rightarrow> jsstring" where
  "sample_uuid k = replicate 8 0x30 @ [0x30 + of_nat k]"

definition sample_open :: "(memory_reader \<times> memory_store) session" where
  "sample_open = \<lparr>ss_store = (newMemoryReader 0, sample_store sample_session), ss_leafId = Some (js ''x''),
     ss_hydratedState = None, ss_uuids = 0\<rparr>"

lemma sample_store_ok: "store_ok (sample_store es)" "reader_ok (newMemoryReader 0) (sample_store es)"
  by (simp_all add: store_ok_def sample_store_def sample_md_def reader_ok_def newMemoryReader_def)

lemma sample_opened: "opened sample_md (newMemoryReader 0, sample_store es)"
    "opened_entries (newMemoryReader 0, sample_store es) = es"
  using sample_store_ok
  by (simp_all add: opened_def sample_store_def sample_md_def newMemoryReader_def opened_entries_def readerEntries_def)

lemma sample_uuid_ok: "uuid_ok sample_uuid"
  by (simp add: uuid_ok_def sample_uuid_def)

lemma sample_leaf: "leaf_of sample_session = Some (js ''x'')"
  by (simp add: leaf_of_def sample_session_eval leaf_after_def)

lemma sample_open_sound: "sound sample_md sample_open" "session_log sample_open = sample_session"
  by (simp_all add: sound_def sample_open_def session_log_def sample_opened sample_tree_ok sample_leaf)

lemma sample_ids: "ids sample_session = {js ''a'', js ''b'', js ''c'', js ''d'', js ''x''}"
  by (simp add: sample_session_def sample_entry_def)

lemma sample_free: "short_id (sample_uuid (ss_uuids sample_open)) \<notin> ids (session_log sample_open)"
  unfolding sample_open_sound(2) sample_ids
  by (simp add: short_id_def sample_uuid_def sample_open_def numeral_eq_Suc)

text \<open>
  C20. The store keeps its sessions apart: every call keeps the map and the state objects consistent, and
  a reader sees its entries unchanged by it, or grown by one entry with a new identifier when the call
  named the session the reader reads; deleting or replacing the session in the map changes nothing for it.
\<close>

theorem memory_isolation:
  assumes "memory_step i st st'" "store_ok st" "reader_ok r st"
  shows "store_ok st' \<and> reader_ok r st' \<and>
    (readerEntries r st' = readerEntries r st \<or>
     map_of (st_sessions st) i = Some (mr_state r) \<and>
       (\<exists>e. e_id e \<notin> ids (readerEntries r st) \<and> readerEntries r st' = readerEntries r st @ [e]))"
  using memory_step_ok [OF assms(1,2), of r] assms(3) by (auto simp: kept_object_def)

theorem memory_isolation_witness:
  "readerEntries (newMemoryReader 0) (snd (memory_delete sample_md (sample_store sample_session))) = sample_session"
proof -
  have "memory_step (md_id sample_md) (sample_store sample_session) (snd (memory_delete sample_md (sample_store sample_session)))"
    by (rule memory_step.delete [OF surjective_pairing])
  from memory_isolation [OF this sample_store_ok] show ?thesis
    by (simp add: memory_delete_def assertOpen_def sample_store_def readerEntries_def newMemoryReader_def)
qed

text \<open>
  C21. A session opened on stored entries that form a tree can be created, and every sequence of its calls
  keeps the entries a tree, only adds entries, keeps its leaf the head of the stored entries and its
  hydrated state that of the entries; opening the session again finds the same leaf.
\<close>

theorem session_run_invariant:
  assumes "opened md s" "tree_ok (opened_entries s)" "uuid_ok uuid"
  shows "\<exists>ss. createSessionFromReader (memory_ops md) s = Inr ss \<and> sound md ss \<and>
    (\<forall>ss'. (session_step (memory_ops md) uuid)\<^sup>*\<^sup>* ss ss' \<longrightarrow>
      sound md ss' \<and> (\<exists>es. session_log ss' = opened_entries s @ es) \<and>
      (\<exists>again. createSessionFromReader (memory_ops md) (ss_store ss') = Inr again \<and> sound md again
        \<and> session_log again = session_log ss' \<and> ss_leafId again = ss_leafId ss'))"
proof -
  obtain ss where ss: "createSessionFromReader (memory_ops md) s = Inr ss" "sound md ss" "session_log ss = opened_entries s"
    using ms.open_spec [OF assms(1,2)] unfolding sound_ms session_log_ms by blast
  have "sound md ss' \<and> (\<exists>es. session_log ss' = opened_entries s @ es) \<and>
      (\<exists>again. createSessionFromReader (memory_ops md) (ss_store ss') = Inr again \<and> sound md again
        \<and> session_log again = session_log ss' \<and> ss_leafId again = ss_leafId ss')"
    if "(session_step (memory_ops md) uuid)\<^sup>*\<^sup>* ss ss'" for ss'
  proof -
    have g: "sound md ss'" "\<exists>es. session_log ss' = opened_entries s @ es"
      using ms.run_grown [OF that _ assms(3)] ss(2,3) unfolding ms.grown_def sound_ms session_log_ms by simp_all
    then have o: "opened md (ss_store ss')" "tree_ok (opened_entries (ss_store ss'))"
      "ss_leafId ss' = leaf_of (session_log ss')" "opened_entries (ss_store ss') = session_log ss'"
      by (simp_all add: sound_def session_log_def)
    show ?thesis
      using g ms.open_spec [OF o(1,2)] o(3,4) unfolding sound_ms session_log_ms by auto
  qed
  with ss show ?thesis
    by blast
qed

theorem session_run_invariant_witness:
  "\<exists>ss. createSessionFromReader (memory_ops sample_md) (newMemoryReader 0, sample_store sample_session) = Inr ss
    \<and> sound sample_md ss"
  using session_run_invariant [OF sample_opened(1) _ sample_uuid_ok, of sample_session]
  by (auto simp: sample_opened(2) sample_tree_ok)

text \<open>
  C22. What an append does, whatever its entry (a leaf entry, which \<open>moveTo\<close> writes, apart): it adds one entry with a new
  identifier below the current leaf and makes it the leaf; it fails, leaving entries and leaf as they
  were, only when the last eight characters of each of the next hundred identifiers are taken.
\<close>

theorem append_outcome:
  assumes "sound md ss" "uuid_ok uuid" "\<And>l. body \<noteq> LeafEntry l"
  shows "case appendTypedEntry (memory_ops md) uuid t body ss of
      (Inr i, ss') \<Rightarrow> sound md ss' \<and> i \<notin> ids (session_log ss) \<and> ss_leafId ss' = Some i \<and>
        session_log ss' = session_log ss @ [\<lparr>e_id = i, e_parentId = ss_leafId ss, e_timestamp = t, e_body = body\<rparr>]
    | (Inl _, ss') \<Rightarrow> sound md ss' \<and> session_log ss' = session_log ss \<and> ss_leafId ss' = ss_leafId ss \<and>
        (\<forall>k<100. short_id (uuid (ss_uuids ss + k)) \<in> ids (session_log ss))"
proof -
  have "ms.body_ok ss body"
    using assms(3) by (simp add: ms.body_ok_def split: entry_body.split)
  then obtain r ss' where r: "appendTypedEntry (memory_ops md) uuid t body ss = (r, ss')" "sound md ss'"
    "case r of Inr i \<Rightarrow> \<exists>e. e_id e = i \<and> ms.appended md ss t body e ss'
     | Inl err \<Rightarrow> ms.same_session md ss ss' \<and> (\<forall>k<100. short_id (uuid (ss_uuids ss + k)) \<in> ids (session_log ss))"
    using ms.appendTyped_spec [of md ss body uuid t] assms(1,2) unfolding sound_ms session_log_ms by blast
  show ?thesis
  proof (cases r)
    case (Inl err)
    then show ?thesis
      using r by (simp add: ms.same_session_def sound_ms session_log_ms)
  next
    case (Inr i)
    then obtain e where e: "e_id e = i" "session_log ss' = session_log ss @ [e]" "e_body e = body"
      "e_parentId e = ss_leafId ss" "e_timestamp e = t" "ss_leafId ss' = leaf_after e"
      using r(3) by (auto simp: ms.appended_def session_log_ms)
    have "i \<notin> ids (session_log ss)"
      using r(2) e(1,2) by (simp add: sound_def entry_fits_def)
    moreover have "leaf_after e = Some i"
      using assms(3) e(1,3) by (simp add: leaf_after_def split: entry_body.split)
    moreover have "e = \<lparr>e_id = i, e_parentId = ss_leafId ss, e_timestamp = t, e_body = body\<rparr>"
      using e by (cases e) simp
    ultimately show ?thesis
      using r(1,2) e(2,6) Inr by simp
  qed
qed

theorem append_outcome_witness:
  "\<exists>i ss'. appendTypedEntry (memory_ops sample_md) sample_uuid (js ''t'') (SessionInfo None) sample_open = (Inr i, ss')
    \<and> ss_leafId ss' = Some i \<and> session_log ss' = sample_session @ [\<lparr>e_id = i, e_parentId = Some (js ''x''),
        e_timestamp = js ''t'', e_body = SessionInfo None\<rparr>]"
proof -
  have free: "short_id (sample_uuid (ss_uuids sample_open + 0)) \<notin> ids (session_log sample_open)"
    using sample_free by simp
  obtain r ss' where r: "appendTypedEntry (memory_ops sample_md) sample_uuid (js ''t'') (SessionInfo None) sample_open = (r, ss')"
    by fastforce
  show ?thesis
    using append_outcome [OF sample_open_sound(1) sample_uuid_ok, of "SessionInfo None" "js ''t''"] free
    unfolding r by (cases r) (auto simp: sample_open_sound(2), simp_all add: sample_open_def)
qed

text \<open>
  Labels: labelling succeeds only for a stored entry, and afterwards \<open>getLabel\<close> returns the trimmed
  label for that entry, none when it is blank or undefined, and what it returned before for every other.
\<close>

theorem label_outcome:
  assumes "sound md ss" "uuid_ok uuid" "appendLabel (memory_ops md) uuid t target l ss = (Inr i, ss')"
  shows "target \<in> ids (session_log ss) \<and> fst (session_getLabel (memory_ops md) j ss') =
    (if j = target then Inr (case map_option trim l of Some (c # s) \<Rightarrow> Some (c # s) | _ \<Rightarrow> None)
     else fst (session_getLabel (memory_ops md) j ss))"
proof -
  have ok: "ms.session_ok md ss"
    using assms(1) by (simp add: sound_ms)
  note spec = ms.label_spec [OF ok assms(2,3)]
  obtain e where e: "session_log ss' = session_log ss @ [e]" "e_body e = LabelEntry target l"
    using spec(2) by (auto simp: session_log_ms)
  show ?thesis
    using e ms.getLabel_spec [OF ok, of j] ms.getLabel_spec [OF spec(1), of j] spec(3)
    by (auto simp: session_log_ms fold_applyProjection_snoc applyProjection_def Let_def truthy_def split: option.split list.split)
qed

theorem label_outcome_witness:
  "\<exists>ss'. fst (session_getLabel (memory_ops sample_md) (js ''a'') ss') = Inr (Some (js ''v1''))"
proof -
  note free = sample_free
  have a: "js ''a'' \<in> ids (session_log sample_open)"
    by (simp add: sample_open_sound(2) sample_ids)
  obtain i ss' where r: "appendLabel (memory_ops sample_md) sample_uuid (js ''t'') (js ''a'') (Some (js '' v1 '')) sample_open
      = (Inr i, ss')"
    using ms.label_fresh [of sample_md sample_open sample_uuid "js ''a''"] sample_open_sound(1) sample_uuid_ok free a
    unfolding sound_ms session_log_ms by blast
  have "trim (js '' v1 '') = 0x76 # [0x31]"
    by (simp add: trim_def trimStart_def trimEnd_def is_space_def cu_def)
  then show ?thesis
    using label_outcome [OF sample_open_sound(1) sample_uuid_ok r, of "js ''a''"] by (auto simp: cu_def)
qed



text \<open>
  C25. A fork of a session whose entries form a tree returns, leaves the source as it was, and copies all
  entries or the branch of the chosen entry cut at its last compaction; it is refused exactly when the
  chosen entry is missing or, for a fork before it, not a user message. The copy of a session without
  compactions and leaf entries is again a tree.
\<close>

theorem fork_outcome:
  assumes "opened md (r, st)" "tree_ok (readerEntries r st)"
  shows "\<exists>x st'. memory_fork md md' selection st = Some (x, st') \<and> readerEntries r st' = readerEntries r st
    \<and> (case x of
         Inl err \<Rightarrow> st' = st \<and> fork_spec selection (readerEntries r st) (Inl err)
       | Inr r' \<Rightarrow> opened md' (r', st') \<and> fork_spec selection (readerEntries r st) (Inr (readerEntries r' st'))
           \<and> ((\<forall>x\<in>set (readerEntries r st). \<not> is_compaction x \<and> (\<forall>t. e_body x \<noteq> LeafEntry t))
               \<longrightarrow> tree_ok (readerEntries r' st')))"
  using memory_fork_run [OF assms, of md' selection] fork_spec_copy [OF assms(2)]
  by (fastforce split: sum.splits)

theorem fork_outcome_witness:
  "\<exists>x st'. memory_fork sample_md \<lparr>md_id = js ''f'', md_createdAt = js ''t''\<rparr> ForkAll (sample_store sample_session) = Some (x, st')
    \<and> readerEntries (newMemoryReader 0) st' = sample_session"
  using fork_outcome [OF sample_opened(1) _, of sample_session "\<lparr>md_id = js ''f'', md_createdAt = js ''t''\<rparr>" ForkAll]
    sample_opened(2) [of sample_session] sample_tree_ok
  by (auto simp: opened_entries_def)

text \<open>
  C26. A fork through an entry of a compacted branch copies a branch whose oldest entry names a parent the
  copy does not have. On such a copy the branch query from that entry, which the source answers, fails
  as an invalid session.
\<close>

theorem fork_of_compacted_branch:
  assumes "opened md (r, st)" "tree_ok (readerEntries r st)" "memory_fork md md' (ThroughEntry i) st = Some (Inr r', st')"
    and "readerEntries r' st' = x # xs" "e_parentId x \<noteq> None"
    and "q_start q = Some i" "q_stopAtType q = None" "q_stopAtId q = None" "q_limit q = None"
  shows "fst (memory_findEntriesOnBranch q r' st') = Inl InvalidSession
    \<and> (\<exists>found. fst (memory_findEntriesOnBranch q r st) = Inr found)"
proof -
  have o': "opened md' (r', st')" and spec: "fork_spec (ThroughEntry i) (readerEntries r st) (Inr (x # xs))"
    using memory_fork_run [OF assms(1,2), of md' "ThroughEntry i"] assms(3,4) by auto
  then obtain e where e: "e_id e = i" "branch_copy (readerEntries r st) e (x # xs)"
    by (auto simp: fork_spec_def split: if_splits)
  have stop: "\<forall>y. \<not> stops_at q y"
    using assms(7,8) by (simp add: stops_at_def)
  have run: "fst (memory_findEntriesOnBranch q s su) = findEntriesOnBranch q (reader_of (mr_state s) (readerEntries s su))"
    if "opened m (s, su)" for m s su
    using opened_refresh [OF that] by (simp add: memory_findEntriesOnBranch_def memory_read_def assertOpen_def opened_entries_def)
  have "fst (memory_findEntriesOnBranch q r' st') = Inl InvalidSession"
    using cut_branch_broken [OF assms(2) e(2) refl assms(5) stop] e(1) assms(4,6,9)
    by (simp add: run [OF o'] findEntriesOnBranch_def reader_of_def)
  moreover obtain p where "is_path (index_of (readerEntries r st)) e p" "distinct (map e_id p)" "e \<in> set (readerEntries r st)"
    using e(2) path_exists [OF assms(2), of e] by (auto simp: branch_copy_def)
  then have "fst (memory_findEntriesOnBranch q r st) = Inr (query_spec q p)"
    using findEntriesOnBranch_path [OF assms(2), of e p q] e(1) assms(6,9) by (simp add: run [OF assms(1)])
  ultimately show ?thesis
    by blast
qed

lemma sample_fork:
  "\<exists>r' st'. memory_fork sample_md \<lparr>md_id = js ''f'', md_createdAt = js ''t''\<rparr> (ThroughEntry (js ''d'')) (sample_store sample_session)
      = Some (Inr r', st') \<and> readerEntries r' st' = drop 1 sample_branch"
proof -
  have d: "e = sample_session ! 3" if "e \<in> set sample_session" "e_id e = js ''d''" for e
    using that by (auto simp: sample_session_eval cu_def)
  have "rev (cut None (rev sample_branch)) = drop 1 sample_branch"
    by (simp add: sample_branch_def sample_session_eval cu_def numeral_eq_Suc)
  then have copy: "c = drop 1 sample_branch" if "branch_copy sample_session e c" "e_id e = js ''d''" for e c
    using that d [of e] is_path_unique [OF sample_branch_path] by (auto simp: branch_copy_def)
  have mem: "js ''d'' \<in> ids sample_session"
    by (simp add: sample_ids)
  have entries: "readerEntries (newMemoryReader 0) (sample_store sample_session) = sample_session"
    using sample_opened(2) [of sample_session] by (simp add: opened_entries_def)
  obtain x st' where x: "memory_fork sample_md \<lparr>md_id = js ''f'', md_createdAt = js ''t''\<rparr> (ThroughEntry (js ''d''))
      (sample_store sample_session) = Some (x, st')"
    "case x of Inl err \<Rightarrow> st' = sample_store sample_session \<and> fork_spec (ThroughEntry (js ''d'')) sample_session (Inl err)
     | Inr r' \<Rightarrow> opened \<lparr>md_id = js ''f'', md_createdAt = js ''t''\<rparr> (r', st')
         \<and> fork_spec (ThroughEntry (js ''d'')) sample_session (Inr (readerEntries r' st'))"
    using memory_fork_run [OF sample_opened(1), of sample_session "\<lparr>md_id = js ''f'', md_createdAt = js ''t''\<rparr>"
        "ThroughEntry (js ''d'')", unfolded entries, OF sample_tree_ok] by blast
  show ?thesis
  proof (cases x)
    case (Inl err)
    then show ?thesis
      using x(2) mem by (simp only: fork_spec_def sum.case fork_selection.case if_True simp_thms) blast
  next
    case (Inr r')
    have "readerEntries r' st' = drop 1 sample_branch"
      using x(2) mem copy Inr by (simp only: fork_spec_def sum.case fork_selection.case if_True) blast
    then show ?thesis
      using x(1) Inr by blast
  qed
qed

theorem fork_of_compacted_branch_witness:
  "\<exists>r' st'. fst (memory_findEntriesOnBranch \<lparr>q_start = Some (js ''d''), q_stopAtType = None, q_stopAtId = None,
      q_type = None, q_customType = None, q_oldestFirst = False, q_limit = None\<rparr> r' st') = Inl InvalidSession"
proof -
  obtain r' st' where r: "memory_fork sample_md \<lparr>md_id = js ''f'', md_createdAt = js ''t''\<rparr> (ThroughEntry (js ''d''))
      (sample_store sample_session) = Some (Inr r', st')" "readerEntries r' st' = drop 1 sample_branch"
    using sample_fork by blast
  have t: "tree_ok (readerEntries (newMemoryReader 0) (sample_store sample_session))"
    using sample_opened(2) [of sample_session] sample_tree_ok by (simp add: opened_entries_def)
  have "readerEntries r' st' = (sample_session ! 1) # [sample_session ! 2, sample_session ! 3]"
    by (simp add: r(2) sample_branch_def sample_session_def numeral_eq_Suc)
  from fork_of_compacted_branch [OF sample_opened(1) t r(1) this] show ?thesis
    by (force simp: sample_session_def sample_entry_def)
qed

end
