(* ===== verification/BranchSummaries.thy ===== *)
theory BranchSummaries
  imports Compaction SessionProps
begin

text \<open>
  Summaries of branches that are left (\<open>packages/agent/src/harness/compaction/branch-summarization.ts\<close>):
  which entries leaving a branch abandons, which of their messages fit the budget of tokens, and the
  request for the summary. The session is any store behind the interface of \<open>StoreSession\<close>; the model
  behind its retries is the parameter \<open>ask\<close>, as in \<open>Compaction\<close>.
\<close>

section \<open>The entries that are left\<close>

record collected =
  ce_entries :: "entry list"
  ce_commonAncestorId :: "jsstring option"

text \<open>The last entry of the target path that the old path has too.\<close>

definition commonAncestor :: "jsstring set \<Rightarrow> entry list \<Rightarrow> jsstring option" where
  "commonAncestor oldPath targetPath = map_option e_id (List.find (\<lambda>e. e_id e \<in> oldPath) (rev targetPath))"

text \<open>The walk up from the old leaf; like the session's own walk to the root it does not look for cycles.\<close>

partial_function (option) collectLoop ::
    "'s session_ops \<Rightarrow> jsstring option \<Rightarrow> jsstring option \<Rightarrow> entry list \<Rightarrow> 's session \<Rightarrow>
     ((session_error + entry list) \<times> 's session) option" where
  "collectLoop ops commonAncestorId current entries ss =
     (if \<not> truthy current \<or> current = commonAncestorId then Some (Inr entries, ss)
      else (case session_getEntry ops (the current) ss of
          (r, ss) \<Rightarrow> (case r of
              Inl err \<Rightarrow> Some (Inl err, ss)
            | Inr found \<Rightarrow> (case found of
                None \<Rightarrow> Some (Inl InvalidSession, ss)
              | Some e \<Rightarrow> collectLoop ops commonAncestorId (e_parentId e) (entries @ [e]) ss))))"

declare pathLoop.simps [code] collectLoop.simps [code]

definition collectEntriesForBranchSummary ::
    "'s session_ops \<Rightarrow> jsstring option \<Rightarrow> jsstring \<Rightarrow> 's session \<Rightarrow>
     ((session_error + collected) \<times> 's session) option" where
  "collectEntriesForBranchSummary ops oldLeafId targetId ss =
     (if \<not> truthy oldLeafId then Some (Inr \<lparr>ce_entries = [], ce_commonAncestorId = None\<rparr>, ss)
      else Option.bind (session_getBranch ops (Some oldLeafId) ss) (\<lambda>(r, ss). case r of
          Inl err \<Rightarrow> Some (Inl err, ss)
        | Inr oldBranch \<Rightarrow>
            Option.bind (session_getBranch ops (Some (Some targetId)) ss) (\<lambda>(r, ss). case r of
                Inl err \<Rightarrow> Some (Inl err, ss)
              | Inr targetPath \<Rightarrow>
                  (let ancestor = commonAncestor (e_id ` set oldBranch) targetPath
                   in map_option (\<lambda>(r, ss). (bindE r (\<lambda>entries.
                          Inr \<lparr>ce_entries = rev entries, ce_commonAncestorId = ancestor\<rparr>), ss))
                        (collectLoop ops ancestor oldLeafId [] ss)))))"

section \<open>The messages of a branch\<close>

text \<open>Results of tools stay out: their calls are in the messages of the assistant.\<close>

definition branchMessage :: "entry \<Rightarrow> message option" where
  "branchMessage e = (case e_body e of
       MessageEntry m \<Rightarrow> if role_of m = RToolResult then None else Some m
     | CustomMessageEntry customType content display details \<Rightarrow>
         Some (createCustomMessage customType content display details (e_timestamp e))
     | BranchSummaryEntry s \<Rightarrow> Some (createBranchSummaryMessage (s_summary s) (s_fromId s) (e_timestamp e))
     | CompactionEntry k \<Rightarrow> Some (createCompactionSummaryMessage (k_summary k) (k_tokensBefore k) (e_timestamp e))
     | _ \<Rightarrow> None)"

record branch_preparation =
  bp_messages :: "message list"
  bp_fileOps :: file_ops
  bp_totalTokens :: int

definition addSummaryDetails :: "entry \<Rightarrow> file_ops \<Rightarrow> file_ops" where
  "addSummaryDetails e ops =
     (case e_body e of BranchSummaryEntry s \<Rightarrow> addDetails (s_fromHook s) (s_details s) ops | _ \<Rightarrow> ops)"

definition unshiftMessage :: "message \<Rightarrow> int \<Rightarrow> branch_preparation \<Rightarrow> branch_preparation" where
  "unshiftMessage m tokens b = b\<lparr>bp_messages := m # bp_messages b, bp_totalTokens := bp_totalTokens b + tokens\<rparr>"

text \<open>The loop over the entries, the newest first. \<open>0.9 * tokenBudget\<close> is compared exactly: below
  \<open>2 ^ 49\<close> the product of the doubles is the integer when it is one and stays between the same integers
  else.\<close>

fun budgetLoop :: "int \<Rightarrow> entry list \<Rightarrow> branch_preparation \<Rightarrow> branch_preparation" where
  "budgetLoop tokenBudget [] b = b"
| "budgetLoop tokenBudget (e # es) b =
     (case branchMessage e of
        None \<Rightarrow> budgetLoop tokenBudget es b
      | Some m \<Rightarrow>
          (let b = b\<lparr>bp_fileOps := extractFileOpsFromMessage m (bp_fileOps b)\<rparr>; tokens = estimateTokens m
           in if tokenBudget > 0 \<and> bp_totalTokens b + tokens > tokenBudget
              then (if (entry_type e = TCompaction \<or> entry_type e = TBranchSummary)
                       \<and> 10 * bp_totalTokens b < 9 * tokenBudget
                    then unshiftMessage m tokens b else b)
              else budgetLoop tokenBudget es (unshiftMessage m tokens b)))"

definition prepareBranchEntries :: "entry list \<Rightarrow> int \<Rightarrow> branch_preparation" where
  "prepareBranchEntries entries tokenBudget =
     budgetLoop tokenBudget (rev entries)
       \<lparr>bp_messages = [], bp_fileOps = fold addSummaryDetails entries createFileOps, bp_totalTokens = 0\<rparr>"

definition BRANCH_SUMMARY_PREAMBLE :: jsstring where
  "BRANCH_SUMMARY_PREAMBLE = join [NL] [
     js ''The user explored a different conversation branch before returning here.'',
     js ''Summary of that exploration:'',
     [],
     []]"

definition BRANCH_SUMMARY_PROMPT :: jsstring where
  "BRANCH_SUMMARY_PROMPT = join [NL] [
     js ''Create a structured summary of this conversation branch for context when returning later.'',
     [],
     js ''Use this EXACT format:'',
     [],
     js ''## Goal'',
     js ''[What was the user trying to accomplish in this branch?]'',
     [],
     js ''## Constraints & Preferences'',
     js ''- [Any constraints, preferences, or requirements mentioned]'',
     js ''- [Or \"(none)\" if none were mentioned]'',
     [],
     js ''## Progress'',
     js ''### Done'',
     js ''- [x] [Completed tasks/changes]'',
     [],
     js ''### In Progress'',
     js ''- [ ] [Work that was started but not finished]'',
     [],
     js ''### Blocked'',
     js ''- [Issues preventing progress, if any]'',
     [],
     js ''## Key Decisions'',
     js ''- **[Decision]**: [Brief rationale]'',
     [],
     js ''## Next Steps'',
     js ''1. [What should happen next to continue this work]'',
     [],
     js ''Keep each section concise. Preserve exact file paths, function names, and error messages.'']"

section \<open>The summary\<close>

datatype branch_summary_error = BranchSummaryAborted jsstring | BranchSummaryFailed jsstring | BranchSummaryInvalid jsstring

record branch_summary_options =
  bo_customInstructions :: "jsstring option"
  bo_replaceInstructions :: bool
  bo_reserveTokens :: "int option"

record branch_summary_result =
  bs_summary :: jsstring
  bs_usage :: "usage option"
  bs_readFiles :: "jsstring list"
  bs_modifiedFiles :: "jsstring list"

definition branchInstructions :: "branch_summary_options \<Rightarrow> jsstring" where
  "branchInstructions options =
     (if bo_replaceInstructions options \<and> truthy (bo_customInstructions options) then the (bo_customInstructions options)
      else if truthy (bo_customInstructions options)
      then BRANCH_SUMMARY_PROMPT @ [NL, NL] @ js ''Additional focus: '' @ the (bo_customInstructions options)
      else BRANCH_SUMMARY_PROMPT)"

definition errorTextOr :: "assistant \<Rightarrow> jsstring \<Rightarrow> jsstring" where
  "errorTextOr a alternative = (if truthy (a_errorMessage a) then the (a_errorMessage a) else alternative)"

definition generateBranchSummary ::
    "'w asker \<Rightarrow> entry list \<Rightarrow> model \<Rightarrow> branch_summary_options \<Rightarrow> 'w \<Rightarrow>
     (branch_summary_error + branch_summary_result) \<times> 'w" where
  "generateBranchSummary ask entries mo options w =
     (let reserveTokens = (case bo_reserveTokens options of None \<Rightarrow> 16384 | Some n \<Rightarrow> n);
          contextWindow = (if mo_contextWindow mo = 0 then 128000 else mo_contextWindow mo);
          b = prepareBranchEntries entries (contextWindow - reserveTokens)
      in if bp_messages b = []
         then (Inr \<lparr>bs_summary = js ''No content to summarize'', bs_usage = None, bs_readFiles = [], bs_modifiedFiles = []\<rparr>, w)
         else
           (let (response, w) = ask mo \<lparr>sq_systemPrompt = SUMMARIZATION_SYSTEM_PROMPT,
                   sq_prompt = conversationTag (bp_messages b) @ branchInstructions options,
                   sq_maxTokens = 2048, sq_reasoning = None\<rparr> w
            in if a_stopReason response = Aborted
               then (Inl (BranchSummaryAborted (errorTextOr response (js ''Branch summary aborted''))), w)
               else if a_stopReason response = StopError
               then (Inl (BranchSummaryFailed (js ''Branch summary failed: '' @ errorTextOr response (js ''Unknown error''))), w)
               else
                 (let (readFiles, modifiedFiles) = computeFileLists (bp_fileOps b);
                      summary = BRANCH_SUMMARY_PREAMBLE @ blocksText (a_content response) [NL]
                        @ formatFileOperations readFiles modifiedFiles
                  in (Inr \<lparr>bs_summary = (if summary = [] then js ''No summary generated'' else summary),
                        bs_usage = a_usage response, bs_readFiles = readFiles, bs_modifiedFiles = modifiedFiles\<rparr>, w))))"

section \<open>Which entries are collected\<close>

lemma path_from: "is_path m e p \<Longrightarrow> x \<in> set p \<Longrightarrow> \<exists>a s. p = a @ s \<and> is_path m x s"
proof (induction rule: is_path.induct)
  case (root e)
  then show ?case
    using is_path.root by fastforce
next
  case (step e q f path)
  show ?case
  proof (cases "x = e")
    case True
    then show ?thesis
      using is_path.step [OF step.hyps] by (intro exI [of _ "[]"] exI [of _ "e # path"]) simp
  next
    case False
    then obtain a s where "path = a @ s" "is_path m x s"
      using step by auto
    then show ?thesis
      by (intro exI [of _ "e # a"] exI [of _ s]) simp
  qed
qed

lemma path_starts: "is_path m e p \<Longrightarrow> \<exists>s. p = e # s"
  by (induction rule: is_path.induct) simp_all

text \<open>What two paths share is one tail of both.\<close>

lemma paths_share_tail:
  assumes "is_path m e p" "is_path m f q" "x \<in> set p" "x \<in> set q"
  shows "\<exists>a b s. p = a @ x # s \<and> q = b @ x # s"
proof -
  obtain a s b s' where "p = a @ s" "is_path m x s" "q = b @ s'" "is_path m x s'"
    using path_from [OF assms(1,3)] path_from [OF assms(2,4)] by blast
  then show ?thesis
    using is_path_unique [of m x s s'] path_starts [of m x s] by blast
qed

lemma collected_below:
  assumes p: "is_path m e p" "distinct p" and q: "is_path m f q" "distinct q"
    and P: "p = P @ P'" and Q: "q = Q @ Q'"
    and x: "Q = b @ x # b'" "x \<in> set P" "\<forall>y\<in>set b. y \<notin> set P"
  shows "\<exists>a s. p = a @ x # s \<and> set a \<inter> set q = {} \<and> set (x # s) \<subseteq> set q"
proof -
  have "x \<in> set p" "x \<in> set q"
    using P Q x by auto
  then obtain a b0 s where s: "p = a @ x # s" "q = b0 @ x # s"
    using paths_share_tail [OF p(1) q(1)] by blast
  have b: "b0 = b"
    using q(2) s(2) Q x(1) by (auto simp: append_eq_append_conv2 append_eq_Cons_conv Cons_eq_append_conv)
  have "set a \<subseteq> set P"
  proof -
    obtain c c' where P2: "P = c @ x # c'"
      using x(2) by (auto dest: split_list)
    then have "a = c"
      using p(2) s(1) P by (auto simp: append_eq_append_conv2 append_eq_Cons_conv Cons_eq_append_conv)
    with P2 show ?thesis by auto
  qed
  then have "set a \<inter> set q = {}"
    using x(3) p(2) s b by auto
  then show ?thesis
    using s by auto
qed


lemma takeWhile_True [simp]: "takeWhile (\<lambda>_. True) xs = xs"
  by (induction xs) simp_all

text \<open>What a walk from the entry \<open>e\<close> of the path \<open>p\<close> collects when it knows \<open>P\<close> of the old path and
  \<open>Q\<close> of the target path.\<close>

definition collected_spec :: "entry list \<Rightarrow> entry list \<Rightarrow> entry list \<Rightarrow> entry list \<Rightarrow> collected" where
  "collected_spec p P q Q =
     (if set P \<inter> set Q = {} then \<lparr>ce_entries = rev p, ce_commonAncestorId = None\<rparr>
      else \<lparr>ce_entries = rev (filter (\<lambda>e. e \<notin> set q) p),
             ce_commonAncestorId = Some (e_id (hd (filter (\<lambda>e. e \<in> set q) p)))\<rparr>)"

lemma collected_spec_eq:
  assumes p: "is_path m e p" "distinct (map e_id p)" and q: "is_path m f q" "distinct (map e_id q)"
    and P: "p = P @ P'" and Q: "q = Q @ Q'" and inj: "inj_on e_id (set p \<union> set q)"
  shows "collected_spec p P q Q =
    (let ancestor = commonAncestor (e_id ` set P) (rev Q)
     in \<lparr>ce_entries = rev (takeWhile (\<lambda>x. Some (e_id x) \<noteq> ancestor) p), ce_commonAncestorId = ancestor\<rparr>)"
proof -
  have mem: "e_id y \<in> e_id ` set P \<longleftrightarrow> y \<in> set P" if "y \<in> set Q" for y
    using inj that P Q by (auto simp: inj_on_def)
  show ?thesis
  proof (cases "List.find (\<lambda>y. e_id y \<in> e_id ` set P) Q")
    case None
    then have "set P \<inter> set Q = {}"
      using mem by (auto simp: find_None_iff)
    then show ?thesis
      using None by (simp add: collected_spec_def commonAncestor_def)
  next
    case (Some x)
    then obtain i where i: "i < length Q" "e_id (Q ! i) \<in> e_id ` set P" "x = Q ! i"
        "\<forall>j<i. e_id (Q ! j) \<notin> e_id ` set P"
      by (auto simp: find_Some_iff)
    have Qs: "Q = take i Q @ x # drop (Suc i) Q"
      using i(1,3) by (simp add: id_take_nth_drop)
    have "\<forall>y\<in>set (take i Q). y \<notin> set P"
    proof
      fix y
      assume "y \<in> set (take i Q)"
      then obtain j where "j < i" "y = Q ! j"
        by (auto simp: in_set_conv_nth)
      then show "y \<notin> set P"
        using i(4) by blast
    qed
    moreover have xP: "x \<in> set P" "x \<in> set Q"
      using mem i by (metis nth_mem)+
    ultimately obtain a s where s: "p = a @ x # s" "set a \<inter> set q = {}" "set (x # s) \<subseteq> set q"
      using collected_below [OF p(1) _ q(1) _ P Q Qs xP(1)] p(2) q(2) unfolding distinct_map by blast
    have "\<forall>y\<in>set a. e_id y \<noteq> e_id x"
      using p(2) by (auto simp: s(1) image_iff)
    then have "takeWhile (\<lambda>y. Some (e_id y) \<noteq> Some (e_id x)) p = a"
      by (simp add: s(1) takeWhile_append2)
    moreover have "filter (\<lambda>y. y \<notin> set q) a = a" "filter (\<lambda>y. y \<in> set q) a = []"
      "filter (\<lambda>y. y \<notin> set q) (x # s) = []" "filter (\<lambda>y. y \<in> set q) (x # s) = x # s"
      using s(2,3) unfolding filter_empty_conv filter_id_conv by blast+
    then have "filter (\<lambda>y. y \<notin> set q) p = a" "filter (\<lambda>y. y \<in> set q) p = x # s"
      unfolding s(1) filter_append by simp_all
    moreover have "set P \<inter> set Q \<noteq> {}"
      using xP by blast
    ultimately show ?thesis
      using Some by (simp add: collected_spec_def commonAncestor_def)
  qed
qed

context session_store
begin

lemma same_session_refl: "session_ok ss \<Longrightarrow> same_session ss ss"
  by (simp add: same_session_def)

lemma collectLoop_path:
  assumes "is_path m e p" "m = index_of (session_entries ss)" "tree_ok (session_entries ss)" "set p \<subseteq> set (session_entries ss)"
    and "session_ok ss"
  shows "\<exists>ss'. collectLoop ops ancestor (Some (e_id e)) acc ss
      = Some (Inr (acc @ takeWhile (\<lambda>x. Some (e_id x) \<noteq> ancestor) p), ss') \<and> same_session ss ss'"
  using assms
proof (induction arbitrary: acc ss rule: is_path.induct)
  case (root e)
  then have e: "fmlookup (index_of (session_entries ss)) (e_id e) = Some e" "e_id e \<noteq> []"
    using lookup_index tree_ok_entries(1) by auto
  obtain ss' where "session_getEntry ops (e_id e) ss = (Inr (Some e), ss')" "same_session ss ss'"
    using getEntry_spec [OF root.prems(4), of "e_id e"] e(1) by auto
  then show ?case
    using e(2) root.hyps same_session_refl [OF root.prems(4)]
    by (subst collectLoop.simps) (simp add: collectLoop.simps)
next
  case (step e q f path)
  have e: "fmlookup (index_of (session_entries ss)) (e_id e) = Some e" "e_id e \<noteq> []"
    using step.prems lookup_index tree_ok_entries(1) by auto
  obtain ss1 where s1: "session_getEntry ops (e_id e) ss = (Inr (Some e), ss1)" "same_session ss ss1"
    using getEntry_spec [OF step.prems(4), of "e_id e"] e(1) by auto
  then have same: "session_entries ss1 = session_entries ss" "session_ok ss1"
    by (simp_all add: same_session_def)
  have "e_id f = q"
    using step.hyps(3) step.prems(1) keyed_index_of by (simp add: keyed_def)
  moreover obtain ss2 where "collectLoop ops ancestor (Some (e_id f)) (acc @ [e]) ss1
      = Some (Inr ((acc @ [e]) @ takeWhile (\<lambda>x. Some (e_id x) \<noteq> ancestor) path), ss2)" "same_session ss1 ss2"
    using step.IH [of ss1 "acc @ [e]"] step.prems same by auto
  ultimately show ?case
    using e(2) s1 step.hyps(1) same_session_refl [OF step.prems(4)] same_session_trans [OF s1(2)]
    by (subst collectLoop.simps) auto
qed

lemma collect_run:
  assumes ok: "session_ok ss" and old: "old \<in> set (session_entries ss)" and target: "target \<in> set (session_entries ss)"
    and p: "is_path (index_of (session_entries ss)) old p" and q: "is_path (index_of (session_entries ss)) target q"
  shows "\<exists>ss'. collectEntriesForBranchSummary ops (Some (e_id old)) (e_id target) ss
      = Some (Inr (collected_spec p (cut None p) q (cut None q)), ss') \<and> same_session ss ss'"
proof -
  let ?es = "session_entries ss"
  have tree: "tree_ok ?es"
    using ok by (simp add: session_ok_def)
  have pq: "set p \<subseteq> set ?es" "distinct (map e_id p)" "set q \<subseteq> set ?es" "distinct (map e_id q)"
    using path_exists [OF tree old] path_exists [OF tree target] is_path_unique [OF _ p] is_path_unique [OF _ q] by blast+
  obtain ss1 where s1: "session_getBranch ops (Some (Some (e_id old))) ss = Some (Inr (rev (cut None p)), ss1)" "same_session ss ss1"
    using getBranch_spec [OF ok, of "Some (Some (e_id old))"] readPath_path [OF tree old p] by auto
  then have o1: "session_ok ss1" "session_entries ss1 = ?es"
    by (simp_all add: same_session_def)
  obtain ss2 where s2: "session_getBranch ops (Some (Some (e_id target))) ss1 = Some (Inr (rev (cut None q)), ss2)" "same_session ss1 ss2"
    using getBranch_spec [OF o1(1), of "Some (Some (e_id target))"] readPath_path [OF tree target q] o1(2) by auto
  then have o2: "session_ok ss2" "session_entries ss2 = ?es"
    using o1 by (simp_all add: same_session_def)
  define ancestor where "ancestor = commonAncestor (e_id ` set (cut None p)) (rev (cut None q))"
  obtain ss3 where s3: "collectLoop ops ancestor (Some (e_id old)) [] ss2
      = Some (Inr (takeWhile (\<lambda>x. Some (e_id x) \<noteq> ancestor) p), ss3)" "same_session ss2 ss3"
    using collectLoop_path [where ss = ss2 and e = old and p = p and ancestor = ancestor and acc = "[]"] p pq(1) tree o2 by auto
  have "inj_on e_id (set p \<union> set q)"
    using pq lookup_index [OF tree] by (intro inj_onI) (metis Un_iff option.inject subsetD)
  moreover obtain P' Q' where cuts: "p = cut None p @ P'" "q = cut None q @ Q'"
    using cut_is_prefix by metis
  ultimately have "collected_spec p (cut None p) q (cut None q)
      = \<lparr>ce_entries = rev (takeWhile (\<lambda>x. Some (e_id x) \<noteq> ancestor) p), ce_commonAncestorId = ancestor\<rparr>"
    using collected_spec_eq [OF p pq(2) q pq(4) cuts] by (simp add: ancestor_def Let_def)
  moreover have "e_id old \<noteq> []"
    using tree_ok_entries(1) [OF tree old] .
  ultimately show ?thesis
    using s1(1) s2(1) s3 same_session_trans [OF s1(2) same_session_trans [OF s2(2) s3(2)]]
    by (simp add: collectEntriesForBranchSummary_def ancestor_def [symmetric] Let_def)
qed

end

section \<open>The budget\<close>

definition tokens_of :: "message list \<Rightarrow> int" where
  "tokens_of ms = sum_list (map estimateTokens ms)"

lemma tokens_of_simps [simp]: "tokens_of [] = 0" "tokens_of (m # ms) = estimateTokens m + tokens_of ms"
  by (simp_all add: tokens_of_def)

definition is_summary :: "message \<Rightarrow> bool" where
  "is_summary m \<longleftrightarrow> role_of m = RBranchSummary \<or> role_of m = RCompactionSummary"

lemma branchMessage_summary:
  "branchMessage e = Some m \<Longrightarrow> entry_type e = TCompaction \<or> entry_type e = TBranchSummary \<Longrightarrow> is_summary m"
  by (cases "e_body e")
    (auto simp: branchMessage_def entry_type_def is_summary_def createBranchSummaryMessage_def createCompactionSummaryMessage_def)

definition within_budget :: "int \<Rightarrow> message list \<Rightarrow> bool" where
  "within_budget tokenBudget ms \<longleftrightarrow> tokenBudget \<le> 0 \<or> tokens_of ms \<le> tokenBudget
     \<or> (ms \<noteq> [] \<and> is_summary (hd ms) \<and> 10 * tokens_of (tl ms) < 9 * tokenBudget)"

text \<open>The messages taken are the last of those the entries have; only the newest entries too large for
  the budget are given up, with all that is before them.\<close>

lemma budgetLoop_spec:
  assumes "bp_totalTokens b = tokens_of (bp_messages b)" "within_budget tokenBudget (bp_messages b)"
  shows "bp_totalTokens (budgetLoop tokenBudget es b) = tokens_of (bp_messages (budgetLoop tokenBudget es b))
    \<and> within_budget tokenBudget (bp_messages (budgetLoop tokenBudget es b))
    \<and> (\<exists>ms. List.map_filter branchMessage (rev es) @ bp_messages b = ms @ bp_messages (budgetLoop tokenBudget es b)
        \<and> (tokenBudget \<le> 0 \<longrightarrow> ms = []))"
  using assms(1,2)
proof (induction es arbitrary: b)
  case Nil
  then show ?case by simp
next
  case (Cons e es)
  show ?case
  proof (cases "branchMessage e")
    case None
    then show ?thesis
      using Cons by (simp add: map_filter_append map_filter_simps)
  next
    case (Some m)
    let ?b = "b\<lparr>bp_fileOps := extractFileOpsFromMessage m (bp_fileOps b)\<rparr>"
    have all: "List.map_filter branchMessage (rev (e # es)) @ bp_messages b
        = List.map_filter branchMessage (rev es) @ m # bp_messages b"
      using Some by (simp add: map_filter_append map_filter_simps)
    consider (stop) "tokenBudget > 0" "bp_totalTokens b + estimateTokens m > tokenBudget"
        "\<not> ((entry_type e = TCompaction \<or> entry_type e = TBranchSummary) \<and> 10 * bp_totalTokens b < 9 * tokenBudget)"
      | (last) "tokenBudget > 0" "bp_totalTokens b + estimateTokens m > tokenBudget"
        "entry_type e = TCompaction \<or> entry_type e = TBranchSummary" "10 * bp_totalTokens b < 9 * tokenBudget"
      | (more) "\<not> (tokenBudget > 0 \<and> bp_totalTokens b + estimateTokens m > tokenBudget)"
      by blast
    then show ?thesis
    proof cases
      case stop
      then have "budgetLoop tokenBudget (e # es) b = ?b"
        using Some by (auto simp: Let_def)
      then show ?thesis
        using Cons.prems stop all by (intro conjI exI [of _ "List.map_filter branchMessage (rev es) @ [m]"]) simp_all
    next
      case last
      then have "budgetLoop tokenBudget (e # es) b = unshiftMessage m (estimateTokens m) ?b"
        using Some by (simp add: Let_def)
      then show ?thesis
        using Cons.prems last all branchMessage_summary [OF Some last(3)]
        by (intro conjI exI [of _ "List.map_filter branchMessage (rev es)"])
          (simp_all add: unshiftMessage_def within_budget_def)
    next
      case more
      let ?u = "unshiftMessage m (estimateTokens m) ?b"
      have "budgetLoop tokenBudget (e # es) b = budgetLoop tokenBudget es ?u"
        using Some more by (auto simp: Let_def)
      moreover have "bp_totalTokens ?u = tokens_of (bp_messages ?u)" "within_budget tokenBudget (bp_messages ?u)"
        using Cons.prems more by (auto simp: unshiftMessage_def within_budget_def)
      ultimately show ?thesis
        using Cons.IH [of ?u] all by (simp add: unshiftMessage_def)
    qed
  qed
qed

section \<open>Properties\<close>

text \<open>
  C23. What leaving a branch summarizes, on a session whose entries form a tree. The paths of the old leaf
  and of the target are read only down to their last compactions. When those parts share an entry, the
  entries collected are exactly the entries of the old branch that are not on the way to the target, oldest
  first, and the common ancestor is the deepest entry both have. When they share none, the whole old branch
  is collected up to its root, with no common ancestor, even where the two branches share entries. Nothing
  is stored.
\<close>

theorem abandoned_entries:
  assumes "sound md ss" "old \<in> set (session_log ss)" "target \<in> set (session_log ss)"
    and "is_path (index_of (session_log ss)) old p" "is_path (index_of (session_log ss)) target q"
  shows "\<exists>r ss'. collectEntriesForBranchSummary (memory_ops md) (Some (e_id old)) (e_id target) ss = Some (Inr r, ss')
    \<and> session_log ss' = session_log ss \<and> sound md ss'
    \<and> (if set (cut None p) \<inter> set (cut None q) \<noteq> {}
       then ce_entries r = rev (filter (\<lambda>e. e \<notin> set q) p)
         \<and> ce_commonAncestorId r = Some (e_id (hd (filter (\<lambda>e. e \<in> set q) p)))
       else ce_entries r = rev p \<and> ce_commonAncestorId r = None)"
proof -
  obtain ss' where "collectEntriesForBranchSummary (memory_ops md) (Some (e_id old)) (e_id target) ss
      = Some (Inr (collected_spec p (cut None p) q (cut None q)), ss')" "ms.same_session md ss ss'"
    using ms.collect_run [of md ss old target p q] assms by (auto simp: sound_ms session_log_ms)
  then show ?thesis
    by (intro exI [of _ "collected_spec p (cut None p) q (cut None q)"] exI [of _ ss'])
      (simp add: ms.same_session_def sound_ms session_log_ms collected_spec_def)
qed

text \<open>
  On the sample the target \<open>x\<close> is below \<open>a\<close>, and so is the old leaf \<open>d\<close>, behind a compaction that
  keeps the entries from \<open>b\<close> on: \<open>a\<close> is collected although the target keeps it.
\<close>

theorem abandoned_entries_witness:
  "\<exists>r ss'. collectEntriesForBranchSummary (memory_ops sample_md) (Some (js ''d'')) (js ''x'') sample_open = Some (Inr r, ss')
    \<and> ce_entries r = sample_branch \<and> ce_commonAncestorId r = None"
proof -
  have x: "is_path (index_of sample_session) (sample_session ! 4) [sample_session ! 4, sample_session ! 0]"
  proof (rule is_path.step [of _ "js ''a''" _ "sample_session ! 0"])
    show "fmlookup (index_of sample_session) (js ''a'') = Some (sample_session ! 0)"
      by (simp add: lookup_index [OF sample_tree_ok]) (simp add: sample_session_def sample_entry_def)
  qed (simp_all add: sample_session_def sample_entry_def is_path.root)
  have d: "e_id (sample_session ! 3) = js ''d''" "e_id (sample_session ! 4) = js ''x''"
    "sample_session ! 3 \<in> set sample_session" "sample_session ! 4 \<in> set sample_session"
    by (simp_all add: sample_session_def sample_entry_def)
  have "set (cut None (rev sample_branch)) \<inter> set (cut None [sample_session ! 4, sample_session ! 0]) = {}"
    by (simp add: sample_branch_def sample_session_eval cu_def numeral_eq_Suc)
  then show ?thesis
    using abandoned_entries [of sample_md sample_open "sample_session ! 3" "sample_session ! 4" "rev sample_branch"
        "[sample_session ! 4, sample_session ! 0]"] sample_open_sound sample_branch_path x d
    by auto
qed


definition demo_branch :: "entry list" where
  "demo_branch = map (\<lambda>s. \<lparr>e_id = [1], e_parentId = None, e_timestamp = [], e_body = MessageEntry (UserMessage (TextContent s) 0)\<rparr>)
     [[1], [1, 2, 3, 4, 5], [2]]"


end
