(* ===== verification/AgentView.thy ===== *)
theory AgentView
  imports AgentLoop
begin

text \<open>
  What a run shows to those who watch it: a view of the world that only the sink of the events changes.
  When the model, the tools and the hooks leave the view alone, the view after a run is the reaction to
  the events of its trace, one after the other.
\<close>

section \<open>Callbacks that leave a view alone\<close>

definition keeps :: "('w \<Rightarrow> 'p) \<Rightarrow> ('w \<Rightarrow> 'a \<times> 'w) \<Rightarrow> bool" where
  "keeps view f \<longleftrightarrow> (\<forall>w. view (snd (f w)) = view w)"

definition tool_keeps :: "('w \<Rightarrow> 'p) \<Rightarrow> 'w agent_tool \<Rightarrow> bool" where
  "tool_keeps view t \<longleftrightarrow> (\<forall>i a. keeps view (t_execute t i a))"

definition context_keeps :: "('w \<Rightarrow> 'p) \<Rightarrow> 'w agent_context \<Rightarrow> bool" where
  "context_keeps view ctx \<longleftrightarrow> (\<forall>ts. cx_tools ctx = Some ts \<longrightarrow> (\<forall>t \<in> set ts. tool_keeps view t))"

definition config_keeps :: "('w \<Rightarrow> 'p) \<Rightarrow> 'w config \<Rightarrow> bool" where
  "config_keeps view g \<longleftrightarrow>
     (\<forall>ms. keeps view (g_convertToLlm g ms))
     \<and> (\<forall>f. g_transformContext g = Some f \<longrightarrow> (\<forall>ms. keeps view (f ms)))
     \<and> (\<forall>f. g_getApiKey g = Some f \<longrightarrow> (\<forall>p. keeps view (f p)))
     \<and> (\<forall>f. g_shouldStopAfterTurn g = Some f \<longrightarrow> (\<forall>i. keeps view (f i)))
     \<and> (\<forall>f. g_prepareNextTurn g = Some f \<longrightarrow> (\<forall>i. keeps view (f i)
          \<and> (\<forall>w u ctx. fst (f i w) = Some u \<longrightarrow> tu_context u = Some ctx \<longrightarrow> context_keeps view ctx)))
     \<and> (\<forall>f. g_getSteeringMessages g = Some f \<longrightarrow> keeps view f)
     \<and> (\<forall>f. g_getFollowUpMessages g = Some f \<longrightarrow> keeps view f)
     \<and> (\<forall>f. g_beforeToolCall g = Some f \<longrightarrow> (\<forall>i. keeps view (f i)))
     \<and> (\<forall>f. g_afterToolCall g = Some f \<longrightarrow> (\<forall>i. keeps view (f i)))"

lemma config_keepsD:
  assumes "config_keeps view g"
  shows "keeps view (g_convertToLlm g ms)"
    and "g_transformContext g = Some f1 \<Longrightarrow> keeps view (f1 ms)"
    and "g_getApiKey g = Some f2 \<Longrightarrow> keeps view (f2 k)"
    and "g_shouldStopAfterTurn g = Some f3 \<Longrightarrow> keeps view (f3 i)"
    and "g_prepareNextTurn g = Some f4 \<Longrightarrow> keeps view (f4 i)"
    and "g_getSteeringMessages g = Some f5 \<Longrightarrow> keeps view f5"
    and "g_getFollowUpMessages g = Some f5 \<Longrightarrow> keeps view f5"
    and "g_beforeToolCall g = Some f6 \<Longrightarrow> keeps view (f6 b)"
    and "g_afterToolCall g = Some f7 \<Longrightarrow> keeps view (f7 a)"
  using assms unfolding config_keeps_def by blast+

lemma config_keeps_context:
  "config_keeps view g \<Longrightarrow> g_prepareNextTurn g = Some f \<Longrightarrow> f i w = (Some u, w') \<Longrightarrow> tu_context u = Some ctx \<Longrightarrow>
    context_keeps view ctx"
  unfolding config_keeps_def by (metis fst_conv)

lemma config_keeps_update [simp]:
  "config_keeps view (g\<lparr>g_model := mo, g_reasoning := r\<rparr>) = config_keeps view g"
  by (simp add: config_keeps_def)

definition follows :: "('w \<Rightarrow> 'p) \<Rightarrow> (event \<Rightarrow> 'p \<Rightarrow> 'p) \<Rightarrow> 'p \<Rightarrow> 'w run \<Rightarrow> bool" where
  "follows view react p s \<longleftrightarrow> view (r_world s) = fold react (r_trace s) p"

lemma call_follows:
  "follows view react p s \<Longrightarrow> call f s = (a, s') \<Longrightarrow> keeps view f \<Longrightarrow> follows view react p s'"
  by (auto simp: call_def follows_def keeps_def split: prod.splits) (metis snd_conv)

section \<open>The view during a run\<close>

locale observed =
  fixes env :: "'w env"
    and view :: "'w \<Rightarrow> 'p"
    and react :: "event \<Rightarrow> 'p \<Rightarrow> 'p"
  assumes sink_reacts: "view (v_sink env e w) = react e (view w)"
    and stream_keeps: "keeps view (v_stream env mo c g)"
begin

lemma emit_follows: "follows view react p s \<Longrightarrow> follows view react p (emit env e s)"
  by (simp add: follows_def emit_def sink_reacts)

lemma emits_follow:
  "follows view react p s \<Longrightarrow> follows view react p (emitToolExecutionStart env tc s)"
  "follows view react p s \<Longrightarrow> follows view react p (emitToolExecutionEnd env f s)"
  "follows view react p s \<Longrightarrow> follows view react p (emitToolResultMessage env r s)"
  "follows view react p s \<Longrightarrow> follows view react p (emitUpdate env q u s)"
  "follows view react p s \<Longrightarrow> follows view react p (emitMessage env m s)"
  by (simp_all add: emit_follows emitToolExecutionStart_def emitToolExecutionEnd_def emitToolResultMessage_def
      emitUpdate_def emitMessage_def)

lemma reportResult_follows: "follows view react p s \<Longrightarrow> reportResult env f s = (r, s') \<Longrightarrow> follows view react p s'"
  by (auto simp: reportResult_def Let_def emits_follow)

lemma fold_follows:
  "follows view react p s \<Longrightarrow> (\<And>x s. follows view react p s \<Longrightarrow> follows view react p (f x s)) \<Longrightarrow>
    follows view react p (fold f xs s)"
  by (induction xs arbitrary: s) simp_all

lemma finishResponse_follows:
  "follows view react p s \<Longrightarrow> finishResponse env final added ctx s = (m, ctx', s') \<Longrightarrow>
    follows view react p s' \<and> cx_tools ctx' = cx_tools ctx"
  by (auto simp: finishResponse_def Let_def emit_follows replaceLast_def pushMessage_def)

lemma responseLoop_follows:
  "follows view react p s \<Longrightarrow> responseLoop env final es added ctx s = (m, ctx', s') \<Longrightarrow>
    follows view react p s' \<and> cx_tools ctx' = cx_tools ctx"
proof (induction es arbitrary: added ctx s ctx' s')
  case Nil
  then show ?case by (auto dest: finishResponse_follows)
next
  case (Cons e es)
  show ?case
  proof (cases e)
    case (StreamStart q)
    with Cons.prems(2) have "responseLoop env final es True (pushMessage (AssistantMessage q) ctx)
        (emit env (MessageStart (AssistantMessage q)) s) = (m, ctx', s')" by simp
    from Cons.IH [OF emit_follows [OF Cons.prems(1)] this] show ?thesis by (simp add: pushMessage_def)
  next
    case (StreamDelta k q)
    show ?thesis
    proof (cases added)
      case True
      with Cons.prems(2) StreamDelta have "responseLoop env final es True (replaceLast (AssistantMessage q) ctx)
          (emit env (MessageUpdate (AssistantMessage q) (StreamDelta k q)) s) = (m, ctx', s')" by simp
      from Cons.IH [OF emit_follows [OF Cons.prems(1)] this] show ?thesis by (simp add: replaceLast_def)
    next
      case False
      with Cons.IH [OF Cons.prems(1)] Cons.prems(2) StreamDelta show ?thesis by simp
    qed
  qed (use Cons.prems in \<open>auto dest: finishResponse_follows\<close>)
qed

lemma response_follows:
  assumes "follows view react p s" "streamAssistantResponse env cfg ctx s = (m, ctx', s')" "config_keeps view cfg"
  shows "follows view react p s' \<and> cx_tools ctx' = cx_tools ctx"
proof -
  obtain msgs s1 where c1: "(case g_transformContext cfg of None \<Rightarrow> (cx_messages ctx, s)
      | Some f \<Rightarrow> call (f (cx_messages ctx)) s) = (msgs, s1)" by fastforce
  obtain lms s2 where c2: "call (g_convertToLlm cfg msgs) s1 = (lms, s2)" by fastforce
  obtain key s3 where c3: "(case g_getApiKey cfg of None \<Rightarrow> (None, s2)
      | Some f \<Rightarrow> call (f (mo_provider (g_model cfg))) s2) = (key, s3)" by fastforce
  obtain resp s4 where c4: "call (v_stream env (g_model cfg)
        \<lparr>lc_systemPrompt = cx_systemPrompt ctx, lc_messages = lms, lc_tools = cx_tools ctx\<rparr>
        (cfg\<lparr>g_apiKey := (if truthy key then key else g_apiKey cfg)\<rparr>)) s3 = (resp, s4)" by fastforce
  have f1: "follows view react p s1"
    using assms(1) c1 config_keepsD(2) [OF assms(3)] by (auto dest: call_follows split: option.splits)
  have f2: "follows view react p s2" using call_follows [OF f1 c2 config_keepsD(1) [OF assms(3)]] .
  have f3: "follows view react p s3"
    using f2 c3 config_keepsD(3) [OF assms(3)] by (auto dest: call_follows split: option.splits)
  have f4: "follows view react p s4" using call_follows [OF f3 c4 stream_keeps] .
  have "responseLoop env (rs_result resp) (rs_events resp) False ctx s4 = (m, ctx', s')"
    using assms(2) c1 c2 c3 c4 by (simp add: streamAssistantResponse_def)
  from responseLoop_follows [OF f4 this] show ?thesis .
qed

lemma failToolCalls_follows:
  "follows view react p s \<Longrightarrow> failToolCalls env tcs s = (rs, s') \<Longrightarrow> follows view react p s'"
proof (induction tcs arbitrary: s rs s')
  case (Cons tc tcs)
  let ?f = "\<lparr>f_toolCall = tc, f_result = createErrorToolResult (truncatedMessage tc), f_isError = True\<rparr>"
  let ?s = "emitToolExecutionEnd env ?f (emitToolExecutionStart env tc s)"
  obtain r s1 where r: "reportResult env ?f ?s = (r, s1)" by fastforce
  obtain rs1 s2 where rest: "failToolCalls env tcs s1 = (rs1, s2)" by fastforce
  have "follows view react p s1"
    using reportResult_follows [OF _ r] Cons.prems(1) by (simp add: emits_follow)
  from Cons.IH [OF this rest] show ?case using Cons.prems(2) r rest by simp
qed simp

lemma prepareToolCall_follows:
  assumes "follows view react p s" "prepareToolCall env cfg ctx m tc s = (pr, s')" "config_keeps view cfg"
  shows "follows view react p s'"
  using assms config_keepsD(8) [OF assms(3)]
  by (auto simp: prepareToolCall_def dest: call_follows split: option.splits sum.splits prod.splits if_splits)

lemma prepared_keeps:
  "prepareToolCall env cfg ctx m tc s = (Prepared q, s') \<Longrightarrow> context_keeps view ctx \<Longrightarrow> tool_keeps view (p_tool q)"
  by (auto simp: prepareToolCall_def failed_def findTool_def context_keeps_def find_Some_iff
      split: option.splits sum.splits prod.splits if_splits)

lemma startExecution_follows:
  "follows view react p s \<Longrightarrow> startExecution q s = (x, s') \<Longrightarrow> tool_keeps view (p_tool q) \<Longrightarrow> follows view react p s'"
  by (auto simp: startExecution_def tool_keeps_def dest: call_follows)

lemma finalize_follows:
  assumes "follows view react p s" "finalizeExecutedToolCall cfg ctx m q executed s = (f, s')" "config_keeps view cfg"
  shows "follows view react p s'"
  using assms config_keepsD(9) [OF assms(3)]
  by (auto simp: finalizeExecutedToolCall_def dest: call_follows split: option.splits sum.splits prod.splits)

lemma handleToolCall_follows:
  assumes "follows view react p s" "handleToolCall env cfg ctx m tc s = (f, s')"
    and "config_keeps view cfg" "context_keeps view ctx"
  shows "follows view react p s'"
proof -
  obtain pr s1 where pr: "prepareToolCall env cfg ctx m tc s = (pr, s1)" by fastforce
  have s1: "follows view react p s1" using prepareToolCall_follows [OF assms(1) pr assms(3)] .
  show ?thesis
  proof (cases pr)
    case (Immediate r b)
    with assms(2) pr s1 show ?thesis by (simp add: handleToolCall_def)
  next
    case (Prepared q)
    obtain x s2 where x: "startExecution q s1 = (x, s2)" by fastforce
    have "follows view react p s2"
      using startExecution_follows [OF s1 x] prepared_keeps [OF pr [unfolded Prepared] assms(4)] by simp
    then have "follows view react p (fold (emitUpdate env q) (x_updates x) s2)"
      by (rule fold_follows) (rule emits_follow)
    from finalize_follows [OF this _ assms(3)] show ?thesis
      using assms(2) pr Prepared x by (simp add: handleToolCall_def executePreparedToolCall_def)
  qed
qed

lemma sequentialLoop_follows:
  assumes "config_keeps view cfg" "context_keeps view ctx"
  shows "follows view react p s \<Longrightarrow> sequentialLoop env cfg ctx m tcs s = (y, s') \<Longrightarrow> follows view react p s'"
proof (induction tcs arbitrary: s y s')
  case (Cons tc tcs)
  obtain f s1 where h: "handleToolCall env cfg ctx m tc (emitToolExecutionStart env tc s) = (f, s1)" by fastforce
  obtain r s2 where r: "reportResult env f (emitToolExecutionEnd env f s1) = (r, s2)" by fastforce
  obtain y' s3 where rest: "sequentialLoop env cfg ctx m tcs s2 = (y', s3)" by fastforce
  have "follows view react p s1"
    using handleToolCall_follows [OF emits_follow(1) [OF Cons.prems(1)] h assms] .
  then have "follows view react p s2" using reportResult_follows [OF _ r] by (simp add: emits_follow)
  with Cons.IH [OF this rest] Cons.prems(2) h r rest show ?case
    by (cases y') (auto split: if_splits)
qed simp

lemma prepareLoop_follows:
  assumes "config_keeps view cfg" "context_keeps view ctx"
  shows "follows view react p s \<Longrightarrow> prepareLoop env cfg ctx m tcs s = (ts, s') \<Longrightarrow>
    follows view react p s' \<and> (\<forall>q. Waiting q \<in> set ts \<longrightarrow> tool_keeps view (p_tool q))
    \<and> (\<forall>t \<in> set ts. is_waiting t \<or> is_finished t)"
proof (induction tcs arbitrary: s ts s')
  case (Cons tc tcs)
  obtain pr s1 where pr: "prepareToolCall env cfg ctx m tc (emitToolExecutionStart env tc s) = (pr, s1)" by fastforce
  have s1: "follows view react p s1"
    using prepareToolCall_follows [OF emits_follow(1) [OF Cons.prems(1)] pr assms(1)] .
  define ts2 where "ts2 = (case pr of
      Immediate r e \<Rightarrow> (Finished \<lparr>f_toolCall = tc, f_result = r, f_isError = e\<rparr>,
        emitToolExecutionEnd env \<lparr>f_toolCall = tc, f_result = r, f_isError = e\<rparr> s1)
    | Prepared q \<Rightarrow> (Waiting q, s1))"
  obtain t s2 where t: "ts2 = (t, s2)" by fastforce
  obtain ts3 s3 where rest: "prepareLoop env cfg ctx m tcs s2 = (ts3, s3)" by fastforce
  have s2: "follows view react p s2" "\<And>q. t = Waiting q \<Longrightarrow> tool_keeps view (p_tool q)" "is_waiting t \<or> is_finished t"
    using s1 t prepared_keeps [OF _ assms(2)] pr by (cases pr; auto simp: ts2_def emits_follow)+
  have "prepareLoop env cfg ctx m (tc # tcs) s =
      (if v_aborted env (r_world s2) then ([t], s2) else (t # ts3, s3))"
    using pr t rest by (cases pr) (auto simp: ts2_def Let_def)
  with Cons.prems(2) s2 Cons.IH [OF s2(1) rest] show ?case by (auto split: if_splits)
qed simp

definition tasks_keep :: "'w task list \<Rightarrow> bool" where
  "tasks_keep ts \<longleftrightarrow> (\<forall>q. Waiting q \<in> set ts \<longrightarrow> tool_keeps view (p_tool q))"

lemma stepTask_follows:
  assumes "follows view react p s" "stepTask env cfg ctx m t s = (t', s')" "config_keeps view cfg"
    and "\<And>q. t = Waiting q \<Longrightarrow> tool_keeps view (p_tool q)"
  shows "follows view react p s' \<and> (\<forall>q. t' \<noteq> Waiting q)"
proof (cases t)
  case (Executing q us x)
  with assms show ?thesis
    by (cases us) (auto simp: stepTask_def emits_follow dest: finalize_follows split: prod.splits)
qed (use assms in \<open>auto simp: stepTask_def emits_follow dest: startExecution_follows split: prod.splits\<close>)

lemma settleTasks_follows:
  assumes "config_keeps view cfg"
  shows "follows view react p s \<Longrightarrow> tasks_keep ts \<Longrightarrow> settleTasks env cfg ctx m ts s = (ts', s') \<Longrightarrow>
    follows view react p s'"
proof (induction "(sum_list (map phases ts), sum_list (map updates_left ts))" arbitrary: ts s
    rule: wf_induct_rule [OF wf_lex_prod [OF wf_less_than wf_less_than]])
  case 1
  show ?case
  proof (cases "enabled ts = []")
    case True
    with "1.prems" show ?thesis by (simp add: settleTasks.simps)
  next
    case False
    define i where "i = pickTask env (r_world s) (enabled ts)"
    have i: "i < length ts" using enabled_range [OF pickTask_in [OF False, of env "r_world s"]] by (simp add: i_def)
    obtain t s1 where t: "stepTask env cfg ctx m (ts ! i) s = (t, s1)" by fastforce
    have rest: "settleTasks env cfg ctx m (ts[i := t]) s1 = (ts', s')"
      using "1.prems"(3) False t by (subst (asm) settleTasks.simps) (simp add: i_def)
    have "tool_keeps view (p_tool q)" if "ts ! i = Waiting q" for q
      using "1.prems"(2) i that by (metis nth_mem tasks_keep_def)
    from stepTask_follows [OF "1.prems"(1) t assms this]
    have s1: "follows view react p s1" and "tasks_keep (ts[i := t])"
      using "1.prems"(2) set_update_subset_insert [of ts i t] unfolding tasks_keep_def by blast+
    moreover have "((sum_list (map phases (ts[i := t])), sum_list (map updates_left (ts[i := t]))),
        (sum_list (map phases ts), sum_list (map updates_left ts))) \<in> less_than <*lex*> less_than"
      using settle_decreases [OF False t [unfolded i_def]] by (auto simp: i_def)
    ultimately show ?thesis using "1.hyps" rest by blast
  qed
qed

lemma reportResults_follows:
  "follows view react p s \<Longrightarrow> reportResults env fs s = (rs, s') \<Longrightarrow> follows view react p s'"
proof (induction fs arbitrary: s rs s')
  case (Cons f fs)
  obtain r s1 where r: "reportResult env f s = (r, s1)" by fastforce
  from Cons.IH [OF reportResult_follows [OF Cons.prems(1) r]] Cons.prems(2) r show ?case
    by (auto split: prod.splits)
qed simp

lemma executeToolCalls_follows:
  assumes "follows view react p s" "executeToolCalls env cfg ctx m s = (y, s')"
    and "config_keeps view cfg" "context_keeps view ctx"
  shows "follows view react p s'"
proof (cases "g_toolExecution cfg = Some Sequential \<or> list_ex (is_sequential ctx) (toolCallsOf m)")
  case True
  then show ?thesis
    using assms(2) sequentialLoop_follows [OF assms(3,4,1)]
    by (auto simp: executeToolCalls_def executeToolCallsSequential_def split: prod.splits)
next
  case False
  obtain ts s1 where p: "prepareLoop env cfg ctx m (toolCallsOf m) s = (ts, s1)" by fastforce
  obtain ts' s2 where q: "settleTasks env cfg ctx m ts s1 = (ts', s2)" by fastforce
  obtain rs s3 where r: "reportResults env (List.map_filter outcomeOf ts') s2 = (rs, s3)" by fastforce
  have "follows view react p s1" "tasks_keep ts"
    using prepareLoop_follows [OF assms(3,4,1) p] by (simp_all add: tasks_keep_def)
  from settleTasks_follows [OF assms(3) this q] reportResults_follows [OF _ r] False p q r assms(2)
  show ?thesis by (auto simp: executeToolCalls_def executeToolCallsParallel_def Let_def)
qed

lemma runToolCalls_follows:
  assumes "follows view react p s" "runToolCalls env cfg ctx m s = (y, s')"
    and "config_keeps view cfg" "context_keeps view ctx"
  shows "follows view react p s'"
  using assms executeToolCalls_follows [OF assms(1) _ assms(3,4)] failToolCalls_follows [OF assms(1)]
  by (auto simp: runToolCalls_def failToolCallsFromTruncatedMessage_def split: if_splits prod.splits)

definition loop_follows :: "'p \<Rightarrow> 'w loop \<Rightarrow> bool" where
  "loop_follows p l \<longleftrightarrow>
     follows view react p (l_run l) \<and> config_keeps view (l_config l) \<and> context_keeps view (l_context l)"

lemma emitMessages_follow: "follows view react p s \<Longrightarrow> follows view react p (fold (emitMessage env) ms s)"
  by (rule fold_follows) (simp_all add: emits_follow)

lemma before_response_follows: "loop_follows p l \<Longrightarrow> loop_follows p (injectPending env (beginTurn env l))"
  by (auto simp: loop_follows_def injectPending_def beginTurn_def context_keeps_def emitMessages_follow emit_follows)

lemma responsePhase_follows:
  assumes "loop_follows p l" "responsePhase env l = (m, l')"
  shows "loop_follows p l'"
proof -
  obtain ctx s where r: "streamAssistantResponse env (l_config l) (l_context l) (l_run l) = (m, ctx, s)"
    using assms(2) by (auto simp: responsePhase_def split: prod.splits)
  from assms(1) have "follows view react p (l_run l)" "config_keeps view (l_config l)" by (simp_all add: loop_follows_def)
  from response_follows [OF this(1) r this(2)] assms r show ?thesis
    by (auto simp: responsePhase_def loop_follows_def context_keeps_def)
qed

lemma toolPhase_follows:
  assumes "loop_follows p l" "toolPhase env m l = (rs, l')"
  shows "loop_follows p l'"
proof -
  obtain y s where r: "runToolCalls env (l_config l) (l_context l) m (l_run l) = (y, s)" by fastforce
  have "follows view react p s"
    using assms(1) runToolCalls_follows [OF _ r] by (simp add: loop_follows_def)
  with assms r show ?thesis
    by (cases y) (auto simp: toolPhase_def loop_follows_def context_keeps_def Let_def emit_follows)
qed

lemma askForUpdate_follows:
  assumes "loop_follows p l"
  shows "loop_follows p (askForUpdate m rs l)"
proof (cases "g_prepareNextTurn (l_config l)")
  case (Some f)
  obtain u s where c: "call (f (turnInfo m rs l)) (l_run l) = (u, s)" by fastforce
  have g: "config_keeps view (l_config l)" using assms by (simp add: loop_follows_def)
  have s: "follows view react p s"
    using call_follows [OF _ c config_keepsD(5) [OF g Some]] assms by (simp add: loop_follows_def)
  have "context_keeps view ctx" if "u = Some v" "tu_context v = Some ctx" for v ctx
    using c that config_keeps_context [OF g Some] by (auto simp: call_def split: prod.splits)
  then show ?thesis
    using assms Some c s by (auto simp: askForUpdate_def applyUpdate_def loop_follows_def split: option.split)
qed (use assms in \<open>simp add: askForUpdate_def\<close>)

lemma askToStop_follows: "loop_follows p l \<Longrightarrow> askToStop m rs l = (b, l') \<Longrightarrow> loop_follows p l'"
  by (auto simp: askToStop_def loop_follows_def dest: call_follows config_keepsD(4) split: option.splits prod.splits)

lemma pollMessages_follows:
  "follows view react p s \<Longrightarrow> pollMessages f s = (ms, s') \<Longrightarrow> (\<And>g. f = Some g \<Longrightarrow> keeps view g) \<Longrightarrow> follows view react p s'"
  by (auto simp: pollMessages_def dest: call_follows split: option.splits)

lemma endRun_follows: "loop_follows p l \<Longrightarrow> loop_follows p (endRun env l)"
  by (simp add: endRun_def loop_follows_def emit_follows)

lemma turn_follows:
  assumes "loop_follows p l" "turn env l = (b, l')"
  shows "loop_follows p l'"
proof -
  obtain m l1 where r: "responsePhase env (injectPending env (beginTurn env l)) = (m, l1)" by fastforce
  have l1: "loop_follows p l1" using responsePhase_follows [OF before_response_follows [OF assms(1)] r] .
  show ?thesis
  proof (cases "a_stopReason m = StopError \<or> a_stopReason m = Aborted")
    case True
    have "loop_follows p (l1\<lparr>l_run := emit env (TurnEnd (AssistantMessage m) []) (l_run l1)\<rparr>)"
      using l1 by (simp add: loop_follows_def emit_follows)
    from endRun_follows [OF this] show ?thesis using assms(2) r True by (auto simp: turn_def)
  next
    case False
    obtain rs l2 where t: "toolPhase env m l1 = (rs, l2)" by fastforce
    obtain stop l3 where s: "askToStop m rs (askForUpdate m rs l2) = (stop, l3)" by fastforce
    obtain ms s4 where q: "pollMessages (g_getSteeringMessages (l_config l3)) (l_run l3) = (ms, s4)" by fastforce
    have l3: "loop_follows p l3"
      using askToStop_follows [OF askForUpdate_follows [OF toolPhase_follows [OF l1 t]] s] .
    have "follows view react p s4"
      using pollMessages_follows [OF _ q] l3 config_keepsD(6) by (auto simp: loop_follows_def)
    with l3 assms(2) r t s q False endRun_follows [OF l3] show ?thesis
      by (auto simp: turn_def loop_follows_def split: if_splits)
  qed
qed

lemma innerLoop_follows:
  assumes "innerLoop env l = Some y" "loop_follows p l"
  shows "loop_follows p (snd y)"
proof -
  have "env' = env \<longrightarrow> loop_follows p l \<longrightarrow> loop_follows p (snd y)" if "innerLoop env' l = Some y" for env'
  proof (rule innerLoop.raw_induct [OF _ that, where P = "\<lambda>e l y. e = env \<longrightarrow> loop_follows p l \<longrightarrow> loop_follows p (snd y)"], intro impI)
    fix rec e l y
    assume ih: "\<And>e l y. rec e l = Some y \<Longrightarrow> e = env \<longrightarrow> loop_follows p l \<longrightarrow> loop_follows p (snd y)"
      and step: "(if l_hasMoreToolCalls l \<or> l_pending l \<noteq> []
          then (let (over, l) = turn e l in if over then Some (True, l) else rec e l) else Some (False, l)) = Some y"
      and e: "e = env" and l: "loop_follows p l"
    obtain b l1 where t: "turn env l = (b, l1)" by fastforce
    have "(if l_hasMoreToolCalls l \<or> l_pending l \<noteq> [] then (if b then Some (True, l1) else rec env l1)
        else Some (False, l)) = Some y"
      using step t e by (simp cong: if_cong)
    then show "loop_follows p (snd y)"
      using turn_follows [OF l t] l ih [of env l1 y] by (auto split: if_split_asm)
  qed
  with assms show ?thesis by blast
qed

lemma outerLoop_follows:
  assumes "outerLoop env l = Some l'" "loop_follows p l"
  shows "loop_follows p l'"
proof -
  have "env' = env \<longrightarrow> loop_follows p l \<longrightarrow> loop_follows p l'" if "outerLoop env' l = Some l'" for env'
  proof (rule outerLoop.raw_induct [OF _ that, where P = "\<lambda>e l y. e = env \<longrightarrow> loop_follows p l \<longrightarrow> loop_follows p y"], intro impI)
    fix rec e l y
    assume ih: "\<And>e l y. rec e l = Some y \<Longrightarrow> e = env \<longrightarrow> loop_follows p l \<longrightarrow> loop_follows p y"
      and step: "Option.bind (innerLoop e (l\<lparr>l_hasMoreToolCalls := True\<rparr>)) (\<lambda>(over, l).
         if over then Some l
         else (let (followUps, s) = pollMessages (g_getFollowUpMessages (l_config l)) (l_run l); l = l\<lparr>l_run := s\<rparr>
               in if followUps \<noteq> [] then rec e (l\<lparr>l_pending := followUps\<rparr>) else Some (endRun e l))) = Some y"
      and e: "e = env" and l: "loop_follows p l"
    from step e obtain b l1 where i: "innerLoop env (l\<lparr>l_hasMoreToolCalls := True\<rparr>) = Some (b, l1)"
      by (auto split: Option.bind_splits)
    have l1: "loop_follows p l1" using innerLoop_follows [OF i, of p] l by (simp add: loop_follows_def)
    obtain ms s where q: "pollMessages (g_getFollowUpMessages (l_config l1)) (l_run l1) = (ms, s)" by fastforce
    have "follows view react p s"
      using pollMessages_follows [OF _ q] l1 config_keepsD(7) by (auto simp: loop_follows_def)
    then have l2: "loop_follows p (l1\<lparr>l_run := s\<rparr>)" "loop_follows p (l1\<lparr>l_run := s, l_pending := ms\<rparr>)"
      using l1 by (simp_all add: loop_follows_def)
    show "loop_follows p y"
      using step i e q l1 l2 endRun_follows [OF l2(1)] ih [of env "l1\<lparr>l_run := s, l_pending := ms\<rparr>" y]
      by (auto simp: Let_def split: if_splits)
  qed
  with assms show ?thesis by blast
qed

lemma runLoop_follows:
  assumes "runLoop env cfg ctx msgs s = Some (ms, s')" "follows view react p s" "config_keeps view cfg" "context_keeps view ctx"
  shows "follows view react p s'"
proof -
  obtain pending s1 where q: "pollMessages (g_getSteeringMessages cfg) s = (pending, s1)" by fastforce
  from assms(1) q obtain l where
    l: "outerLoop env \<lparr>l_context = ctx, l_config = cfg, l_firstTurn = True, l_pending = pending,
         l_newMessages = msgs, l_hasMoreToolCalls = True, l_run = s1\<rparr> = Some l" "s' = l_run l"
    by (auto simp: runLoop_def)
  have "follows view react p s1" using pollMessages_follows [OF assms(2) q] config_keepsD(6) [OF assms(3)] by blast
  with outerLoop_follows [OF l(1), of p] assms(3,4) l(2) show ?thesis by (simp add: loop_follows_def)
qed

lemma run_begins_follows:
  "follows view react (view w) (emit env TurnStart (emit env AgentStart \<lparr>r_trace = [], r_world = w\<rparr>))"
  by (intro emit_follows) (simp add: follows_def)

lemma runAgentLoop_follows:
  assumes "runAgentLoop env prompts ctx cfg w = Some (ms, s)" "config_keeps view cfg" "context_keeps view ctx"
  shows "view (r_world s) = fold react (r_trace s) (view w)"
proof -
  have "context_keeps view (ctx\<lparr>cx_messages := cx_messages ctx @ prompts\<rparr>)"
    using assms(3) by (simp add: context_keeps_def)
  from runLoop_follows [OF _ emitMessages_follow [OF run_begins_follows] assms(2) this] assms(1)
  show ?thesis by (simp add: runAgentLoop_def follows_def)
qed

lemma runAgentLoopContinue_follows:
  assumes "runAgentLoopContinue env ctx cfg w = Some (Inr (ms, s))" "config_keeps view cfg" "context_keeps view ctx"
  shows "view (r_world s) = fold react (r_trace s) (view w)"
  using assms runLoop_follows [OF _ run_begins_follows assms(2,3)]
  by (auto simp: runAgentLoopContinue_def follows_def split: sum.splits)

end

end
