(* ===== verification/AgentProps.thy ===== *)
theory AgentProps
  imports AgentLoop
begin

text \<open>
  Properties of the loop of the agent: how its events nest, what a batch of tool calls reports, which
  calls are executed, and that a run which uses up a budget returns.
\<close>

section \<open>Reading a trace\<close>

datatype mark = Said message | Closed message "tool_result list"

fun mark_of :: "event \<Rightarrow> mark option" where
  "mark_of (MessageEnd m) = Some (Said m)"
| "mark_of (TurnEnd m rs) = Some (Closed m rs)"
| "mark_of _ = None"

abbreviation said_result :: "tool_result \<Rightarrow> mark" where
  "said_result r \<equiv> Said (ToolResultMessage r)"

fun tool_start :: "event \<Rightarrow> (jsstring \<times> jsstring \<times> args) option" where
  "tool_start (ToolStart i n a) = Some (i, n, a)"
| "tool_start _ = None"

fun tool_end :: "event \<Rightarrow> (jsstring \<times> jsstring \<times> tool_output \<times> bool) option" where
  "tool_end (ToolEnd i n r e) = Some (i, n, r, e)"
| "tool_end _ = None"

definition marks :: "event list \<Rightarrow> mark list" where
  "marks evs = List.map_filter mark_of evs"

text \<open>The messages that ended, and the turns with their results.\<close>

fun message_end :: "event \<Rightarrow> message option" where
  "message_end (MessageEnd m) = Some m"
| "message_end _ = None"

fun turn_end :: "event \<Rightarrow> (message \<times> tool_result list) option" where
  "turn_end (TurnEnd m rs) = Some (m, rs)"
| "turn_end _ = None"

definition message_ends :: "event list \<Rightarrow> message list" where
  "message_ends evs = List.map_filter message_end evs"

definition turn_ends :: "event list \<Rightarrow> (message \<times> tool_result list) list" where
  "turn_ends evs = List.map_filter turn_end evs"

definition tool_starts :: "event list \<Rightarrow> (jsstring \<times> jsstring \<times> args) list" where
  "tool_starts evs = List.map_filter tool_start evs"

definition tool_ends :: "event list \<Rightarrow> (jsstring \<times> jsstring \<times> tool_output \<times> bool) list" where
  "tool_ends evs = List.map_filter tool_end evs"

lemma reads_nil [simp]: "marks [] = []" "tool_starts [] = []" "tool_ends [] = []"
  by (simp_all add: marks_def tool_starts_def tool_ends_def)

lemma reads_append [simp]:
  "marks (xs @ ys) = marks xs @ marks ys"
  "tool_starts (xs @ ys) = tool_starts xs @ tool_starts ys"
  "tool_ends (xs @ ys) = tool_ends xs @ tool_ends ys"
  by (simp_all add: marks_def tool_starts_def tool_ends_def map_filter_append)

lemma reads_cons [simp]:
  "marks (e # es) = (case mark_of e of None \<Rightarrow> [] | Some m \<Rightarrow> [m]) @ marks es"
  "tool_starts (e # es) = (case tool_start e of None \<Rightarrow> [] | Some m \<Rightarrow> [m]) @ tool_starts es"
  "tool_ends (e # es) = (case tool_end e of None \<Rightarrow> [] | Some m \<Rightarrow> [m]) @ tool_ends es"
  by (simp_all add: marks_def tool_starts_def tool_ends_def split: option.split)

fun said :: "mark \<Rightarrow> message option" where
  "said (Said m) = Some m"
| "said _ = None"

fun closed :: "mark \<Rightarrow> (message \<times> tool_result list) option" where
  "closed (Closed m rs) = Some (m, rs)"
| "closed _ = None"

lemma map_filter_Cons: "List.map_filter f (x # xs) = (case f x of None \<Rightarrow> [] | Some y \<Rightarrow> [y]) @ List.map_filter f xs"
  by (simp add: List.map_filter_def split: option.split)

lemma message_ends_marks: "message_ends evs = List.map_filter said (marks evs)"
proof (induction evs)
  case (Cons e evs)
  then show ?case by (cases e) (simp_all add: message_ends_def map_filter_Cons)
qed (simp add: message_ends_def List.map_filter_def)

lemma turn_ends_marks: "turn_ends evs = List.map_filter closed (marks evs)"
proof (induction evs)
  case (Cons e evs)
  then show ?case by (cases e) (simp_all add: turn_ends_def map_filter_Cons)
qed (simp add: turn_ends_def List.map_filter_def)

text \<open>The protocol of the events: which event may follow, with the identifiers of the tool calls
  that have started and not ended.\<close>

datatype stage = NotStarted | BetweenTurns | InTurn "jsstring multiset" | InMessage | Ended

fun accept :: "stage \<Rightarrow> event \<Rightarrow> stage option" where
  "accept NotStarted AgentStart = Some BetweenTurns"
| "accept BetweenTurns TurnStart = Some (InTurn {#})"
| "accept BetweenTurns (AgentEnd _) = Some Ended"
| "accept (InTurn M) (MessageStart _) = (if M = {#} then Some InMessage else None)"
| "accept InMessage (MessageUpdate _ _) = Some InMessage"
| "accept InMessage (MessageEnd _) = Some (InTurn {#})"
| "accept (InTurn M) (ToolStart i _ _) = Some (InTurn (add_mset i M))"
| "accept (InTurn M) (ToolUpdate i _ _ _) = (if i \<in># M then Some (InTurn M) else None)"
| "accept (InTurn M) (ToolEnd i _ _ _) = (if i \<in># M then Some (InTurn (M - {#i#})) else None)"
| "accept (InTurn M) (TurnEnd _ _) = (if M = {#} then Some BetweenTurns else None)"
| "accept _ _ = None"

fun accepts :: "stage \<Rightarrow> event list \<Rightarrow> stage option" where
  "accepts g [] = Some g"
| "accepts g (e # es) = Option.bind (accept g e) (\<lambda>g. accepts g es)"

lemma accepts_append: "accepts g (xs @ ys) = Option.bind (accepts g xs) (\<lambda>g. accepts g ys)"
  by (induction xs arbitrary: g) (auto split: Option.bind_splits)

lemma accepts_append_Some [simp]: "accepts g xs = Some g' \<Longrightarrow> accepts g (xs @ ys) = accepts g' ys"
  by (simp add: accepts_append)

section \<open>What the operations add to the trace\<close>

lemma emit_trace [simp]: "r_trace (emit env e s) = r_trace s @ [e]"
  by (simp add: emit_def)

lemma emit_world [simp]: "r_world (emit env e s) = v_sink env e (r_world s)"
  by (simp add: emit_def)

lemma call_trace: "call f s = (a, s') \<Longrightarrow> r_trace s' = r_trace s"
  by (auto simp: call_def split: prod.splits)

definition start_of :: "tool_call \<Rightarrow> jsstring \<times> jsstring \<times> args" where
  "start_of tc = (tc_id tc, tc_name tc, tc_arguments tc)"

definition end_of :: "finalized \<Rightarrow> jsstring \<times> jsstring \<times> tool_output \<times> bool" where
  "end_of f = (tc_id (f_toolCall f), tc_name (f_toolCall f), f_result f, f_isError f)"

definition reports :: "finalized \<Rightarrow> tool_result \<Rightarrow> bool" where
  "reports f r \<longleftrightarrow> (\<exists>t. r = createToolResultMessage f t)"

lemma reports_call: "reports f r \<Longrightarrow> tr_toolCallId r = tc_id (f_toolCall f) \<and> tr_toolName r = tc_name (f_toolCall f)"
  by (auto simp: reports_def createToolResultMessage_def)

lemma start_trace: "r_trace (emitToolExecutionStart env tc s) = r_trace s @ [ToolStart (tc_id tc) (tc_name tc) (tc_arguments tc)]"
  by (simp add: emitToolExecutionStart_def)

lemma end_trace:
  "r_trace (emitToolExecutionEnd env f s) =
    r_trace s @ [ToolEnd (tc_id (f_toolCall f)) (tc_name (f_toolCall f)) (f_result f) (f_isError f)]"
  by (simp add: emitToolExecutionEnd_def)

lemma reportResult_trace:
  "reportResult env f s = (r, s') \<Longrightarrow>
    reports f r \<and> r_trace s' = r_trace s @ [MessageStart (ToolResultMessage r), MessageEnd (ToolResultMessage r)]"
  by (auto simp: reportResult_def emitToolResultMessage_def reports_def Let_def)

lemmas step_traces = start_trace end_trace

lemma prepareToolCall_trace:
  "prepareToolCall env cfg ctx m tc s = (preparation, s') \<Longrightarrow> r_trace s' = r_trace s"
  by (auto simp: prepareToolCall_def dest: call_trace split: option.splits sum.splits prod.splits if_splits)

lemma prepareToolCall_call:
  "prepareToolCall env cfg ctx m tc s = (Prepared p, s') \<Longrightarrow> p_toolCall p = tc"
  by (auto simp: prepareToolCall_def failed_def split: option.splits sum.splits prod.splits if_splits)

lemma finalize_spec:
  "finalizeExecutedToolCall cfg ctx m p executed s = (f, s') \<Longrightarrow> r_trace s' = r_trace s \<and> f_toolCall f = p_toolCall p"
  by (auto simp: finalizeExecutedToolCall_def dest: call_trace split: option.splits sum.splits prod.splits)

definition update_of :: "tool_call \<Rightarrow> tool_output \<Rightarrow> event" where
  "update_of tc u = ToolUpdate (tc_id tc) (tc_name tc) (tc_arguments tc) u"

lemma updates_trace:
  "r_trace (fold (emitUpdate env p) us s) = r_trace s @ map (update_of (p_toolCall p)) us"
  by (induction us arbitrary: s) (simp_all add: emitUpdate_def update_of_def)

lemma updates_reads [simp]:
  "marks (map (update_of tc) us) = []" "tool_starts (map (update_of tc) us) = []"
  "tool_ends (map (update_of tc) us) = []"
  by (induction us) (simp_all add: update_of_def)

lemma updates_accepted: "tc_id tc \<in># M \<Longrightarrow> accepts (InTurn M) (map (update_of tc) us) = Some (InTurn M)"
  by (induction us) (simp_all add: update_of_def)

lemma handleToolCall_spec:
  assumes "handleToolCall env cfg ctx m tc s = (f, s')"
  shows "f_toolCall f = tc \<and> (\<exists>us. r_trace s' = r_trace s @ map (update_of tc) us)"
proof -
  obtain pr s1 where pr: "prepareToolCall env cfg ctx m tc s = (pr, s1)" by fastforce
  show ?thesis
  proof (cases pr)
    case (Immediate r b)
    then show ?thesis
      using assms pr prepareToolCall_trace [OF pr] by (auto simp: handleToolCall_def intro: exI [of _ "[]"])
  next
    case (Prepared p)
    obtain x s2 where x: "startExecution p s1 = (x, s2)" by fastforce
    have s2: "r_trace s2 = r_trace s1"
      using x by (auto simp: startExecution_def dest: call_trace)
    have "finalizeExecutedToolCall cfg ctx m p (settledOutcome (x_outcome x)) (fold (emitUpdate env p) (x_updates x) s2) = (f, s')"
      using assms pr Prepared x by (simp add: handleToolCall_def executePreparedToolCall_def)
    from finalize_spec [OF this] show ?thesis
      using s2 prepareToolCall_trace [OF pr] prepareToolCall_call [OF pr [unfolded Prepared]]
      by (auto simp: updates_trace)
  qed
qed

section \<open>A batch of tool calls\<close>

text \<open>The calls handled are all of them, or the first ones when the abort signal was seen.\<close>

definition first_calls :: "'w env \<Rightarrow> tool_call list \<Rightarrow> tool_call list \<Rightarrow> bool" where
  "first_calls env tcs handled \<longleftrightarrow>
     (\<exists>n \<le> length tcs. handled = take n tcs \<and> (tcs \<noteq> [] \<longrightarrow> 0 < n) \<and> (n < length tcs \<longrightarrow> (\<exists>w. v_aborted env w)))"

lemma first_calls_Nil [simp]: "first_calls env [] hs \<longleftrightarrow> hs = []"
  by (simp add: first_calls_def)

lemma first_calls_stop: "v_aborted env w \<Longrightarrow> first_calls env (tc # tcs) [tc]"
  unfolding first_calls_def by (rule exI [of _ 1]) auto

lemma first_calls_all: "first_calls env tcs tcs"
  unfolding first_calls_def by (rule exI [of _ "length tcs"]) auto

lemma first_calls_Cons: "first_calls env tcs hs \<Longrightarrow> first_calls env (tc # tcs) (tc # hs)"
  unfolding first_calls_def
  by (elim exE conjE, rule_tac x = "Suc n" in exI) auto

lemma first_calls_complete: "first_calls env tcs hs \<Longrightarrow> (\<And>w. \<not> v_aborted env w) \<Longrightarrow> hs = tcs"
  by (auto simp: first_calls_def)

definition batch :: "'w env \<Rightarrow> tool_call list \<Rightarrow> finalized list \<Rightarrow> tool_result list \<Rightarrow> event list \<Rightarrow> bool" where
  "batch env tcs fs rs evs \<longleftrightarrow>
     first_calls env tcs (map f_toolCall fs) \<and> list_all2 reports fs rs
     \<and> tool_starts evs = map (start_of \<circ> f_toolCall) fs \<and> mset (tool_ends evs) = mset (map end_of fs)
     \<and> marks evs = map said_result rs \<and> accepts (InTurn {#}) evs = Some (InTurn {#})"

lemma batch_Nil [simp]: "batch env [] [] [] []"
  by (simp add: batch_def)

text \<open>The events of one call handled on its own.\<close>

definition call_events :: "finalized \<Rightarrow> tool_output list \<Rightarrow> tool_result \<Rightarrow> event list" where
  "call_events f us r =
     (let tc = f_toolCall f in
      ToolStart (tc_id tc) (tc_name tc) (tc_arguments tc) # map (update_of tc) us
      @ [ToolEnd (tc_id tc) (tc_name tc) (f_result f) (f_isError f),
         MessageStart (ToolResultMessage r), MessageEnd (ToolResultMessage r)])"

lemma call_events_reads:
  "tool_starts (call_events f us r) = [start_of (f_toolCall f)]"
  "tool_ends (call_events f us r) = [end_of f]"
  "marks (call_events f us r) = [said_result r]"
  "accepts (InTurn {#}) (call_events f us r) = Some (InTurn {#})"
  by (simp_all add: call_events_def Let_def start_of_def end_of_def updates_accepted)

lemma batch_single: "v_aborted env w \<Longrightarrow> reports f r \<Longrightarrow> batch env (f_toolCall f # tcs) [f] [r] (call_events f us r)"
  by (simp add: batch_def call_events_reads first_calls_stop)

lemma batch_Cons:
  "reports f r \<Longrightarrow> batch env tcs fs rs evs \<Longrightarrow>
    batch env (f_toolCall f # tcs) (f # fs) (r # rs) (call_events f us r @ evs)"
  by (simp add: batch_def call_events_reads first_calls_Cons)

lemma call_trace_events:
  assumes "r_trace s1 = r_trace (emitToolExecutionStart env tc s) @ map (update_of tc) us"
    and "reportResult env f (emitToolExecutionEnd env f s1) = (r, s2)" "f_toolCall f = tc"
  shows "reports f r \<and> r_trace s2 = r_trace s @ call_events f us r"
  using reportResult_trace [OF assms(2)] assms(1,3) by (simp add: step_traces call_events_def)

lemma sequentialLoop_spec:
  assumes "sequentialLoop env cfg ctx m tcs s = ((fs, rs), s')"
  shows "\<exists>evs. r_trace s' = r_trace s @ evs \<and> batch env tcs fs rs evs \<and> tool_ends evs = map end_of fs"
  using assms
proof (induction env cfg ctx m tcs s arbitrary: fs rs s' rule: sequentialLoop.induct)
  case (1 env cfg ctx m s)
  then show ?case by simp
next
  case (2 env cfg ctx m tc tcs s)
  obtain f s1 where h: "handleToolCall env cfg ctx m tc (emitToolExecutionStart env tc s) = (f, s1)"
    by fastforce
  obtain r s2 where r: "reportResult env f (emitToolExecutionEnd env f s1) = (r, s2)"
    by fastforce
  from handleToolCall_spec [OF h] obtain us where
    f: "f_toolCall f = tc" and "r_trace s1 = r_trace (emitToolExecutionStart env tc s) @ map (update_of tc) us"
    by blast
  from call_trace_events [OF this(2) r f] have
    r': "reports f r" and s2: "r_trace s2 = r_trace s @ call_events f us r" by simp_all
  show ?case
  proof (cases "v_aborted env (r_world s2)")
    case True
    then have "fs = [f]" "rs = [r]" "s' = s2" using "2.prems" h r by simp_all
    then show ?thesis
      using batch_single [OF True r', of tcs us] f s2 by (auto simp: call_events_reads)
  next
    case False
    obtain fs' rs' s3 where rec: "sequentialLoop env cfg ctx m tcs s2 = ((fs', rs'), s3)"
      by (metis prod.exhaust)
    have eqs: "fs = f # fs'" "rs = r # rs'" "s' = s3" using "2.prems" h r False rec by simp_all
    have "\<exists>evs. r_trace s3 = r_trace s2 @ evs \<and> batch env tcs fs' rs' evs \<and> tool_ends evs = map end_of fs'"
      using "2.IH" [OF refl h [symmetric] refl refl r [symmetric] refl False rec] h r by simp
    then obtain evs where evs: "r_trace s3 = r_trace s2 @ evs" "batch env tcs fs' rs' evs" "tool_ends evs = map end_of fs'"
      by blast
    show ?thesis
      using batch_Cons [OF r' evs(2), of us] f evs(1,3) s2 eqs
      by (intro exI [of _ "call_events f us r @ evs"]) (simp add: call_events_reads)
  qed
qed

definition failure :: "tool_call \<Rightarrow> finalized" where
  "failure tc = \<lparr>f_toolCall = tc, f_result = createErrorToolResult (truncatedMessage tc), f_isError = True\<rparr>"

lemma failure_call [simp]: "f_toolCall (failure tc) = tc" "f_toolCall \<circ> failure = id"
  by (auto simp: failure_def)

lemma failToolCalls_spec:
  assumes "failToolCalls env tcs s = (rs, s')"
  shows "\<exists>evs. r_trace s' = r_trace s @ evs \<and> batch env tcs (map failure tcs) rs evs
    \<and> r_world s' = fold (v_sink env) evs (r_world s)"
  using assms
proof (induction env tcs s arbitrary: rs s' rule: failToolCalls.induct)
  case (1 env s)
  then show ?case by simp
next
  case (2 env tc tcs s)
  let ?s1 = "emitToolExecutionStart env tc s"
  obtain r s2 where r: "reportResult env (failure tc) (emitToolExecutionEnd env (failure tc) ?s1) = (r, s2)"
    by fastforce
  obtain rs' s3 where rec: "failToolCalls env tcs s2 = (rs', s3)" by fastforce
  have eqs: "rs = r # rs'" "s' = s3" using "2.prems" r rec by (simp_all add: failure_def [symmetric])
  have "\<exists>evs. r_trace s3 = r_trace s2 @ evs \<and> batch env tcs (map failure tcs) rs' evs
      \<and> r_world s3 = fold (v_sink env) evs (r_world s2)"
    using "2.IH" [OF refl refl refl _ refl] r rec by (simp add: failure_def [symmetric])
  then obtain evs where evs: "r_trace s3 = r_trace s2 @ evs" "batch env tcs (map failure tcs) rs' evs"
      "r_world s3 = fold (v_sink env) evs (r_world s2)" by blast
  have tr: "reports (failure tc) r \<and> r_trace s2 = r_trace s @ call_events (failure tc) [] r"
    using call_trace_events [OF _ r, of tc s "[]"] by simp
  have "r_world s2 = fold (v_sink env) (call_events (failure tc) [] r) (r_world s)"
    using r by (auto simp: reportResult_def Let_def emitToolResultMessage_def emitToolExecutionStart_def
        emitToolExecutionEnd_def call_events_def)
  then show ?case
    using batch_Cons [OF conjunct1 [OF tr] evs(2), of "[]"] tr evs eqs
    by (intro exI [of _ "call_events (failure tc) [] r @ evs"]) simp
qed

subsection \<open>Calls side by side\<close>

fun task_call :: "'w task \<Rightarrow> tool_call" where
  "task_call (Waiting p) = p_toolCall p"
| "task_call (Executing p us r) = p_toolCall p"
| "task_call (Ending f) = f_toolCall f"
| "task_call (Finished f) = f_toolCall f"

definition open_ids :: "'w task list \<Rightarrow> jsstring multiset" where
  "open_ids ts = mset (map (tc_id \<circ> task_call) (filter (\<lambda>t. \<not> is_finished t) ts))"

abbreviation outcomes :: "'w task list \<Rightarrow> finalized list" where
  "outcomes ts \<equiv> List.map_filter outcomeOf ts"

lemma outcomes_simps [simp]:
  "outcomes [] = []" "outcomes (t # ts) = (case outcomeOf t of None \<Rightarrow> [] | Some f \<Rightarrow> [f]) @ outcomes ts"
  "outcomes (ts @ us) = outcomes ts @ outcomes us"
  by (simp_all add: List.map_filter_def split: option.split)

lemma open_ids_simps [simp]:
  "open_ids [] = {#}"
  "open_ids (t # ts) = (if is_finished t then open_ids ts else add_mset (tc_id (task_call t)) (open_ids ts))"
  "open_ids (ts @ us) = open_ids ts + open_ids us"
  by (simp_all add: open_ids_def)

lemma outcomes_none: "\<not> is_finished t \<Longrightarrow> outcomeOf t = None"
  by (cases t) simp_all

lemma outcomes_all_finished: "list_all is_finished ts \<Longrightarrow> open_ids ts = {#} \<and> map f_toolCall (outcomes ts) = map task_call ts"
proof (induction ts)
  case (Cons t ts)
  then show ?case by (cases t) simp_all
qed simp

lemma no_enabled_finished:
  assumes "enabled ts = []"
  shows "list_all is_finished ts"
proof (rule ccontr)
  assume "\<not> list_all is_finished ts"
  then have ex: "\<exists>i. i < length ts \<and> \<not> is_finished (ts ! i)"
    by (auto simp: list_all_length)
  have none: "\<not> is_finished (ts ! i) \<Longrightarrow> i < length ts \<Longrightarrow>
      is_waiting (ts ! i) \<and> \<not> list_all (\<lambda>t. \<not> is_waiting t) (take i ts)" for i
    using assms by (auto simp: enabled_def filter_empty_conv)
  define i where "i = (LEAST i. i < length ts \<and> \<not> is_finished (ts ! i))"
  have i: "i < length ts" "\<not> is_finished (ts ! i)"
    using LeastI_ex [OF ex] by (simp_all add: i_def)
  from none [OF i(2,1)] obtain j where j: "j < i" "j < length ts" "is_waiting (ts ! j)"
    by (auto simp: list_all_length)
  then have "\<not> is_finished (ts ! j)" by (cases "ts ! j") simp_all
  with j have "i \<le> j" unfolding i_def by (intro Least_le) simp
  with j show False by simp
qed

lemma prepareLoop_spec:
  assumes "prepareLoop env cfg ctx m tcs s = (ts, s')"
  shows "\<exists>evs. r_trace s' = r_trace s @ evs \<and> first_calls env tcs (map task_call ts)
    \<and> tool_starts evs = map (start_of \<circ> task_call) ts \<and> tool_ends evs = map end_of (outcomes ts)
    \<and> marks evs = [] \<and> (\<forall>M. accepts (InTurn M) evs = Some (InTurn (M + open_ids ts)))"
  using assms
proof (induction env cfg ctx m tcs s arbitrary: ts s' rule: prepareLoop.induct)
  case (1 env cfg ctx m s)
  then show ?case by simp
next
  case (2 env cfg ctx m tc tcs s)
  obtain pr s1 where pr: "prepareToolCall env cfg ctx m tc (emitToolExecutionStart env tc s) = (pr, s1)"
    by fastforce
  define t where "t = (case pr of Immediate r e \<Rightarrow> Finished \<lparr>f_toolCall = tc, f_result = r, f_isError = e\<rparr> | Prepared p \<Rightarrow> Waiting p)"
  define s2 where "s2 = (case pr of Immediate r e \<Rightarrow>
      emitToolExecutionEnd env \<lparr>f_toolCall = tc, f_result = r, f_isError = e\<rparr> s1 | Prepared p \<Rightarrow> s1)"
  have ts: "(t, s2) = (case pr of Immediate result isError \<Rightarrow>
      (let f = \<lparr>f_toolCall = tc, f_result = result, f_isError = isError\<rparr> in (Finished f, emitToolExecutionEnd env f s1))
      | Prepared p \<Rightarrow> (Waiting p, s1))"
    by (cases pr) (simp_all add: t_def s2_def Let_def)
  have call: "task_call t = tc"
    using pr by (cases pr) (auto simp: t_def dest: prepareToolCall_call)
  obtain e1 where e1: "r_trace s2 = r_trace s @ e1" "tool_starts e1 = [start_of tc]"
      "tool_ends e1 = map end_of (outcomes [t])" "marks e1 = []"
      "\<And>M. accepts (InTurn M) e1 = Some (InTurn (M + open_ids [t]))"
    using prepareToolCall_trace [OF pr] call
    by (cases pr) (auto simp: t_def s2_def step_traces start_of_def end_of_def)
  show ?case
  proof (cases "v_aborted env (r_world s2)")
    case True
    then have "ts = [t]" "s' = s2" using "2.prems" pr ts [symmetric] by simp_all
    then show ?thesis using e1 call first_calls_stop [OF True, of tc tcs] by auto
  next
    case False
    obtain ts' s3 where rec: "prepareLoop env cfg ctx m tcs s2 = (ts', s3)" by fastforce
    have eqs: "ts = t # ts'" "s' = s3" using "2.prems" pr ts [symmetric] False rec by simp_all
    from "2.IH" [OF refl pr [symmetric] refl ts refl False rec] obtain e2 where
      e2: "r_trace s3 = r_trace s2 @ e2" "first_calls env tcs (map task_call ts')"
        "tool_starts e2 = map (start_of \<circ> task_call) ts'" "tool_ends e2 = map end_of (outcomes ts')"
        "marks e2 = []" "\<And>M. accepts (InTurn M) e2 = Some (InTurn (M + open_ids ts'))" by blast
    show ?thesis
      using e1 e2 eqs call first_calls_Cons [OF e2(2), of tc]
      by (intro exI [of _ "e1 @ e2"]) (auto simp: ac_simps split: option.split)
  qed
qed

lemma stepTask_spec:
  assumes "stepTask env cfg ctx m t s = (t', s')"
  shows "task_call t' = task_call t \<and> (\<exists>evs. r_trace s' = r_trace s @ evs \<and> tool_starts evs = [] \<and> marks evs = []
    \<and> map end_of (outcomes [t']) = map end_of (outcomes [t]) @ tool_ends evs
    \<and> (\<forall>M. accepts (InTurn (M + open_ids [t])) evs = Some (InTurn (M + open_ids [t']))))"
proof (cases t)
  case (Waiting p)
  then show ?thesis
    using assms by (auto simp: stepTask_def startExecution_def dest: call_trace split: prod.splits)
next
  case (Executing p us r)
  show ?thesis
  proof (cases us)
    case Nil
    then show ?thesis
      using assms Executing by (auto simp: stepTask_def dest: finalize_spec split: prod.splits)
  next
    case (Cons u us')
    then show ?thesis
      using assms Executing
      by (auto simp: stepTask_def emitUpdate_def intro!: exI [of _ "[ToolUpdate _ _ _ _]"])
  qed
next
  case (Ending f)
  then show ?thesis
    using assms by (auto simp: stepTask_def step_traces end_of_def)
next
  case (Finished f)
  then show ?thesis using assms by (auto simp: stepTask_def)
qed

lemma settleTasks_spec:
  assumes "settleTasks env cfg ctx m ts s = (ts', s')"
  shows "map task_call ts' = map task_call ts \<and> list_all is_finished ts' \<and> (\<exists>evs. r_trace s' = r_trace s @ evs
    \<and> tool_starts evs = [] \<and> marks evs = []
    \<and> mset (map end_of (outcomes ts')) = mset (map end_of (outcomes ts)) + mset (tool_ends evs)
    \<and> accepts (InTurn (open_ids ts)) evs = Some (InTurn {#}))"
  using assms
proof (induction env cfg ctx m ts s arbitrary: ts' s' rule: settleTasks.induct)
  case (1 env cfg ctx m ts s)
  show ?case
  proof (cases "enabled ts = []")
    case True
    then have "ts' = ts" "s' = s" using "1.prems" by (simp_all add: settleTasks.simps)
    then show ?thesis
      using no_enabled_finished [OF True] outcomes_all_finished [OF no_enabled_finished [OF True]] by simp
  next
    case False
    define i where "i = pickTask env (r_world s) (enabled ts)"
    have i: "i < length ts"
      using enabled_range [OF pickTask_in [OF False, of env "r_world s"]] by (simp add: i_def)
    obtain t s1 where t: "stepTask env cfg ctx m (ts ! i) s = (t, s1)" by fastforce
    have rest: "settleTasks env cfg ctx m (ts[i := t]) s1 = (ts', s')"
      using "1.prems" False t by (subst (asm) settleTasks.simps) (simp add: i_def)
    from "1.IH" [OF False i_def t [symmetric] refl rest] obtain e2 where
      e2: "map task_call ts' = map task_call (ts[i := t])" "list_all is_finished ts'" "r_trace s' = r_trace s1 @ e2"
        "tool_starts e2 = []" "marks e2 = []"
        "mset (map end_of (outcomes ts')) = mset (map end_of (outcomes (ts[i := t]))) + mset (tool_ends e2)"
        "accepts (InTurn (open_ids (ts[i := t]))) e2 = Some (InTurn {#})" by blast
    from stepTask_spec [OF t] obtain e1 where
      e1: "task_call t = task_call (ts ! i)" "r_trace s1 = r_trace s @ e1" "tool_starts e1 = []" "marks e1 = []"
        "map end_of (outcomes [t]) = map end_of (outcomes [ts ! i]) @ tool_ends e1"
        "\<And>M. accepts (InTurn (M + open_ids [ts ! i])) e1 = Some (InTurn (M + open_ids [t]))" by blast
    let ?a = "take i ts" and ?b = "drop (Suc i) ts"
    have ts: "ts = ?a @ [ts ! i] @ ?b" using id_take_nth_drop [OF i] by simp
    have ts1: "ts[i := t] = ?a @ [t] @ ?b" using upd_conv_take_nth_drop [OF i] by simp
    have "map task_call (ts[i := t]) = map task_call ts"
      using e1(1) i by (simp add: map_update list_update_same_conv)
    moreover have "mset (map end_of (outcomes (ts[i := t]))) = mset (map end_of (outcomes ts)) + mset (tool_ends e1)"
      using arg_cong [OF e1(5), of mset] by (subst ts1, subst (3) ts) (simp only: outcomes_simps map_append mset_append, simp)
    moreover have "accepts (InTurn (open_ids ts)) e1 = Some (InTurn (open_ids (ts[i := t])))"
    proof -
      have "open_ids ts = (open_ids ?a + open_ids ?b) + open_ids [ts ! i]"
        by (subst ts) (simp only: open_ids_simps ac_simps)
      moreover have "open_ids (ts[i := t]) = (open_ids ?a + open_ids ?b) + open_ids [t]"
        by (subst ts1) (simp only: open_ids_simps ac_simps)
      ultimately show ?thesis using e1(6) by simp
    qed
    ultimately show ?thesis
      using e1(2-4) e2 by (intro conjI exI [of _ "e1 @ e2"]) (simp_all add: ac_simps)
  qed
qed

lemma reportResults_spec:
  assumes "reportResults env fs s = (rs, s')"
  shows "list_all2 reports fs rs \<and> (\<exists>evs. r_trace s' = r_trace s @ evs \<and> tool_starts evs = [] \<and> tool_ends evs = []
    \<and> marks evs = map said_result rs \<and> accepts (InTurn {#}) evs = Some (InTurn {#}))"
  using assms
proof (induction fs arbitrary: rs s s')
  case (Cons f fs)
  obtain r s1 where r: "reportResult env f s = (r, s1)" by fastforce
  obtain rs' s2 where rec: "reportResults env fs s1 = (rs', s2)" by fastforce
  have eqs: "rs = r # rs'" "s' = s2" using Cons.prems r rec by simp_all
  from Cons.IH [OF rec] obtain evs where "list_all2 reports fs rs'" "r_trace s2 = r_trace s1 @ evs" "tool_starts evs = []"
    "tool_ends evs = []" "marks evs = map said_result rs'" "accepts (InTurn {#}) evs = Some (InTurn {#})" by blast
  with reportResult_trace [OF r] show ?case
    by (intro conjI exI [of _ "[MessageStart (ToolResultMessage r), MessageEnd (ToolResultMessage r)] @ evs"])
      (simp_all add: eqs)
qed simp

lemma executeToolCallsParallel_spec:
  assumes "executeToolCallsParallel env cfg ctx m tcs s = ((rs, b), s')"
  shows "\<exists>evs fs. r_trace s' = r_trace s @ evs \<and> batch env tcs fs rs evs \<and> b = shouldTerminateToolBatch fs"
proof -
  obtain ts s1 where p: "prepareLoop env cfg ctx m tcs s = (ts, s1)" by fastforce
  obtain ts' s2 where q: "settleTasks env cfg ctx m ts s1 = (ts', s2)" by fastforce
  have r: "reportResults env (outcomes ts') s2 = (rs, s')" and b: "b = shouldTerminateToolBatch (outcomes ts')"
    using assms p q by (auto simp: executeToolCallsParallel_def Let_def split: prod.splits)
  from prepareLoop_spec [OF p] obtain e1 where e1: "r_trace s1 = r_trace s @ e1" "first_calls env tcs (map task_call ts)"
      "tool_starts e1 = map (start_of \<circ> task_call) ts" "tool_ends e1 = map end_of (outcomes ts)" "marks e1 = []"
      "accepts (InTurn {#}) e1 = Some (InTurn (open_ids ts))" by fastforce
  from settleTasks_spec [OF q] obtain e2 where e2: "map task_call ts' = map task_call ts" "list_all is_finished ts'"
      "r_trace s2 = r_trace s1 @ e2" "tool_starts e2 = []" "marks e2 = []"
      "mset (map end_of (outcomes ts')) = mset (map end_of (outcomes ts)) + mset (tool_ends e2)"
      "accepts (InTurn (open_ids ts)) e2 = Some (InTurn {#})" by blast
  from reportResults_spec [OF r] obtain e3 where e3: "list_all2 reports (outcomes ts') rs" "r_trace s' = r_trace s2 @ e3"
      "tool_starts e3 = []" "tool_ends e3 = []" "marks e3 = map said_result rs"
      "accepts (InTurn {#}) e3 = Some (InTurn {#})" by blast
  have calls: "map f_toolCall (outcomes ts') = map task_call ts"
    using outcomes_all_finished [OF e2(2)] e2(1) by simp
  then have "map (start_of \<circ> f_toolCall) (outcomes ts') = map (start_of \<circ> task_call) ts"
    by (metis map_map)
  with calls e1 e2 e3 have "batch env tcs (outcomes ts') rs (e1 @ e2 @ e3)"
    by (simp add: batch_def)
  with e1(1) e2(3) e3(2) b show ?thesis by fastforce
qed

lemma executeToolCalls_spec:
  assumes "executeToolCalls env cfg ctx m s = ((rs, b), s')"
  shows "\<exists>evs fs. r_trace s' = r_trace s @ evs \<and> batch env (toolCallsOf m) fs rs evs \<and> b = shouldTerminateToolBatch fs"
  using assms sequentialLoop_spec executeToolCallsParallel_spec
  by (fastforce simp: executeToolCalls_def executeToolCallsSequential_def Let_def split: if_splits prod.splits)

section \<open>The response\<close>

fun is_start :: "stream_event \<Rightarrow> bool" where
  "is_start (StreamStart _) = True"
| "is_start _ = False"

definition starts_once :: "response \<Rightarrow> bool" where
  "starts_once r \<longleftrightarrow> length (filter is_start (rs_events r)) \<le> 1"

lemma finishResponse_spec:
  assumes "finishResponse env final added ctx s = (m, ctx', s')"
  shows "m = final \<and> (\<exists>evs. r_trace s' = r_trace s @ evs \<and> marks evs = [Said (AssistantMessage final)]
    \<and> accepts (if added then InMessage else InTurn {#}) evs = Some (InTurn {#}))"
  using assms by (auto simp: finishResponse_def Let_def)

lemma responseLoop_spec:
  assumes "responseLoop env final es added ctx s = (m, ctx', s')"
    and "length (filter is_start es) + (if added then 1 else 0) \<le> 1"
  shows "m = final \<and> (\<exists>evs. r_trace s' = r_trace s @ evs \<and> marks evs = [Said (AssistantMessage final)]
    \<and> accepts (if added then InMessage else InTurn {#}) evs = Some (InTurn {#}))"
  using assms
proof (induction env final es added ctx s rule: responseLoop.induct)
  case (2 env final p es added ctx s)
  then show ?case
    by (auto intro!: exI [of _ "[MessageStart (AssistantMessage p)] @ _"] split: if_splits)
next
  case (3 env final k p es added ctx s)
  show ?case
  proof (cases added)
    case True
    with "3.IH"(1) "3.prems" obtain evs where "m = final"
        "r_trace s' = r_trace s @ MessageUpdate (AssistantMessage p) (StreamDelta k p) # evs"
        "marks evs = [Said (AssistantMessage final)]" "accepts InMessage evs = Some (InTurn {#})" by auto
    with True show ?thesis
      by (intro conjI exI [of _ "MessageUpdate (AssistantMessage p) (StreamDelta k p) # evs"]) simp_all
  next
    case False
    with "3.IH"(2) "3.prems" show ?thesis by simp
  qed
qed (simp only: responseLoop.simps, erule finishResponse_spec)+

lemma streamAssistantResponse_spec:
  assumes "streamAssistantResponse env cfg ctx s = (m, ctx', s')"
    and once: "\<And>mo c g w. starts_once (fst (v_stream env mo c g w))"
  shows "\<exists>evs. r_trace s' = r_trace s @ evs \<and> marks evs = [Said (AssistantMessage m)]
    \<and> accepts (InTurn {#}) evs = Some (InTurn {#})"
proof -
  obtain msgs s1 where c1: "(case g_transformContext cfg of None \<Rightarrow> (cx_messages ctx, s)
      | Some f \<Rightarrow> call (f (cx_messages ctx)) s) = (msgs, s1)" by fastforce
  obtain lms s2 where c2: "call (g_convertToLlm cfg msgs) s1 = (lms, s2)" by fastforce
  obtain key s3 where c3: "(case g_getApiKey cfg of None \<Rightarrow> (None, s2)
      | Some f \<Rightarrow> call (f (mo_provider (g_model cfg))) s2) = (key, s3)" by fastforce
  obtain resp s4 where c4: "call (v_stream env (g_model cfg)
        \<lparr>lc_systemPrompt = cx_systemPrompt ctx, lc_messages = lms, lc_tools = cx_tools ctx\<rparr>
        (cfg\<lparr>g_apiKey := (if truthy key then key else g_apiKey cfg)\<rparr>)) s3 = (resp, s4)" by fastforce
  have tr: "r_trace s4 = r_trace s"
    using c1 c2 c3 c4 by (auto dest!: call_trace split: option.splits)
  have "starts_once resp"
    using once c4 by (auto simp: call_def split: prod.splits) (metis fst_conv)
  moreover have "responseLoop env (rs_result resp) (rs_events resp) False ctx s4 = (m, ctx', s')"
    using assms(1) c1 c2 c3 c4 by (simp add: streamAssistantResponse_def)
  ultimately show ?thesis
    using responseLoop_spec [of env _ _ False ctx s4 m ctx' s'] tr by (auto simp: starts_once_def)
qed

section \<open>The turns\<close>

definition call_of_result :: "tool_result \<Rightarrow> jsstring \<times> jsstring" where
  "call_of_result r = (tr_toolCallId r, tr_toolName r)"

definition call_of :: "tool_call \<Rightarrow> jsstring \<times> jsstring" where
  "call_of tc = (tc_id tc, tc_name tc)"

text \<open>A turn answers the tool calls of its response, in their order.\<close>

fun turn_answered :: "'w env \<Rightarrow> message \<times> tool_result list \<Rightarrow> bool" where
  "turn_answered env (AssistantMessage m, rs) \<longleftrightarrow>
     (if a_stopReason m = StopError \<or> a_stopReason m = Aborted then rs = []
      else \<exists>hs. first_calls env (toolCallsOf m) hs \<and> map call_of_result rs = map call_of hs)"
| "turn_answered env _ \<longleftrightarrow> False"

definition trace_ok :: "'w env \<Rightarrow> stage \<Rightarrow> message list \<Rightarrow> 'w run \<Rightarrow> bool" where
  "trace_ok env g msgs s \<longleftrightarrow> accepts NotStarted (r_trace s) = Some g \<and> message_ends (r_trace s) = msgs
     \<and> list_all (turn_answered env) (turn_ends (r_trace s))"

lemma marks_lists [simp]:
  "List.map_filter said [] = []" "List.map_filter closed [] = []"
  "List.map_filter said (x # xs) = (case said x of None \<Rightarrow> [] | Some m \<Rightarrow> [m]) @ List.map_filter said xs"
  "List.map_filter closed (x # xs) = (case closed x of None \<Rightarrow> [] | Some m \<Rightarrow> [m]) @ List.map_filter closed xs"
  "List.map_filter said (map said_result rs) = map ToolResultMessage rs"
  "List.map_filter closed (map said_result rs) = []"
  by (simp_all add: List.map_filter_def split: option.split)

lemma trace_ok_step:
  assumes "trace_ok env g msgs s" "r_trace s' = r_trace s @ evs" "accepts g evs = Some g'"
    and "list_all (turn_answered env) (List.map_filter closed (marks evs))"
  shows "trace_ok env g' (msgs @ List.map_filter said (marks evs)) s'"
  using assms by (simp add: trace_ok_def message_ends_marks turn_ends_marks map_filter_append)

lemma trace_ok_same: "trace_ok env g msgs s \<Longrightarrow> r_trace s' = r_trace s \<Longrightarrow> trace_ok env g msgs s'"
  by (simp add: trace_ok_def)

lemma trace_ok_call: "trace_ok env g msgs s \<Longrightarrow> call f s = (a, s') \<Longrightarrow> trace_ok env g msgs s'"
  by (auto dest: call_trace trace_ok_same)

lemma batch_answers:
  assumes "batch env tcs fs rs evs"
  shows "\<exists>hs. first_calls env tcs hs \<and> map call_of_result rs = map call_of hs"
proof -
  have "list_all2 reports fs rs \<Longrightarrow> map call_of_result rs = map call_of (map f_toolCall fs)"
    by (induction rule: list_all2_induct) (simp_all add: call_of_result_def call_of_def reports_call)
  with assms show ?thesis by (auto simp: batch_def)
qed

lemma runToolCalls_spec:
  assumes "runToolCalls env cfg ctx m s = ((rs, b), s')"
  shows "\<exists>evs fs. r_trace s' = r_trace s @ evs \<and> batch env (toolCallsOf m) fs rs evs"
proof -
  consider "toolCallsOf m = []" | "toolCallsOf m \<noteq> []" "a_stopReason m = Length"
    | "toolCallsOf m \<noteq> []" "a_stopReason m \<noteq> Length" by blast
  then show ?thesis
  proof cases
    case 1
    with assms have "r_trace s' = r_trace s @ []" "batch env (toolCallsOf m) [] rs []"
      by (simp_all add: runToolCalls_def)
    then show ?thesis by blast
  next
    case 2
    with assms show ?thesis
      by (auto simp: runToolCalls_def failToolCallsFromTruncatedMessage_def dest!: failToolCalls_spec split: prod.splits)
  next
    case 3
    with assms have "executeToolCalls env cfg ctx m s = ((rs, b), s')" by (simp add: runToolCalls_def)
    from executeToolCalls_spec [OF this] show ?thesis by blast
  qed
qed

lemma emitMessages_ok:
  "trace_ok env (InTurn {#}) msgs s \<Longrightarrow> trace_ok env (InTurn {#}) (msgs @ ms) (fold (emitMessage env) ms s)"
proof (induction ms arbitrary: msgs s)
  case (Cons m ms)
  have "trace_ok env (InTurn {#}) (msgs @ [m]) (emitMessage env m s)"
    using trace_ok_step [OF Cons.prems, of "emitMessage env m s" "[MessageStart m, MessageEnd m]" "InTurn {#}"]
    by (simp add: emitMessage_def)
  from Cons.IH [OF this] show ?case by simp
qed simp

definition ready :: "'w env \<Rightarrow> 'w loop \<Rightarrow> bool" where
  "ready env l \<longleftrightarrow> trace_ok env (if l_firstTurn l then InTurn {#} else BetweenTurns) (l_newMessages l) (l_run l)"

definition in_turn :: "'w env \<Rightarrow> 'w loop \<Rightarrow> bool" where
  "in_turn env l \<longleftrightarrow> \<not> l_firstTurn l \<and> trace_ok env (InTurn {#}) (l_newMessages l) (l_run l)"

definition over :: "'w env \<Rightarrow> 'w loop \<Rightarrow> bool" where
  "over env l \<longleftrightarrow> trace_ok env Ended (l_newMessages l) (l_run l)
     \<and> (\<exists>evs. r_trace (l_run l) = evs @ [AgentEnd (l_newMessages l)])"

lemma beginTurn_in_turn: "ready env l \<Longrightarrow> in_turn env (beginTurn env l)"
  using trace_ok_step [of env BetweenTurns "l_newMessages l" "l_run l" "emit env TurnStart (l_run l)" "[TurnStart]" "InTurn {#}"]
  by (auto simp: ready_def in_turn_def beginTurn_def)

lemma injectPending_in_turn: "in_turn env l \<Longrightarrow> in_turn env (injectPending env l)"
  by (simp add: in_turn_def injectPending_def emitMessages_ok)

lemma responsePhase_in_turn:
  assumes "in_turn env l" "responsePhase env l = (m, l')" "\<And>mo c g w. starts_once (fst (v_stream env mo c g w))"
  shows "in_turn env l'"
proof -
  obtain ctx s where r: "streamAssistantResponse env (l_config l) (l_context l) (l_run l) = (m, ctx, s)"
    and l': "l' = l\<lparr>l_context := ctx, l_newMessages := l_newMessages l @ [AssistantMessage m], l_run := s\<rparr>"
    using assms(2) by (auto simp: responsePhase_def split: prod.splits)
  from streamAssistantResponse_spec [OF r assms(3)] obtain evs where
    "r_trace s = r_trace (l_run l) @ evs" "marks evs = [Said (AssistantMessage m)]"
    "accepts (InTurn {#}) evs = Some (InTurn {#})" by blast
  with assms(1) trace_ok_step [of env "InTurn {#}" "l_newMessages l" "l_run l" s evs "InTurn {#}"]
  show ?thesis by (simp add: in_turn_def l')
qed

lemma turnEnd_ready:
  assumes "in_turn env l" "turn_answered env (AssistantMessage m, rs)"
  shows "trace_ok env BetweenTurns (l_newMessages l) (emit env (TurnEnd (AssistantMessage m) rs) (l_run l))"
  using assms trace_ok_step [of env "InTurn {#}" "l_newMessages l" "l_run l" _ "[TurnEnd (AssistantMessage m) rs]" BetweenTurns]
  by (simp add: in_turn_def del: turn_answered.simps)

lemma toolPhase_ready:
  assumes "in_turn env l" "toolPhase env m l = (rs, l')" "a_stopReason m \<noteq> StopError" "a_stopReason m \<noteq> Aborted"
  shows "ready env l' \<and> \<not> l_firstTurn l'"
proof -
  obtain b s where r: "runToolCalls env (l_config l) (l_context l) m (l_run l) = ((rs, b), s)"
    and l': "l_newMessages l' = l_newMessages l @ map ToolResultMessage rs" "l_firstTurn l' = l_firstTurn l"
      "l_run l' = emit env (TurnEnd (AssistantMessage m) rs) s"
    using assms(2) by (auto simp: toolPhase_def Let_def split: prod.splits)
  from runToolCalls_spec [OF r] obtain evs fs where
    evs: "r_trace s = r_trace (l_run l) @ evs" and b: "batch env (toolCallsOf m) fs rs evs" by blast
  have "trace_ok env (InTurn {#}) (l_newMessages l') s"
    using trace_ok_step [OF _ evs, of env "InTurn {#}" "l_newMessages l" "InTurn {#}"] b assms(1)
    by (simp add: in_turn_def batch_def l')
  moreover have "turn_answered env (AssistantMessage m, rs)"
    using batch_answers [OF b] assms(3,4) by simp
  ultimately show ?thesis
    using turnEnd_ready [of env "l'\<lparr>l_run := s\<rparr>" m rs] assms(1) by (simp add: ready_def in_turn_def l')
qed

lemma applyUpdate_keeps: "l_newMessages (applyUpdate u l) = l_newMessages l" "l_run (applyUpdate u l) = l_run l"
    "l_firstTurn (applyUpdate u l) = l_firstTurn l"
  by (simp_all add: applyUpdate_def split: option.split)

lemma askForUpdate_keeps:
  "l_newMessages (askForUpdate m rs l) = l_newMessages l \<and> l_firstTurn (askForUpdate m rs l) = l_firstTurn l
    \<and> r_trace (l_run (askForUpdate m rs l)) = r_trace (l_run l)"
  by (auto simp: askForUpdate_def applyUpdate_keeps dest: call_trace split: option.split prod.splits)

lemma askToStop_keeps:
  "askToStop m rs l = (b, l') \<Longrightarrow>
    l_newMessages l' = l_newMessages l \<and> l_firstTurn l' = l_firstTurn l \<and> r_trace (l_run l') = r_trace (l_run l)"
  by (auto simp: askToStop_def dest: call_trace split: option.splits prod.splits)

lemma pollMessages_trace: "pollMessages f s = (ms, s') \<Longrightarrow> r_trace s' = r_trace s"
  by (auto simp: pollMessages_def dest: call_trace split: option.splits)

lemma endRun_over: "trace_ok env BetweenTurns (l_newMessages l) (l_run l) \<Longrightarrow> over env (endRun env l)"
  using trace_ok_step [of env BetweenTurns "l_newMessages l" "l_run l" _ "[AgentEnd (l_newMessages l)]" Ended]
  by (simp add: over_def endRun_def)

lemma turn_spec:
  assumes "ready env l" "turn env l = (b, l')" "\<And>mo c g w. starts_once (fst (v_stream env mo c g w))"
  shows "if b then over env l' else ready env l' \<and> \<not> l_firstTurn l'"
proof -
  obtain m l1 where r: "responsePhase env (injectPending env (beginTurn env l)) = (m, l1)" by fastforce
  have l1: "in_turn env l1"
    using responsePhase_in_turn [OF injectPending_in_turn [OF beginTurn_in_turn [OF assms(1)]] r assms(3)] .
  show ?thesis
  proof (cases "a_stopReason m = StopError \<or> a_stopReason m = Aborted")
    case True
    then have "turn_answered env (AssistantMessage m, [])" by auto
    from turnEnd_ready [OF l1 this] endRun_over [of env "l1\<lparr>l_run := emit env (TurnEnd (AssistantMessage m) []) (l_run l1)\<rparr>"]
    show ?thesis using assms(2) r True by (auto simp: turn_def)
  next
    case False
    obtain rs l2 where t: "toolPhase env m l1 = (rs, l2)" by fastforce
    obtain stop l3 where s: "askToStop m rs (askForUpdate m rs l2) = (stop, l3)" by fastforce
    obtain ms s4 where p: "pollMessages (g_getSteeringMessages (l_config l3)) (l_run l3) = (ms, s4)" by fastforce
    have l2: "ready env l2" "\<not> l_firstTurn l2" using toolPhase_ready [OF l1 t] False by auto
    then have l3: "trace_ok env BetweenTurns (l_newMessages l3) (l_run l3)" "\<not> l_firstTurn l3"
      using askToStop_keeps [OF s] askForUpdate_keeps [of m rs l2] by (auto simp: ready_def trace_ok_def)
    show ?thesis
    proof (cases stop)
      case True
      with assms(2) r t s False have "b" "l' = endRun env l3" by (auto simp: turn_def)
      then show ?thesis using endRun_over l3 by simp
    next
      case cont: False
      with assms(2) r t s False p have "\<not> b" "l' = l3\<lparr>l_pending := ms, l_run := s4\<rparr>" by (auto simp: turn_def)
      then show ?thesis using l3 pollMessages_trace [OF p] by (auto simp: ready_def trace_ok_def)
    qed
  qed
qed

lemma toolPhase_grows: "toolPhase env m l = (rs, l') \<Longrightarrow>
    l_newMessages l' = l_newMessages l @ map ToolResultMessage rs \<and> l_config l' = l_config l"
  by (auto simp: toolPhase_def Let_def split: prod.splits)

definition stop_hook :: "'w loop \<Rightarrow> ('w turn_info \<Rightarrow> 'w \<Rightarrow> bool \<times> 'w) option" where
  "stop_hook l = g_shouldStopAfterTurn (l_config l)"

lemma stop_hook_simps [simp]:
  "stop_hook (applyUpdate u l) = stop_hook l" "stop_hook (askForUpdate m rs l) = stop_hook l"
  "stop_hook (l\<lparr>l_hasMoreToolCalls := h\<rparr>) = stop_hook l" "stop_hook (l\<lparr>l_pending := ms\<rparr>) = stop_hook l"
  "stop_hook (l\<lparr>l_run := s\<rparr>) = stop_hook l"
  by (auto simp: stop_hook_def askForUpdate_def applyUpdate_def split: option.split prod.split)

text \<open>A turn adds messages; when it goes on, the stop hook was asked about them and said no.\<close>

lemma turn_grows:
  assumes "turn env l = (b, l')"
  shows "(\<exists>rest. rest \<noteq> [] \<and> l_newMessages l' = l_newMessages l @ rest) \<and> stop_hook l' = stop_hook l
    \<and> (\<not> b \<longrightarrow> (\<forall>f. stop_hook l = Some f \<longrightarrow> (\<exists>info w. ti_newMessages info = l_newMessages l' \<and> \<not> fst (f info w))))"
proof -
  obtain m l1 where r: "responsePhase env (injectPending env (beginTurn env l)) = (m, l1)" by fastforce
  then have l1: "l_newMessages l1 = l_newMessages l @ l_pending l @ [AssistantMessage m]" "stop_hook l1 = stop_hook l"
    by (auto simp: responsePhase_def injectPending_def beginTurn_def stop_hook_def split: prod.splits if_splits)
  show ?thesis
  proof (cases "a_stopReason m = StopError \<or> a_stopReason m = Aborted")
    case True
    with assms r l1 show ?thesis by (auto simp: turn_def endRun_def stop_hook_def)
  next
    case False
    obtain rs l2 where t: "toolPhase env m l1 = (rs, l2)" by fastforce
    define l3 where "l3 = askForUpdate m rs l2"
    obtain stop l4 where s: "askToStop m rs l3 = (stop, l4)" by fastforce
    have l3: "l_newMessages l3 = l_newMessages l @ l_pending l @ AssistantMessage m # map ToolResultMessage rs"
        "stop_hook l3 = stop_hook l"
      using toolPhase_grows [OF t] l1 askForUpdate_keeps [of m rs l2] by (auto simp: l3_def stop_hook_def [of l2] stop_hook_def [of l1])
    have l4: "l_newMessages l4 = l_newMessages l3" "stop_hook l4 = stop_hook l3"
      using askToStop_keeps [OF s] s by (auto simp: askToStop_def stop_hook_def split: option.splits prod.splits)
    have asked: "\<exists>info w. ti_newMessages info = l_newMessages l3 \<and> \<not> fst (f info w)" if "stop_hook l3 = Some f" "\<not> stop" for f
    proof -
      from s that have "\<not> fst (f (turnInfo m rs l3) (r_world (l_run l3)))"
        by (auto simp: askToStop_def stop_hook_def call_def split: prod.splits)
      then show ?thesis by (intro exI conjI) (simp_all add: turnInfo_def)
    qed
    show ?thesis
    proof (cases stop)
      case True
      with assms r t s False have "b" "l' = endRun env l4" by (auto simp: turn_def l3_def)
      with l3 l4 show ?thesis by (simp add: endRun_def)
    next
      case cont: False
      with assms r t s False obtain ms s5 where "\<not> b" "l' = l4\<lparr>l_pending := ms, l_run := s5\<rparr>"
        by (auto simp: turn_def l3_def split: prod.splits)
      with l3 l4 asked cont show ?thesis by simp
    qed
  qed
qed

lemma turn_prefix: "turn env l = (b, l') \<Longrightarrow> \<exists>rest. l_newMessages l' = l_newMessages l @ rest"
  using turn_grows by blast

definition protocol :: "'w env \<Rightarrow> bool" where
  "protocol env \<longleftrightarrow> (\<forall>mo c g w. starts_once (fst (v_stream env mo c g w)))"

definition inner_result :: "'w env \<Rightarrow> 'w loop \<Rightarrow> bool \<times> 'w loop \<Rightarrow> bool" where
  "inner_result env l y \<longleftrightarrow> (\<exists>rest. l_newMessages (snd y) = l_newMessages l @ rest) \<and> (if fst y then over env (snd y)
     else ready env (snd y) \<and> (l_hasMoreToolCalls l \<or> \<not> l_firstTurn l \<longrightarrow> \<not> l_firstTurn (snd y)))"

lemma turn_result:
  assumes "ready env l" "protocol env" "turn env l = (b, l')"
  shows "if b then over env l' else ready env l' \<and> \<not> l_firstTurn l'"
  using turn_spec [OF assms(1,3)] assms(2) by (simp add: protocol_def)

lemma innerLoop_spec:
  assumes "innerLoop env l = Some y" "ready env l" "protocol env"
  shows "inner_result env l y"
proof -
  have "ready env l \<longrightarrow> protocol env \<longrightarrow> inner_result env l y"
  proof (rule innerLoop.raw_induct [OF _ assms(1), where P = "\<lambda>env l y. ready env l \<longrightarrow> protocol env \<longrightarrow> inner_result env l y"], intro impI)
    fix rec env l y
    assume ih: "\<And>env l y. rec env l = Some y \<Longrightarrow> ready env l \<longrightarrow> protocol env \<longrightarrow> inner_result env l y"
      and step: "(if l_hasMoreToolCalls l \<or> l_pending l \<noteq> []
          then (let (over, l) = turn env l in if over then Some (True, l) else rec env l)
          else Some (False, l)) = Some y"
      and r: "ready env l" and p: "protocol env"
    obtain b l1 where t: "turn env l = (b, l1)" by fastforce
    have res: "if b then over env l1 else ready env l1 \<and> \<not> l_firstTurn l1"
      using turn_result [OF r p t] .
    have "(if l_hasMoreToolCalls l \<or> l_pending l \<noteq> [] then (if b then Some (True, l1) else rec env l1)
        else Some (False, l)) = Some y"
      using step t by (simp cong: if_cong)
    then show "inner_result env l y"
      using res ih [of env l1 y] r p turn_prefix [OF t]
      by (auto simp: inner_result_def split: if_split_asm)
  qed
  with assms(2,3) show ?thesis by blast
qed

definition outer_result :: "'w env \<Rightarrow> 'w loop \<Rightarrow> 'w loop \<Rightarrow> bool" where
  "outer_result env l y \<longleftrightarrow> over env y \<and> (\<exists>rest. l_newMessages y = l_newMessages l @ rest)"

lemma outerLoop_spec:
  assumes "outerLoop env l = Some l'" "ready env l" "protocol env"
  shows "outer_result env l l'"
proof -
  have "ready env l \<longrightarrow> protocol env \<longrightarrow> outer_result env l l'"
  proof (rule outerLoop.raw_induct [OF _ assms(1), where P = "\<lambda>env l y. ready env l \<longrightarrow> protocol env \<longrightarrow> outer_result env l y"], intro impI)
    fix rec :: "'a env \<Rightarrow> 'a loop \<Rightarrow> 'a loop option" and env l y
    assume ih: "\<And>env l y. rec env l = Some y \<Longrightarrow> ready env l \<longrightarrow> protocol env \<longrightarrow> outer_result env l y"
      and step: "Option.bind (innerLoop env (l\<lparr>l_hasMoreToolCalls := True\<rparr>)) (\<lambda>(over, l).
         if over then Some l
         else (let (followUps, s) = pollMessages (g_getFollowUpMessages (l_config l)) (l_run l); l = l\<lparr>l_run := s\<rparr>
               in if followUps \<noteq> [] then rec env (l\<lparr>l_pending := followUps\<rparr>) else Some (endRun env l))) = Some y"
      and r: "ready env l" and p: "protocol env"
    from step obtain b l1 where i: "innerLoop env (l\<lparr>l_hasMoreToolCalls := True\<rparr>) = Some (b, l1)"
      by (auto split: Option.bind_splits)
    have res: "inner_result env (l\<lparr>l_hasMoreToolCalls := True\<rparr>) (b, l1)"
      using innerLoop_spec [OF i] r p by (simp add: ready_def)
    obtain ms s where q: "pollMessages (g_getFollowUpMessages (l_config l1)) (l_run l1) = (ms, s)" by fastforce
    show "outer_result env l y"
    proof (cases b)
      case True
      with step i res show ?thesis by (auto simp: inner_result_def outer_result_def)
    next
      case False
      with res have "trace_ok env BetweenTurns (l_newMessages l1) s" "\<not> l_firstTurn l1"
          "\<exists>rest. l_newMessages l1 = l_newMessages l @ rest"
        using pollMessages_trace [OF q] by (auto simp: inner_result_def ready_def trace_ok_def)
      then show ?thesis
        using step i False q ih [of env "l1\<lparr>l_run := s, l_pending := ms\<rparr>" y] p endRun_over [of env "l1\<lparr>l_run := s\<rparr>"]
        by (auto simp: ready_def outer_result_def Let_def endRun_def split: if_splits)
    qed
  qed
  with assms(2,3) show ?thesis by blast
qed

lemma runLoop_spec:
  assumes "runLoop env cfg ctx msgs s = Some (ms, s')" "trace_ok env (InTurn {#}) msgs s" "protocol env"
  shows "trace_ok env Ended ms s' \<and> (\<exists>evs. r_trace s' = evs @ [AgentEnd ms]) \<and> (\<exists>rest. ms = msgs @ rest)"
proof -
  obtain pending s1 where p: "pollMessages (g_getSteeringMessages cfg) s = (pending, s1)" by fastforce
  from assms(1) p obtain l where
    l: "outerLoop env \<lparr>l_context = ctx, l_config = cfg, l_firstTurn = True, l_pending = pending,
         l_newMessages = msgs, l_hasMoreToolCalls = True, l_run = s1\<rparr> = Some l" "ms = l_newMessages l" "s' = l_run l"
    by (auto simp: runLoop_def)
  have "trace_ok env (InTurn {#}) msgs s1"
    using assms(2) pollMessages_trace [OF p] by (simp add: trace_ok_def)
  with outerLoop_spec [OF l(1)] assms(3) l(2,3) show ?thesis by (simp add: ready_def outer_result_def over_def)
qed

lemma run_begins: "trace_ok env (InTurn {#}) [] (emit env TurnStart (emit env AgentStart \<lparr>r_trace = [], r_world = w\<rparr>))"
  by (simp add: trace_ok_def message_ends_def turn_ends_def map_filter_Cons)

section \<open>A run that returns\<close>

definition stops_at :: "nat \<Rightarrow> 'w loop \<Rightarrow> bool" where
  "stops_at n l \<longleftrightarrow> (\<exists>f. stop_hook l = Some f \<and> (\<forall>info w. n \<le> length (ti_newMessages info) \<longrightarrow> fst (f info w)))"

lemma turn_bounded:
  assumes "turn env l = (False, l')" "stops_at n l"
  shows "stops_at n l' \<and> length (l_newMessages l) < length (l_newMessages l') \<and> length (l_newMessages l') < n"
proof -
  from assms(2) obtain f where f: "stop_hook l = Some f" "\<And>info w. n \<le> length (ti_newMessages info) \<Longrightarrow> fst (f info w)"
    by (auto simp: stops_at_def)
  from turn_grows [OF assms(1)] f(1) obtain rest info w where
    g: "rest \<noteq> []" "l_newMessages l' = l_newMessages l @ rest" "stop_hook l' = stop_hook l"
      "ti_newMessages info = l_newMessages l'" "\<not> fst (f info w)" by auto
  with f(2) [of info w] have "\<not> n \<le> length (l_newMessages l')" by fastforce
  with g assms(2) show ?thesis by (simp add: stops_at_def)
qed

lemma innerLoop_returns:
  assumes "stops_at n l"
  shows "\<exists>b l'. innerLoop env l = Some (b, l') \<and> (\<not> b \<longrightarrow> stops_at n l'
    \<and> (l' = l \<or> length (l_newMessages l) < length (l_newMessages l') \<and> length (l_newMessages l') < n)
    \<and> (l_hasMoreToolCalls l \<longrightarrow> l' \<noteq> l))"
  using assms
proof (induction "n - length (l_newMessages l)" arbitrary: l rule: less_induct)
  case less
  show ?case
  proof (cases "l_hasMoreToolCalls l \<or> l_pending l \<noteq> []")
    case False
    then show ?thesis using less.prems by (subst innerLoop.simps) (auto intro: exI [of _ False])
  next
    case True
    obtain b l1 where t: "turn env l = (b, l1)" by fastforce
    show ?thesis
    proof (cases b)
      case True
      with \<open>l_hasMoreToolCalls l \<or> l_pending l \<noteq> []\<close> t show ?thesis by (subst innerLoop.simps) (auto intro: exI [of _ True])
    next
      case False
      with t have l1: "stops_at n l1" "length (l_newMessages l) < length (l_newMessages l1)" "length (l_newMessages l1) < n"
        using turn_bounded [of env l l1 n] less.prems by simp_all
      then have "n - length (l_newMessages l1) < n - length (l_newMessages l)" by simp
      from less.hyps [OF this l1(1)] obtain b' l' where
        rec: "innerLoop env l1 = Some (b', l')" "\<not> b' \<Longrightarrow> stops_at n l'
          \<and> (l' = l1 \<or> length (l_newMessages l1) < length (l_newMessages l') \<and> length (l_newMessages l') < n)" by blast
      have "innerLoop env l = Some (b', l')"
        using True t False rec(1) by (subst innerLoop.simps) simp
      then show ?thesis using rec(2) l1 by fastforce
    qed
  qed
qed

lemma outerLoop_returns:
  assumes "stops_at n l"
  shows "\<exists>l'. outerLoop env l = Some l'"
  using assms
proof (induction "n - length (l_newMessages l)" arbitrary: l rule: less_induct)
  case less
  let ?l = "l\<lparr>l_hasMoreToolCalls := True\<rparr>"
  have "stops_at n ?l" using less.prems by (simp add: stops_at_def)
  from innerLoop_returns [OF this, of env] obtain b l1 where
    i: "innerLoop env ?l = Some (b, l1)" "\<not> b \<Longrightarrow> stops_at n l1
      \<and> length (l_newMessages l) < length (l_newMessages l1) \<and> length (l_newMessages l1) < n" by fastforce
  obtain ms s where q: "pollMessages (g_getFollowUpMessages (l_config l1)) (l_run l1) = (ms, s)" by fastforce
  show ?case
  proof (cases "b \<or> ms = []")
    case True
    with i(1) q show ?thesis by (subst outerLoop.simps) (auto simp: Let_def)
  next
    case False
    with i(2) have "stops_at n (l1\<lparr>l_run := s, l_pending := ms\<rparr>)"
      "n - length (l_newMessages (l1\<lparr>l_run := s, l_pending := ms\<rparr>)) < n - length (l_newMessages l)"
      by (auto simp: stops_at_def)
    from less.hyps [OF this(2,1)] i(1) q False show ?thesis by (subst outerLoop.simps) (auto simp: Let_def)
  qed
qed

section \<open>The gate in front of a tool\<close>

lemma prepared_iff:
  assumes "prepareToolCall env cfg ctx m tc s = (Prepared p, s')"
  shows "findTool ctx (tc_name tc) = Some (p_tool p) \<and> p_toolCall p = tc
    \<and> validatedArguments (p_tool p) tc = Inr (p_args p) \<and> \<not> v_aborted env (r_world s')
    \<and> (\<forall>hook. g_beforeToolCall cfg = Some hook \<longrightarrow> (\<exists>b. fst (hook \<lparr>bi_assistant = m, bi_toolCall = tc,
          bi_args = p_args p, bi_context = ctx\<rparr> (r_world s)) = Inr b \<and> (\<forall>r. b = Some r \<longrightarrow> br_block r \<noteq> Some True)))"
  using assms by (auto simp: prepareToolCall_def failed_def call_def split: option.splits sum.splits prod.splits if_splits)

lemma findTool_Some: "findTool ctx n = Some t \<Longrightarrow> t_name t = n \<and> (\<exists>ts. cx_tools ctx = Some ts \<and> t \<in> set ts)"
  by (auto simp: findTool_def find_Some_iff split: option.splits)

declare innerLoop.simps [code] outerLoop.simps [code]

section \<open>A small run\<close>

text \<open>A clock for a world, a tool that reports its progress, and a model that calls it, and a tool
  that does not exist, before it answers.\<close>

definition demo_output :: "jsstring \<Rightarrow> tool_output" where
  "demo_output t = \<lparr>o_content = Some [TextBlock t], o_details = None, o_usage = None, o_addedToolNames = None, o_terminate = None\<rparr>"

definition demo_tool :: "nat agent_tool" where
  "demo_tool = \<lparr>t_name = [1], t_executionMode = None, t_prepareArguments = None, t_validate = Inr,
     t_execute = (\<lambda>i a w. (\<lparr>x_updates = [demo_output ([5])], x_outcome = Inr (demo_output ([6]))\<rparr>, w + 1))\<rparr>"

definition demo_answer :: "block list \<Rightarrow> stop_reason \<Rightarrow> assistant" where
  "demo_answer bs r = \<lparr>a_content = bs, a_provider = [], a_model = [], a_usage = None, a_stopReason = r,
     a_errorMessage = None, a_timestamp = 0\<rparr>"

definition demo_calls :: assistant where
  "demo_calls = demo_answer [ToolCallBlock ([1]) ([1]) [], ToolCallBlock ([2]) ([2]) [],
     ToolCallBlock ([3]) ([1]) []] ToolUse"

definition demo_stream :: "model \<Rightarrow> nat llm_context \<Rightarrow> nat config \<Rightarrow> nat \<Rightarrow> response \<times> nat" where
  "demo_stream mo c g w =
     (if length (lc_messages c) \<le> 1
      then (\<lparr>rs_events = [StreamStart demo_calls, StreamDelta TextDelta demo_calls, StreamDone], rs_result = demo_calls\<rparr>, w + 1)
      else (\<lparr>rs_events = [], rs_result = demo_answer [TextBlock ([7])] Stop\<rparr>, w + 1))"

definition demo_env :: "nat env" where
  "demo_env = \<lparr>v_sink = (\<lambda>e w. w + 1), v_aborted = (\<lambda>w. False), v_now = int, v_stream = demo_stream, v_pick = (\<lambda>w ks. w)\<rparr>"

definition demo_config :: "nat config" where
  "demo_config = \<lparr>g_model = \<lparr>mo_id = [], mo_provider = [], mo_reasoning = False, mo_maxTokens = 0,
     mo_contextWindow = 0\<rparr>, g_reasoning = None,
     g_apiKey = None, g_toolExecution = None, g_convertToLlm = (\<lambda>ms w. (convertToLlm ms, w)), g_transformContext = None,
     g_getApiKey = None, g_shouldStopAfterTurn = Some (\<lambda>info w. (9 \<le> length (ti_newMessages info), w)),
     g_prepareNextTurn = None, g_getSteeringMessages = None, g_getFollowUpMessages = None, g_beforeToolCall = None,
     g_afterToolCall = None\<rparr>"

definition demo_context :: "nat agent_context" where
  "demo_context = \<lparr>cx_systemPrompt = [], cx_messages = [], cx_tools = Some [demo_tool]\<rparr>"

definition demo_prompt :: "message list" where
  "demo_prompt = [UserMessage (TextContent ([8])) 0]"

section \<open>The properties\<close>



text \<open>
  C38. A run that returns, with a model that starts each response at most once: its events follow the
  protocol from the first to the last, turns, messages and tool calls nested; the messages it returns
  begin with the prompts and are those whose end was emitted, in that order; the last event hands over
  the same messages; and every turn has answered the tool calls of its response.
\<close>

theorem run_protocol:
  assumes "\<And>mo c g w. starts_once (fst (v_stream env mo c g w))"
    and "runAgentLoop env prompts ctx cfg w = Some (messages, s)"
  shows "accepts NotStarted (r_trace s) = Some Ended
    \<and> message_ends (r_trace s) = messages
    \<and> last (r_trace s) = AgentEnd messages
    \<and> (\<exists>rest. messages = prompts @ rest)
    \<and> list_all (turn_answered env) (turn_ends (r_trace s))"
proof -
  let ?s = "fold (emitMessage env) prompts (emit env TurnStart (emit env AgentStart \<lparr>r_trace = [], r_world = w\<rparr>))"
  have run: "runLoop env cfg (ctx\<lparr>cx_messages := cx_messages ctx @ prompts\<rparr>) prompts ?s = Some (messages, s)"
    using assms(2) by (simp add: runAgentLoop_def)
  have start: "trace_ok env (InTurn {#}) prompts ?s"
    using emitMessages_ok [OF run_begins, of env prompts w] by simp
  have "protocol env" using assms(1) by (simp add: protocol_def)
  from runLoop_spec [OF run start this] show ?thesis by (auto simp: trace_ok_def)
qed

theorem run_protocol_witness:
  "\<exists>messages s. runAgentLoop demo_env demo_prompt demo_context demo_config 0 = Some (messages, s) \<and> length messages = 6
    \<and> accepts NotStarted (r_trace s) = Some Ended \<and> last (r_trace s) = AgentEnd messages"
proof -
  let ?r = "runAgentLoop demo_env demo_prompt demo_context demo_config 0"
  have once: "starts_once (fst (v_stream demo_env mo c g w))" for mo c g w
    by (simp add: demo_env_def demo_stream_def starts_once_def)
  have "map_option (length \<circ> fst) ?r = Some 6" by code_simp
  then obtain messages s where r: "?r = Some (messages, s)" "length messages = 6" by auto
  from run_protocol [OF once r(1)] r show ?thesis by auto
qed

text \<open>
  C39. A run under a stop hook that says yes as soon as the run has so many messages returns, whatever
  the model, the tools and the queues do.
\<close>

theorem run_returns:
  assumes "g_shouldStopAfterTurn cfg = Some f" and "\<And>info w. n \<le> length (ti_newMessages info) \<Longrightarrow> fst (f info w)"
  shows "\<exists>messages s. runAgentLoop env prompts ctx cfg w = Some (messages, s)"
proof -
  have "stops_at n \<lparr>l_context = c, l_config = cfg, l_firstTurn = True, l_pending = pending,
      l_newMessages = msgs, l_hasMoreToolCalls = True, l_run = s\<rparr>" for c pending msgs s
    using assms by (auto simp: stops_at_def stop_hook_def)
  from outerLoop_returns [OF this, of env] show ?thesis
    by (auto simp: runAgentLoop_def runLoop_def split: prod.splits)
qed

theorem run_returns_witness:
  "\<exists>messages s. runAgentLoop demo_env demo_prompt demo_context demo_config 0 = Some (messages, s)"
  by (rule run_returns [where n = 9 and f = "\<lambda>info w. (9 \<le> length (ti_newMessages info), w)"])
    (simp_all add: demo_config_def)

end
