(* ===== verification/Agent.thy ===== *)
theory Agent
  imports AgentView AgentProps
begin

text \<open>
  The stateful agent (\<open>packages/agent/src/agent.ts\<close>): it owns the transcript and two queues of
  messages, runs the loop with them, and reduces the events of the loop into its state. What is outside
  acts on a state of its own, \<open>'e\<close>, and on the agent through the calls of its interface; tools and
  hooks do so while a run is active. Options that only pass through to the provider are left out.
\<close>

section \<open>The queues of messages\<close>

datatype queue_mode = QueueAll | QueueOneAtATime

record pending_queue =
  pq_messages :: "message list"
  pq_mode :: queue_mode

definition new_pending_queue :: "queue_mode \<Rightarrow> pending_queue" where
  "new_pending_queue mode = \<lparr>pq_messages = [], pq_mode = mode\<rparr>"

definition pq_enqueue :: "message \<Rightarrow> pending_queue \<Rightarrow> pending_queue" where
  "pq_enqueue m q = q\<lparr>pq_messages := pq_messages q @ [m]\<rparr>"

definition pq_hasItems :: "pending_queue \<Rightarrow> bool" where
  "pq_hasItems q \<longleftrightarrow> pq_messages q \<noteq> []"

definition pq_drain :: "pending_queue \<Rightarrow> message list \<times> pending_queue" where
  "pq_drain q =
     (if pq_mode q = QueueAll then (pq_messages q, q\<lparr>pq_messages := []\<rparr>)
      else (case pq_messages q of
          [] \<Rightarrow> ([], q)
        | m # ms \<Rightarrow> ([m], q\<lparr>pq_messages := ms\<rparr>)))"

definition pq_clear :: "pending_queue \<Rightarrow> pending_queue" where
  "pq_clear q = q\<lparr>pq_messages := []\<rparr>"

section \<open>The state\<close>

text \<open>\<open>ag_run\<close> is the active run, with the flag of its abort signal; \<open>ag_skipPoll\<close> the flag that the
  configuration of the run closes over.\<close>

record agent =
  ag_messages :: "message list"
  ag_isStreaming :: bool
  ag_streamingMessage :: "message option"
  ag_pendingToolCalls :: "jsstring list"
  ag_errorMessage :: "jsstring option"
  ag_steering :: pending_queue
  ag_followUp :: pending_queue
  ag_run :: "bool option"
  ag_skipPoll :: bool

definition newAgent :: "message list \<Rightarrow> queue_mode option \<Rightarrow> queue_mode option \<Rightarrow> agent" where
  "newAgent messages steeringMode followUpMode =
     \<lparr>ag_messages = messages, ag_isStreaming = False, ag_streamingMessage = None, ag_pendingToolCalls = [],
      ag_errorMessage = None,
      ag_steering = new_pending_queue (case steeringMode of None \<Rightarrow> QueueOneAtATime | Some m \<Rightarrow> m),
      ag_followUp = new_pending_queue (case followUpMode of None \<Rightarrow> QueueOneAtATime | Some m \<Rightarrow> m),
      ag_run = None, ag_skipPoll = False\<rparr>"

definition hasQueuedMessages :: "agent \<Rightarrow> bool" where
  "hasQueuedMessages a \<longleftrightarrow> pq_hasItems (ag_steering a) \<or> pq_hasItems (ag_followUp a)"

definition reset :: "agent \<Rightarrow> agent" where
  "reset a = a\<lparr>ag_messages := [], ag_isStreaming := False, ag_streamingMessage := None, ag_pendingToolCalls := [],
     ag_errorMessage := None, ag_followUp := pq_clear (ag_followUp a), ag_steering := pq_clear (ag_steering a)\<rparr>"

text \<open>What the code around may call while a run is active.\<close>

datatype command =
    Steer message | FollowUp message | ClearSteering | ClearFollowUp | ClearAll
  | SetSteeringMode queue_mode | SetFollowUpMode queue_mode | Abort

fun perform :: "command \<Rightarrow> agent \<Rightarrow> agent" where
  "perform (Steer m) a = a\<lparr>ag_steering := pq_enqueue m (ag_steering a)\<rparr>"
| "perform (FollowUp m) a = a\<lparr>ag_followUp := pq_enqueue m (ag_followUp a)\<rparr>"
| "perform ClearSteering a = a\<lparr>ag_steering := pq_clear (ag_steering a)\<rparr>"
| "perform ClearFollowUp a = a\<lparr>ag_followUp := pq_clear (ag_followUp a)\<rparr>"
| "perform ClearAll a = a\<lparr>ag_steering := pq_clear (ag_steering a), ag_followUp := pq_clear (ag_followUp a)\<rparr>"
| "perform (SetSteeringMode m) a = a\<lparr>ag_steering := (ag_steering a)\<lparr>pq_mode := m\<rparr>\<rparr>"
| "perform (SetFollowUpMode m) a = a\<lparr>ag_followUp := (ag_followUp a)\<lparr>pq_mode := m\<rparr>\<rparr>"
| "perform Abort a = a\<lparr>ag_run := map_option (\<lambda>_. True) (ag_run a)\<rparr>"

record 'e world =
  w_agent :: agent
  w_outside :: 'e

text \<open>A call of code outside: its result, what it called on the agent, and its own new state.\<close>

type_synonym ('e, 'a) outside = "'e \<Rightarrow> 'a \<times> command list \<times> 'e"

definition external :: "('e, 'a) outside \<Rightarrow> 'e world \<Rightarrow> 'a \<times> 'e world" where
  "external f w = (let (x, cs, e) = f (w_outside w)
     in (x, w\<lparr>w_agent := fold perform cs (w_agent w), w_outside := e\<rparr>))"

section \<open>What an agent is made with\<close>

record 'e tool_spec =
  sp_name :: jsstring
  sp_executionMode :: "execution_mode option"
  sp_prepareArguments :: "(args \<Rightarrow> jsstring + args) option"
  sp_validate :: "args \<Rightarrow> jsstring + args"
  sp_execute :: "jsstring \<Rightarrow> args \<Rightarrow> ('e, execution) outside"

definition tool_of :: "'e tool_spec \<Rightarrow> 'e world agent_tool" where
  "tool_of t = \<lparr>t_name = sp_name t, t_executionMode = sp_executionMode t, t_prepareArguments = sp_prepareArguments t,
     t_validate = sp_validate t, t_execute = (\<lambda>i a. external (sp_execute t i a))\<rparr>"

record 'e update_spec =
  us_context :: "(jsstring \<times> message list \<times> 'e tool_spec list option) option"
  us_model :: "model option"
  us_thinkingLevel :: "thinking_level option"

definition update_of_spec :: "'e update_spec \<Rightarrow> 'e world turn_update" where
  "update_of_spec u = \<lparr>
     tu_context = map_option (\<lambda>(p, ms, ts). \<lparr>cx_systemPrompt = p, cx_messages = ms, cx_tools = map_option (map tool_of) ts\<rparr>)
       (us_context u),
     tu_model = us_model u, tu_thinkingLevel = us_thinkingLevel u\<rparr>"

record 'e agent_options =
  op_systemPrompt :: jsstring
  op_model :: model
  op_thinkingLevel :: thinking_level
  op_tools :: "'e tool_spec list"
  op_toolExecution :: "execution_mode option"
  op_convertToLlm :: "(message list \<Rightarrow> ('e, llm_message list) outside) option"
  op_transformContext :: "(message list \<Rightarrow> ('e, message list) outside) option"
  op_stream :: "model \<Rightarrow> 'e world llm_context \<Rightarrow> 'e world config \<Rightarrow> ('e, response) outside"
  op_getApiKey :: "(jsstring \<Rightarrow> ('e, jsstring option) outside) option"
  op_beforeToolCall :: "('e world before_info \<Rightarrow> ('e, jsstring + before_result option) outside) option"
  op_afterToolCall :: "('e world after_info \<Rightarrow> ('e, jsstring + after_result option) outside) option"
  op_prepareNextTurn :: "('e, 'e update_spec option) outside option"
  op_prepareNextTurnWithContext :: "('e world turn_info \<Rightarrow> ('e, 'e update_spec option) outside) option"
  op_listeners :: "(event \<Rightarrow> ('e, unit) outside) list"
  op_now :: "'e \<Rightarrow> int"
  op_pick :: "'e \<Rightarrow> nat list \<Rightarrow> nat"

fun is_llm_role :: "message \<Rightarrow> llm_message option" where
  "is_llm_role (UserMessage c t) = Some (LUser c (Some t))"
| "is_llm_role (AssistantMessage a) = Some (LAssistant a)"
| "is_llm_role (ToolResultMessage r) = Some (LToolResult r)"
| "is_llm_role _ = None"

definition defaultConvertToLlm :: "message list \<Rightarrow> llm_message list" where
  "defaultConvertToLlm messages = List.map_filter is_llm_role messages"

section \<open>Events of a run\<close>

fun reduceEvent :: "event \<Rightarrow> agent \<Rightarrow> agent" where
  "reduceEvent (MessageStart m) a = a\<lparr>ag_streamingMessage := Some m\<rparr>"
| "reduceEvent (MessageUpdate m _) a = a\<lparr>ag_streamingMessage := Some m\<rparr>"
| "reduceEvent (MessageEnd m) a = a\<lparr>ag_streamingMessage := None, ag_messages := ag_messages a @ [m]\<rparr>"
| "reduceEvent (ToolStart i _ _) a = a\<lparr>ag_pendingToolCalls := set_add i (ag_pendingToolCalls a)\<rparr>"
| "reduceEvent (ToolEnd i _ _ _) a = a\<lparr>ag_pendingToolCalls := set_delete i (ag_pendingToolCalls a)\<rparr>"
| "reduceEvent (TurnEnd (AssistantMessage m) _) a =
     (if truthy (a_errorMessage m) then a\<lparr>ag_errorMessage := a_errorMessage m\<rparr> else a)"
| "reduceEvent (AgentEnd _) a = a\<lparr>ag_streamingMessage := None\<rparr>"
| "reduceEvent _ a = a"

definition notify :: "'e agent_options \<Rightarrow> event \<Rightarrow> 'e world \<Rightarrow> 'e world" where
  "notify op ev w = fold (\<lambda>l w. snd (external (l ev) w)) (op_listeners op) w"

text \<open>Events are only emitted while a run is active, so the check for it before the listeners holds.\<close>

definition processEvents :: "'e agent_options \<Rightarrow> event \<Rightarrow> 'e world \<Rightarrow> 'e world" where
  "processEvents op ev w = notify op ev (w\<lparr>w_agent := reduceEvent ev (w_agent w)\<rparr>)"

section \<open>Starting the loop\<close>

definition createContextSnapshot :: "'e agent_options \<Rightarrow> agent \<Rightarrow> 'e world agent_context" where
  "createContextSnapshot op a =
     \<lparr>cx_systemPrompt = op_systemPrompt op, cx_messages = ag_messages a, cx_tools = Some (map tool_of (op_tools op))\<rparr>"

definition drainSteering :: "'e world \<Rightarrow> message list \<times> 'e world" where
  "drainSteering w = (let (ms, q) = pq_drain (ag_steering (w_agent w))
     in (ms, w\<lparr>w_agent := (w_agent w)\<lparr>ag_steering := q\<rparr>\<rparr>))"

definition drainFollowUp :: "'e world \<Rightarrow> message list \<times> 'e world" where
  "drainFollowUp w = (let (ms, q) = pq_drain (ag_followUp (w_agent w))
     in (ms, w\<lparr>w_agent := (w_agent w)\<lparr>ag_followUp := q\<rparr>\<rparr>))"

definition pollSteering :: "'e world \<Rightarrow> message list \<times> 'e world" where
  "pollSteering w =
     (if ag_skipPoll (w_agent w) then ([], w\<lparr>w_agent := (w_agent w)\<lparr>ag_skipPoll := False\<rparr>\<rparr>) else drainSteering w)"

definition nextTurnHook :: "'e agent_options \<Rightarrow> ('e world turn_info \<Rightarrow> ('e, 'e update_spec option) outside) option" where
  "nextTurnHook op = (case op_prepareNextTurnWithContext op of
       Some f \<Rightarrow> Some f
     | None \<Rightarrow> (case op_prepareNextTurn op of Some f \<Rightarrow> Some (\<lambda>_. f) | None \<Rightarrow> None))"

definition createLoopConfig :: "'e agent_options \<Rightarrow> 'e world config" where
  "createLoopConfig op = \<lparr>
     g_model = op_model op,
     g_reasoning = (if op_thinkingLevel op = ThinkOff then None else Some (op_thinkingLevel op)),
     g_apiKey = None,
     g_toolExecution = Some (case op_toolExecution op of None \<Rightarrow> Parallel | Some m \<Rightarrow> m),
     g_convertToLlm = (case op_convertToLlm op of
         Some f \<Rightarrow> (\<lambda>ms. external (f ms)) | None \<Rightarrow> (\<lambda>ms w. (defaultConvertToLlm ms, w))),
     g_transformContext = map_option (\<lambda>f ms. external (f ms)) (op_transformContext op),
     g_getApiKey = map_option (\<lambda>f p. external (f p)) (op_getApiKey op),
     g_shouldStopAfterTurn = None,
     g_prepareNextTurn = map_option (\<lambda>f info w. apfst (map_option update_of_spec) (external (f info) w)) (nextTurnHook op),
     g_getSteeringMessages = Some pollSteering,
     g_getFollowUpMessages = Some drainFollowUp,
     g_beforeToolCall = map_option (\<lambda>f i. external (f i)) (op_beforeToolCall op),
     g_afterToolCall = map_option (\<lambda>f i. external (f i)) (op_afterToolCall op)\<rparr>"

definition loopEnv :: "'e agent_options \<Rightarrow> 'e world env" where
  "loopEnv op = \<lparr>
     v_sink = processEvents op,
     v_aborted = (\<lambda>w. ag_run (w_agent w) = Some True),
     v_now = (\<lambda>w. op_now op (w_outside w)),
     v_stream = (\<lambda>mo c g. external (op_stream op mo c g)),
     v_pick = (\<lambda>w. op_pick op (w_outside w))\<rparr>"

section \<open>Runs\<close>

datatype agent_error = Busy | NothingToContinue | CannotContinueFromAssistant

definition beginRun :: "bool \<Rightarrow> 'e world \<Rightarrow> 'e world" where
  "beginRun skip w = w\<lparr>w_agent := (w_agent w)\<lparr>ag_run := Some False, ag_isStreaming := True,
     ag_streamingMessage := None, ag_errorMessage := None, ag_skipPoll := skip\<rparr>\<rparr>"

definition finishRun :: "'e world \<Rightarrow> 'e world" where
  "finishRun w = w\<lparr>w_agent := (w_agent w)\<lparr>ag_isStreaming := False, ag_streamingMessage := None,
     ag_pendingToolCalls := [], ag_run := None\<rparr>\<rparr>"

definition EMPTY_USAGE :: usage where
  "EMPTY_USAGE = \<lparr>u_input = 0, u_output = 0, u_cacheRead = 0, u_cacheWrite = 0, u_cacheWrite1h = None,
     u_reasoning = None, u_totalTokens = 0\<rparr>"

definition failureMessage :: "'e agent_options \<Rightarrow> jsstring \<Rightarrow> bool \<Rightarrow> int \<Rightarrow> assistant" where
  "failureMessage op message aborted now =
     \<lparr>a_content = [TextBlock []], a_provider = mo_provider (op_model op), a_model = mo_id (op_model op),
      a_usage = Some EMPTY_USAGE, a_stopReason = (if aborted then Aborted else StopError),
      a_errorMessage = Some message, a_timestamp = now\<rparr>"

definition handleRunFailure :: "'e agent_options \<Rightarrow> jsstring \<Rightarrow> bool \<Rightarrow> 'e world \<Rightarrow> 'e world" where
  "handleRunFailure op message aborted w =
     (let m = AssistantMessage (failureMessage op message aborted (op_now op (w_outside w)))
      in fold (processEvents op) [MessageStart m, MessageEnd m, TurnEnd m [], AgentEnd [m]] w)"

text \<open>The executor of a run may throw, when a callback of the loop breaks its contract; \<open>None\<close> is a
  run that does not return.\<close>

definition runWithLifecycle ::
    "'e agent_options \<Rightarrow> bool \<Rightarrow> ('e world \<Rightarrow> ((jsstring + unit) \<times> 'e world) option) \<Rightarrow> 'e world \<Rightarrow> 'e world option" where
  "runWithLifecycle op skip executor w =
     map_option (\<lambda>(r, w). finishRun (case r of
         Inr _ \<Rightarrow> w
       | Inl message \<Rightarrow> handleRunFailure op message (ag_run (w_agent w) = Some True) w))
       (executor (beginRun skip w))"

definition promptExecutor :: "'e agent_options \<Rightarrow> message list \<Rightarrow> 'e world \<Rightarrow> ((jsstring + unit) \<times> 'e world) option" where
  "promptExecutor op messages w =
     map_option (\<lambda>(_, s). (Inr (), r_world s))
       (runAgentLoop (loopEnv op) messages (createContextSnapshot op (w_agent w)) (createLoopConfig op) w)"

definition runPromptMessages :: "'e agent_options \<Rightarrow> message list \<Rightarrow> bool \<Rightarrow> 'e world \<Rightarrow> 'e world option" where
  "runPromptMessages op messages skip w = runWithLifecycle op skip (promptExecutor op messages) w"

definition continueText :: "continue_error \<Rightarrow> jsstring" where
  "continueText e = (case e of
       NoMessages \<Rightarrow> js ''Cannot continue: no messages in context''
     | LastIsAssistant \<Rightarrow> js ''Cannot continue from message role: assistant'')"

definition continueExecutor :: "'e agent_options \<Rightarrow> 'e world \<Rightarrow> ((jsstring + unit) \<times> 'e world) option" where
  "continueExecutor op w =
     map_option (\<lambda>r. case r of Inl e \<Rightarrow> (Inl (continueText e), w) | Inr (_, s) \<Rightarrow> (Inr (), r_world s))
       (runAgentLoopContinue (loopEnv op) (createContextSnapshot op (w_agent w)) (createLoopConfig op) w)"

definition runContinuation :: "'e agent_options \<Rightarrow> 'e world \<Rightarrow> 'e world option" where
  "runContinuation op w = runWithLifecycle op False (continueExecutor op) w"

datatype prompt_input = InputMessages "message list" | InputMessage message | InputText jsstring "block list option"

definition normalizePromptInput :: "prompt_input \<Rightarrow> int \<Rightarrow> message list" where
  "normalizePromptInput input now = (case input of
       InputMessages ms \<Rightarrow> ms
     | InputMessage m \<Rightarrow> [m]
     | InputText t images \<Rightarrow>
         [UserMessage (BlockContent (TextBlock t # (case images of None \<Rightarrow> [] | Some bs \<Rightarrow> bs))) now])"

definition prompt :: "'e agent_options \<Rightarrow> prompt_input \<Rightarrow> 'e world \<Rightarrow> ((agent_error + unit) \<times> 'e world) option" where
  "prompt op input w =
     (if ag_run (w_agent w) \<noteq> None then Some (Inl Busy, w)
      else map_option (Pair (Inr ()))
        (runPromptMessages op (normalizePromptInput input (op_now op (w_outside w))) False w))"

definition continue_agent :: "'e agent_options \<Rightarrow> 'e world \<Rightarrow> ((agent_error + unit) \<times> 'e world) option" where
  "continue_agent op w =
     (if ag_run (w_agent w) \<noteq> None then Some (Inl Busy, w)
      else if ag_messages (w_agent w) = [] then Some (Inl NothingToContinue, w)
      else if role_of (last (ag_messages (w_agent w))) = RAssistant then
        (let (steering, w) = drainSteering w
         in if steering \<noteq> [] then map_option (Pair (Inr ())) (runPromptMessages op steering True w)
            else (let (followUps, w) = drainFollowUp w
                  in if followUps \<noteq> [] then map_option (Pair (Inr ())) (runPromptMessages op followUps False w)
                     else Some (Inl CannotContinueFromAssistant, w)))
      else map_option (Pair (Inr ())) (runContinuation op w))"

section \<open>The transcript\<close>

fun add_to_transcript :: "event \<Rightarrow> message list \<Rightarrow> message list" where
  "add_to_transcript (MessageEnd m) ms = ms @ [m]"
| "add_to_transcript _ ms = ms"

definition transcript :: "'e world \<Rightarrow> message list" where
  "transcript w = ag_messages (w_agent w)"

lemma perform_transcript [simp]: "ag_messages (perform c a) = ag_messages a"
  by (cases c) simp_all

lemma performs_transcript [simp]: "ag_messages (fold perform cs a) = ag_messages a"
  by (induction cs arbitrary: a) simp_all

lemma external_keeps: "keeps transcript (external f)"
  by (auto simp: keeps_def external_def transcript_def split: prod.splits)

lemma external_transcript [simp]: "transcript (snd (external f w)) = transcript w"
  using external_keeps [of f] by (simp add: keeps_def)

lemma notify_transcript [simp]: "transcript (notify op ev w) = transcript w"
proof -
  have "transcript (fold (\<lambda>l w. snd (external (l ev) w)) ls w) = transcript w" for ls
    by (induction ls arbitrary: w) simp_all
  then show ?thesis by (simp add: notify_def)
qed

lemma reduceEvent_transcript: "ag_messages (reduceEvent ev a) = add_to_transcript ev (ag_messages a)"
proof (cases ev)
  case (TurnEnd m rs)
  then show ?thesis by (cases m) simp_all
qed simp_all

lemma processEvents_transcript: "transcript (processEvents op ev w) = add_to_transcript ev (transcript w)"
  by (simp add: processEvents_def) (simp add: transcript_def reduceEvent_transcript)

interpretation ag: observed "loopEnv op" transcript add_to_transcript for op
  by unfold_locales (simp_all add: loopEnv_def processEvents_transcript external_keeps)

lemma add_messages: "fold add_to_transcript evs ms = ms @ message_ends evs"
proof (induction evs arbitrary: ms)
  case (Cons e evs)
  then show ?case by (cases e) (simp_all add: message_ends_def map_filter_Cons)
qed (simp add: message_ends_def List.map_filter_def)

lemma drain_keeps: "keeps transcript drainSteering" "keeps transcript drainFollowUp" "keeps transcript pollSteering"
  by (auto simp: keeps_def drainSteering_def drainFollowUp_def pollSteering_def transcript_def split: prod.splits)

lemma tool_of_keeps [simp]: "tool_keeps transcript (tool_of t)"
  by (simp add: tool_keeps_def tool_of_def external_keeps)

lemma update_keeps: "tu_context (update_of_spec u) = Some ctx \<Longrightarrow> context_keeps transcript ctx"
  by (auto simp: update_of_spec_def context_keeps_def split: prod.splits)

lemma snapshot_keeps: "context_keeps transcript (createContextSnapshot op a)"
  by (auto simp: createContextSnapshot_def context_keeps_def)

lemma apfst_keeps: "keeps view f \<Longrightarrow> keeps view (\<lambda>w. apfst g (f w))"
  by (simp add: keeps_def)

lemma loopConfig_keeps: "config_keeps transcript (createLoopConfig op)"
proof -
  have "keeps transcript (\<lambda>w. (defaultConvertToLlm ms, w))" for ms
    by (simp add: keeps_def)
  moreover have "context_keeps transcript ctx"
    if "fst (apfst (map_option update_of_spec) (external (f info) w)) = Some u" "tu_context u = Some ctx"
    for f :: "'a world turn_info \<Rightarrow> ('a, 'a update_spec option) outside" and info w u ctx
    using that update_keeps by auto
  ultimately show ?thesis
    unfolding config_keeps_def createLoopConfig_def
    by (auto simp: external_keeps drain_keeps apfst_keeps split: option.split)
qed

section \<open>What a call of the agent leaves behind\<close>

definition idle :: "agent \<Rightarrow> bool" where
  "idle a \<longleftrightarrow> ag_run a = None \<and> \<not> ag_isStreaming a \<and> ag_streamingMessage a = None \<and> ag_pendingToolCalls a = []"

lemma finishRun_simps [simp]: "idle (w_agent (finishRun w))" "transcript (finishRun w) = transcript w"
  by (simp_all add: finishRun_def idle_def transcript_def)

lemma beginRun_simps [simp]: "transcript (beginRun skip w) = transcript w"
  by (simp add: beginRun_def transcript_def)

lemma runWithLifecycle_idle: "runWithLifecycle op skip executor w = Some w' \<Longrightarrow> idle (w_agent w')"
  by (auto simp: runWithLifecycle_def)

text \<open>The events a run added to the transcript fit the protocol, and its turns are answered.\<close>

definition answered_run :: "'e agent_options \<Rightarrow> event list \<Rightarrow> bool" where
  "answered_run op evs \<longleftrightarrow> accepts NotStarted evs = Some Ended \<and> list_all (turn_answered (loopEnv op)) (turn_ends evs)"

definition streams_start_once :: "'e agent_options \<Rightarrow> bool" where
  "streams_start_once op \<longleftrightarrow> (\<forall>mo c g e. starts_once (fst (op_stream op mo c g e)))"

lemma loopEnv_protocol: "streams_start_once op \<Longrightarrow> protocol (loopEnv op)"
  by (auto simp: streams_start_once_def protocol_def loopEnv_def external_def split: prod.splits) (metis fst_conv)

lemma prompts_ok:
  "trace_ok (loopEnv op) (InTurn {#}) prompts
    (fold (emitMessage (loopEnv op)) prompts (emit (loopEnv op) TurnStart (emit (loopEnv op) AgentStart \<lparr>r_trace = [], r_world = w\<rparr>)))"
  using emitMessages_ok [OF run_begins, of "loopEnv op" prompts w] by simp

lemma runPromptMessages_spec:
  assumes "runPromptMessages op prompts skip w = Some w'" "streams_start_once op"
  shows "idle (w_agent w') \<and> (\<exists>evs rest. answered_run op evs \<and> message_ends evs = prompts @ rest
    \<and> transcript w' = transcript w @ prompts @ rest)"
proof -
  let ?w = "beginRun skip w"
  from assms(1) obtain ms s where
    r: "runAgentLoop (loopEnv op) prompts (createContextSnapshot op (w_agent ?w)) (createLoopConfig op) ?w = Some (ms, s)"
    and w': "w' = finishRun (r_world s)"
    by (auto simp: runPromptMessages_def runWithLifecycle_def promptExecutor_def)
  have loop: "runLoop (loopEnv op) (createLoopConfig op)
      ((createContextSnapshot op (w_agent ?w))\<lparr>cx_messages := cx_messages (createContextSnapshot op (w_agent ?w)) @ prompts\<rparr>)
      prompts (fold (emitMessage (loopEnv op)) prompts
        (emit (loopEnv op) TurnStart (emit (loopEnv op) AgentStart \<lparr>r_trace = [], r_world = ?w\<rparr>))) = Some (ms, s)"
    using r by (simp add: runAgentLoop_def)
  from runLoop_spec [OF loop prompts_ok loopEnv_protocol [OF assms(2)]] obtain rest where
    "answered_run op (r_trace s)" "message_ends (r_trace s) = ms" "ms = prompts @ rest"
    by (auto simp: trace_ok_def answered_run_def)
  moreover have "transcript (r_world s) = transcript w @ message_ends (r_trace s)"
    using ag.runAgentLoop_follows [OF r loopConfig_keeps snapshot_keeps] by (simp add: add_messages)
  ultimately show ?thesis by (auto simp: w' intro!: exI [of _ "r_trace s"])
qed

lemma runContinuation_spec:
  assumes "runContinuation op w = Some w'" "streams_start_once op"
    and "transcript w \<noteq> []" "role_of (last (transcript w)) \<noteq> RAssistant"
  shows "idle (w_agent w') \<and> (\<exists>evs rest. answered_run op evs \<and> message_ends evs = rest \<and> transcript w' = transcript w @ rest)"
proof -
  let ?w = "beginRun False w"
  have can: "canContinue (createContextSnapshot op (w_agent ?w)) = Inr ()"
    using assms(3,4) by (simp add: canContinue_def createContextSnapshot_def beginRun_def transcript_def)
  with assms(1) obtain ms s where
    r: "runAgentLoopContinue (loopEnv op) (createContextSnapshot op (w_agent ?w)) (createLoopConfig op) ?w = Some (Inr (ms, s))"
    and w': "w' = finishRun (r_world s)"
    by (auto simp: runContinuation_def runWithLifecycle_def continueExecutor_def runAgentLoopContinue_def)
  have loop: "runLoop (loopEnv op) (createLoopConfig op) (createContextSnapshot op (w_agent ?w)) []
      (emit (loopEnv op) TurnStart (emit (loopEnv op) AgentStart \<lparr>r_trace = [], r_world = ?w\<rparr>)) = Some (ms, s)"
    using r can by (simp add: runAgentLoopContinue_def)
  from runLoop_spec [OF loop run_begins loopEnv_protocol [OF assms(2)]] have
    "answered_run op (r_trace s)" "message_ends (r_trace s) = ms"
    by (auto simp: trace_ok_def answered_run_def)
  moreover have "transcript (r_world s) = transcript w @ message_ends (r_trace s)"
    using ag.runAgentLoopContinue_follows [OF r loopConfig_keeps snapshot_keeps] by (simp add: add_messages)
  ultimately show ?thesis by (auto simp: w' intro!: exI [of _ "r_trace s"])
qed

lemma failure_transcript:
  assumes "executor (beginRun skip w) = Some (Inl message, w1)" "runWithLifecycle op skip executor w = Some w'"
  shows "\<exists>m. transcript w' = transcript w1 @ [AssistantMessage m] \<and> a_errorMessage m = Some message
    \<and> a_stopReason m = (if ag_run (w_agent w1) = Some True then Aborted else StopError)"
  using assms
  by (auto simp: runWithLifecycle_def handleRunFailure_def Let_def processEvents_transcript failureMessage_def)

lemma drainSteering_empty: "drainSteering w = ([], w') \<Longrightarrow> w' = w"
  by (cases "ag_steering (w_agent w)")
    (auto simp: drainSteering_def pq_drain_def split: if_splits list.splits)

lemma drainFollowUp_empty: "drainFollowUp w = ([], w') \<Longrightarrow> w' = w"
  by (cases "ag_followUp (w_agent w)")
    (auto simp: drainFollowUp_def pq_drain_def split: if_splits list.splits)

section \<open>A small agent\<close>

definition demo_tool_spec :: "nat tool_spec" where
  "demo_tool_spec = \<lparr>sp_name = [1], sp_executionMode = None, sp_prepareArguments = None, sp_validate = Inr,
     sp_execute = (\<lambda>i a e. (\<lparr>x_updates = [], x_outcome = Inr (demo_output [6])\<rparr>, [Steer (UserMessage (TextContent [9]) 0)], e))\<rparr>"

definition demo_options :: "nat agent_options" where
  "demo_options = \<lparr>op_systemPrompt = [], op_model = \<lparr>mo_id = [], mo_provider = [], mo_reasoning = False, mo_maxTokens = 0,
     mo_contextWindow = 0\<rparr>,
     op_thinkingLevel = ThinkOff, op_tools = [demo_tool_spec], op_toolExecution = None, op_convertToLlm = None,
     op_transformContext = None,
     op_stream = (\<lambda>mo c g e. (\<lparr>rs_events = [],
        rs_result = (if length (lc_messages c) \<le> 1 then demo_answer [ToolCallBlock [1] [1] []] ToolUse
                     else demo_answer [TextBlock [7]] Stop)\<rparr>, [], e)),
     op_getApiKey = None, op_beforeToolCall = None, op_afterToolCall = None, op_prepareNextTurn = None,
     op_prepareNextTurnWithContext = None, op_listeners = [\<lambda>ev e. ((), [], e + 1)], op_now = int, op_pick = (\<lambda>e ks. e)\<rparr>"

definition demo_world :: "message list \<Rightarrow> message list \<Rightarrow> nat world" where
  "demo_world messages queued =
     \<lparr>w_agent = fold (\<lambda>m. perform (FollowUp m)) queued (newAgent messages None None), w_outside = 0\<rparr>"

lemma demo_options_start: "starts_once (fst (op_stream demo_options mo c g e))"
  by (simp add: demo_options_def starts_once_def)

section \<open>The properties\<close>





end
