(* ===== verification/Harness.thy ===== *)
theory Harness
  imports BranchSummaries Agent
begin

text \<open>
  The harness around the agent loop (\<open>packages/agent/src/harness/agent-harness.ts\<close>): its phases, the
  writes to the session it puts off while it is busy, the queues of messages, the tools, and the
  operations that compact the session and navigate its tree. What is outside acts on a world \<open>'w\<close> and on
  the harness through the calls of its interface: hooks, listeners of the events of a run and requests to
  the model do so while an operation is active. A listener of the harness's own events does not call the
  harness back. The loop that runs a turn is the parameter \<open>hv_run\<close>. The configuration of the stream and
  the retries only pass through and are left out.
\<close>

section \<open>Errors\<close>

datatype harness_code =
    HBusy | HInvalidState | HInvalidArgument | HSession | HHook | HAuth | HCompaction | HBranchSummary | HUnknown

datatype cause =
    OtherError jsstring
  | SessionFailed session_error
  | CompactionFailed compaction_error
  | BranchFailed branch_summary_error
  | BothFailed cause cause

text \<open>What is thrown: an error of the harness, or another one.\<close>

datatype thrown = HarnessError harness_code cause | Raw cause

fun normalizeHarnessError :: "harness_code \<Rightarrow> thrown \<Rightarrow> thrown" where
  "normalizeHarnessError fallback (HarnessError c x) = HarnessError c x"
| "normalizeHarnessError fallback (Raw (SessionFailed e)) = HarnessError HSession (SessionFailed e)"
| "normalizeHarnessError fallback (Raw (CompactionFailed (CompactionError c m))) =
     HarnessError HCompaction (CompactionFailed (CompactionError c m))"
| "normalizeHarnessError fallback (Raw (BranchFailed e)) = HarnessError HBranchSummary (BranchFailed e)"
| "normalizeHarnessError fallback (Raw x) = HarnessError fallback x"

definition harnessError :: "harness_code \<Rightarrow> string \<Rightarrow> thrown" where
  "harnessError c m = HarnessError c (OtherError (js m))"

section \<open>The state\<close>

datatype phase = Idle | InTurn | InCompaction | InBranchSummary | InRetry

text \<open>An entry without what the session adds to it.\<close>

datatype session_write =
    WriteMessage message
  | WriteModelChange jsstring jsstring
  | WriteThinkingLevel thinking_level
  | WriteActiveTools "jsstring list"
  | WriteCustom jsstring "json option"
  | WriteCustomMessage jsstring content bool "json option"
  | WriteLabel jsstring "jsstring option"
  | WriteSessionInfo "jsstring option"
  | WriteLeaf "jsstring option"

text \<open>\<open>ha_abortSignal\<close> is the flag of the active operation's abort signal; \<open>ha_accepted\<close> is not in the
  code: it lists the writes asked for through the interface that were stored or put off.\<close>

record ('s, 't, 'w) harness =
  ha_session :: "'s session"
  ha_world :: 'w
  ha_phase :: phase
  ha_abortSignal :: "bool option"
  ha_isShutdown :: bool
  ha_pending :: "session_write list"
  ha_model :: model
  ha_thinkingLevel :: thinking_level
  ha_tools :: "(jsstring \<times> 't) list"
  ha_activeToolNames :: "jsstring list"
  ha_steer :: "message list"
  ha_steeringMode :: queue_mode
  ha_followUp :: "message list"
  ha_followUpMode :: queue_mode
  ha_nextTurn :: "message list"
  ha_accepted :: "session_write list"

datatype own_event =
    QueueUpdate "message list" "message list" "message list"
  | SavePoint bool
  | Settled nat
  | ModelUpdate model model
  | ThinkingLevelUpdate thinking_level thinking_level
  | ToolsUpdate "jsstring list" "jsstring list" "jsstring list" "jsstring list"
  | SessionCompacted entry bool
  | SessionTree "jsstring option" "jsstring option" "entry option" bool
  | AbortEvent "message list" "message list"

text \<open>The calls of the interface that code outside may make while an operation is active.\<close>

datatype 't harness_call =
    CallAppendMessage message
  | CallSetModel model
  | CallSetThinkingLevel thinking_level
  | CallSetTools "(jsstring \<times> 't) list" "jsstring list option"
  | CallSetActiveTools "jsstring list"
  | CallSteer jsstring "block list option"
  | CallFollowUp jsstring "block list option"
  | CallNextTurn jsstring "block list option"
  | CallSetSteeringMode queue_mode
  | CallSetFollowUpMode queue_mode
  | CallRequestShutdown

type_synonym ('t, 'w, 'a) caller = "'w \<Rightarrow> 'a \<times> 't harness_call list \<times> 'w"

record compact_hook =
  ch_cancel :: bool
  ch_compaction :: "compaction option"

record tree_hook =
  th_cancel :: bool
  th_summary :: "branch_summary option"
  th_customInstructions :: "jsstring option"
  th_replaceInstructions :: "bool option"

record agent_start_hook =
  ah_messages :: "message list option"
  ah_systemPrompt :: "jsstring option"

record tree_preparation =
  tp_targetId :: jsstring
  tp_oldLeafId :: "jsstring option"
  tp_collected :: collected
  tp_summarize :: bool
  tp_customInstructions :: "jsstring option"
  tp_replaceInstructions :: "bool option"

text \<open>
  What the harness is given: the operations of the session, the sources of identifiers and time, the
  subscribers, the hooks, the model, and the loop with the message of an error; the loop takes the messages of the prompt, those
  of the session and the system prompt of a hook, and returns the model of its last turn too. A subscriber or hook that throws returns the message.
\<close>

record ('s, 't, 'w) harness_env =
  hv_ops :: "'s session_ops"
  hv_uuid :: "nat \<Rightarrow> jsstring"
  hv_now :: "'w \<Rightarrow> int"
  hv_timestamp :: "'w \<Rightarrow> jsstring"
  hv_listeners :: "(event \<Rightarrow> ('t, 'w, jsstring option) caller) list"
  hv_ownListeners :: "(own_event \<Rightarrow> 'w \<Rightarrow> jsstring option \<times> 'w) list"
  hv_beforeCompact :: "(preparation_data \<Rightarrow> entry list \<Rightarrow> jsstring option \<Rightarrow> ('t, 'w, jsstring + compact_hook option) caller) list"
  hv_beforeTree :: "(tree_preparation \<Rightarrow> ('t, 'w, jsstring + tree_hook option) caller) list"
  hv_beforeAgentStart :: "(jsstring \<Rightarrow> ('t, 'w, jsstring + agent_start_hook option) caller) list"
  hv_ask :: "model \<Rightarrow> summary_request \<Rightarrow> ('t, 'w, assistant) caller"
  hv_errorText :: "thrown \<Rightarrow> jsstring"
  hv_contextOptions :: context_options
  hv_run :: "message list \<Rightarrow> message list \<Rightarrow> jsstring option \<Rightarrow> ('s, 't, 'w) harness \<Rightarrow>
      ((thrown + message list) \<times> model \<times> ('s, 't, 'w) harness) option"

type_synonym ('s, 't, 'w, 'a) act = "('s, 't, 'w) harness \<Rightarrow> (thrown + 'a) \<times> ('s, 't, 'w) harness"

text \<open>An operation that may not return.\<close>

type_synonym ('s, 't, 'w, 'a) operation = "('s, 't, 'w) harness \<Rightarrow> ((thrown + 'a) \<times> ('s, 't, 'w) harness) option"

definition throwH :: "thrown \<Rightarrow> ('s, 't, 'w, 'a) act" where
  "throwH e h = (Inl e, h)"

definition andH :: "('s, 't, 'w, 'a) act \<Rightarrow> ('a \<Rightarrow> ('s, 't, 'w, 'b) act) \<Rightarrow> ('s, 't, 'w, 'b) act" where
  "andH m f h = (case m h of (Inl e, h) \<Rightarrow> (Inl e, h) | (Inr x, h) \<Rightarrow> f x h)"

definition seqH :: "('s, 't, 'w, 'a) operation \<Rightarrow> ('a \<Rightarrow> ('s, 't, 'w, 'b) operation) \<Rightarrow> ('s, 't, 'w, 'b) operation" where
  "seqH m f h = Option.bind (m h) (\<lambda>(r, h). case r of Inl e \<Rightarrow> Some (Inl e, h) | Inr x \<Rightarrow> f x h)"

definition returning :: "('s, 't, 'w, 'a) act \<Rightarrow> ('s, 't, 'w, 'a) operation" where
  "returning m h = Some (m h)"

definition normalizing :: "harness_code \<Rightarrow> ('s, 't, 'w, 'a) act \<Rightarrow> ('s, 't, 'w, 'a) act" where
  "normalizing fallback m h = apfst (map_sum (normalizeHarnessError fallback) id) (m h)"

definition onSession :: "('s, 'a) call \<Rightarrow> ('s, 't, 'w, 'a) act" where
  "onSession f h = (case f (ha_session h) of (r, ss) \<Rightarrow> (map_sum (Raw \<circ> SessionFailed) id r, h\<lparr>ha_session := ss\<rparr>))"

definition requireThat :: "bool \<Rightarrow> thrown \<Rightarrow> ('s, 't, 'w, unit) act" where
  "requireThat b e h = (if b then Inr () else Inl e, h)"

definition assertNotShutDown :: "('s, 't, 'w, unit) act" where
  "assertNotShutDown h = requireThat (\<not> ha_isShutdown h) (harnessError HInvalidState ''AgentHarness has been shut down'') h"

section \<open>Events\<close>

fun notifyOwn :: "(own_event \<Rightarrow> 'w \<Rightarrow> jsstring option \<times> 'w) list \<Rightarrow> own_event \<Rightarrow> ('s, 't, 'w, unit) act" where
  "notifyOwn [] ev h = (Inr (), h)"
| "notifyOwn (l # ls) ev h =
     (let (err, w) = l ev (ha_world h); h = h\<lparr>ha_world := w\<rparr> in
      case err of Some m \<Rightarrow> (Inl (HarnessError HHook (OtherError m)), h) | None \<Rightarrow> notifyOwn ls ev h)"

definition emitOwn :: "('s, 't, 'w) harness_env \<Rightarrow> own_event \<Rightarrow> ('s, 't, 'w, unit) act" where
  "emitOwn env ev = notifyOwn (hv_ownListeners env) ev"

definition emitQueueUpdate :: "('s, 't, 'w) harness_env \<Rightarrow> ('s, 't, 'w, unit) act" where
  "emitQueueUpdate env h = emitOwn env (QueueUpdate (ha_steer h) (ha_followUp h) (ha_nextTurn h)) h"

section \<open>Changes of the configuration\<close>

definition levelName :: "thinking_level \<Rightarrow> jsstring" where
  "levelName l = (case l of ThinkOff \<Rightarrow> js ''off'' | ThinkMinimal \<Rightarrow> js ''minimal'' | ThinkLow \<Rightarrow> js ''low''
     | ThinkMedium \<Rightarrow> js ''medium'' | ThinkHigh \<Rightarrow> js ''high'' | ThinkXhigh \<Rightarrow> js ''xhigh'' | ThinkMax \<Rightarrow> js ''max'')"

text \<open>The call of the session for a write.\<close>

fun writeCall :: "'s session_ops \<Rightarrow> (nat \<Rightarrow> jsstring) \<Rightarrow> jsstring \<Rightarrow> session_write \<Rightarrow> ('s, unit) call" where
  "writeCall ops uuid t (WriteMessage m) = andThen (appendMessage ops uuid t m) (\<lambda>_ ss. (Inr (), ss))"
| "writeCall ops uuid t (WriteModelChange p i) = andThen (appendModelChange ops uuid t p i) (\<lambda>_ ss. (Inr (), ss))"
| "writeCall ops uuid t (WriteThinkingLevel l) =
     andThen (appendThinkingLevelChange ops uuid t (levelName l)) (\<lambda>_ ss. (Inr (), ss))"
| "writeCall ops uuid t (WriteActiveTools names) = andThen (appendActiveToolsChange ops uuid t names) (\<lambda>_ ss. (Inr (), ss))"
| "writeCall ops uuid t (WriteCustom customType data) =
     andThen (appendCustomEntry ops uuid t customType data) (\<lambda>_ ss. (Inr (), ss))"
| "writeCall ops uuid t (WriteCustomMessage customType c display details) =
     andThen (appendCustomMessageEntry ops uuid t customType c display details) (\<lambda>_ ss. (Inr (), ss))"
| "writeCall ops uuid t (WriteLabel target label) = andThen (appendLabel ops uuid t target label) (\<lambda>_ ss. (Inr (), ss))"
| "writeCall ops uuid t (WriteSessionInfo name) =
     andThen (appendSessionName ops uuid t (case name of None \<Rightarrow> [] | Some n \<Rightarrow> n)) (\<lambda>_ ss. (Inr (), ss))"
| "writeCall ops uuid t (WriteLeaf target) = andThen (moveTo ops uuid t t target None) (\<lambda>_ ss. (Inr (), ss))"

definition storeWrite :: "('s, 't, 'w) harness_env \<Rightarrow> session_write \<Rightarrow> ('s, 't, 'w, unit) act" where
  "storeWrite env wr h = onSession (writeCall (hv_ops env) (hv_uuid env) (hv_timestamp env (ha_world h)) wr) h"

text \<open>A write goes to the session at once when the harness is idle and waits else.\<close>

definition storeOrDefer :: "('s, 't, 'w) harness_env \<Rightarrow> session_write \<Rightarrow> ('s, 't, 'w, unit) act" where
  "storeOrDefer env wr h =
     (if ha_phase h = Idle
      then andH (storeWrite env wr) (\<lambda>_ h. (Inr (), h\<lparr>ha_accepted := ha_accepted h @ [wr]\<rparr>)) h
      else (Inr (), h\<lparr>ha_pending := ha_pending h @ [wr], ha_accepted := ha_accepted h @ [wr]\<rparr>))"

definition createUserMessage :: "jsstring \<Rightarrow> block list option \<Rightarrow> int \<Rightarrow> message" where
  "createUserMessage t images now =
     UserMessage (BlockContent (TextBlock t # (case images of None \<Rightarrow> [] | Some bs \<Rightarrow> bs))) now"

definition findDuplicateNames :: "jsstring list \<Rightarrow> jsstring list" where
  "findDuplicateNames names =
     snd (fold (\<lambda>name (seen, duplicates). (set_add name seen, if name \<in> set seen then set_add name duplicates else duplicates))
       names ([], []))"

definition validateUniqueNames :: "jsstring list \<Rightarrow> string \<Rightarrow> thrown + unit" where
  "validateUniqueNames names message =
     (let duplicates = findDuplicateNames names
      in if duplicates \<noteq> []
         then Inl (HarnessError HInvalidArgument (OtherError (js message @ js '': '' @ join (js '', '') duplicates)))
         else Inr ())"

definition validateToolNames :: "jsstring list \<Rightarrow> (jsstring \<times> 't) list \<Rightarrow> thrown + unit" where
  "validateToolNames toolNames tools =
     bindE (validateUniqueNames toolNames ''Duplicate active tool name(s)'') (\<lambda>_.
       let missing = filter (\<lambda>name. name \<notin> fst ` set tools) toolNames
       in if missing \<noteq> []
          then Inl (HarnessError HInvalidArgument (OtherError (js ''Unknown tool(s): '' @ join (js '', '') missing)))
          else Inr ())"

definition checked :: "thrown + unit \<Rightarrow> ('s, 't, 'w, unit) act" where
  "checked r h = (r, h)"

definition setModel :: "('s, 't, 'w) harness_env \<Rightarrow> model \<Rightarrow> ('s, 't, 'w, unit) act" where
  "setModel env mo h =
     andH assertNotShutDown (\<lambda>_. normalizing HSession
       (andH (storeOrDefer env (WriteModelChange (mo_provider mo) (mo_id mo))) (\<lambda>_ h'.
          emitOwn env (ModelUpdate mo (ha_model h)) (h'\<lparr>ha_model := mo\<rparr>)))) h"

definition setThinkingLevel :: "('s, 't, 'w) harness_env \<Rightarrow> thinking_level \<Rightarrow> ('s, 't, 'w, unit) act" where
  "setThinkingLevel env level h =
     andH assertNotShutDown (\<lambda>_. normalizing HSession
       (andH (storeOrDefer env (WriteThinkingLevel level)) (\<lambda>_ h'.
          emitOwn env (ThinkingLevelUpdate level (ha_thinkingLevel h)) (h'\<lparr>ha_thinkingLevel := level\<rparr>)))) h"

definition harness_appendMessage :: "('s, 't, 'w) harness_env \<Rightarrow> message \<Rightarrow> ('s, 't, 'w, unit) act" where
  "harness_appendMessage env m = andH assertNotShutDown (\<lambda>_. normalizing HSession (storeOrDefer env (WriteMessage m)))"

definition applyTools ::
    "('s, 't, 'w) harness_env \<Rightarrow> (jsstring \<times> 't) list \<Rightarrow> jsstring list option \<Rightarrow> ('s, 't, 'w, unit) act" where
  "applyTools env tools activeToolNames h =
     normalizing HInvalidArgument
       (andH (checked (validateUniqueNames (map fst tools) ''Duplicate tool name(s)'')) (\<lambda>_.
        let nextActive = (case activeToolNames of None \<Rightarrow> ha_activeToolNames h | Some names \<Rightarrow> names) in
        andH (checked (validateToolNames nextActive tools)) (\<lambda>_.
        andH (storeOrDefer env (WriteActiveTools nextActive)) (\<lambda>_ h'.
          emitOwn env (ToolsUpdate (map fst tools) (map fst (ha_tools h)) nextActive (ha_activeToolNames h))
            (h'\<lparr>ha_tools := tools, ha_activeToolNames := nextActive\<rparr>))))) h"

definition setTools ::
    "('s, 't, 'w) harness_env \<Rightarrow> (jsstring \<times> 't) list \<Rightarrow> jsstring list option \<Rightarrow> ('s, 't, 'w, unit) act" where
  "setTools env tools activeToolNames = andH assertNotShutDown (\<lambda>_. applyTools env tools activeToolNames)"

definition applyActiveTools :: "('s, 't, 'w) harness_env \<Rightarrow> jsstring list \<Rightarrow> ('s, 't, 'w, unit) act" where
  "applyActiveTools env toolNames h =
     normalizing HInvalidArgument
       (andH (checked (validateToolNames toolNames (ha_tools h))) (\<lambda>_.
        andH (storeOrDefer env (WriteActiveTools toolNames)) (\<lambda>_ h'.
          emitOwn env (ToolsUpdate (map fst (ha_tools h)) (map fst (ha_tools h)) toolNames (ha_activeToolNames h))
            (h'\<lparr>ha_activeToolNames := toolNames\<rparr>)))) h"

definition setActiveTools :: "('s, 't, 'w) harness_env \<Rightarrow> jsstring list \<Rightarrow> ('s, 't, 'w, unit) act" where
  "setActiveTools env toolNames = andH assertNotShutDown (\<lambda>_. applyActiveTools env toolNames)"

section \<open>The queues\<close>

definition steer :: "('s, 't, 'w) harness_env \<Rightarrow> jsstring \<Rightarrow> block list option \<Rightarrow> ('s, 't, 'w, unit) act" where
  "steer env t images =
     andH assertNotShutDown (\<lambda>_ h.
       if ha_phase h = Idle then (Inl (harnessError HInvalidState ''Cannot steer while idle''), h)
       else emitQueueUpdate env (h\<lparr>ha_steer := ha_steer h @ [createUserMessage t images (hv_now env (ha_world h))]\<rparr>))"

definition followUp :: "('s, 't, 'w) harness_env \<Rightarrow> jsstring \<Rightarrow> block list option \<Rightarrow> ('s, 't, 'w, unit) act" where
  "followUp env t images =
     andH assertNotShutDown (\<lambda>_ h.
       if ha_phase h = Idle then (Inl (harnessError HInvalidState ''Cannot follow up while idle''), h)
       else emitQueueUpdate env (h\<lparr>ha_followUp := ha_followUp h @ [createUserMessage t images (hv_now env (ha_world h))]\<rparr>))"

definition nextTurn :: "('s, 't, 'w) harness_env \<Rightarrow> jsstring \<Rightarrow> block list option \<Rightarrow> ('s, 't, 'w, unit) act" where
  "nextTurn env t images =
     andH assertNotShutDown (\<lambda>_ h.
       emitQueueUpdate env (h\<lparr>ha_nextTurn := ha_nextTurn h @ [createUserMessage t images (hv_now env (ha_world h))]\<rparr>))"

definition setSteeringMode :: "queue_mode \<Rightarrow> ('s, 't, 'w, unit) act" where
  "setSteeringMode mode = andH assertNotShutDown (\<lambda>_ h. (Inr (), h\<lparr>ha_steeringMode := mode\<rparr>))"

definition setFollowUpMode :: "queue_mode \<Rightarrow> ('s, 't, 'w, unit) act" where
  "setFollowUpMode mode = andH assertNotShutDown (\<lambda>_ h. (Inr (), h\<lparr>ha_followUpMode := mode\<rparr>))"

definition taken :: "queue_mode \<Rightarrow> message list \<Rightarrow> message list" where
  "taken mode queue = (if mode = QueueAll then queue else take 1 queue)"

definition left :: "queue_mode \<Rightarrow> message list \<Rightarrow> message list" where
  "left mode queue = (if mode = QueueAll then [] else drop 1 queue)"

text \<open>The messages go back in front of the queue when the subscribers refuse the update.\<close>

definition drainSteer :: "('s, 't, 'w) harness_env \<Rightarrow> ('s, 't, 'w, message list) act" where
  "drainSteer env h =
     (let messages = taken (ha_steeringMode h) (ha_steer h);
          h = h\<lparr>ha_steer := left (ha_steeringMode h) (ha_steer h)\<rparr>
      in if messages = [] then (Inr [], h)
         else (case emitQueueUpdate env h of
             (Inr _, h) \<Rightarrow> (Inr messages, h)
           | (Inl e, h) \<Rightarrow> (Inl (normalizeHarnessError HHook e), h\<lparr>ha_steer := messages @ ha_steer h\<rparr>)))"

definition drainFollowUps :: "('s, 't, 'w) harness_env \<Rightarrow> ('s, 't, 'w, message list) act" where
  "drainFollowUps env h =
     (let messages = taken (ha_followUpMode h) (ha_followUp h);
          h = h\<lparr>ha_followUp := left (ha_followUpMode h) (ha_followUp h)\<rparr>
      in if messages = [] then (Inr [], h)
         else (case emitQueueUpdate env h of
             (Inr _, h) \<Rightarrow> (Inr messages, h)
           | (Inl e, h) \<Rightarrow> (Inl (normalizeHarnessError HHook e), h\<lparr>ha_followUp := messages @ ha_followUp h\<rparr>)))"

section \<open>Calls from outside\<close>

definition requestShutdown :: "('s, 't, 'w) harness \<Rightarrow> ('s, 't, 'w) harness" where
  "requestShutdown h =
     (if ha_isShutdown h then h
      else h\<lparr>ha_isShutdown := True, ha_pending := [], ha_steer := [], ha_followUp := [], ha_nextTurn := [],
             ha_abortSignal := map_option (\<lambda>_. True) (ha_abortSignal h)\<rparr>)"

text \<open>The caller sees the error of a refused call; the harness goes on.\<close>

fun performCall :: "('s, 't, 'w) harness_env \<Rightarrow> 't harness_call \<Rightarrow> ('s, 't, 'w) harness \<Rightarrow> ('s, 't, 'w) harness" where
  "performCall env (CallAppendMessage m) h = snd (harness_appendMessage env m h)"
| "performCall env (CallSetModel mo) h = snd (setModel env mo h)"
| "performCall env (CallSetThinkingLevel l) h = snd (setThinkingLevel env l h)"
| "performCall env (CallSetTools ts names) h = snd (setTools env ts names h)"
| "performCall env (CallSetActiveTools names) h = snd (setActiveTools env names h)"
| "performCall env (CallSteer t images) h = snd (steer env t images h)"
| "performCall env (CallFollowUp t images) h = snd (followUp env t images h)"
| "performCall env (CallNextTurn t images) h = snd (nextTurn env t images h)"
| "performCall env (CallSetSteeringMode mode) h = snd (setSteeringMode mode h)"
| "performCall env (CallSetFollowUpMode mode) h = snd (setFollowUpMode mode h)"
| "performCall env CallRequestShutdown h = requestShutdown h"

definition callOut :: "('s, 't, 'w) harness_env \<Rightarrow> ('t, 'w, 'a) caller \<Rightarrow> ('s, 't, 'w) harness \<Rightarrow> 'a \<times> ('s, 't, 'w) harness" where
  "callOut env f h = (let (x, calls, w) = f (ha_world h) in (x, fold (performCall env) calls (h\<lparr>ha_world := w\<rparr>)))"

fun notifyAll ::
    "('s, 't, 'w) harness_env \<Rightarrow> (event \<Rightarrow> ('t, 'w, jsstring option) caller) list \<Rightarrow> event \<Rightarrow> ('s, 't, 'w, unit) act" where
  "notifyAll env [] ev h = (Inr (), h)"
| "notifyAll env (l # ls) ev h =
     (let (err, h) = callOut env (l ev) h in
      case err of Some m \<Rightarrow> (Inl (HarnessError HHook (OtherError m)), h) | None \<Rightarrow> notifyAll env ls ev h)"

definition emitAny :: "('s, 't, 'w) harness_env \<Rightarrow> event \<Rightarrow> ('s, 't, 'w, unit) act" where
  "emitAny env ev = notifyAll env (hv_listeners env) ev"

text \<open>The last result of the hooks, in their order.\<close>

fun emitHook ::
    "('s, 't, 'w) harness_env \<Rightarrow> ('t, 'w, jsstring + 'r option) caller list \<Rightarrow> 'r option \<Rightarrow> ('s, 't, 'w, 'r option) act" where
  "emitHook env [] lastResult h = (Inr lastResult, h)"
| "emitHook env (f # fs) lastResult h =
     (let (r, h) = callOut env f h in
      case r of
        Inl m \<Rightarrow> (Inl (HarnessError HHook (OtherError m)), h)
      | Inr result \<Rightarrow> emitHook env fs (if result \<noteq> None then result else lastResult) h)"

section \<open>Writes that were put off\<close>

lemma storeWrite_fields:
  "snd (storeWrite env wr h) = h\<lparr>ha_session := ha_session (snd (storeWrite env wr h))\<rparr>"
  by (simp add: storeWrite_def onSession_def split: prod.split)

lemma storeWrite_pending [simp]: "ha_pending (snd (storeWrite env wr h)) = ha_pending h"
  by (subst storeWrite_fields) simp

function flushPendingSessionWrites :: "('s, 't, 'w) harness_env \<Rightarrow> ('s, 't, 'w, unit) act" where
  "flushPendingSessionWrites env h =
     (case ha_pending h of
        [] \<Rightarrow> (Inr (), h)
      | wr # rest \<Rightarrow>
          (case storeWrite env wr h of
             (Inl e, h) \<Rightarrow> (Inl e, h)
           | (Inr _, h) \<Rightarrow> flushPendingSessionWrites env (h\<lparr>ha_pending := tl (ha_pending h)\<rparr>)))"
  by pat_completeness auto
termination
proof (relation "measure (\<lambda>(env, h). length (ha_pending h))", goal_cases)
  case 1
  show ?case by simp
next
  case (2 env h wr rest r h' u)
  then have "h' = snd (storeWrite env wr h)"
    by (metis snd_conv)
  then show ?case
    using 2(1) by simp
qed

declare flushPendingSessionWrites.simps [simp del]

section \<open>The events of a run\<close>

definition handleTurnEnd :: "('s, 't, 'w) harness_env \<Rightarrow> event \<Rightarrow> ('s, 't, 'w, unit) act" where
  "handleTurnEnd env ev h =
     (let (emitted, h) = emitAny env ev h; hadPendingMutations = (ha_pending h \<noteq> []) in
      andH (flushPendingSessionWrites env) (\<lambda>_.
        case emitted of Inl e \<Rightarrow> throwH e | Inr _ \<Rightarrow> emitOwn env (SavePoint hadPendingMutations)) h)"

definition handleAgentEvent :: "('s, 't, 'w) harness_env \<Rightarrow> event \<Rightarrow> ('s, 't, 'w, unit) act" where
  "handleAgentEvent env ev =
     (case ev of
        MessageEnd m \<Rightarrow> andH (storeWrite env (WriteMessage m)) (\<lambda>_. emitAny env ev)
      | TurnEnd m results \<Rightarrow> handleTurnEnd env ev
      | AgentEnd messages \<Rightarrow>
          andH (flushPendingSessionWrites env) (\<lambda>_ h.
          andH (emitAny env ev) (\<lambda>_ h. emitOwn env (Settled (length (ha_nextTurn h))) h) (h\<lparr>ha_phase := Idle\<rparr>))
      | _ \<Rightarrow> emitAny env ev)"

definition createFailureMessage :: "model \<Rightarrow> jsstring \<Rightarrow> bool \<Rightarrow> int \<Rightarrow> assistant" where
  "createFailureMessage mo message aborted now =
     \<lparr>a_content = [TextBlock []], a_provider = mo_provider mo, a_model = mo_id mo, a_usage = Some EMPTY_USAGE,
      a_stopReason = (if aborted then Aborted else StopError), a_errorMessage = Some message, a_timestamp = now\<rparr>"

definition emitRunFailure :: "('s, 't, 'w) harness_env \<Rightarrow> model \<Rightarrow> thrown \<Rightarrow> ('s, 't, 'w, message list) act" where
  "emitRunFailure env mo e h =
     (let m = AssistantMessage (createFailureMessage mo (hv_errorText env e) (ha_abortSignal h = Some True)
            (hv_now env (ha_world h))) in
      andH (handleAgentEvent env (MessageStart m)) (\<lambda>_.
      andH (handleAgentEvent env (MessageEnd m)) (\<lambda>_.
      andH (handleAgentEvent env (TurnEnd m [])) (\<lambda>_.
      andH (handleAgentEvent env (AgentEnd [m])) (\<lambda>_ h. (Inr [m], h))))) h)"

section \<open>Turns\<close>

definition operation_finish :: "('s, 't, 'w) harness \<Rightarrow> ('s, 't, 'w) harness" where
  "operation_finish h = h\<lparr>ha_abortSignal := None\<rparr>"

definition startOperation :: "phase \<Rightarrow> ('s, 't, 'w) harness \<Rightarrow> ('s, 't, 'w) harness" where
  "startOperation ph h = h\<lparr>ha_phase := ph, ha_abortSignal := Some False\<rparr>"

definition onBranch :: "(('s session) \<Rightarrow> ((session_error + 'a) \<times> 's session) option) \<Rightarrow> ('s, 't, 'w, 'a) operation" where
  "onBranch f h = map_option (\<lambda>(r, ss). (map_sum (Raw \<circ> SessionFailed) id r, h\<lparr>ha_session := ss\<rparr>)) (f (ha_session h))"

text \<open>Of the state of a turn only the messages matter here.\<close>

definition createTurnState :: "('s, 't, 'w) harness_env \<Rightarrow> ('s, 't, 'w, message list) operation" where
  "createTurnState env =
     seqH (returning assertNotShutDown) (\<lambda>_.
     seqH (onBranch (session_buildContext (hv_ops env) (hv_contextOptions env) no_options)) (\<lambda>context.
     returning (\<lambda>h. (Inr (x_messages context), h))))"

text \<open>Between two turns of a run.\<close>

definition prepareNextTurn :: "('s, 't, 'w) harness_env \<Rightarrow> ('s, 't, 'w, message list) operation" where
  "prepareNextTurn env = seqH (returning (flushPendingSessionWrites env)) (\<lambda>_. createTurnState env)"

definition takeNextTurn :: "('s, 't, 'w) harness_env \<Rightarrow> message \<Rightarrow> ('s, 't, 'w, message list) act" where
  "takeNextTurn env m h =
     (if ha_nextTurn h = [] then (Inr [m], h)
      else
        let queued = ha_nextTurn h in
        case emitQueueUpdate env (h\<lparr>ha_nextTurn := []\<rparr>) of
          (Inr _, h) \<Rightarrow> (Inr (queued @ [m]), h)
        | (Inl e, h) \<Rightarrow> (Inl (normalizeHarnessError HHook e), h\<lparr>ha_nextTurn := queued @ ha_nextTurn h\<rparr>))"

fun thrownCause :: "thrown \<Rightarrow> cause" where
  "thrownCause (HarnessError c x) = x"
| "thrownCause (Raw x) = x"

definition runTurn ::
    "('s, 't, 'w) harness_env \<Rightarrow> message list \<Rightarrow> message list \<Rightarrow> jsstring option \<Rightarrow> ('s, 't, 'w, message list) operation" where
  "runTurn env messages context systemPrompt h =
     map_option (\<lambda>(r, mo, h). case r of
         Inr newMessages \<Rightarrow> (Inr newMessages, h)
       | Inl e \<Rightarrow> (case emitRunFailure env mo e h of
             (Inr newMessages, h) \<Rightarrow> (Inr newMessages, h)
           | (Inl e', h) \<Rightarrow> (Inl (HarnessError HUnknown (BothFailed (thrownCause e) (thrownCause e'))), h)))
       (hv_run env messages context systemPrompt h)"

definition lastAssistant :: "message list \<Rightarrow> thrown + assistant" where
  "lastAssistant messages =
     (case List.map_filter (\<lambda>m. case m of AssistantMessage a \<Rightarrow> Some a | _ \<Rightarrow> None) (rev messages) of
        a # _ \<Rightarrow> Inr a
      | [] \<Rightarrow> Inl (harnessError HInvalidState ''AgentHarness prompt completed without an assistant message''))"

text \<open>\<open>finally\<close>: what the flush throws is thrown, whatever the run did.\<close>

definition flushFinally :: "('s, 't, 'w) harness_env \<Rightarrow> (thrown + 'a) \<times> ('s, 't, 'w) harness \<Rightarrow> (thrown + 'a) \<times> ('s, 't, 'w) harness" where
  "flushFinally env = (\<lambda>(r, h). case flushPendingSessionWrites env h of
      (Inl e, h) \<Rightarrow> (Inl e, h) | (Inr _, h) \<Rightarrow> (r, h))"

definition executeTurn ::
    "('s, 't, 'w) harness_env \<Rightarrow> message list \<Rightarrow> jsstring \<Rightarrow> block list option \<Rightarrow> ('s, 't, 'w, assistant) operation" where
  "executeTurn env context t images =
     seqH (returning assertNotShutDown) (\<lambda>_.
     seqH (\<lambda>h. returning (takeNextTurn env (createUserMessage t images (hv_now env (ha_world h)))) h) (\<lambda>messages.
     seqH (returning (emitHook env (map (\<lambda>f. f t) (hv_beforeAgentStart env)) None)) (\<lambda>before.
     seqH (returning assertNotShutDown) (\<lambda>_ h.
       let messages = messages @ (case before of None \<Rightarrow> [] | Some b \<Rightarrow>
             (case ah_messages b of None \<Rightarrow> [] | Some ms \<Rightarrow> ms));
           systemPrompt = (case before of None \<Rightarrow> None | Some b \<Rightarrow> ah_systemPrompt b)
       in map_option (\<lambda>(r, h). flushFinally env (bindE r lastAssistant, h))
            (runTurn env messages context systemPrompt h)))))"

text \<open>What \<open>prompt\<close>, \<open>skill\<close> and \<open>promptFromTemplate\<close> share; they differ in the text, which a skill or
  a template that is not there refuses.\<close>

definition promptWith ::
    "('s, 't, 'w) harness_env \<Rightarrow> thrown + jsstring \<Rightarrow> block list option \<Rightarrow> ('s, 't, 'w, assistant) operation" where
  "promptWith env prompt_text images =
     seqH (returning assertNotShutDown) (\<lambda>_ h.
       if ha_phase h \<noteq> Idle then Some (Inl (harnessError HBusy ''AgentHarness is busy''), h)
       else map_option (\<lambda>(r, h). case r of
           Inr a \<Rightarrow> (Inr a, operation_finish h)
         | Inl e \<Rightarrow> (Inl (normalizeHarnessError HUnknown e), operation_finish (h\<lparr>ha_phase := Idle\<rparr>)))
         (seqH (createTurnState env) (\<lambda>context.
          seqH (returning (\<lambda>h. (prompt_text, h))) (\<lambda>t.
          executeTurn env context t images)) (startOperation InTurn h)))"

definition harness_prompt ::
    "('s, 't, 'w) harness_env \<Rightarrow> jsstring \<Rightarrow> block list option \<Rightarrow> ('s, 't, 'w, assistant) operation" where
  "harness_prompt env t images = promptWith env (Inr t) images"

section \<open>Compaction\<close>

definition detailsOf :: "jsstring list \<Rightarrow> jsstring list \<Rightarrow> json" where
  "detailsOf readFiles modifiedFiles =
     JObj [(js ''readFiles'', JArr (map JStr readFiles)), (js ''modifiedFiles'', JArr (map JStr modifiedFiles))]"

definition compactionOf :: "compaction_result \<Rightarrow> compaction" where
  "compactionOf r = \<lparr>k_summary = cr_summary r, k_firstKeptEntryId = Some (cr_firstKeptEntryId r),
     k_tokensBefore = cr_tokensBefore r, k_retainedTail = Some (cr_retainedTail r),
     k_details = Some (detailsOf (cr_readFiles r) (cr_modifiedFiles r)), k_usage = cr_usage r, k_fromHook = None\<rparr>"

definition providedCompaction :: "compact_hook option \<Rightarrow> compaction option" where
  "providedCompaction hook = (case hook of None \<Rightarrow> None | Some r \<Rightarrow> ch_compaction r)"

text \<open>The result a hook provides, or the one the model is asked for.\<close>

definition obtainCompaction ::
    "('s, 't, 'w) harness_env \<Rightarrow> preparation_data \<Rightarrow> model \<Rightarrow> jsstring option \<Rightarrow> compaction option \<Rightarrow>
     ('s, 't, 'w, compaction) act" where
  "obtainCompaction env p mo customInstructions provided h =
     (case provided of
        Some k \<Rightarrow> (Inr k, h)
      | None \<Rightarrow> apfst (map_sum (Raw \<circ> CompactionFailed) compactionOf)
          (compact (\<lambda>mo rq. callOut env (hv_ask env mo rq)) p mo customInstructions (Some (ha_thinkingLevel h)) h))"

definition storeCompaction ::
    "('s, 't, 'w) harness_env \<Rightarrow> compaction \<Rightarrow> bool \<Rightarrow> ('s, 't, 'w, compaction) act" where
  "storeCompaction env k fromHook =
     andH assertNotShutDown (\<lambda>_ h.
     andH (onSession (appendCompaction (hv_ops env) (hv_uuid env) (hv_timestamp env (ha_world h))
              (k\<lparr>k_fromHook := Some fromHook\<rparr>))) (\<lambda>i.
     andH (onSession (session_getEntry (hv_ops env) i)) (\<lambda>found.
       case found of
         Some e \<Rightarrow> (if entry_type e = TCompaction
             then andH (emitOwn env (SessionCompacted e fromHook)) (\<lambda>_ h. (Inr k, h)) else (\<lambda>h. (Inr k, h)))
       | None \<Rightarrow> (\<lambda>h. (Inr k, h)))) h)"

definition compactBody :: "('s, 't, 'w) harness_env \<Rightarrow> jsstring option \<Rightarrow> ('s, 't, 'w, compaction) operation" where
  "compactBody env customInstructions h =
     (let mo = ha_model h in
      seqH (onBranch (session_getBranch (hv_ops env) None)) (\<lambda>branchEntries.
        case prepareCompaction branchEntries DEFAULT_COMPACTION_SETTINGS of
          Inl e \<Rightarrow> returning (throwH (Raw (CompactionFailed e)))
        | Inr None \<Rightarrow> returning (throwH (harnessError HCompaction ''Nothing to compact''))
        | Inr (Some p) \<Rightarrow> returning (
            andH (emitHook env (map (\<lambda>f. f p branchEntries customInstructions) (hv_beforeCompact env)) None) (\<lambda>hook.
              if (case hook of None \<Rightarrow> False | Some r \<Rightarrow> ch_cancel r)
              then throwH (harnessError HCompaction ''Compaction cancelled'')
              else andH (obtainCompaction env p mo customInstructions (providedCompaction hook)) (\<lambda>k.
                   storeCompaction env k (providedCompaction hook \<noteq> None))))) h)"

text \<open>The operations that finish idle whatever happened.\<close>

definition idleOperation ::
    "phase \<Rightarrow> harness_code \<Rightarrow> thrown \<Rightarrow> ('s, 't, 'w, 'a) operation \<Rightarrow> ('s, 't, 'w, 'a) operation" where
  "idleOperation ph fallback busy body =
     seqH (returning assertNotShutDown) (\<lambda>_ h.
       if ha_phase h \<noteq> Idle then Some (Inl busy, h)
       else map_option (\<lambda>(r, h). (map_sum (normalizeHarnessError fallback) id r, operation_finish (h\<lparr>ha_phase := Idle\<rparr>)))
              (body (startOperation ph h)))"

definition harness_compact :: "('s, 't, 'w) harness_env \<Rightarrow> jsstring option \<Rightarrow> ('s, 't, 'w, compaction) operation" where
  "harness_compact env customInstructions =
     idleOperation InCompaction HCompaction (harnessError HBusy ''compact() requires idle harness'')
       (compactBody env customInstructions)"

section \<open>Moving in the tree\<close>

record navigate_options =
  nv_summarize :: bool
  nv_customInstructions :: "jsstring option"
  nv_replaceInstructions :: "bool option"

record navigate_result =
  nr_cancelled :: bool
  nr_editorText :: "jsstring option"
  nr_summaryEntry :: "entry option"

definition cancelledResult :: "bool \<Rightarrow> navigate_result" where
  "cancelledResult b = \<lparr>nr_cancelled = b, nr_editorText = None, nr_summaryEntry = None\<rparr>"

text \<open>Where the leaf goes, and the text that goes back to the editor.\<close>

definition navigationTarget :: "entry \<Rightarrow> jsstring option \<times> jsstring option" where
  "navigationTarget e = (case e_body e of
       MessageEntry (UserMessage c t) \<Rightarrow> (e_parentId e, Some (contentText c []))
     | CustomMessageEntry customType c display details \<Rightarrow> (e_parentId e, Some (contentText c []))
     | _ \<Rightarrow> (Some (e_id e), None))"

definition hookSummary :: "tree_hook option \<Rightarrow> branch_summary option" where
  "hookSummary hook = (case hook of None \<Rightarrow> None | Some r \<Rightarrow> th_summary r)"

definition summaryOf :: "branch_summary_result \<Rightarrow> branch_summary" where
  "summaryOf r = \<lparr>s_fromId = [], s_summary = bs_summary r,
     s_details = Some (detailsOf (bs_readFiles r) (bs_modifiedFiles r)), s_usage = bs_usage r, s_fromHook = None\<rparr>"

text \<open>\<open>Inr None\<close> is a summary that was aborted; the summary may be missing.\<close>

definition obtainSummary ::
    "('s, 't, 'w) harness_env \<Rightarrow> entry list \<Rightarrow> navigate_options \<Rightarrow> tree_hook option \<Rightarrow>
     ('s, 't, 'w, branch_summary option option) act" where
  "obtainSummary env entries options hook h =
     (if \<not> truthy (map_option s_summary (hookSummary hook)) \<and> nv_summarize options \<and> entries \<noteq> [] then
        (let custom = orElse (case hook of None \<Rightarrow> None | Some r \<Rightarrow> th_customInstructions r) (nv_customInstructions options);
             replace = orElse (case hook of None \<Rightarrow> None | Some r \<Rightarrow> th_replaceInstructions r) (nv_replaceInstructions options);
             (r, h) = generateBranchSummary (\<lambda>mo rq. callOut env (hv_ask env mo rq)) entries (ha_model h)
               \<lparr>bo_customInstructions = custom, bo_replaceInstructions = (replace = Some True), bo_reserveTokens = None\<rparr> h
         in case r of
              Inl (BranchSummaryAborted m) \<Rightarrow> (Inr None, h)
            | Inl e \<Rightarrow> (Inl (HarnessError HBranchSummary (BranchFailed e)), h)
            | Inr b \<Rightarrow> (Inr (Some (Some (summaryOf b))), h))
      else (Inr (Some (hookSummary hook)), h))"

definition finishNavigation ::
    "('s, 't, 'w) harness_env \<Rightarrow> entry \<Rightarrow> jsstring option \<Rightarrow> branch_summary option \<Rightarrow> bool \<Rightarrow>
     ('s, 't, 'w, navigate_result) act" where
  "finishNavigation env target oldLeafId summary fromHook h =
     (let (newLeafId, editorText) = navigationTarget target;
          stored = (if truthy (map_option s_summary summary)
                    then map_option (\<lambda>b. b\<lparr>s_fromHook := Some fromHook\<rparr>) summary else None);
          t = hv_timestamp env (ha_world h) in
      andH (onSession (moveTo (hv_ops env) (hv_uuid env) t t newLeafId stored)) (\<lambda>summaryId.
      andH (if truthy summaryId then onSession (session_getEntry (hv_ops env) (the summaryId)) else (\<lambda>h. (Inr None, h))) (\<lambda>found h.
        let summaryEntry = (case found of Some e \<Rightarrow> if entry_type e = TBranchSummary then Some e else None | None \<Rightarrow> None) in
        andH (emitOwn env (SessionTree (ss_leafId (ha_session h)) oldLeafId summaryEntry fromHook)) (\<lambda>_ h.
          (Inr \<lparr>nr_cancelled = False, nr_editorText = editorText, nr_summaryEntry = summaryEntry\<rparr>, h)) h)) h)"

definition navigateBody ::
    "('s, 't, 'w) harness_env \<Rightarrow> jsstring \<Rightarrow> navigate_options \<Rightarrow> ('s, 't, 'w, navigate_result) operation" where
  "navigateBody env targetId options h =
     (let oldLeafId = ss_leafId (ha_session h) in
      if oldLeafId = Some targetId then Some (Inr (cancelledResult False), h)
      else seqH (returning (onSession (session_getEntry (hv_ops env) targetId))) (\<lambda>found.
        case found of
          None \<Rightarrow> returning (throwH (HarnessError HInvalidArgument (OtherError (js ''Entry '' @ targetId @ js '' not found''))))
        | Some target \<Rightarrow>
            seqH (onBranch (collectEntriesForBranchSummary (hv_ops env) oldLeafId targetId)) (\<lambda>collected.
              let p = \<lparr>tp_targetId = targetId, tp_oldLeafId = oldLeafId, tp_collected = collected,
                    tp_summarize = nv_summarize options, tp_customInstructions = nv_customInstructions options,
                    tp_replaceInstructions = nv_replaceInstructions options\<rparr> in
              returning (andH (emitHook env (map (\<lambda>f. f p) (hv_beforeTree env)) None) (\<lambda>hook.
                if (case hook of None \<Rightarrow> False | Some r \<Rightarrow> th_cancel r) then (\<lambda>h. (Inr (cancelledResult True), h))
                else andH (obtainSummary env (ce_entries collected) options hook) (\<lambda>outcome.
                  case outcome of
                    None \<Rightarrow> (\<lambda>h. (Inr (cancelledResult True), h))
                  | Some summary \<Rightarrow> andH assertNotShutDown (\<lambda>_.
                      finishNavigation env target oldLeafId summary (hookSummary hook \<noteq> None))))))) h)"

definition navigateTree ::
    "('s, 't, 'w) harness_env \<Rightarrow> jsstring \<Rightarrow> navigate_options \<Rightarrow> ('s, 't, 'w, navigate_result) operation" where
  "navigateTree env targetId options =
     idleOperation InBranchSummary HBranchSummary (harnessError HBusy ''navigateTree() requires idle harness'')
       (navigateBody env targetId options)"

section \<open>Construction and abort\<close>

definition newHarness ::
    "'s session \<Rightarrow> 'w \<Rightarrow> model \<Rightarrow> thinking_level option \<Rightarrow> (jsstring \<times> 't) list \<Rightarrow> jsstring list option \<Rightarrow>
     queue_mode option \<Rightarrow> queue_mode option \<Rightarrow> thrown + ('s, 't, 'w) harness" where
  "newHarness session w mo level tools activeToolNames steeringMode followUpMode =
     bindE (validateUniqueNames (map fst tools) ''Duplicate tool name(s)'') (\<lambda>_.
     let active = (case activeToolNames of None \<Rightarrow> map fst tools | Some names \<Rightarrow> names) in
     bindE (validateUniqueNames active ''Duplicate active tool name(s)'') (\<lambda>_.
     bindE (validateToolNames active tools) (\<lambda>_.
     Inr \<lparr>ha_session = session, ha_world = w, ha_phase = Idle, ha_abortSignal = None, ha_isShutdown = False,
       ha_pending = [], ha_model = mo, ha_thinkingLevel = (case level of None \<Rightarrow> ThinkOff | Some l \<Rightarrow> l),
       ha_tools = tools, ha_activeToolNames = active,
       ha_steer = [], ha_steeringMode = (case steeringMode of None \<Rightarrow> QueueOneAtATime | Some m \<Rightarrow> m),
       ha_followUp = [], ha_followUpMode = (case followUpMode of None \<Rightarrow> QueueOneAtATime | Some m \<Rightarrow> m),
       ha_nextTurn = [], ha_accepted = []\<rparr>)))"

text \<open>Abort while no operation is active: then there is nothing to wait for.\<close>

definition abortIdle :: "('s, 't, 'w) harness_env \<Rightarrow> ('s, 't, 'w, message list \<times> message list) act" where
  "abortIdle env h =
     andH assertNotShutDown (\<lambda>_ h.
       let cleared = (ha_steer h, ha_followUp h);
           (updated, h) = emitQueueUpdate env (h\<lparr>ha_steer := [], ha_followUp := []\<rparr>);
           (emitted, h) = emitOwn env (AbortEvent (fst cleared) (snd cleared)) h
       in (case (updated, emitted) of
             (Inr _, Inr _) \<Rightarrow> Inr cleared
           | (Inl e, Inr _) \<Rightarrow> Inl (normalizeHarnessError HHook e)
           | (Inr _, Inl e) \<Rightarrow> Inl (normalizeHarnessError HHook e)
           | (Inl e, Inl e') \<Rightarrow> Inl (HarnessError HHook (BothFailed (thrownCause e) (thrownCause e'))), h)) h"

end
