(* ===== verification/HarnessProps.thy ===== *)
theory HarnessProps
  imports Harness
begin

text \<open>
  The harness on a session of the memory store: what calls from outside may change while an operation is
  active, the order in which messages and changes reach the session, and the outcome of the operations.
\<close>

section \<open>Relations that calls from outside respect\<close>

text \<open>
  A relation between the harness before and after, kept by every call of the interface and by every
  change of the outside world.
\<close>

locale outside_relation =
  fixes env :: "('s, 't, 'w) harness_env"
    and R :: "('s, 't, 'w) harness \<Rightarrow> ('s, 't, 'w) harness \<Rightarrow> bool"
  assumes R_refl: "R h h"
    and R_trans: "R a b \<Longrightarrow> R b c \<Longrightarrow> R a c"
    and R_world: "R h (h\<lparr>ha_world := w\<rparr>)"
    and R_call: "R h (performCall env k h)"
begin

lemma calls_R: "R h (fold (performCall env) cs h)"
  by (induction cs arbitrary: h) (auto intro: R_refl R_trans [OF R_call])

lemma callOut_R: "R h (snd (callOut env f h))"
  by (auto simp: callOut_def intro: R_trans [OF R_world calls_R] split: prod.split)

lemma notifyOwn_R: "R h (snd (notifyOwn ls ev h))"
proof (induction ls arbitrary: h)
  case Nil
  then show ?case by (simp add: R_refl)
next
  case (Cons l ls)
  then show ?case
    by (auto simp: Let_def intro: R_trans [OF R_world] R_world split: prod.split option.split)
qed

lemma emitOwn_R: "R h (snd (emitOwn env ev h))"
  by (simp add: emitOwn_def notifyOwn_R)

lemma notifyAll_R: "R h (snd (notifyAll env ls ev h))"
proof (induction ls arbitrary: h)
  case Nil
  then show ?case by (simp add: R_refl)
next
  case (Cons l ls)
  have "R h (snd (callOut env (l ev) h))"
    by (rule callOut_R)
  then show ?case
    using Cons by (auto intro: R_trans split: prod.split option.split)
qed

lemma emitAny_R: "R h (snd (emitAny env ev h))"
  by (simp add: emitAny_def notifyAll_R)

lemma emitHook_R: "R h (snd (emitHook env fs result h))"
proof (induction fs arbitrary: h result)
  case Nil
  then show ?case by (simp add: R_refl)
next
  case (Cons f fs)
  have "R h (snd (callOut env f h))"
    by (rule callOut_R)
  then show ?case
    using Cons by (auto intro: R_trans split: prod.split sum.split)
qed

lemma andH_R: "R h (snd (m h)) \<Longrightarrow> (\<And>x h. R h (snd (f x h))) \<Longrightarrow> R h (snd (andH m f h))"
  by (auto simp: andH_def intro: R_trans split: prod.split sum.split)

text \<open>Requests to the model.\<close>

lemma asker_R:
  fixes ask :: "('s, 't, 'w) harness asker"
  assumes "\<And>mo rq h. R h (snd (ask mo rq h))"
  shows "R h (snd (generateSummaryWithUsage ask ms mo n ci ps l h))"
    "R h (snd (generateTurnPrefixSummary ask ms mo n l h))"
    "R h (snd (generateBranchSummary ask es mo opts h))"
  using assms
  by (auto simp: generateSummaryWithUsage_def generateTurnPrefixSummary_def generateBranchSummary_def Let_def R_refl
      split: prod.split) (metis snd_conv)+

lemma compact_R:
  fixes ask :: "('s, 't, 'w) harness asker"
  assumes "\<And>mo rq h. R h (snd (ask mo rq h))"
  shows "R h (snd (compact ask p mo ci l h))"
proof -
  have history: "R h (snd (summarizeHistory ask p mo ci l h))" for h
    unfolding summarizeHistory_def by (rule asker_R(1) [OF assms])
  have "R h (snd (summarizeSplitTurn ask p mo ci l h))" for h
  proof -
    obtain r h1 where r: "(if pr_messagesToSummarize p \<noteq> [] then summarizeHistory ask p mo ci l h
            else (Inr \<lparr>sr_text = js ''No prior history.'', sr_usage = None\<rparr>, h)) = (r, h1)"
      by fastforce
    have "R h h1"
      using history [of h] r by (auto simp: R_refl split: if_splits)
    moreover have "R h1 (snd (generateTurnPrefixSummary ask ms mo n l h1))" for ms n
      by (rule asker_R(2) [OF assms])
    ultimately show ?thesis
      unfolding summarizeSplitTurn_def r
      by (auto simp: Let_def intro: R_trans split: sum.split prod.split) (metis R_trans snd_conv)+
  qed
  with history show ?thesis
    by (auto simp: compact_def Let_def R_refl split: prod.split sum.split) (metis snd_conv)+
qed

lemma obtainCompaction_R: "R h (snd (obtainCompaction env p mo ci provided h))"
proof -
  have "R h (snd (compact (\<lambda>mo rq. callOut env (hv_ask env mo rq)) p mo ci l h))" for l
    by (rule compact_R) (rule callOut_R)
  then show ?thesis
    by (simp add: obtainCompaction_def R_refl split: option.split)
qed

lemma obtainSummary_R: "R h (snd (obtainSummary env es opts hook h))"
proof -
  have "R h (snd (generateBranchSummary (\<lambda>mo rq. callOut env (hv_ask env mo rq)) es mo o' h))" for mo o'
    by (rule asker_R(3)) (rule callOut_R)
  then show ?thesis
    by (auto simp: obtainSummary_def Let_def R_refl split: prod.split sum.split branch_summary_error.split)
      (metis snd_conv)+
qed

end

text \<open>A relation that the harness's own steps keep too, and so every operation.\<close>

locale harness_relation = outside_relation env R
    for env :: "('s, 't, 'w) harness_env" and R :: "('s, 't, 'w) harness \<Rightarrow> ('s, 't, 'w) harness \<Rightarrow> bool" +
  assumes R_session: "R h (h\<lparr>ha_session := ss\<rparr>)"
    and R_pending: "R h (h\<lparr>ha_pending := ws\<rparr>)"
    and R_phase: "R h (h\<lparr>ha_phase := ph\<rparr>)"
    and R_abort: "R h (h\<lparr>ha_abortSignal := b\<rparr>)"
    and R_nextTurn: "R h (h\<lparr>ha_nextTurn := q\<rparr>)"
begin

lemma onSession_R: "R h (snd (onSession f h))"
  by (simp add: onSession_def R_session split: prod.split)

lemma storeWrite_R: "R h (snd (storeWrite env wr h))"
  by (simp add: storeWrite_def onSession_R)

lemma flush_R: "R h (snd (flushPendingSessionWrites env h))"
proof (induction "length (ha_pending h)" arbitrary: h)
  case 0
  then show ?case
    by (simp add: flushPendingSessionWrites.simps R_refl)
next
  case (Suc n)
  then obtain wr rest where p: "ha_pending h = wr # rest"
    by (cases "ha_pending h") simp_all
  obtain r h1 where s: "storeWrite env wr h = (r, h1)"
    by fastforce
  then have R1: "R h h1" "ha_pending h1 = wr # rest"
    using storeWrite_R [of h wr] storeWrite_pending [of env wr h] p by simp_all
  have "R h1 (snd (flushPendingSessionWrites env (h1\<lparr>ha_pending := tl (ha_pending h1)\<rparr>)))"
    using Suc.hyps p R1(2) by (intro R_trans [OF R_pending Suc.hyps(1)]) simp
  then show ?case
    using R1(1) R_trans by (subst flushPendingSessionWrites.simps) (auto simp: p s split: sum.split)
qed

lemma handle_R: "R h (snd (handleAgentEvent env ev h))"
proof (cases ev)
  case (TurnEnd m results)
  obtain emitted h1 where e: "emitAny env ev h = (emitted, h1)"
    by fastforce
  have "R h h1"
    using emitAny_R [of h ev] e by simp
  moreover have "R h1 (snd (andH (flushPendingSessionWrites env) (\<lambda>_.
      case emitted of Inl e \<Rightarrow> throwH e | Inr _ \<Rightarrow> emitOwn env (SavePoint b)) h1))" for b
    by (rule andH_R [OF flush_R]) (auto simp: throwH_def R_refl emitOwn_R split: sum.split)
  ultimately show ?thesis
    using e TurnEnd by (auto simp: handleAgentEvent_def handleTurnEnd_def Let_def intro: R_trans)
next
  case (MessageEnd m)
  then show ?thesis
    by (simp add: handleAgentEvent_def andH_R storeWrite_R emitAny_R)
next
  case (AgentEnd ms)
  have "R h (snd (andH (emitAny env ev) (\<lambda>_ h. emitOwn env (Settled (length (ha_nextTurn h))) h) (h\<lparr>ha_phase := Idle\<rparr>)))" for h
    by (rule R_trans [OF R_phase]) (rule andH_R, rule emitAny_R, rule emitOwn_R)
  then show ?thesis
    using AgentEnd by (simp add: handleAgentEvent_def andH_R flush_R)
qed (simp_all add: handleAgentEvent_def emitAny_R)

lemma emitRunFailure_R: "R h (snd (emitRunFailure env mo e h))"
  by (simp add: emitRunFailure_def Let_def andH_R handle_R R_refl)

definition obeys :: "('s, 't, 'w, 'a) operation \<Rightarrow> bool" where
  "obeys m \<longleftrightarrow> (\<forall>h r h'. m h = Some (r, h') \<longrightarrow> R h h')"

lemma obeys_returning: "(\<And>h. R h (snd (m h))) \<Longrightarrow> obeys (returning m)"
  by (simp add: obeys_def returning_def) (metis snd_conv)

lemma obeys_seqH: "obeys m \<Longrightarrow> (\<And>x. obeys (f x)) \<Longrightarrow> obeys (seqH m f)"
  unfolding obeys_def
proof (intro allI impI)
  fix h r h'
  assume m: "\<forall>h r h'. m h = Some (r, h') \<longrightarrow> R h h'" and f: "\<And>x. \<forall>h r h'. f x h = Some (r, h') \<longrightarrow> R h h'"
    and "seqH m f h = Some (r, h')"
  then obtain a h1 where a: "m h = Some (a, h1)" "(case a of Inl e \<Rightarrow> Some (Inl e, h1) | Inr x \<Rightarrow> f x h1) = Some (r, h')"
    by (auto simp: seqH_def bind_eq_Some_conv)
  then have "R h1 h'"
    using f by (cases a) (auto simp: R_refl)
  then show "R h h'"
    using m a(1) R_trans by blast
qed

lemma obeys_onBranch: "obeys (onBranch f)"
  by (auto simp: obeys_def onBranch_def R_session)

lemma assertNotShutDown_R: "R h (snd (assertNotShutDown h))"
  by (simp add: assertNotShutDown_def requireThat_def R_refl)

lemma obeys_map: "obeys m \<Longrightarrow> (\<And>r h. R h (snd (g (r, h)))) \<Longrightarrow> obeys (\<lambda>h. map_option g (m h))"
  unfolding obeys_def
proof (intro allI impI)
  fix h r h'
  assume m: "\<forall>h r h'. m h = Some (r, h') \<longrightarrow> R h h'" and g: "\<And>r h. R h (snd (g (r, h)))"
    and "map_option g (m h) = Some (r, h')"
  then obtain x h1 where x: "m h = Some (x, h1)" "g (x, h1) = (r, h')"
    by auto
  then show "R h h'"
    using m g [of h1 x] R_trans by (metis snd_conv)
qed

lemma startOperation_R: "R h (startOperation ph h)"
  unfolding startOperation_def by (rule R_trans [OF R_phase R_abort])

lemma operation_finish_R: "R h (operation_finish h)"
  by (simp add: operation_finish_def R_abort)

lemma finishIdle_R: "R h (operation_finish (h\<lparr>ha_phase := Idle\<rparr>))"
  by (rule R_trans [OF R_phase operation_finish_R])

lemma obeys_start: "obeys m \<Longrightarrow> obeys (\<lambda>h. m (startOperation ph h))"
  unfolding obeys_def using R_trans [OF startOperation_R] by blast

lemma obeys_if: "obeys m \<Longrightarrow> obeys (\<lambda>h. if c h then Some (r, h) else m h)"
  by (auto simp: obeys_def R_refl)

lemma obeys_idle: "obeys body \<Longrightarrow> obeys (idleOperation ph c busy body)"
  unfolding idleOperation_def
  by (intro obeys_seqH obeys_returning assertNotShutDown_R obeys_if obeys_map obeys_start) (auto simp: finishIdle_R)

lemma storeCompaction_R: "R h (snd (storeCompaction env k b h))"
  unfolding storeCompaction_def
  by (rule andH_R [OF assertNotShutDown_R]) (auto intro!: andH_R onSession_R emitOwn_R simp: R_refl split: option.split)

lemma compactBody_obeys: "obeys (compactBody env ci)"
proof -
  have "obeys (seqH (onBranch (session_getBranch (hv_ops env) None)) (\<lambda>branchEntries.
        case prepareCompaction branchEntries DEFAULT_COMPACTION_SETTINGS of
          Inl e \<Rightarrow> returning (throwH (Raw (CompactionFailed e)))
        | Inr None \<Rightarrow> returning (throwH (harnessError HCompaction ''Nothing to compact''))
        | Inr (Some p) \<Rightarrow> returning (
            andH (emitHook env (map (\<lambda>f. f p branchEntries ci) (hv_beforeCompact env)) None) (\<lambda>hook.
              if (case hook of None \<Rightarrow> False | Some r \<Rightarrow> ch_cancel r)
              then throwH (harnessError HCompaction ''Compaction cancelled'')
              else andH (obtainCompaction env p mo ci (providedCompaction hook)) (\<lambda>k.
                   storeCompaction env k (providedCompaction hook \<noteq> None))))))" for mo
    by (rule obeys_seqH [OF obeys_onBranch])
      (auto intro!: obeys_returning andH_R emitHook_R obtainCompaction_R storeCompaction_R simp: throwH_def R_refl
        split: sum.split option.split)
  then show ?thesis
    by (simp add: obeys_def compactBody_def Let_def)
qed

lemma finishNavigation_R: "R h (snd (finishNavigation env target old summary b h))"
  by (auto simp: finishNavigation_def Let_def R_refl intro!: andH_R onSession_R emitOwn_R split: prod.split)

lemma navigateBody_obeys: "obeys (navigateBody env targetId opts)"
proof -
  have body: "obeys (\<lambda>h. seqH (returning (onSession (session_getEntry (hv_ops env) targetId))) (F h) h)"
    if "\<And>h x. obeys (F h x)" for F :: "('s, 't, 'w) harness \<Rightarrow> entry option \<Rightarrow> ('s, 't, 'w, navigate_result) operation"
  proof -
    have "obeys (seqH (returning (onSession (session_getEntry (hv_ops env) targetId))) (F h))" for h
      using that by (intro obeys_seqH obeys_returning onSession_R)
    then show ?thesis
      unfolding obeys_def by blast
  qed
  show ?thesis
    unfolding navigateBody_def Let_def
    by (intro obeys_if body)
      (auto intro!: obeys_seqH obeys_onBranch obeys_returning andH_R emitHook_R obtainSummary_R finishNavigation_R
        assertNotShutDown_R simp: throwH_def R_refl split: option.split)
qed

lemma compact_obeys: "obeys (harness_compact env ci)"
  unfolding harness_compact_def by (rule obeys_idle [OF compactBody_obeys])

lemma navigate_obeys: "obeys (navigateTree env targetId opts)"
  unfolding navigateTree_def by (rule obeys_idle [OF navigateBody_obeys])

lemma takeNextTurn_R: "R h (snd (takeNextTurn env m h))"
proof (cases "ha_nextTurn h = []")
  case True
  then show ?thesis by (simp add: takeNextTurn_def R_refl)
next
  case False
  obtain r h1 where e: "emitQueueUpdate env (h\<lparr>ha_nextTurn := []\<rparr>) = (r, h1)"
    by fastforce
  then have "R h h1"
    using R_trans [OF R_nextTurn emitOwn_R] by (metis emitQueueUpdate_def snd_conv)
  then show ?thesis
    using False e R_trans [OF _ R_nextTurn] by (auto simp: takeNextTurn_def Let_def split: sum.split)
qed

text \<open>A turn, when the loop keeps the relation.\<close>

lemma executeTurn_obeys:
  assumes run: "\<And>ms cx sp h r mo h'. hv_run env ms cx sp h = Some (r, mo, h') \<Longrightarrow> R h h'"
  shows "obeys (executeTurn env context t images)"
proof -
  have turn: "R h h'" if t: "runTurn env ms cx sp h = Some (r, h')" for ms cx sp h r h'
  proof -
    obtain x mo h1 where x: "hv_run env ms cx sp h = Some (x, mo, h1)"
      using t by (cases "hv_run env ms cx sp h") (auto simp: runTurn_def)
    then have "R h h1" by (rule run)
    moreover have "h' = (case x of Inr _ \<Rightarrow> h1 | Inl e \<Rightarrow> snd (emitRunFailure env mo e h1))"
      using t x by (auto simp: runTurn_def split: sum.splits prod.splits)
    ultimately show ?thesis
      using R_trans [OF _ emitRunFailure_R] by (auto split: sum.splits)
  qed
  have final: "R h h'" if "flushFinally env (q, h) = (r, h')" for q r h h'
    using that flush_R [of h] by (auto simp: flushFinally_def split: prod.splits sum.splits)
  have "obeys (\<lambda>h. map_option (\<lambda>(r, h). flushFinally env (bindE r lastAssistant, h)) (runTurn env ms cx sp h))" for ms cx sp
    using R_trans [OF turn final] by (fastforce simp: obeys_def)
  then have last: "obeys (\<lambda>h. let ms = M; sp = S in
      map_option (\<lambda>(r, h). flushFinally env (bindE r lastAssistant, h)) (runTurn env ms context sp h))" for M S
    by simp
  have now: "obeys (\<lambda>h. returning (takeNextTurn env (createUserMessage t images (hv_now env (ha_world h)))) h)"
    using takeNextTurn_R by (auto simp: obeys_def returning_def) (metis snd_conv)
  show ?thesis
    unfolding executeTurn_def
    by (intro obeys_seqH last now obeys_returning assertNotShutDown_R emitHook_R)
qed

lemma createTurnState_obeys: "obeys (createTurnState env)"
  unfolding createTurnState_def
  by (intro obeys_seqH obeys_returning assertNotShutDown_R obeys_onBranch) (simp add: R_refl)

lemma prepareNextTurn_obeys: "obeys (prepareNextTurn env)"
  unfolding prepareNextTurn_def by (intro obeys_seqH obeys_returning flush_R createTurnState_obeys)

lemma promptWith_obeys:
  assumes "\<And>ms cx sp h r mo h'. hv_run env ms cx sp h = Some (r, mo, h') \<Longrightarrow> R h h'"
  shows "obeys (promptWith env prompt_text images)"
  unfolding promptWith_def
  by (intro obeys_seqH obeys_returning assertNotShutDown_R obeys_if obeys_map obeys_start createTurnState_obeys
      executeTurn_obeys [OF assms])
    (auto simp: R_refl finishIdle_R operation_finish_R split: sum.split)

end

section \<open>Tools\<close>

definition tools_ok :: "('s, 't, 'w) harness \<Rightarrow> bool" where
  "tools_ok h \<longleftrightarrow> distinct (map fst (ha_tools h)) \<and> distinct (ha_activeToolNames h)
     \<and> set (ha_activeToolNames h) \<subseteq> fst ` set (ha_tools h)"

lemma duplicates_step:
  "set (snd (fold (\<lambda>name (seen, duplicates). (set_add name seen, if name \<in> set seen then set_add name duplicates else duplicates))
      names (seen, duplicates))) = {} \<longleftrightarrow> duplicates = [] \<and> distinct names \<and> set names \<inter> set seen = {}"
proof (induction names arbitrary: seen duplicates)
  case Nil
  then show ?case by auto
next
  case (Cons x xs)
  show ?case
    unfolding fold_simps prod.case Cons.IH by (auto simp: set_add_def)
qed

lemma findDuplicateNames_iff: "findDuplicateNames names = [] \<longleftrightarrow> distinct names"
  using duplicates_step [of names "[]" "[]"] by (simp add: findDuplicateNames_def)

lemma validateUniqueNames_iff: "validateUniqueNames names m = Inr () \<longleftrightarrow> distinct names"
  by (simp add: validateUniqueNames_def Let_def findDuplicateNames_iff)

lemma validateToolNames_iff:
  "validateToolNames names tools = Inr () \<longleftrightarrow> distinct names \<and> set names \<subseteq> fst ` set tools"
proof (cases "validateUniqueNames names ''Duplicate active tool name(s)''")
  case (Inl e)
  then have "\<not> distinct names"
    using validateUniqueNames_iff [of names "''Duplicate active tool name(s)''"] by simp
  with Inl show ?thesis by (simp add: validateToolNames_def)
next
  case (Inr u)
  then have "distinct names"
    using validateUniqueNames_iff [of names "''Duplicate active tool name(s)''"] by simp
  with Inr show ?thesis by (auto simp: validateToolNames_def Let_def filter_empty_conv)
qed

text \<open>Fields that the parts of an operation leave alone.\<close>

lemma storeWrite_tools [simp]:
  "ha_tools (snd (storeWrite env wr h)) = ha_tools h"
  "ha_activeToolNames (snd (storeWrite env wr h)) = ha_activeToolNames h"
  by (subst storeWrite_fields, simp)+

lemma notifyOwn_fields: "snd (notifyOwn ls ev h) = h\<lparr>ha_world := ha_world (snd (notifyOwn ls ev h))\<rparr>"
proof (induction ls arbitrary: h)
  case Nil
  then show ?case by simp
next
  case (Cons l ls)
  obtain err w where lw: "l ev (ha_world h) = (err, w)"
    by fastforce
  show ?case
    using Cons.IH [of "h\<lparr>ha_world := w\<rparr>"] by (cases err) (simp_all add: lw Let_def)
qed

lemma emitOwn_fields: "snd (emitOwn env ev h) = h\<lparr>ha_world := ha_world (snd (emitOwn env ev h))\<rparr>"
  by (simp add: emitOwn_def notifyOwn_fields [symmetric])

lemma emitOwn_tools [simp]: "tools_ok (snd (emitOwn env ev h)) = tools_ok h"
  by (subst emitOwn_fields) (simp add: tools_ok_def)

lemma emitQueueUpdate_tools [simp]: "tools_ok (snd (emitQueueUpdate env h)) = tools_ok h"
  by (simp add: emitQueueUpdate_def)

lemma snd_andH: "snd (andH m f h) = (case fst (m h) of Inl e \<Rightarrow> snd (m h) | Inr x \<Rightarrow> snd (f x (snd (m h))))"
  by (auto simp: andH_def split: prod.split sum.split)

lemma storeOrDefer_tools [simp]:
  "ha_tools (snd (storeOrDefer env wr h)) = ha_tools h"
  "ha_activeToolNames (snd (storeOrDefer env wr h)) = ha_activeToolNames h"
  by (auto simp: storeOrDefer_def snd_andH split: sum.split)

lemma snd_normalizing [simp]: "snd (normalizing c m h) = snd (m h)"
  by (simp add: normalizing_def)

lemma assertNotShutDown_simps [simp]:
  "snd (assertNotShutDown h) = h" "fst (assertNotShutDown h) = Inr x \<longleftrightarrow> \<not> ha_isShutdown h"
  by (simp_all add: assertNotShutDown_def requireThat_def)

lemma checked_simps [simp]: "snd (checked r h) = h" "fst (checked r h) = r"
  by (simp_all add: checked_def)

lemma applyTools_ok:
  assumes "tools_ok h"
  shows "tools_ok (snd (applyTools env ts names h))"
proof -
  let ?active = "case names of None \<Rightarrow> ha_activeToolNames h | Some names \<Rightarrow> names"
  show ?thesis
  proof (cases "distinct (map fst ts) \<and> distinct ?active \<and> set ?active \<subseteq> fst ` set ts")
    case True
    have "tools_ok (h'\<lparr>ha_tools := ts, ha_activeToolNames := ?active\<rparr>)" for h' :: "('a, 'b, 'c) harness"
      using True by (simp add: tools_ok_def)
    moreover have "tools_ok (snd (storeOrDefer env wr h))" for wr
      using assms by (simp add: tools_ok_def)
    ultimately show ?thesis
      using assms by (simp add: applyTools_def snd_andH Let_def split: sum.split)
  next
    case False
    then have "fst (checked (validateUniqueNames (map fst ts) ''Duplicate tool name(s)'') h) \<noteq> Inr ()
        \<or> fst (checked (validateToolNames ?active ts) h) \<noteq> Inr ()"
      by (simp add: validateUniqueNames_iff validateToolNames_iff)
    then show ?thesis
      using assms by (auto simp: applyTools_def snd_andH Let_def split: sum.split)
  qed
qed

lemma applyActiveTools_ok:
  assumes "tools_ok h"
  shows "tools_ok (snd (applyActiveTools env names h))"
proof (cases "distinct names \<and> set names \<subseteq> fst ` set (ha_tools h)")
  case True
  have "tools_ok (snd (storeOrDefer env wr h)\<lparr>ha_activeToolNames := names\<rparr>)" for wr
    using assms True by (simp add: tools_ok_def)
  moreover have "tools_ok (snd (storeOrDefer env wr h))" for wr
    using assms by (simp add: tools_ok_def)
  ultimately show ?thesis
    using assms by (simp add: applyActiveTools_def snd_andH split: sum.split)
next
  case False
  then have "validateToolNames names (ha_tools h) \<noteq> Inr ()"
    by (simp add: validateToolNames_iff)
  then show ?thesis
    using assms by (auto simp: applyActiveTools_def snd_andH split: sum.split)
qed

lemma tools_ok_updates [simp]:
  "tools_ok (h\<lparr>ha_model := mo\<rparr>) = tools_ok h" "tools_ok (h\<lparr>ha_thinkingLevel := l\<rparr>) = tools_ok h"
  "tools_ok (h\<lparr>ha_steer := q\<rparr>) = tools_ok h" "tools_ok (h\<lparr>ha_followUp := q\<rparr>) = tools_ok h"
  "tools_ok (h\<lparr>ha_nextTurn := q\<rparr>) = tools_ok h" "tools_ok (h\<lparr>ha_steeringMode := m\<rparr>) = tools_ok h"
  "tools_ok (h\<lparr>ha_followUpMode := m\<rparr>) = tools_ok h" "tools_ok (h\<lparr>ha_world := w\<rparr>) = tools_ok h"
  "tools_ok (h\<lparr>ha_phase := ph\<rparr>) = tools_ok h" "tools_ok (h\<lparr>ha_abortSignal := b\<rparr>) = tools_ok h"
  "tools_ok (h\<lparr>ha_session := ss\<rparr>) = tools_ok h" "tools_ok (h\<lparr>ha_pending := ws\<rparr>) = tools_ok h"
  "tools_ok (requestShutdown h) = tools_ok h"
  by (simp_all add: tools_ok_def requestShutdown_def)

lemma storeOrDefer_tools_ok [simp]: "tools_ok (snd (storeOrDefer env wr h)) = tools_ok h"
  by (simp add: tools_ok_def)

lemma storeWrite_tools_ok [simp]: "tools_ok (snd (storeWrite env wr h)) = tools_ok h"
  by (simp add: tools_ok_def)

lemma call_tools_ok: "tools_ok h \<Longrightarrow> tools_ok (performCall env k h)"
  by (cases k)
    (auto simp: harness_appendMessage_def setModel_def setThinkingLevel_def setTools_def setActiveTools_def steer_def
      followUp_def nextTurn_def setSteeringMode_def setFollowUpMode_def snd_andH applyTools_ok applyActiveTools_ok
      split: sum.split)

interpretation kept_tools: harness_relation env "\<lambda>h h'. tools_ok h \<longrightarrow> tools_ok h'"
  by unfold_locales (simp_all add: call_tools_ok)

lemma newHarness_tools: "newHarness ss w mo l ts names sm fm = Inr h \<Longrightarrow> tools_ok h"
  by (auto simp: newHarness_def tools_ok_def bindE_def Let_def validateToolNames_iff validateUniqueNames_iff split: sum.splits)

section \<open>What reaches the session\<close>

fun bodyOf :: "session_write \<Rightarrow> entry_body" where
  "bodyOf (WriteMessage m) = MessageEntry m"
| "bodyOf (WriteModelChange p i) = ModelChange p i"
| "bodyOf (WriteThinkingLevel l) = ThinkingLevelChange (levelName l)"
| "bodyOf (WriteActiveTools names) = ActiveToolsChange names"
| "bodyOf (WriteCustom customType data) = CustomEntry customType data"
| "bodyOf (WriteCustomMessage customType c display details) = CustomMessageEntry customType c display details"
| "bodyOf (WriteLabel target label) = LabelEntry target label"
| "bodyOf (WriteSessionInfo name) =
     SessionInfo (Some (trim (replaceLineBreaks False (case name of None \<Rightarrow> [] | Some n \<Rightarrow> n))))"
| "bodyOf (WriteLeaf target) = LeafEntry target"

text \<open>The writes that do not depend on another entry, as are all that the interface makes.\<close>

fun plain :: "session_write \<Rightarrow> bool" where
  "plain (WriteLabel target label) = False"
| "plain (WriteLeaf target) = False"
| "plain wr = True"

type_synonym ('t, 'w) memory_harness = "(memory_reader \<times> memory_store, 't, 'w) harness"
type_synonym ('t, 'w) memory_env = "(memory_reader \<times> memory_store, 't, 'w) harness_env"

definition on_memory :: "session_metadata \<Rightarrow> ('t, 'w) memory_env \<Rightarrow> bool" where
  "on_memory md env \<longleftrightarrow> hv_ops env = memory_ops md \<and> uuid_ok (hv_uuid env)"

definition bodies :: "('t, 'w) memory_harness \<Rightarrow> entry_body list" where
  "bodies h = map e_body (session_log (ha_session h))"

definition harness_sound :: "session_metadata \<Rightarrow> ('t, 'w) memory_harness \<Rightarrow> bool" where
  "harness_sound md h \<longleftrightarrow> sound md (ha_session h) \<and> (\<forall>wr\<in>set (ha_pending h). plain wr)"

lemma writeCall_plain:
  "plain wr \<Longrightarrow> writeCall ops uuid t wr = andThen (appendTypedEntry ops uuid t (bodyOf wr)) (\<lambda>_ ss. (Inr (), ss))"
  by (cases wr)
    (simp_all add: appendMessage_def appendModelChange_def appendThinkingLevelChange_def appendActiveToolsChange_def
      appendCustomEntry_def appendCustomMessageEntry_def appendSessionName_def)

lemma plain_body_ok: "plain wr \<Longrightarrow> ms.body_ok ss (bodyOf wr)"
  by (cases wr) (simp_all add: ms.body_ok_def)

lemma storeWrite_spec:
  assumes "on_memory md env" "sound md (ha_session h)" "plain wr" "storeWrite env wr h = (r, h')"
  shows "h' = h\<lparr>ha_session := ha_session h'\<rparr>" "sound md (ha_session h')"
    "bodies h' = bodies h @ (case r of Inr _ \<Rightarrow> [bodyOf wr] | Inl _ \<Rightarrow> [])"
proof -
  show "h' = h\<lparr>ha_session := ha_session h'\<rparr>"
    using storeWrite_fields [of env wr h] assms(4) by simp
  let ?t = "hv_timestamp env (ha_world h)"
  obtain q ss' where q: "appendTypedEntry (memory_ops md) (hv_uuid env) ?t (bodyOf wr) (ha_session h) = (q, ss')" "sound md ss'"
    "case q of Inr i \<Rightarrow> \<exists>e. e_id e = i \<and> ms.appended md (ha_session h) ?t (bodyOf wr) e ss' | Inl err \<Rightarrow> ms.same_session md (ha_session h) ss'"
    using ms.appendTyped_spec [of md "ha_session h" "bodyOf wr" "hv_uuid env" ?t] assms(1,2) plain_body_ok [OF assms(3)]
    unfolding on_memory_def sound_ms by (fastforce split: sum.splits)
  have run: "writeCall (memory_ops md) (hv_uuid env) ?t wr (ha_session h) = (map_sum id (\<lambda>_. ()) q, ss')"
    using q(1) by (cases q) (simp_all add: writeCall_plain [OF assms(3)] andThen_def)
  then have r: "(r, h') = (map_sum (Raw \<circ> SessionFailed) id (map_sum id (\<lambda>_. ()) q), h\<lparr>ha_session := ss'\<rparr>)"
    using assms(1,4) by (simp add: storeWrite_def onSession_def on_memory_def)
  then show "sound md (ha_session h')"
    using q(2) by simp
  show "bodies h' = bodies h @ (case r of Inr _ \<Rightarrow> [bodyOf wr] | Inl _ \<Rightarrow> [])"
    using q(3) r by (cases q) (auto simp: bodies_def ms.appended_def ms.same_session_def session_log_ms)
qed

text \<open>
  What calls from outside change: while an operation is active the writes they make wait, and when the
  harness is idle they are stored.
\<close>

definition tracked :: "session_metadata \<Rightarrow> ('t, 'w) memory_harness \<Rightarrow> ('t, 'w) memory_harness \<Rightarrow> bool" where
  "tracked md h h' \<longleftrightarrow> (harness_sound md h \<longrightarrow>
     harness_sound md h' \<and> ha_phase h' = ha_phase h \<and> (ha_isShutdown h \<longrightarrow> ha_isShutdown h')
     \<and> (\<exists>new. ha_accepted h' = ha_accepted h @ new
        \<and> (if ha_phase h = Idle
            then bodies h' = bodies h @ map bodyOf new \<and> (\<not> ha_isShutdown h' \<longrightarrow> ha_pending h' = ha_pending h)
            else ha_session h' = ha_session h \<and> (\<not> ha_isShutdown h' \<longrightarrow> ha_pending h' = ha_pending h @ new))))"

lemma tracked_refl: "tracked md h h"
  by (auto simp: tracked_def)

lemma tracked_trans:
  assumes "tracked md a b" "tracked md b c"
  shows "tracked md a c"
  unfolding tracked_def
proof
  assume a: "harness_sound md a"
  then have b: "harness_sound md b" "ha_phase b = ha_phase a" "ha_isShutdown a \<longrightarrow> ha_isShutdown b"
    using assms(1) by (auto simp: tracked_def)
  then have c: "harness_sound md c" "ha_phase c = ha_phase b" "ha_isShutdown b \<longrightarrow> ha_isShutdown c"
    using assms(2) by (auto simp: tracked_def)
  obtain n1 where n1: "ha_accepted b = ha_accepted a @ n1"
    "if ha_phase a = Idle
     then bodies b = bodies a @ map bodyOf n1 \<and> (\<not> ha_isShutdown b \<longrightarrow> ha_pending b = ha_pending a)
     else ha_session b = ha_session a \<and> (\<not> ha_isShutdown b \<longrightarrow> ha_pending b = ha_pending a @ n1)"
    using assms(1) a by (auto simp: tracked_def)
  obtain n2 where n2: "ha_accepted c = ha_accepted b @ n2"
    "if ha_phase a = Idle
     then bodies c = bodies b @ map bodyOf n2 \<and> (\<not> ha_isShutdown c \<longrightarrow> ha_pending c = ha_pending b)
     else ha_session c = ha_session b \<and> (\<not> ha_isShutdown c \<longrightarrow> ha_pending c = ha_pending b @ n2)"
    using assms(2) b by (auto simp: tracked_def)
  show "harness_sound md c \<and> ha_phase c = ha_phase a \<and> (ha_isShutdown a \<longrightarrow> ha_isShutdown c)
     \<and> (\<exists>new. ha_accepted c = ha_accepted a @ new
        \<and> (if ha_phase a = Idle
            then bodies c = bodies a @ map bodyOf new \<and> (\<not> ha_isShutdown c \<longrightarrow> ha_pending c = ha_pending a)
            else ha_session c = ha_session a \<and> (\<not> ha_isShutdown c \<longrightarrow> ha_pending c = ha_pending a @ new)))"
    using b c n1 n2 by (intro conjI exI [of _ "n1 @ n2"]) (auto split: if_splits)
qed

lemma tracked_eq:
  assumes "tracked md h h1" "ha_session h' = ha_session h1" "ha_phase h' = ha_phase h1" "ha_pending h' = ha_pending h1"
    "ha_accepted h' = ha_accepted h1" "ha_isShutdown h' = ha_isShutdown h1"
  shows "tracked md h h'"
proof -
  have "bodies h' = bodies h1" "harness_sound md h' = harness_sound md h1"
    using assms(2,4) by (simp_all add: bodies_def harness_sound_def)
  then show ?thesis
    using assms(1) by (simp only: tracked_def assms(2-6))
qed

lemma tracked_emitOwn: "tracked md h h1 \<Longrightarrow> tracked md h (snd (emitOwn env ev h1))"
  by (erule tracked_eq) (subst emitOwn_fields, simp)+

lemma tracked_emitQueueUpdate: "tracked md h h1 \<Longrightarrow> tracked md h (snd (emitQueueUpdate env h1))"
  by (simp add: emitQueueUpdate_def tracked_emitOwn)

lemma tracked_update:
  "tracked md h h1 \<Longrightarrow> tracked md h (h1\<lparr>ha_model := mo\<rparr>)"
  "tracked md h h1 \<Longrightarrow> tracked md h (h1\<lparr>ha_thinkingLevel := l\<rparr>)"
  "tracked md h h1 \<Longrightarrow> tracked md h (h1\<lparr>ha_activeToolNames := names\<rparr>)"
  "tracked md h h1 \<Longrightarrow> tracked md h (h1\<lparr>ha_tools := ts, ha_activeToolNames := names\<rparr>)"
  "tracked md h h1 \<Longrightarrow> tracked md h (h1\<lparr>ha_steer := q\<rparr>)"
  "tracked md h h1 \<Longrightarrow> tracked md h (h1\<lparr>ha_followUp := q\<rparr>)"
  "tracked md h h1 \<Longrightarrow> tracked md h (h1\<lparr>ha_nextTurn := q\<rparr>)"
  "tracked md h h1 \<Longrightarrow> tracked md h (h1\<lparr>ha_steeringMode := m\<rparr>)"
  "tracked md h h1 \<Longrightarrow> tracked md h (h1\<lparr>ha_followUpMode := m\<rparr>)"
  "tracked md h h1 \<Longrightarrow> tracked md h (h1\<lparr>ha_world := w\<rparr>)"
  by (erule tracked_eq; simp)+

lemma storeOrDefer_tracked:
  assumes "on_memory md env" "plain wr"
  shows "tracked md h (snd (storeOrDefer env wr h))"
proof (cases "harness_sound md h \<and> ha_phase h = Idle")
  case True
  obtain r h1 where s: "storeWrite env wr h = (r, h1)"
    by fastforce
  note spec = storeWrite_spec [OF assms(1) _ assms(2) s]
  have h1: "ha_pending h1 = ha_pending h" "ha_phase h1 = ha_phase h" "ha_isShutdown h1 = ha_isShutdown h"
    "ha_accepted h1 = ha_accepted h" "sound md (ha_session h1)"
    using spec(1) True by (metis (no_types, lifting) harness.simps harness.surjective harness.update_convs(1) harness_sound_def spec(2))+
  then show ?thesis
    using True spec(3) s
    by (cases r) (auto simp: tracked_def storeOrDefer_def andH_def harness_sound_def bodies_def intro: exI [of _ "[]"])
next
  case False
  then show ?thesis
    using assms(2) by (auto simp: tracked_def storeOrDefer_def harness_sound_def)
qed

lemma andH_tracked:
  "tracked md h (snd (m h)) \<Longrightarrow> (\<And>x h1. tracked md h1 (snd (f x h1))) \<Longrightarrow> tracked md h (snd (andH m f h))"
  by (auto simp: snd_andH intro: tracked_trans split: sum.split)

lemma guarded_tracked: "(\<And>h. tracked md h (snd (m h))) \<Longrightarrow> tracked md h (snd (andH assertNotShutDown (\<lambda>_. m) h))"
  by (auto simp: snd_andH tracked_refl split: sum.split)

lemma shutdown_tracked: "tracked md h (requestShutdown h)"
  by (auto simp: tracked_def requestShutdown_def harness_sound_def bodies_def intro: exI [of _ "[]"])

lemma call_tracked:
  assumes "on_memory md env"
  shows "tracked md h (performCall env k h)"
proof -
  note store = storeOrDefer_tracked [OF assms]
  have checked: "tracked md h (snd (checked c h))" for c h
    by (simp add: tracked_refl)
  show ?thesis
  proof (cases k)
    case (CallSetTools ts names)
    have "tracked md h (snd (applyTools env ts names h))" for h
      unfolding applyTools_def snd_normalizing
      by (auto simp: snd_andH Let_def tracked_refl intro!: tracked_emitOwn tracked_update store split: sum.split)
    then show ?thesis
      using CallSetTools by (simp add: setTools_def guarded_tracked)
  next
    case (CallSetActiveTools names)
    have "tracked md h (snd (applyActiveTools env names h))" for h
      unfolding applyActiveTools_def snd_normalizing
      by (auto simp: snd_andH tracked_refl intro!: tracked_emitOwn tracked_update store split: sum.split)
    then show ?thesis
      using CallSetActiveTools by (simp add: setActiveTools_def guarded_tracked)
  qed (auto simp: harness_appendMessage_def setModel_def setThinkingLevel_def steer_def followUp_def nextTurn_def
      setSteeringMode_def setFollowUpMode_def snd_andH tracked_refl shutdown_tracked
      intro!: tracked_emitOwn tracked_emitQueueUpdate tracked_update store split: sum.split)
qed

lemma tracked_relation: "on_memory md env \<Longrightarrow> outside_relation env (tracked md)"
  by unfold_locales (auto intro: tracked_refl tracked_trans tracked_update call_tracked)

section \<open>Progress of a run\<close>

lemma shuffles_right: "ys \<in> shuffles c d \<Longrightarrow> b @ ys \<in> shuffles c (b @ d)"
  by (induction b) (auto intro: Cons_in_shuffles_rightI)

lemma shuffles_left: "ys \<in> shuffles c d \<Longrightarrow> a @ ys \<in> shuffles (a @ c) d"
  by (induction a) (auto intro: Cons_in_shuffles_leftI)

lemma shuffles_append: "xs \<in> shuffles a b \<Longrightarrow> ys \<in> shuffles c d \<Longrightarrow> xs @ ys \<in> shuffles (a @ c) (b @ d)"
proof (induction a b arbitrary: xs rule: shuffles.induct)
  case (1 ys')
  then show ?case by (simp add: shuffles_right)
next
  case (2 xs')
  then show ?case by (simp add: shuffles_left)
next
  case (3 x a y b)
  then show ?case
    by (auto simp: shuffles.simps(3) intro: Cons_in_shuffles_leftI Cons_in_shuffles_rightI)
qed

text \<open>
  The messages \<open>messages\<close> of a run and the writes that were waiting or accepted meanwhile reach the
  session, each in their order; what is not stored waits still.
\<close>

definition progressed ::
    "session_metadata \<Rightarrow> message list \<Rightarrow> ('t, 'w) memory_harness \<Rightarrow> ('t, 'w) memory_harness \<Rightarrow> bool" where
  "progressed md messages h h' \<longleftrightarrow> harness_sound md h' \<and> (ha_isShutdown h \<longrightarrow> ha_isShutdown h')
     \<and> (\<exists>new stored ds. ha_accepted h' = ha_accepted h @ new \<and> bodies h' = bodies h @ ds
        \<and> ds \<in> shuffles (map MessageEntry messages) (map bodyOf stored)
        \<and> (\<not> ha_isShutdown h' \<longrightarrow> ha_pending h @ new = stored @ ha_pending h'))"

lemma progressed_trans:
  assumes "progressed md ms a b" "progressed md ms' b c"
  shows "progressed md (ms @ ms') a c"
proof -
  obtain n1 s1 d1 where 1: "ha_accepted b = ha_accepted a @ n1" "bodies b = bodies a @ d1"
    "d1 \<in> shuffles (map MessageEntry ms) (map bodyOf s1)" "\<not> ha_isShutdown b \<longrightarrow> ha_pending a @ n1 = s1 @ ha_pending b"
    "ha_isShutdown a \<longrightarrow> ha_isShutdown b"
    using assms(1) by (auto simp: progressed_def)
  obtain n2 s2 d2 where 2: "ha_accepted c = ha_accepted b @ n2" "bodies c = bodies b @ d2"
    "d2 \<in> shuffles (map MessageEntry ms') (map bodyOf s2)" "\<not> ha_isShutdown c \<longrightarrow> ha_pending b @ n2 = s2 @ ha_pending c"
    "ha_isShutdown b \<longrightarrow> ha_isShutdown c" "harness_sound md c"
    using assms(2) by (auto simp: progressed_def)
  have "d1 @ d2 \<in> shuffles (map MessageEntry (ms @ ms')) (map bodyOf (s1 @ s2))"
    using shuffles_append [OF 1(3) 2(3)] by simp
  moreover have "ha_pending a @ (n1 @ n2) = (s1 @ s2) @ ha_pending c" if "\<not> ha_isShutdown c"
    using that 1(4) 2(4,5) by (metis append.assoc)
  ultimately show ?thesis
    using 1 2 unfolding progressed_def by (intro conjI exI [of _ "n1 @ n2"] exI [of _ "s1 @ s2"] exI [of _ "d1 @ d2"]) auto
qed

text \<open>Nothing waits while the harness is idle.\<close>

definition quiet :: "('s, 't, 'w) harness \<Rightarrow> bool" where
  "quiet h \<longleftrightarrow> ha_phase h = Idle \<longrightarrow> ha_isShutdown h \<or> ha_pending h = []"

lemma tracked_progressed:
  assumes "tracked md h h'" "harness_sound md h" "quiet h"
  shows "progressed md [] h h'" "quiet h'"
proof -
  obtain new where n: "ha_accepted h' = ha_accepted h @ new" "ha_phase h' = ha_phase h" "ha_isShutdown h \<longrightarrow> ha_isShutdown h'"
    "harness_sound md h'"
    "if ha_phase h = Idle
     then bodies h' = bodies h @ map bodyOf new \<and> (\<not> ha_isShutdown h' \<longrightarrow> ha_pending h' = ha_pending h)
     else ha_session h' = ha_session h \<and> (\<not> ha_isShutdown h' \<longrightarrow> ha_pending h' = ha_pending h @ new)"
    using assms(1,2) by (auto simp: tracked_def)
  show "quiet h'"
    using n assms(3) by (auto simp: quiet_def)
  show "progressed md [] h h'"
  proof (cases "ha_phase h = Idle")
    case True
    then show ?thesis
      using n assms(3) unfolding progressed_def
      by (intro conjI exI [of _ new] exI [of _ "map bodyOf new"]) (auto simp: quiet_def)
  next
    case False
    then show ?thesis
      using n unfolding progressed_def
      by (intro conjI exI [of _ new] exI [of _ "[]"]) (auto simp: bodies_def)
  qed
qed

lemma flush_spec:
  assumes "on_memory md env" "harness_sound md h" "flushPendingSessionWrites env h = (r, h')"
  shows "progressed md [] h h'" "ha_phase h' = ha_phase h" "ha_isShutdown h' = ha_isShutdown h" "r = Inr () \<Longrightarrow> ha_pending h' = []"
    "ha_accepted h' = ha_accepted h"
proof -
  have "harness_sound md h' \<and> ha_phase h' = ha_phase h \<and> ha_isShutdown h' = ha_isShutdown h \<and> ha_accepted h' = ha_accepted h
    \<and> (r = Inr () \<longrightarrow> ha_pending h' = [])
    \<and> (\<exists>stored. ha_pending h = stored @ ha_pending h' \<and> bodies h' = bodies h @ map bodyOf stored)"
    using assms(2,3)
  proof (induction "length (ha_pending h)" arbitrary: h)
    case 0
    then show ?case
      by (simp add: flushPendingSessionWrites.simps)
  next
    case (Suc n)
    then obtain wr rest where p: "ha_pending h = wr # rest"
      by (cases "ha_pending h") simp_all
    obtain q h1 where s: "storeWrite env wr h = (q, h1)"
      by fastforce
    have "sound md (ha_session h)" "plain wr"
      using Suc.prems(1) p by (simp_all add: harness_sound_def)
    note spec = storeWrite_spec [OF assms(1) this s]
    have h1: "ha_pending h1 = wr # rest" "ha_phase h1 = ha_phase h" "ha_isShutdown h1 = ha_isShutdown h"
      "ha_accepted h1 = ha_accepted h" "harness_sound md h1"
      using spec(1,2) p Suc.prems(1) by (cases h; cases h1; simp add: harness_sound_def)+
    show ?case
    proof (cases q)
      case (Inl e)
      then have "h' = h1" "r = Inl e"
        using Suc.prems(2) p s by (simp_all add: flushPendingSessionWrites.simps [of env h])
      then show ?thesis
        using h1 spec(3) Inl p by simp
    next
      case (Inr u)
      let ?h1 = "h1\<lparr>ha_pending := rest\<rparr>"
      have f: "flushPendingSessionWrites env ?h1 = (r, h')"
        using Suc.prems(2) p s h1(1) Inr by (simp add: flushPendingSessionWrites.simps [of env h])
      have h2: "harness_sound md ?h1" "n = length (ha_pending ?h1)" "bodies ?h1 = bodies h @ [bodyOf wr]"
        using h1 Suc.hyps(2) p spec(3) Inr by (simp_all add: harness_sound_def bodies_def)
      obtain stored where st: "rest = stored @ ha_pending h'" "bodies h' = bodies ?h1 @ map bodyOf stored"
        and fields: "harness_sound md h'" "ha_phase h' = ha_phase h1" "ha_isShutdown h' = ha_isShutdown h1"
          "ha_accepted h' = ha_accepted h1" "r = Inr () \<longrightarrow> ha_pending h' = []"
        using Suc.hyps(1) [OF h2(2,1) f] by auto
      then show ?thesis
        using h1 h2(3) p by (intro conjI exI [of _ "wr # stored"]) auto
    qed
  qed
  then obtain stored where f: "harness_sound md h'" "ha_phase h' = ha_phase h" "ha_isShutdown h' = ha_isShutdown h"
    "ha_accepted h' = ha_accepted h" "r = Inr () \<longrightarrow> ha_pending h' = []"
    "ha_pending h = stored @ ha_pending h'" "bodies h' = bodies h @ map bodyOf stored"
    by blast
  then show "progressed md [] h h'" "ha_phase h' = ha_phase h" "ha_isShutdown h' = ha_isShutdown h"
    "r = Inr () \<Longrightarrow> ha_pending h' = []" "ha_accepted h' = ha_accepted h"
    unfolding progressed_def by (auto intro!: exI [of _ stored] exI [of _ "map bodyOf stored"])
qed

fun ended :: "event \<Rightarrow> message list" where
  "ended (MessageEnd m) = [m]"
| "ended _ = []"

lemma progressed_refl: "harness_sound md h \<Longrightarrow> progressed md [] h h"
  unfolding progressed_def by (intro conjI exI [of _ "[]"]) simp_all

lemma progressed_sound: "progressed md ms h h' \<Longrightarrow> harness_sound md h'"
  by (simp add: progressed_def)

text \<open>Emitting to subscribers, alone.\<close>

lemma emit_progressed:
  assumes "on_memory md env" "harness_sound md h" "quiet h"
  shows "emitAny env ev h = (r, h') \<Longrightarrow> progressed md [] h h' \<and> quiet h' \<and> ha_phase h' = ha_phase h"
    "emitOwn env own h = (r, h') \<Longrightarrow> progressed md [] h h' \<and> quiet h' \<and> ha_phase h' = ha_phase h"
proof -
  have quietly: "tracked md h h' \<Longrightarrow> progressed md [] h h' \<and> quiet h' \<and> ha_phase h' = ha_phase h" for h'
    using tracked_progressed [OF _ assms(2,3)] assms(2) by (auto simp: tracked_def)
  show "emitAny env ev h = (r, h') \<Longrightarrow> progressed md [] h h' \<and> quiet h' \<and> ha_phase h' = ha_phase h"
    using outside_relation.emitAny_R [OF tracked_relation [OF assms(1)], of h ev] quietly by (metis snd_conv)
  show "emitOwn env own h = (r, h') \<Longrightarrow> progressed md [] h h' \<and> quiet h' \<and> ha_phase h' = ha_phase h"
    using outside_relation.emitOwn_R [OF tracked_relation [OF assms(1)], of h own] quietly by (metis snd_conv)
qed

lemma handle_message_end:
  assumes "on_memory md env" "harness_sound md h" "quiet h" "handleAgentEvent env (MessageEnd m) h = (r, h')"
  shows "\<exists>ms. progressed md ms h h' \<and> quiet h' \<and> (ms = [m] \<or> ms = []) \<and> (r = Inr () \<longrightarrow> ms = [m])"
proof -
  obtain q h1 where s: "storeWrite env (WriteMessage m) h = (q, h1)"
    by fastforce
  have "sound md (ha_session h)"
    using assms(2) by (simp add: harness_sound_def)
  note spec = storeWrite_spec [OF assms(1) this _ s]
  have h1: "ha_pending h1 = ha_pending h" "ha_phase h1 = ha_phase h" "ha_isShutdown h1 = ha_isShutdown h"
    "ha_accepted h1 = ha_accepted h" "harness_sound md h1"
    using spec(1,2) assms(2) by (cases h; cases h1; simp add: harness_sound_def)+
  then have quiet: "quiet h1"
    using assms(3) by (simp add: quiet_def)
  show ?thesis
  proof (cases q)
    case (Inl e)
    then have "h' = h1" "r = Inl e"
      using assms(4) s by (simp_all add: handleAgentEvent_def andH_def)
    moreover have "progressed md [] h h1"
      unfolding progressed_def using h1 spec(3) Inl by (intro conjI exI [of _ "[]"]) auto
    ultimately show ?thesis
      using quiet by blast
  next
    case (Inr u)
    then have e: "emitAny env (MessageEnd m) h1 = (r, h')"
      using assms(4) s by (simp add: handleAgentEvent_def andH_def)
    have "progressed md [m] h h1"
      unfolding progressed_def using h1 spec(3) Inr
      by (intro conjI exI [of _ "[]"] exI [of _ "[MessageEntry m]"]) auto
    then show ?thesis
      using emit_progressed(1) [OF assms(1) h1(5) quiet e] progressed_trans by fastforce
  qed
qed

lemma handle_turn_end:
  assumes "on_memory md env" "harness_sound md h" "quiet h" "handleTurnEnd env ev h = (r, h')"
  shows "progressed md [] h h' \<and> quiet h'"
proof -
  obtain emitted h1 where e: "emitAny env ev h = (emitted, h1)"
    by fastforce
  have 1: "progressed md [] h h1" "quiet h1"
    using emit_progressed(1) [OF assms(1-3) e] by simp_all
  obtain q h2 where f: "flushPendingSessionWrites env h1 = (q, h2)"
    by fastforce
  note flush = flush_spec [OF assms(1) progressed_sound [OF 1(1)] f]
  have "quiet h2"
  proof (cases "ha_phase h1 = Idle \<and> \<not> ha_isShutdown h1")
    case True
    then have "ha_pending h1 = []"
      using 1(2) by (simp add: quiet_def)
    then have "h2 = h1"
      using f by (simp add: flushPendingSessionWrites.simps)
    then show ?thesis
      using 1(2) by simp
  qed (use flush(2,3) in \<open>auto simp: quiet_def\<close>)
  then have 2: "progressed md [] h h2" "quiet h2" "harness_sound md h2"
    using progressed_trans [OF 1(1) flush(1)] flush(1) by (simp_all add: progressed_def)
  have "h' = h2 \<or> (\<exists>own. emitOwn env own h2 = (r, h'))"
    using assms(4) e f by (cases q; cases emitted) (auto simp: handleTurnEnd_def Let_def andH_def throwH_def)
  then show ?thesis
    using 2 emit_progressed(2) [OF assms(1) 2(3,2)] progressed_trans [OF 2(1)] by fastforce
qed

lemma handle_agent_end:
  assumes "on_memory md env" "harness_sound md h" "quiet h" "handleAgentEvent env (AgentEnd messages) h = (r, h')"
  shows "progressed md [] h h' \<and> quiet h' \<and> (r = Inr () \<longrightarrow> ha_phase h' = Idle)"
proof -
  obtain q h1 where f: "flushPendingSessionWrites env h = (q, h1)"
    by fastforce
  note flush = flush_spec [OF assms(1,2) f]
  show ?thesis
  proof (cases q)
    case (Inl e)
    then have "h' = h1" "r = Inl e"
      using assms(4) f by (simp_all add: handleAgentEvent_def andH_def)
    moreover have "quiet h1"
    proof (cases "ha_phase h = Idle \<and> \<not> ha_isShutdown h")
      case True
      then have "ha_pending h = []"
        using assms(3) by (simp add: quiet_def)
      then show ?thesis
        using f assms(3) by (simp add: flushPendingSessionWrites.simps)
    qed (use flush(2,3) in \<open>auto simp: quiet_def\<close>)
    ultimately show ?thesis
      using flush(1) by simp
  next
    case (Inr u)
    let ?h1 = "h1\<lparr>ha_phase := Idle\<rparr>"
    have pending: "ha_pending h1 = []"
      using flush(4) Inr by simp
    have 1: "progressed md [] h ?h1" "quiet ?h1" "harness_sound md ?h1"
      using flush(1) pending by (auto simp: progressed_def harness_sound_def bodies_def quiet_def)
    obtain em h2 where e: "emitAny env (AgentEnd messages) ?h1 = (em, h2)"
      by fastforce
    note emitted = emit_progressed(1) [OF assms(1) 1(3,2) e]
    have "progressed md [] h h2"
      using progressed_trans [OF 1(1), of "[]" h2] emitted by simp
    then have 2: "progressed md [] h h2" "quiet h2" "harness_sound md h2" "ha_phase h2 = Idle"
      using emitted progressed_sound by simp_all
    have "(h' = h2 \<and> r \<noteq> Inr ()) \<or> (\<exists>own. emitOwn env own h2 = (r, h'))"
      using assms(4) f e Inr by (cases em) (auto simp: handleAgentEvent_def andH_def)
    then show ?thesis
      using 2 emit_progressed(2) [OF assms(1) 2(3,2)] progressed_trans [OF 2(1)] by fastforce
  qed
qed

lemma handle_progressed:
  assumes "on_memory md env" "harness_sound md h" "quiet h" "handleAgentEvent env ev h = (r, h')"
  shows "\<exists>ms. progressed md ms h h' \<and> quiet h' \<and> (ms = ended ev \<or> ms = []) \<and> (r = Inr () \<longrightarrow> ms = ended ev)
    \<and> (r = Inr () \<longrightarrow> (\<forall>messages. ev = AgentEnd messages \<longrightarrow> ha_phase h' = Idle))"
proof (cases ev)
  case (MessageEnd m)
  then show ?thesis
    using handle_message_end [OF assms(1-3)] assms(4) by auto
next
  case (TurnEnd m results)
  then show ?thesis
    using handle_turn_end [OF assms(1-3)] assms(4) by (simp add: handleAgentEvent_def)
next
  case (AgentEnd messages)
  then show ?thesis
    using handle_agent_end [OF assms(1-3)] assms(4) by auto
qed (use emit_progressed(1) [OF assms(1-3)] assms(4) in \<open>auto simp: handleAgentEvent_def\<close>)

text \<open>The events of a run handled one after the other, until one is refused.\<close>

fun handleEvents :: "('s, 't, 'w) harness_env \<Rightarrow> event list \<Rightarrow> ('s, 't, 'w, unit) act" where
  "handleEvents env [] h = (Inr (), h)"
| "handleEvents env (ev # evs) h = andH (handleAgentEvent env ev) (\<lambda>_. handleEvents env evs) h"

lemma handleEvents_progressed:
  "on_memory md env \<Longrightarrow> harness_sound md h \<Longrightarrow> quiet h \<Longrightarrow> handleEvents env evs h = (r, h') \<Longrightarrow>
   \<exists>ms rest. progressed md ms h h' \<and> quiet h' \<and> concat (map ended evs) = ms @ rest \<and> (r = Inr () \<longrightarrow> rest = [])
     \<and> (r = Inr () \<longrightarrow> (\<forall>front messages. evs = front @ [AgentEnd messages] \<longrightarrow> ha_phase h' = Idle))"
proof (induction evs arbitrary: h)
  case Nil
  then show ?case
    using progressed_refl by auto
next
  case (Cons ev evs)
  obtain q h1 where e: "handleAgentEvent env ev h = (q, h1)"
    by fastforce
  obtain ms where ms: "progressed md ms h h1" "quiet h1" "ms = ended ev \<or> ms = []" "q = Inr () \<longrightarrow> ms = ended ev"
    "q = Inr () \<longrightarrow> (\<forall>messages. ev = AgentEnd messages \<longrightarrow> ha_phase h1 = Idle)"
    using handle_progressed [OF Cons.prems(1-3) e] by blast
  show ?case
  proof (cases q)
    case (Inl x)
    then have "h' = h1" "r = Inl x"
      using Cons.prems(4) e by (simp_all add: andH_def)
    then show ?thesis
      using ms(1-3) by auto
  next
    case (Inr u)
    then have q: "q = Inr ()" and rest: "handleEvents env evs h1 = (r, h')"
      using Cons.prems(4) e by (simp_all add: andH_def)
    obtain ms' rest' where ms': "progressed md ms' h1 h'" "quiet h'" "concat (map ended evs) = ms' @ rest'"
      "r = Inr () \<longrightarrow> rest' = []" "r = Inr () \<longrightarrow> (\<forall>front messages. evs = front @ [AgentEnd messages] \<longrightarrow> ha_phase h' = Idle)"
      using Cons.IH [OF Cons.prems(1) progressed_sound [OF ms(1)] ms(2) rest] by blast
    have "ha_phase h' = Idle" if "r = Inr ()" "ev # evs = front @ [AgentEnd messages]" for front messages
    proof (cases front)
      case Nil
      then have "h' = h1" "ev = AgentEnd messages"
        using that(2) rest by simp_all
      then show ?thesis
        using ms(5) q by blast
    next
      case (Cons a list)
      then have "evs = list @ [AgentEnd messages]"
        using that(2) by simp
      then show ?thesis
        using ms'(5) that(1) by blast
    qed
    then show ?thesis
      using ms(4) q ms' progressed_trans [OF ms(1) ms'(1)] by (intro exI [of _ "ms @ ms'"] exI [of _ rest']) auto
  qed
qed

end
