(* ===== verification/HarnessOutcomes.thy ===== *)
theory HarnessOutcomes
  imports HarnessProps
begin

text \<open>
  What the operations of the harness do on a session of the memory store: compaction, moving in the
  tree and turns, and the properties of the harness.
\<close>

section \<open>Operations during which changes wait\<close>

text \<open>
  The harness from a state to a later one of the same operation: \<open>ds\<close> is what the operation itself
  stores; the changes accepted meanwhile wait.
\<close>

definition deferred ::
    "session_metadata \<Rightarrow> entry_body list \<Rightarrow> ('t, 'w) memory_harness \<Rightarrow> ('t, 'w) memory_harness \<Rightarrow> bool" where
  "deferred md ds h h' \<longleftrightarrow> harness_sound md h' \<and> ha_phase h' = ha_phase h \<and> (ha_isShutdown h \<longrightarrow> ha_isShutdown h')
     \<and> bodies h' = bodies h @ ds
     \<and> (\<exists>new. ha_accepted h' = ha_accepted h @ new \<and> (\<not> ha_isShutdown h' \<longrightarrow> ha_pending h' = ha_pending h @ new))"

lemma deferred_refl: "harness_sound md h \<Longrightarrow> deferred md [] h h"
  by (simp add: deferred_def)

lemma deferred_trans: "deferred md ds a b \<Longrightarrow> deferred md ds' b c \<Longrightarrow> deferred md (ds @ ds') a c"
  by (auto simp: deferred_def)

lemma deferred_trans1: "deferred md [] a b \<Longrightarrow> deferred md ds b c \<Longrightarrow> deferred md ds a c"
  using deferred_trans [of md "[]" a b ds c] by simp

lemma deferred_trans2: "deferred md ds a b \<Longrightarrow> deferred md [] b c \<Longrightarrow> deferred md ds a c"
  using deferred_trans [of md ds a b "[]" c] by simp

lemma deferredD: "deferred md ds h h' \<Longrightarrow> harness_sound md h' \<and> ha_phase h' = ha_phase h"
  by (simp add: deferred_def)

text \<open>Steps that store nothing, and keep the entries as they are.\<close>

definition waits :: "session_metadata \<Rightarrow> ('t, 'w) memory_harness \<Rightarrow> ('t, 'w) memory_harness \<Rightarrow> bool" where
  "waits md h h' \<longleftrightarrow> deferred md [] h h' \<and> session_log (ha_session h') = session_log (ha_session h)
     \<and> ss_leafId (ha_session h') = ss_leafId (ha_session h)"

lemma waits_refl: "harness_sound md h \<Longrightarrow> waits md h h"
  by (simp add: waits_def deferred_refl)

lemma waits_trans: "waits md a b \<Longrightarrow> waits md b c \<Longrightarrow> waits md a c"
  using deferred_trans1 by (auto simp: waits_def)

lemma waitsD: "waits md h h' \<Longrightarrow> harness_sound md h' \<and> ha_phase h' = ha_phase h"
  by (auto simp: waits_def dest: deferredD)

lemma tracked_waits:
  assumes "tracked md h h'" "harness_sound md h" "ha_phase h \<noteq> Idle"
  shows "waits md h h'"
  using assms by (auto simp: tracked_def waits_def deferred_def bodies_def)

lemma session_waits:
  assumes "harness_sound md h" "ms.same_session md (ha_session h) ss"
  shows "waits md h (h\<lparr>ha_session := ss\<rparr>)"
  using assms
  by (simp add: waits_def deferred_def harness_sound_def bodies_def ms.same_session_def sound_ms session_log_ms)

lemma emitOwn_waits: "harness_sound md h \<Longrightarrow> waits md h (snd (emitOwn env ev h))"
  by (subst emitOwn_fields) (simp add: waits_def deferred_def harness_sound_def bodies_def)

lemma assert_waits: "harness_sound md h \<Longrightarrow> waits md h (snd (assertNotShutDown h))"
  by (simp add: waits_refl)

lemma outside_waits:
  assumes "on_memory md env" "harness_sound md h" "ha_phase h \<noteq> Idle"
  shows "waits md h (snd (emitHook env fs result h))"
    "waits md h (snd (obtainCompaction env p mo ci provided h))"
    "waits md h (snd (obtainSummary env es opts hook h))"
  using tracked_waits [OF _ assms(2,3)] tracked_relation [OF assms(1)]
  by (blast intro: outside_relation.emitHook_R outside_relation.obtainCompaction_R outside_relation.obtainSummary_R)+

lemma readEntry_waits:
  assumes "on_memory md env" "harness_sound md h" "onSession (session_getEntry (hv_ops env) i) h = (r, h')"
  shows "waits md h h'" "r = Inr (fmlookup (index_of (session_log (ha_session h))) i)"
proof -
  have ok: "ms.session_ok md (ha_session h)"
    using assms(2) by (simp add: harness_sound_def sound_ms)
  obtain ss where "session_getEntry (memory_ops md) i (ha_session h)
      = (Inr (fmlookup (index_of (session_log (ha_session h))) i), ss)" "ms.same_session md (ha_session h) ss"
    using ms.getEntry_spec [OF ok, of i] unfolding session_log_ms by blast
  then show "waits md h h'" "r = Inr (fmlookup (index_of (session_log (ha_session h))) i)"
    using assms by (auto simp: onSession_def on_memory_def session_waits)
qed

lemma branch_returns:
  assumes "sound md ss"
  shows "\<exists>es ss'. session_getBranch (memory_ops md) None ss = Some (Inr es, ss') \<and> ms.same_session md ss ss'"
proof -
  have ok: "ms.session_ok md ss"
    using assms by (simp add: sound_ms)
  obtain ss' where g: "session_getBranch (memory_ops md) None ss
      = map_option (\<lambda>r. (r, ss')) (readPathToRootOrCompaction (ss_leafId ss) (reader_of 0 (session_log ss)))"
    "ms.same_session md ss ss'"
    using ms.getBranch_spec [OF ok, of None] unfolding session_log_ms by auto
  have "\<exists>es. readPathToRootOrCompaction (ss_leafId ss) (reader_of 0 (session_log ss)) = Some (Inr es)"
  proof (cases "ss_leafId ss")
    case None
    then show ?thesis
      by (simp add: readPathToRootOrCompaction_def)
  next
    case (Some l)
    have tree: "tree_ok (session_log ss)" "leaf_of (session_log ss) = Some l"
      using assms Some by (simp_all add: sound_def)
    then obtain e where e: "e \<in> set (session_log ss)" "e_id e = l"
      using tree_ok_leaf by (auto simp: ids_def)
    then obtain p where "is_path (index_of (session_log ss)) e p"
      using path_exists [OF tree(1)] by blast
    then show ?thesis
      using readPath_path [OF tree(1) e(1)] e(2) Some by auto
  qed
  with g show ?thesis
    by auto
qed

lemma branch_waits:
  assumes "on_memory md env" "harness_sound md h"
  shows "\<exists>es h'. onBranch (session_getBranch (hv_ops env) None) h = Some (Inr es, h') \<and> waits md h h'"
    "\<exists>c h'. onBranch (session_buildContext (hv_ops env) base options) h = Some (Inr c, h') \<and> waits md h h'"
proof -
  obtain es ss where b: "session_getBranch (memory_ops md) None (ha_session h) = Some (Inr es, ss)"
      "ms.same_session md (ha_session h) ss"
    using branch_returns assms(2) unfolding harness_sound_def by blast
  then show "\<exists>es h'. onBranch (session_getBranch (hv_ops env) None) h = Some (Inr es, h') \<and> waits md h h'"
    "\<exists>c h'. onBranch (session_buildContext (hv_ops env) base options) h = Some (Inr c, h') \<and> waits md h h'"
    using assms(1) session_waits [OF assms(2) b(2)] by (auto simp: onBranch_def on_memory_def session_buildContext_def)
qed

section \<open>Compaction\<close>

lemma storeCompaction_spec:
  assumes "on_memory md env" "harness_sound md h" "storeCompaction env k b h = (r, h')"
  shows "\<exists>ds. deferred md ds h h' \<and> (ds = [] \<or> ds = [CompactionEntry (k\<lparr>k_fromHook := Some b\<rparr>)])
    \<and> (r = Inr k' \<longrightarrow> k' = k \<and> ds = [CompactionEntry (k\<lparr>k_fromHook := Some b\<rparr>)])"
proof (cases "ha_isShutdown h")
  case True
  then have "h' = h" "\<exists>e. r = Inl e"
    using assms(3) by (auto simp: storeCompaction_def andH_def assertNotShutDown_def requireThat_def)
  then show ?thesis
    using deferred_refl [OF assms(2)] by auto
next
  case False
  let ?k = "k\<lparr>k_fromHook := Some b\<rparr>" and ?t = "hv_timestamp env (ha_world h)"
  obtain q ss where q: "appendTypedEntry (memory_ops md) (hv_uuid env) ?t (CompactionEntry ?k) (ha_session h) = (q, ss)" "sound md ss"
    "case q of Inr i \<Rightarrow> \<exists>e. e_id e = i \<and> ms.appended md (ha_session h) ?t (CompactionEntry ?k) e ss
     | Inl err \<Rightarrow> ms.same_session md (ha_session h) ss"
    using ms.appendTyped_spec [of md "ha_session h" "CompactionEntry ?k" "hv_uuid env" ?t] assms(1,2)
    unfolding on_memory_def sound_ms harness_sound_def by (fastforce simp: ms.body_ok_def split: sum.splits)
  let ?h1 = "h\<lparr>ha_session := ss\<rparr>"
  have app: "onSession (appendCompaction (hv_ops env) (hv_uuid env) ?t ?k) h = (map_sum (Raw \<circ> SessionFailed) id q, ?h1)"
    using q(1) assms(1) by (simp add: onSession_def appendCompaction_def on_memory_def)
  show ?thesis
  proof (cases q)
    case (Inl e)
    then have "deferred md [] h ?h1"
      using q(2,3) assms(2) by (simp add: deferred_def harness_sound_def bodies_def ms.same_session_def session_log_ms)
    moreover have "h' = ?h1" "\<exists>e. r = Inl e"
      using assms(3) app Inl False by (auto simp: storeCompaction_def andH_def assertNotShutDown_def requireThat_def)
    ultimately show ?thesis
      by auto
  next
    case (Inr i)
    then have 1: "deferred md [CompactionEntry ?k] h ?h1"
      using q(2,3) assms(2)
      by (auto simp: deferred_def harness_sound_def bodies_def ms.appended_def session_log_ms)
    obtain f h2 where f: "onSession (session_getEntry (hv_ops env) i) ?h1 = (f, h2)"
      by fastforce
    note read = readEntry_waits [OF assms(1) _ f]
    have 2: "deferred md [CompactionEntry ?k] h h2"
      using deferred_trans2 [OF 1] read(1) deferredD [OF 1] by (simp add: waits_def)
    then have sound2: "harness_sound md h2"
      using deferredD by blast
    have run: "(r, h') = (case f of Inl x \<Rightarrow> (Inl x, h2) | Inr found \<Rightarrow> (case found of
         Some e \<Rightarrow> (if entry_type e = TCompaction
             then andH (emitOwn env (SessionCompacted e b)) (\<lambda>_ h. (Inr k, h)) else (\<lambda>h. (Inr k, h)))
       | None \<Rightarrow> (\<lambda>h. (Inr k, h))) h2)"
      using assms(3) app Inr False f
      by (simp add: storeCompaction_def andH_def assertNotShutDown_def requireThat_def split: sum.splits)
    have "deferred md [CompactionEntry ?k] h h' \<and> (\<forall>k'. r = Inr k' \<longrightarrow> k' = k)"
    proof -
      have "deferred md [CompactionEntry ?k] h (snd (emitOwn env ev h2))" for ev
        using deferred_trans2 [OF 2] emitOwn_waits [OF sound2] by (simp add: waits_def)
      then show ?thesis
        using run 2 read(2) deferredD [OF 1]
        by (auto simp: andH_def split: option.splits if_splits prod.splits sum.splits) (metis snd_conv)+
    qed
    then show ?thesis
      by blast
  qed
qed

text \<open>What an operation may have stored when it returned \<open>r\<close>: the compaction it returns, if any.\<close>

definition compaction_stored :: "thrown + compaction \<Rightarrow> entry_body list \<Rightarrow> bool" where
  "compaction_stored r ds \<longleftrightarrow> (case r of
       Inr k \<Rightarrow> (\<exists>b. ds = [CompactionEntry (k\<lparr>k_fromHook := Some b\<rparr>)])
     | Inl e \<Rightarrow> ds = [] \<or> (\<exists>k. ds = [CompactionEntry k]))"

lemma compactBody_spec:
  assumes "on_memory md env" "harness_sound md h" "ha_phase h \<noteq> Idle"
  shows "\<exists>r h' ds. compactBody env ci h = Some (r, h') \<and> deferred md ds h h' \<and> compaction_stored r ds"
proof -
  obtain es h1 where b: "onBranch (session_getBranch (hv_ops env) None) h = Some (Inr es, h1)" "waits md h h1"
    using branch_waits(1) [OF assms(1,2)] by blast
  then have h1: "harness_sound md h1" "ha_phase h1 \<noteq> Idle" "deferred md [] h h1"
    using waitsD [OF b(2)] assms(3) by (simp_all add: waits_def)
  have failed: "\<exists>r h' ds. Some (Inl e, h1) = Some (r, h') \<and> deferred md ds h h' \<and> compaction_stored r ds" for e
    using h1(3) by (auto simp: compaction_stored_def)
  show ?thesis
  proof (cases "prepareCompaction es DEFAULT_COMPACTION_SETTINGS")
    case (Inl e)
    then show ?thesis
      using b(1) failed by (simp add: compactBody_def seqH_def returning_def throwH_def)
  next
    case (Inr found)
    show ?thesis
    proof (cases found)
      case None
      then show ?thesis
        using b(1) Inr failed by (simp add: compactBody_def seqH_def returning_def throwH_def)
    next
      case (Some p)
      obtain q h2 where hooks: "emitHook env (map (\<lambda>f. f p es ci) (hv_beforeCompact env)) None h1 = (q, h2)"
        by fastforce
      then have w2: "waits md h1 h2"
        using outside_waits(1) [OF assms(1) h1(1,2)] by (metis snd_conv)
      have h2: "harness_sound md h2" "ha_phase h2 \<noteq> Idle" "deferred md [] h h2"
        using waitsD [OF w2] h1 deferred_trans1 [OF h1(3)] w2 by (simp_all add: waits_def)
      define rest where "rest = andH (emitHook env (map (\<lambda>f. f p es ci) (hv_beforeCompact env)) None) (\<lambda>hook.
              if (case hook of None \<Rightarrow> False | Some r \<Rightarrow> ch_cancel r)
              then throwH (harnessError HCompaction ''Compaction cancelled'')
              else andH (obtainCompaction env p (ha_model h) ci (providedCompaction hook)) (\<lambda>k.
                   storeCompaction env k (providedCompaction hook \<noteq> None)))"
      have run: "compactBody env ci h = Some (rest h1)"
        using b(1) Inr Some by (simp add: compactBody_def seqH_def returning_def rest_def)
      have "\<exists>ds. deferred md ds h (snd (rest h1)) \<and> compaction_stored (fst (rest h1)) ds"
      proof (cases q)
        case (Inl e)
        then show ?thesis
          using hooks h2(3) by (auto simp: rest_def andH_def compaction_stored_def)
      next
        case (Inr hook)
        show ?thesis
        proof (cases "case hook of None \<Rightarrow> False | Some r \<Rightarrow> ch_cancel r")
          case True
          then show ?thesis
            using hooks Inr h2(3) by (auto simp: rest_def andH_def throwH_def compaction_stored_def)
        next
          case False
          obtain x h3 where obt: "obtainCompaction env p (ha_model h) ci (providedCompaction hook) h2 = (x, h3)"
            by fastforce
          then have w3: "waits md h2 h3"
            using outside_waits(2) [OF assms(1) h2(1,2)] by (metis snd_conv)
          then have h3: "harness_sound md h3" "deferred md [] h h3"
            using waitsD [OF w3] deferred_trans1 [OF h2(3)] by (simp_all add: waits_def)
          show ?thesis
          proof (cases x)
            case (Inl e)
            then show ?thesis
              using hooks Inr False obt h3(2) by (auto simp: rest_def andH_def compaction_stored_def)
          next
            case x: (Inr k)
            obtain r h' where st: "storeCompaction env k (providedCompaction hook \<noteq> None) h3 = (r, h')"
              by fastforce
            have "rest h1 = (r, h')"
              using hooks Inr False obt x st by (simp add: rest_def andH_def)
            moreover obtain ds where "deferred md ds h3 h'" "compaction_stored r ds"
              using storeCompaction_spec [OF assms(1) h3(1) st] unfolding compaction_stored_def
              by (cases r) fastforce+
            ultimately show ?thesis
              using deferred_trans1 [OF h3(2)] by auto
          qed
        qed
      qed
      then show ?thesis
        using run by (metis prod.collapse)
    qed
  qed
qed

text \<open>The end of an operation that finishes idle.\<close>

definition finished :: "('t, 'w) memory_harness \<Rightarrow> ('t, 'w) memory_harness" where
  "finished h = h\<lparr>ha_phase := Idle, ha_abortSignal := None\<rparr>"

lemma idleOperation_runs:
  assumes "ha_phase h = Idle" "\<not> ha_isShutdown h" "body (startOperation ph h) = Some (r, h1)"
  shows "idleOperation ph c busy body h = Some (map_sum (normalizeHarnessError c) id r, finished h1)"
  using assms
  by (simp add: idleOperation_def seqH_def returning_def assertNotShutDown_def requireThat_def finished_def operation_finish_def)

lemma started: "harness_sound md (startOperation ph h) = harness_sound md h" "ha_phase (startOperation ph h) = ph"
  "bodies (startOperation ph h) = bodies h" "ha_accepted (startOperation ph h) = ha_accepted h"
  "ha_pending (startOperation ph h) = ha_pending h" "ha_isShutdown (startOperation ph h) = ha_isShutdown h"
  "ha_session (startOperation ph h) = ha_session h"
  by (simp_all add: startOperation_def harness_sound_def bodies_def)

lemma finished_simps [simp]: "harness_sound md (finished h) = harness_sound md h" "ha_phase (finished h) = Idle"
  "bodies (finished h) = bodies h" "ha_accepted (finished h) = ha_accepted h" "ha_abortSignal (finished h) = None"
  "ha_pending (finished h) = ha_pending h" "ha_isShutdown (finished h) = ha_isShutdown h"
  "ha_session (finished h) = ha_session h"
  by (simp_all add: finished_def harness_sound_def bodies_def)

section \<open>Moving in the tree\<close>

text \<open>What a move that returned \<open>res\<close> did to the session: the leaf goes where the target says, and a summary
  is stored below it.\<close>

definition moved :: "entry \<Rightarrow> navigate_result \<Rightarrow> ('t, 'w) memory_harness \<Rightarrow> ('t, 'w) memory_harness \<Rightarrow> bool" where
  "moved target res h h' \<longleftrightarrow> \<not> nr_cancelled res \<and> nr_editorText res = snd (navigationTarget target)
     \<and> (\<exists>l. e_body l = LeafEntry (fst (navigationTarget target))
         \<and> (case nr_summaryEntry res of
              None \<Rightarrow> session_log (ha_session h') = session_log (ha_session h) @ [l]
                \<and> ss_leafId (ha_session h') = fst (navigationTarget target)
            | Some s \<Rightarrow> session_log (ha_session h') = session_log (ha_session h) @ [l, s]
                \<and> ss_leafId (ha_session h') = Some (e_id s) \<and> e_parentId s = fst (navigationTarget target)))"

definition carried :: "session_metadata \<Rightarrow> ('t, 'w) memory_harness \<Rightarrow> ('t, 'w) memory_harness \<Rightarrow> bool" where
  "carried md h h' \<longleftrightarrow> harness_sound md h' \<and> ha_phase h' = ha_phase h \<and> (ha_isShutdown h \<longrightarrow> ha_isShutdown h')
     \<and> (\<exists>es. session_log (ha_session h') = session_log (ha_session h) @ es)
     \<and> (\<exists>new. ha_accepted h' = ha_accepted h @ new \<and> (\<not> ha_isShutdown h' \<longrightarrow> ha_pending h' = ha_pending h @ new))"

lemma waits_carried: "waits md h h' \<Longrightarrow> carried md h h'"
  by (auto simp: waits_def carried_def deferred_def)

lemma carried_trans: "carried md a b \<Longrightarrow> carried md b c \<Longrightarrow> carried md a c"
  by (auto simp: carried_def)

lemma session_carried:
  assumes "harness_sound md h" "ms.grown md (ha_session h) ss"
  shows "carried md h (h\<lparr>ha_session := ss\<rparr>)"
  using assms by (simp add: carried_def harness_sound_def ms.grown_def sound_ms session_log_ms)

lemma moved_waits: "moved target res h h1 \<Longrightarrow> waits md h1 h2 \<Longrightarrow> moved target res h h2"
  by (cases "nr_summaryEntry res") (auto simp: moved_def waits_def)

lemma finishNavigation_spec:
  assumes "on_memory md env" "harness_sound md h" "finishNavigation env target oldLeafId summary fromHook h = (r, h')"
  shows "carried md h h'" "r = Inr res \<Longrightarrow> moved target res h h'"
proof -
  define newLeaf where "newLeaf = fst (navigationTarget target)"
  define stored where "stored = (if truthy (map_option s_summary summary)
                    then map_option (\<lambda>b. b\<lparr>s_fromHook := Some fromHook\<rparr>) summary else None)"
  define t where "t = hv_timestamp env (ha_world h)"
  obtain q ss where q: "moveTo (memory_ops md) (hv_uuid env) t t newLeaf stored (ha_session h) = (q, ss)"
    by fastforce
  have ok: "ms.session_ok md (ha_session h)" and uuid: "uuid_ok (hv_uuid env)"
    using assms(1,2) by (simp_all add: harness_sound_def sound_ms on_memory_def)
  let ?h1 = "h\<lparr>ha_session := ss\<rparr>"
  have 1: "carried md h ?h1"
    using ms.move_grown [OF ok uuid q] session_carried [OF assms(2)] by blast
  then have sound1: "harness_sound md ?h1"
    by (simp add: carried_def)
  have go: "onSession (moveTo (hv_ops env) (hv_uuid env) t t newLeaf stored) h = (map_sum (Raw \<circ> SessionFailed) id q, ?h1)"
    using q assms(1) by (simp add: onSession_def on_memory_def)
  define report where "report = (\<lambda>found h.
        let summaryEntry = (case found of Some e \<Rightarrow> if entry_type e = TBranchSummary then Some e else None | None \<Rightarrow> None) in
        andH (emitOwn env (SessionTree (ss_leafId (ha_session h)) oldLeafId summaryEntry fromHook)) (\<lambda>_ h.
          (Inr \<lparr>nr_cancelled = False, nr_editorText = snd (navigationTarget target), nr_summaryEntry = summaryEntry\<rparr>, h)) h)"
  have report: "waits md h2 (snd (report found h2))"
    "fst (report found h2) = Inr res \<Longrightarrow> \<not> nr_cancelled res \<and> nr_editorText res = snd (navigationTarget target)
       \<and> nr_summaryEntry res = (case found of Some e \<Rightarrow> if entry_type e = TBranchSummary then Some e else None | None \<Rightarrow> None)"
    if "harness_sound md h2" for h2 found res
  proof -
    define summaryEntry where "summaryEntry = (case found of Some e \<Rightarrow> if entry_type e = TBranchSummary then Some e else None | None \<Rightarrow> None)"
    obtain x h3 where x: "emitOwn env (SessionTree (ss_leafId (ha_session h2)) oldLeafId summaryEntry fromHook) h2 = (x, h3)"
      by fastforce
    have "waits md h2 h3"
      using emitOwn_waits [OF that] x by (metis snd_conv)
    moreover have "report found h2 = (case x of Inl e \<Rightarrow> (Inl e, h3)
        | Inr _ \<Rightarrow> (Inr \<lparr>nr_cancelled = False, nr_editorText = snd (navigationTarget target), nr_summaryEntry = summaryEntry\<rparr>, h3))"
      using x unfolding summaryEntry_def by (simp add: report_def andH_def Let_def)
    ultimately show "waits md h2 (snd (report found h2))"
      "fst (report found h2) = Inr res \<Longrightarrow> \<not> nr_cancelled res \<and> nr_editorText res = snd (navigationTarget target)
       \<and> nr_summaryEntry res = (case found of Some e \<Rightarrow> if entry_type e = TBranchSummary then Some e else None | None \<Rightarrow> None)"
      by (cases x; auto simp: summaryEntry_def)+
  qed
  have run: "(r, h') = andH (onSession (moveTo (hv_ops env) (hv_uuid env) t t newLeaf stored)) (\<lambda>summaryId.
      andH (if truthy summaryId then onSession (session_getEntry (hv_ops env) (the summaryId)) else (\<lambda>h. (Inr None, h))) report) h"
    using assms(3) by (simp add: finishNavigation_def newLeaf_def stored_def t_def report_def Let_def split_def)
  have "carried md h h' \<and> (\<forall>res. r = Inr res \<longrightarrow> moved target res h h')"
  proof (cases q)
    case (Inl e)
    then show ?thesis
      using run go 1 by (simp add: andH_def)
  next
    case (Inr found)
    show ?thesis
    proof (cases found)
      case None
      then have eq: "report None ?h1 = (r, h')"
        using run go Inr by (simp add: andH_def)
      then have 2: "waits md ?h1 h'" "r = Inr res \<Longrightarrow> nr_summaryEntry res = None \<and> \<not> nr_cancelled res
          \<and> nr_editorText res = snd (navigationTarget target)" for res
        using report [OF sound1, of None] by (simp_all add: eq)
      have "ss_leafId ss = newLeaf \<and> (\<exists>e. session_log ss = session_log (ha_session h) @ [e] \<and> e_body e = LeafEntry newLeaf)"
        using ms.move_spec(2) [OF ok uuid q] Inr None unfolding session_log_ms by simp
      then show ?thesis
        using 2 carried_trans [OF 1 waits_carried [OF 2(1)]] by (auto simp: moved_def newLeaf_def waits_def)
    next
      case (Some i)
      obtain b e e' where e: "ss_leafId ss = Some i" "e_id e' = i" "session_log ss = session_log (ha_session h) @ [e, e']"
        "e_body e = LeafEntry newLeaf" "e_parentId e' = newLeaf" "entry_type e' = TBranchSummary"
        using ms.move_spec(3) [OF ok uuid q] Inr Some unfolding session_log_ms by (fastforce simp: entry_type_def)
      have tree: "tree_ok (session_log ss)"
        using sound1 by (simp add: harness_sound_def sound_def)
      have e': "fmlookup (index_of (session_log ss)) i = Some e'" "i \<noteq> []"
        using lookup_index [OF tree] tree_ok_entries(1) [OF tree, of e'] e(2,3) by auto
      obtain f h2 where f: "onSession (session_getEntry (hv_ops env) i) ?h1 = (f, h2)"
        by fastforce
      have w2: "waits md ?h1 h2" "f = Inr (Some e')"
        using readEntry_waits [OF assms(1) sound1 f] e' by simp_all
      then have eq: "report (Some e') h2 = (r, h')"
        using run go Inr Some f e'(2) by (simp add: andH_def)
      then have 2: "waits md h2 h'" "r = Inr res \<Longrightarrow> nr_summaryEntry res = Some e' \<and> \<not> nr_cancelled res
          \<and> nr_editorText res = snd (navigationTarget target)" for res
        using report [of h2 "Some e'"] waitsD [OF w2(1)] e(6) by (simp_all add: eq)
      have w: "waits md ?h1 h'"
        using waits_trans [OF w2(1) 2(1)] .
      then show ?thesis
        using 2(2) e carried_trans [OF 1 waits_carried [OF w]] by (auto simp: moved_def newLeaf_def waits_def)
    qed
  qed
  then show "carried md h h'" "r = Inr res \<Longrightarrow> moved target res h h'"
    by blast+
qed

lemma collect_waits:
  assumes "on_memory md env" "harness_sound md h" "target \<in> set (session_log (ha_session h))"
  shows "\<exists>c h'. onBranch (collectEntriesForBranchSummary (hv_ops env) (ss_leafId (ha_session h)) (e_id target)) h
    = Some (Inr c, h') \<and> waits md h h'"
proof -
  let ?ss = "ha_session h"
  have ok: "ms.session_ok md ?ss" and snd: "sound md ?ss"
    using assms(2) by (simp_all add: harness_sound_def sound_ms)
  have tree: "tree_ok (session_log ?ss)"
    using snd by (simp add: sound_def)
  have "\<exists>c ss. collectEntriesForBranchSummary (memory_ops md) (ss_leafId ?ss) (e_id target) ?ss = Some (Inr c, ss)
      \<and> ms.same_session md ?ss ss"
  proof (cases "ss_leafId ?ss")
    case None
    then show ?thesis
      using ms.same_session_refl [OF ok] by (simp add: collectEntriesForBranchSummary_def)
  next
    case (Some l)
    then have "leaf_of (session_log ?ss) = Some l"
      using snd by (simp add: sound_def)
    then obtain old where old: "old \<in> set (session_log ?ss)" "e_id old = l"
      using tree_ok_leaf [OF tree] by (auto simp: ids_def)
    obtain p q where "is_path (index_of (session_log ?ss)) old p" "is_path (index_of (session_log ?ss)) target q"
      using path_exists [OF tree old(1)] path_exists [OF tree assms(3)] by blast
    then show ?thesis
      using ms.collect_run [OF ok, of old target p q] old assms(3) Some unfolding session_log_ms by auto
  qed
  then obtain c ss where "collectEntriesForBranchSummary (memory_ops md) (ss_leafId ?ss) (e_id target) ?ss = Some (Inr c, ss)"
      "ms.same_session md ?ss ss"
    by blast
  then show ?thesis
    using assms(1) session_waits [OF assms(2)] by (auto simp: onBranch_def on_memory_def)
qed

text \<open>What a move returned: refused or cancelled with nothing stored, or done.\<close>

definition navigated :: "session_metadata \<Rightarrow> jsstring \<Rightarrow> thrown + navigate_result \<Rightarrow> ('t, 'w) memory_harness \<Rightarrow> ('t, 'w) memory_harness \<Rightarrow> bool" where
  "navigated md targetId r h h' \<longleftrightarrow> carried md h h' \<and> (\<forall>res. r = Inr res \<longrightarrow>
     (if nr_cancelled res \<or> ss_leafId (ha_session h) = Some targetId
      then session_log (ha_session h') = session_log (ha_session h) \<and> ss_leafId (ha_session h') = ss_leafId (ha_session h)
      else (\<exists>target\<in>set (session_log (ha_session h)). e_id target = targetId \<and> moved target res h h')))"

lemma navigated_error: "waits md h h' \<Longrightarrow> navigated md targetId (Inl e) h h'"
  by (simp add: navigated_def waits_carried)

lemma navigated_result:
  assumes "waits md h h'" "nr_cancelled res \<or> ss_leafId (ha_session h) = Some targetId"
  shows "navigated md targetId (Inr res) h h'"
  using assms(2) waits_carried [OF assms(1)] assms(1) by (auto simp: navigated_def waits_def)

lemma moved_from: "waits md h h1 \<Longrightarrow> moved target res h1 h2 \<Longrightarrow> moved target res h h2"
  by (cases "nr_summaryEntry res") (auto simp: moved_def waits_def)

lemma navigateBody_spec:
  assumes "on_memory md env" "harness_sound md h" "ha_phase h \<noteq> Idle"
  shows "\<exists>r h'. navigateBody env targetId opts h = Some (r, h') \<and> navigated md targetId r h h'"
proof (cases "ss_leafId (ha_session h) = Some targetId")
  case True
  then show ?thesis
    using navigated_result [OF waits_refl [OF assms(2)], of "cancelledResult False" targetId] by (simp add: navigateBody_def Let_def)
next
  case False
  obtain f h1 where f: "onSession (session_getEntry (hv_ops env) targetId) h = (f, h1)"
    by fastforce
  note read = readEntry_waits [OF assms(1,2) f]
  have tree: "tree_ok (session_log (ha_session h))"
    using assms(2) by (simp add: harness_sound_def sound_def)
  show ?thesis
  proof (cases "fmlookup (index_of (session_log (ha_session h))) targetId")
    case None
    then have "navigateBody env targetId opts h
        = Some (Inl (HarnessError HInvalidArgument (OtherError (js ''Entry '' @ targetId @ js '' not found''))), h1)"
      using False f read(2) by (simp add: navigateBody_def Let_def seqH_def returning_def throwH_def)
    then show ?thesis
      using navigated_error [OF read(1)] by simp
  next
    case (Some target)
    then have target: "target \<in> set (session_log (ha_session h))" "e_id target = targetId"
      using lookup_index [OF tree] by auto
    have h1: "harness_sound md h1" "ha_phase h1 \<noteq> Idle" "target \<in> set (session_log (ha_session h1))"
        "ss_leafId (ha_session h1) = ss_leafId (ha_session h)"
      using read(1) assms(3) target(1) waitsD [OF read(1)] by (simp_all add: waits_def)
    obtain c h2 where c: "onBranch (collectEntriesForBranchSummary (hv_ops env) (ss_leafId (ha_session h)) targetId) h1
        = Some (Inr c, h2)" "waits md h1 h2"
      using collect_waits [OF assms(1) h1(1,3)] h1(4) target(2) by auto
    have w2: "waits md h h2" "harness_sound md h2" "ha_phase h2 \<noteq> Idle"
      using waits_trans [OF read(1) c(2)] waitsD [OF c(2)] h1(2) by simp_all
    define p where "p = \<lparr>tp_targetId = targetId, tp_oldLeafId = ss_leafId (ha_session h), tp_collected = c,
          tp_summarize = nv_summarize opts, tp_customInstructions = nv_customInstructions opts,
          tp_replaceInstructions = nv_replaceInstructions opts\<rparr>"
    define rest where "rest = andH (emitHook env (map (\<lambda>f. f p) (hv_beforeTree env)) None) (\<lambda>hook.
                if (case hook of None \<Rightarrow> False | Some r \<Rightarrow> th_cancel r) then (\<lambda>h. (Inr (cancelledResult True), h))
                else andH (obtainSummary env (ce_entries c) opts hook) (\<lambda>outcome.
                  case outcome of
                    None \<Rightarrow> (\<lambda>h. (Inr (cancelledResult True), h))
                  | Some summary \<Rightarrow> andH assertNotShutDown (\<lambda>_.
                      finishNavigation env target (ss_leafId (ha_session h)) summary (hookSummary hook \<noteq> None))))"
    have run: "navigateBody env targetId opts h = Some (rest h2)"
      using False f read(2) Some c(1)
      by (simp add: navigateBody_def Let_def seqH_def returning_def rest_def p_def)
    have "navigated md targetId (fst (rest h2)) h (snd (rest h2))"
    proof -
      obtain q h3 where q: "emitHook env (map (\<lambda>f. f p) (hv_beforeTree env)) None h2 = (q, h3)"
        by fastforce
      have e3: "waits md h2 h3"
        using outside_waits(1) [OF assms(1) w2(2,3)] q by (metis snd_conv)
      then have w3: "waits md h h3" "harness_sound md h3" "ha_phase h3 \<noteq> Idle"
        using waits_trans [OF w2(1) e3] waitsD [OF e3] w2(3) by simp_all
      show ?thesis
      proof (cases q)
        case (Inl e)
        then show ?thesis
          using q navigated_error [OF w3(1)] by (simp add: rest_def andH_def)
      next
        case (Inr hook)
        show ?thesis
        proof (cases "case hook of None \<Rightarrow> False | Some r \<Rightarrow> th_cancel r")
          case True
          then show ?thesis
            using q Inr navigated_result [OF w3(1), of "cancelledResult True"]
            by (simp add: rest_def andH_def cancelledResult_def)
        next
          case go: False
          obtain x h4 where x: "obtainSummary env (ce_entries c) opts hook h3 = (x, h4)"
            by fastforce
          have e4: "waits md h3 h4"
            using outside_waits(3) [OF assms(1) w3(2,3)] x by (metis snd_conv)
          then have w4: "waits md h h4" "harness_sound md h4"
            using waits_trans [OF w3(1) e4] waitsD [OF e4] by simp_all
          show ?thesis
          proof (cases x)
            case (Inl e)
            then show ?thesis
              using q Inr go x navigated_error [OF w4(1)] by (simp add: rest_def andH_def)
          next
            case outcome: (Inr outcome)
            show ?thesis
            proof (cases outcome)
              case None
              then show ?thesis
                using q Inr go x outcome navigated_result [OF w4(1), of "cancelledResult True"]
                by (simp add: rest_def andH_def cancelledResult_def)
            next
              case summary: (Some summary)
              show ?thesis
              proof (cases "ha_isShutdown h4")
                case True
                then show ?thesis
                  using q Inr go x outcome summary navigated_error [OF w4(1)]
                  by (simp add: rest_def andH_def assertNotShutDown_def requireThat_def)
              next
                case open_harness: False
                obtain r h' where fin: "finishNavigation env target (ss_leafId (ha_session h)) summary (hookSummary hook \<noteq> None) h4 = (r, h')"
                  by fastforce
                have "rest h2 = (r, h')"
                  using q Inr go x outcome summary open_harness fin
                  by (simp add: rest_def andH_def assertNotShutDown_def requireThat_def)
                moreover have "carried md h h'"
                  using carried_trans [OF waits_carried [OF w4(1)] finishNavigation_spec(1) [OF assms(1) w4(2) fin]] .
                moreover have "moved target res h h'" if "r = Inr res" for res
                  using moved_from [OF w4(1)] finishNavigation_spec(2) [OF assms(1) w4(2) fin] that by blast
                moreover have "\<not> nr_cancelled res" if "r = Inr res" for res
                  using calculation(3) [OF that] by (simp add: moved_def)
                ultimately show ?thesis
                  using target False by (auto simp: navigated_def)
              qed
            qed
          qed
        qed
      qed
    qed
    then show ?thesis
      using run by (metis prod.collapse)
  qed
qed

section \<open>Turns\<close>

text \<open>What the loop does to the harness during a run: events it hands over, queues it drains, the state of
  the next turn it asks for; tools, the provider and the subscribers act on the world and call the
  interface. \<open>evs\<close> are the events that were handled.\<close>

inductive acts :: "('s, 't, 'w) harness_env \<Rightarrow> ('s, 't, 'w) harness \<Rightarrow> event list \<Rightarrow> ('s, 't, 'w) harness \<Rightarrow> bool"
  for env :: "('s, 't, 'w) harness_env" and h :: "('s, 't, 'w) harness" where
  acts_start: "acts env h [] h"
| acts_event: "acts env h evs h1 \<Longrightarrow> handleAgentEvent env ev h1 = (Inr (), h2) \<Longrightarrow> acts env h (evs @ [ev]) h2"
| acts_world: "acts env h evs h1 \<Longrightarrow> acts env h evs (h1\<lparr>ha_world := w\<rparr>)"
| acts_call: "acts env h evs h1 \<Longrightarrow> acts env h evs (performCall env k h1)"
| acts_steer: "acts env h evs h1 \<Longrightarrow> acts env h evs (snd (drainSteer env h1))"
| acts_followUp: "acts env h evs h1 \<Longrightarrow> acts env h evs (snd (drainFollowUps env h1))"
| acts_prepare: "acts env h evs h1 \<Longrightarrow> prepareNextTurn env h1 = Some (r, h2) \<Longrightarrow> acts env h evs h2"

text \<open>A run ends after its events, or when one of them is refused.\<close>

definition run_acts :: "('s, 't, 'w) harness_env \<Rightarrow> ('s, 't, 'w) harness \<Rightarrow> event list \<Rightarrow> ('s, 't, 'w) harness \<Rightarrow> bool" where
  "run_acts env h evs h' \<longleftrightarrow> acts env h evs h' \<or> (\<exists>h1 ev e. acts env h evs h1 \<and> handleAgentEvent env ev h1 = (Inl e, h'))"

text \<open>What is asked of the loop: it acts on the harness in these ways only; it returns, and when it
  succeeds it has handed over the messages it returns and the end of the run.\<close>

definition loop_acts :: "('s, 't, 'w) harness_env \<Rightarrow> bool" where
  "loop_acts env \<longleftrightarrow> (\<forall>ms cx sp h r mo h'. hv_run env ms cx sp h = Some (r, mo, h') \<longrightarrow> (\<exists>evs. run_acts env h evs h'))"

definition loop_returns :: "session_metadata \<Rightarrow> ('t, 'w) memory_env \<Rightarrow> bool" where
  "loop_returns md env \<longleftrightarrow> (\<forall>ms cx sp h. harness_sound md h \<longrightarrow> ha_phase h \<noteq> Idle \<longrightarrow>
     (\<exists>r mo h' evs. hv_run env ms cx sp h = Some (r, mo, h') \<and> run_acts env h evs h'
        \<and> (\<forall>new. r = Inr new \<longrightarrow> acts env h evs h' \<and> ha_phase h' = Idle \<and> concat (map ended evs) = new)))"

lemma drain_tracked:
  "tracked md h (snd (drainSteer env h))" "tracked md h (snd (drainFollowUps env h))"
proof -
  have 1: "tracked md h (snd (emitQueueUpdate env (h\<lparr>ha_steer := q\<rparr>)))" for q
    by (intro tracked_emitQueueUpdate tracked_update tracked_refl)
  have 2: "tracked md h (snd (emitQueueUpdate env (h\<lparr>ha_followUp := q\<rparr>)))" for q
    by (intro tracked_emitQueueUpdate tracked_update tracked_refl)
  show "tracked md h (snd (drainSteer env h))"
    using 1 [of "left (ha_steeringMode h) (ha_steer h)"]
    by (auto simp: drainSteer_def Let_def tracked_update tracked_refl split: prod.split sum.split)
  show "tracked md h (snd (drainFollowUps env h))"
    using 2 [of "left (ha_followUpMode h) (ha_followUp h)"]
    by (auto simp: drainFollowUps_def Let_def tracked_update tracked_refl split: prod.split sum.split)
qed

lemma progressed_eq:
  assumes "progressed md ms h h1" "ha_session h' = ha_session h1" "ha_pending h' = ha_pending h1"
    "ha_accepted h' = ha_accepted h1" "ha_isShutdown h' = ha_isShutdown h1"
  shows "progressed md ms h h'"
  using assms(1) unfolding progressed_def bodies_def harness_sound_def assms(2-5) .

lemma waits_progressed:
  assumes "waits md h h'"
  shows "progressed md [] h h'"
proof -
  obtain new where "ha_accepted h' = ha_accepted h @ new" "\<not> ha_isShutdown h' \<longrightarrow> ha_pending h' = ha_pending h @ new"
    using assms by (auto simp: waits_def deferred_def)
  then show ?thesis
    using assms unfolding progressed_def waits_def deferred_def
    by (intro conjI exI [of _ new] exI [of _ "[]"]) auto
qed

lemma seqH_returning: "seqH (returning m) f h = (case m h of (Inl e, h1) \<Rightarrow> Some (Inl e, h1) | (Inr x, h1) \<Rightarrow> f x h1)"
  by (simp add: seqH_def returning_def split: prod.split sum.split)

lemma seqH_assert:
  "seqH (returning assertNotShutDown) f h =
    (if ha_isShutdown h then Some (Inl (harnessError HInvalidState ''AgentHarness has been shut down''), h) else f () h)"
  by (simp add: seqH_returning assertNotShutDown_def requireThat_def)

lemma createTurnState_waits:
  assumes "on_memory md env" "harness_sound md h"
  shows "\<exists>r h'. createTurnState env h = Some (r, h') \<and> waits md h h' \<and> ha_pending h' = ha_pending h"
proof (cases "ha_isShutdown h")
  case True
  then show ?thesis
    using waits_refl [OF assms(2)] by (simp add: createTurnState_def seqH_assert)
next
  case False
  obtain c h1 where "onBranch (session_buildContext (hv_ops env) (hv_contextOptions env) no_options) h = Some (Inr c, h1)" "waits md h h1"
    using branch_waits(2) [OF assms] by blast
  moreover have "ha_pending h1 = ha_pending h"
    using calculation(1) by (auto simp: onBranch_def)
  ultimately show ?thesis
    using False by (simp add: createTurnState_def seqH_assert seqH_def returning_def assertNotShutDown_def requireThat_def)
qed

lemma prepareNextTurn_progressed:
  assumes "on_memory md env" "harness_sound md h" "quiet h" "prepareNextTurn env h = Some (r, h')"
  shows "progressed md [] h h' \<and> quiet h'"
proof -
  obtain q h1 where q: "flushPendingSessionWrites env h = (q, h1)"
    by fastforce
  note flush = flush_spec [OF assms(1,2) q]
  have quiet1: "quiet h1"
    using assms(3) flush(1-3,5) by (auto simp: quiet_def progressed_def)
  show ?thesis
  proof (cases q)
    case (Inl e)
    then show ?thesis
      using assms(4) q flush(1) quiet1 by (simp add: prepareNextTurn_def seqH_def returning_def)
  next
    case (Inr u)
    obtain x h2 where x: "createTurnState env h1 = Some (x, h2)" "waits md h1 h2" "ha_pending h2 = ha_pending h1"
      using createTurnState_waits [OF assms(1) progressed_sound [OF flush(1)]] by blast
    then have "h' = h2"
      using assms(4) q Inr by (simp add: prepareNextTurn_def seqH_def returning_def)
    moreover have "progressed md [] h h2"
      using progressed_trans [OF flush(1) waits_progressed [OF x(2)]] by simp
    moreover have "quiet h2"
      using x(2,3) quiet1 by (auto simp: waits_def deferred_def quiet_def)
    ultimately show ?thesis
      by simp
  qed
qed

lemma quiet_trans:
  "progressed md ms h h1 \<and> quiet h1 \<Longrightarrow> progressed md [] h1 h2 \<and> quiet h2 \<Longrightarrow> progressed md ms h h2 \<and> quiet h2"
  using progressed_trans [of md ms h h1 "[]" h2] by simp

lemma tracked_quiet: "progressed md ms h h1 \<and> quiet h1 \<Longrightarrow> tracked md h1 h2 \<Longrightarrow> progressed md ms h h2 \<and> quiet h2"
  using quiet_trans tracked_progressed progressed_sound by blast

lemma acts_progressed:
  assumes "on_memory md env" "harness_sound md h" "quiet h" "acts env h evs h'"
  shows "progressed md (concat (map ended evs)) h h' \<and> quiet h'"
  using assms(4)
proof induction
  case acts_start
  then show ?case
    using progressed_refl [OF assms(2)] assms(3) by simp
next
  case (acts_event evs h1 ev h2)
  then obtain ms where "progressed md ms h1 h2" "quiet h2" "ms = ended ev"
    using handle_progressed [OF assms(1) progressed_sound _ acts_event(2)] by blast
  then show ?case
    using progressed_trans [of md _ h h1 ms h2] acts_event(3) by simp
next
  case (acts_world evs h1 w)
  show ?case
    by (rule tracked_quiet [OF acts_world(2)]) (rule tracked_update(10) [OF tracked_refl])
next
  case (acts_call evs h1 k)
  show ?case
    by (rule tracked_quiet [OF acts_call(2)]) (rule call_tracked [OF assms(1)])
next
  case (acts_steer evs h1)
  show ?case
    by (rule tracked_quiet [OF acts_steer(2)]) (rule drain_tracked)
next
  case (acts_followUp evs h1)
  show ?case
    by (rule tracked_quiet [OF acts_followUp(2)]) (rule drain_tracked)
next
  case (acts_prepare evs h1 r h2)
  then show ?case
    by (intro quiet_trans [OF acts_prepare(3)] prepareNextTurn_progressed [OF assms(1) _ _ acts_prepare(2)])
      (auto intro: progressed_sound)
qed

lemma run_acts_progressed:
  assumes "on_memory md env" "harness_sound md h" "quiet h" "run_acts env h evs h'"
  shows "\<exists>ms. progressed md ms h h' \<and> quiet h'"
proof (cases "acts env h evs h'")
  case True
  then show ?thesis
    using acts_progressed [OF assms(1-3)] by blast
next
  case False
  then obtain h1 ev e where h1: "acts env h evs h1" "handleAgentEvent env ev h1 = (Inl e, h')"
    using assms(4) by (auto simp: run_acts_def)
  note before = acts_progressed [OF assms(1-3) h1(1)]
  obtain ms where "progressed md ms h1 h'" "quiet h'"
    using handle_progressed [OF assms(1) progressed_sound _ h1(2)] before by blast
  then show ?thesis
    using progressed_trans before by blast
qed

text \<open>A failed run ends with a message that says so.\<close>

lemma emitRunFailure_events:
  "\<exists>a. emitRunFailure env mo e h
    = apfst (map_sum id (\<lambda>_. [AssistantMessage a])) (handleEvents env [MessageStart (AssistantMessage a),
        MessageEnd (AssistantMessage a), TurnEnd (AssistantMessage a) [], AgentEnd [AssistantMessage a]] h)"
  by (intro exI [of _ "createFailureMessage mo (hv_errorText env e) (ha_abortSignal h = Some True)
            (hv_now env (ha_world h))"])
    (simp add: emitRunFailure_def Let_def andH_def split: prod.split sum.split)

lemma emitRunFailure_spec:
  assumes "on_memory md env" "harness_sound md h" "quiet h" "emitRunFailure env mo e h = (r, h')"
  shows "\<exists>ms. progressed md ms h h' \<and> quiet h'
    \<and> (\<forall>new. r = Inr new \<longrightarrow> ha_phase h' = Idle \<and> (\<exists>a. new = [AssistantMessage a]) \<and> ms = new)"
proof -
  obtain a where m: "emitRunFailure env mo e h
      = apfst (map_sum id (\<lambda>_. [AssistantMessage a])) (handleEvents env [MessageStart (AssistantMessage a),
          MessageEnd (AssistantMessage a), TurnEnd (AssistantMessage a) [], AgentEnd [AssistantMessage a]] h)"
    using emitRunFailure_events by blast
  obtain q h1 where q: "handleEvents env [MessageStart (AssistantMessage a), MessageEnd (AssistantMessage a),
      TurnEnd (AssistantMessage a) [], AgentEnd [AssistantMessage a]] h = (q, h1)"
    by fastforce
  have r: "r = map_sum id (\<lambda>_. [AssistantMessage a]) q" "h' = h1"
    using assms(4) m q by simp_all
  obtain ms rest where "progressed md ms h h1" "quiet h1" "[AssistantMessage a] = ms @ rest" "q = Inr () \<longrightarrow> rest = []"
    "q = Inr () \<longrightarrow> ha_phase h1 = Idle"
    using handleEvents_progressed [OF assms(1-3) q] by auto
  then show ?thesis
    using r by (cases q) auto
qed

lemma lastAssistant_append [simp]: "lastAssistant (ms @ [AssistantMessage a]) = Inr a"
  by (simp add: lastAssistant_def)

lemma lastAssistant_single: "lastAssistant [AssistantMessage a] = Inr a"
  using lastAssistant_append [of "[]"] by simp

lemma runTurn_spec:
  assumes "on_memory md env" "loop_returns md env" "harness_sound md h" "ha_phase h \<noteq> Idle"
  shows "\<exists>r h' ms. runTurn env messages context sp h = Some (r, h') \<and> progressed md ms h h' \<and> quiet h'
    \<and> (\<forall>new. r = Inr new \<longrightarrow> ha_phase h' = Idle \<and> lastAssistant ms = lastAssistant new)"
proof -
  obtain q mo h1 evs where q: "hv_run env messages context sp h = Some (q, mo, h1)" "run_acts env h evs h1"
    "\<forall>new. q = Inr new \<longrightarrow> acts env h evs h1 \<and> ha_phase h1 = Idle \<and> concat (map ended evs) = new"
    using assms(2-4) unfolding loop_returns_def by blast
  have quiet: "quiet h"
    using assms(4) by (simp add: quiet_def)
  show ?thesis
  proof (cases q)
    case (Inl e)
    obtain ms where ms: "progressed md ms h h1" "quiet h1"
      using run_acts_progressed [OF assms(1,3) quiet q(2)] by blast
    obtain x h2 where x: "emitRunFailure env mo e h1 = (x, h2)"
      by fastforce
    obtain ms' where ms': "progressed md ms' h1 h2" "quiet h2"
      "\<forall>new. x = Inr new \<longrightarrow> ha_phase h2 = Idle \<and> (\<exists>a. new = [AssistantMessage a]) \<and> ms' = new"
      using emitRunFailure_spec [OF assms(1) progressed_sound [OF ms(1)] ms(2) x] by blast
    have all: "progressed md (ms @ ms') h h2"
      using progressed_trans [OF ms(1) ms'(1)] .
    show ?thesis
      using q(1) Inl x all ms'(2,3)
      by (cases x) (auto simp: runTurn_def lastAssistant_single intro!: exI [of _ "ms @ ms'"])
  next
    case (Inr new)
    then show ?thesis
      using q acts_progressed [OF assms(1,3) quiet, of evs h1] by (auto simp: runTurn_def)
  qed
qed

lemma takeNextTurn_waits:
  assumes "harness_sound md h"
  shows "waits md h (snd (takeNextTurn env m h))"
proof -
  have update: "waits md a b \<Longrightarrow> waits md (a\<lparr>ha_nextTurn := q\<rparr>) (b\<lparr>ha_nextTurn := q'\<rparr>)"
      "waits md (a\<lparr>ha_nextTurn := q\<rparr>) b = waits md a b" "waits md a (b\<lparr>ha_nextTurn := q\<rparr>) = waits md a b"
      "harness_sound md (a\<lparr>ha_nextTurn := q\<rparr>) = harness_sound md a" for a b :: "('a, 'b) memory_harness" and q q'
    by (simp_all add: waits_def deferred_def harness_sound_def bodies_def)
  show ?thesis
  proof (cases "ha_nextTurn h = []")
    case True
    then show ?thesis
      using waits_refl [OF assms] by (simp add: takeNextTurn_def)
  next
    case False
    obtain r h1 where e: "emitQueueUpdate env (h\<lparr>ha_nextTurn := []\<rparr>) = (r, h1)"
      by fastforce
    then have "waits md (h\<lparr>ha_nextTurn := []\<rparr>) h1"
      using emitOwn_waits [of md "h\<lparr>ha_nextTurn := []\<rparr>" env] assms update(4) unfolding emitQueueUpdate_def
      by (metis snd_conv)
    then have "waits md h h1"
      by (simp add: update(2))
    then show ?thesis
      using False e by (cases r) (simp_all add: takeNextTurn_def Let_def update(3))
  qed
qed

text \<open>The end of a turn: what the flush leaves.\<close>

lemma flushFinally_spec:
  assumes "on_memory md env" "harness_sound md h" "flushFinally env (q, h) = (r, h')"
  shows "progressed md [] h h' \<and> ha_phase h' = ha_phase h \<and> (\<forall>a. r = Inr a \<longrightarrow> q = Inr a \<and> ha_pending h' = [])"
proof -
  obtain x h1 where x: "flushPendingSessionWrites env h = (x, h1)"
    by fastforce
  note flush = flush_spec [OF assms(1,2) x]
  have "h' = h1" "r = (case x of Inl e \<Rightarrow> Inl e | Inr _ \<Rightarrow> q)"
    using assms(3) x by (cases x; simp add: flushFinally_def)+
  then show ?thesis
    using flush by (cases x) auto
qed

definition ends_turn ::
    "session_metadata \<Rightarrow> ('t, 'w) memory_harness \<Rightarrow> (thrown + assistant) \<Rightarrow> ('t, 'w) memory_harness \<Rightarrow> bool" where
  "ends_turn md h r h' \<longleftrightarrow> (\<exists>ms. progressed md ms h h'
     \<and> (\<forall>a. r = Inr a \<longrightarrow> ha_phase h' = Idle \<and> ha_pending h' = [] \<and> lastAssistant ms = Inr a))"

lemma ends_turn_error: "progressed md ms h h' \<Longrightarrow> ends_turn md h (Inl e) h'"
  by (auto simp: ends_turn_def)

lemma executeTurn_spec:
  assumes "on_memory md env" "loop_returns md env" "harness_sound md h" "ha_phase h \<noteq> Idle"
  shows "\<exists>r h'. executeTurn env context t images h = Some (r, h') \<and> ends_turn md h r h'"
proof (cases "ha_isShutdown h")
  case True
  then show ?thesis
    using ends_turn_error [OF progressed_refl [OF assms(3)]] by (simp add: executeTurn_def seqH_assert)
next
  case False
  obtain q1 h1 where q1: "takeNextTurn env (createUserMessage t images (hv_now env (ha_world h))) h = (q1, h1)"
    by fastforce
  then have w1: "waits md h h1"
    using takeNextTurn_waits [OF assms(3)] by (metis snd_conv)
  then have h1: "harness_sound md h1" "ha_phase h1 \<noteq> Idle"
    using waitsD [OF w1] assms(4) by simp_all
  obtain q2 h2 where q2: "emitHook env (map (\<lambda>f. f t) (hv_beforeAgentStart env)) None h1 = (q2, h2)"
    by fastforce
  then have w2: "waits md h1 h2"
    using outside_waits(1) [OF assms(1) h1] by (metis snd_conv)
  then have h2: "harness_sound md h2" "ha_phase h2 \<noteq> Idle"
    using waitsD [OF w2] h1(2) by simp_all
  note early = ends_turn_error [OF waits_progressed [OF w1]] ends_turn_error [OF waits_progressed [OF waits_trans [OF w1 w2]]]
  note step = executeTurn_def seqH_assert seqH_def returning_def assertNotShutDown_def requireThat_def
  show ?thesis
  proof (cases q1)
    case (Inl e)
    then have "executeTurn env context t images h = Some (Inl e, h1)"
      using False q1 by (simp add: step)
    then show ?thesis
      using early(1) by blast
  next
    case messages: (Inr messages)
    show ?thesis
    proof (cases q2)
      case (Inl e)
      then have "executeTurn env context t images h = Some (Inl e, h2)"
        using False q1 messages q2 by (simp add: step)
      then show ?thesis
        using early(2) by blast
    next
      case before: (Inr before)
      show ?thesis
      proof (cases "ha_isShutdown h2")
        case True
        then have "executeTurn env context t images h
            = Some (Inl (harnessError HInvalidState ''AgentHarness has been shut down''), h2)"
          using False q1 messages q2 before by (simp add: step)
        then show ?thesis
          using early(2) by blast
      next
        case open_harness: False
        define all where "all = messages @ (case before of None \<Rightarrow> [] | Some b \<Rightarrow>
             (case ah_messages b of None \<Rightarrow> [] | Some ms \<Rightarrow> ms))"
        define sp where "sp = (case before of None \<Rightarrow> None | Some b \<Rightarrow> ah_systemPrompt b)"
        obtain r3 h3 ms where r3: "runTurn env all context sp h2 = Some (r3, h3)" "progressed md ms h2 h3" "quiet h3"
          "\<forall>new. r3 = Inr new \<longrightarrow> ha_phase h3 = Idle \<and> lastAssistant ms = lastAssistant new"
          using runTurn_spec [OF assms(1,2) h2] by blast
        obtain r h' where r: "flushFinally env (bindE r3 lastAssistant, h3) = (r, h')"
          by fastforce
        note fin = flushFinally_spec [OF assms(1) progressed_sound [OF r3(2)] r]
        have "executeTurn env context t images h = Some (r, h')"
          using False q1 messages q2 before open_harness r3(1) r by (simp add: step all_def sp_def)
        moreover have "progressed md ms h h'"
          using progressed_trans [OF progressed_trans [OF waits_progressed [OF waits_trans [OF w1 w2]] r3(2)] conjunct1 [OF fin]]
          by simp
        moreover have "ha_phase h' = Idle \<and> lastAssistant ms = Inr a" if "r = Inr a" for a
          using fin that r3(4) by (cases r3) auto
        ultimately show ?thesis
          using fin by (auto simp: ends_turn_def)
      qed
    qed
  qed
qed

lemma progressed_started: "progressed md ms (startOperation ph h) h' = progressed md ms h h'"
  by (simp add: progressed_def started)

text \<open>A prompt on an idle harness.\<close>

lemma promptWith_spec:
  assumes "on_memory md env" "loop_returns md env" "harness_sound md h" "ha_phase h = Idle" "\<not> ha_isShutdown h"
  shows "\<exists>r h'. promptWith env p images h = Some (r, h') \<and> ha_phase h' = Idle \<and> ha_abortSignal h' = None
    \<and> ends_turn md h r h'"
proof -
  let ?h = "startOperation InTurn h"
  have start: "harness_sound md ?h" "ha_phase ?h \<noteq> Idle"
    using assms(3) by (simp_all add: started)
  obtain r1 h1 where r1: "createTurnState env ?h = Some (r1, h1)" "waits md ?h h1"
    using createTurnState_waits [OF assms(1) start(1)] by blast
  have h1: "harness_sound md h1" "ha_phase h1 \<noteq> Idle" "progressed md [] h h1"
    using waitsD [OF r1(2)] start(2) waits_progressed [OF r1(2)] by (simp_all add: progressed_started)
  define body where "body = seqH (createTurnState env) (\<lambda>context.
          seqH (returning (\<lambda>h. (p, h))) (\<lambda>t. executeTurn env context t images))"
  have "\<exists>r h'. body ?h = Some (r, h') \<and> ends_turn md h r h'"
  proof (cases r1)
    case (Inl e)
    then show ?thesis
      using r1(1) ends_turn_error [OF h1(3)] by (simp add: body_def seqH_def)
  next
    case cx: (Inr cx)
    show ?thesis
    proof (cases p)
      case (Inl e)
      then show ?thesis
        using r1(1) cx ends_turn_error [OF h1(3)] by (simp add: body_def seqH_def returning_def)
    next
      case (Inr t)
      obtain r h' where r: "executeTurn env cx t images h1 = Some (r, h')" "ends_turn md h1 r h'"
        using executeTurn_spec [OF assms(1,2) h1(1,2)] by blast
      then have "ends_turn md h r h'"
        using progressed_trans [OF h1(3)] by (auto simp: ends_turn_def)
      then show ?thesis
        using r(1) r1(1) cx Inr by (simp add: body_def seqH_def returning_def)
    qed
  qed
  then obtain r h' where r: "body ?h = Some (r, h')" "ends_turn md h r h'"
    by blast
  have run: "promptWith env p images h = Some (case r of
           Inr a \<Rightarrow> (Inr a, operation_finish h')
         | Inl e \<Rightarrow> (Inl (normalizeHarnessError HUnknown e), operation_finish (h'\<lparr>ha_phase := Idle\<rparr>)))"
    using assms(4,5) r(1) unfolding body_def by (simp add: promptWith_def seqH_assert)
  show ?thesis
  proof (cases r)
    case (Inl e)
    obtain ms where "progressed md ms h h'"
      using r(2) by (auto simp: ends_turn_def)
    then have "progressed md ms h (operation_finish (h'\<lparr>ha_phase := Idle\<rparr>))"
      by (rule progressed_eq) (simp_all add: operation_finish_def)
    then show ?thesis
      using run Inl ends_turn_error by (simp add: operation_finish_def)
  next
    case (Inr a)
    then obtain ms where ms: "progressed md ms h h'" "ha_phase h' = Idle" "ha_pending h' = []" "lastAssistant ms = Inr a"
      using r(2) by (auto simp: ends_turn_def)
    have "progressed md ms h (operation_finish h')"
      using ms(1) by (rule progressed_eq) (simp_all add: operation_finish_def)
    then show ?thesis
      using run Inr ms(2-4) by (auto simp: ends_turn_def operation_finish_def)
  qed
qed

end
