(* ===== verification/HarnessFacts.thy ===== *)
theory HarnessFacts
  imports HarnessOutcomes
begin

text \<open>
  The properties of the harness, each with an instance on a session of the memory store, a hook that
  changes the configuration while an operation is active, and a loop that answers every prompt.
\<close>

section \<open>Every way to change a harness\<close>

inductive harness_step :: "('s, 't, 'w) harness_env \<Rightarrow> ('s, 't, 'w) harness \<Rightarrow> ('s, 't, 'w) harness \<Rightarrow> bool"
  for env :: "('s, 't, 'w) harness_env" where
  step_world: "harness_step env h (h\<lparr>ha_world := w\<rparr>)"
| step_call: "harness_step env h (performCall env k h)"
| step_compact: "harness_compact env ci h = Some (r, h') \<Longrightarrow> harness_step env h h'"
| step_navigate: "navigateTree env targetId opts h = Some (r, h') \<Longrightarrow> harness_step env h h'"
| step_prompt: "promptWith env p images h = Some (r, h') \<Longrightarrow> harness_step env h h'"
| step_abort: "harness_step env h (snd (abortIdle env h))"

inductive_cases harness_stepE: "harness_step env h h'"

lemma drain_tools: "tools_ok h \<Longrightarrow> tools_ok (snd (drainSteer env h))" "tools_ok h \<Longrightarrow> tools_ok (snd (drainFollowUps env h))"
proof -
  assume h: "tools_ok h"
  obtain r1 h1 r2 h2 where e: "emitQueueUpdate env (h\<lparr>ha_steer := left (ha_steeringMode h) (ha_steer h)\<rparr>) = (r1, h1)"
    "emitQueueUpdate env (h\<lparr>ha_followUp := left (ha_followUpMode h) (ha_followUp h)\<rparr>) = (r2, h2)"
    by fastforce
  have "tools_ok (snd (emitQueueUpdate env (h\<lparr>ha_steer := left (ha_steeringMode h) (ha_steer h)\<rparr>)))"
    "tools_ok (snd (emitQueueUpdate env (h\<lparr>ha_followUp := left (ha_followUpMode h) (ha_followUp h)\<rparr>)))"
    using h by simp_all
  then have "tools_ok h1" "tools_ok h2"
    unfolding e by simp_all
  then show "tools_ok (snd (drainSteer env h))" "tools_ok (snd (drainFollowUps env h))"
    using h e by (simp_all add: drainSteer_def drainFollowUps_def Let_def split: sum.split)
qed

lemma acts_tools: "acts env h evs h' \<Longrightarrow> tools_ok h \<Longrightarrow> tools_ok h'"
proof (induction rule: acts.induct)
  case (acts_event evs h1 ev h2)
  then show ?case
    using kept_tools.handle_R [of h1 env ev] by simp
next
  case (acts_prepare evs h1 r h2)
  then show ?case
    using kept_tools.prepareNextTurn_obeys [of env] unfolding kept_tools.obeys_def by blast
qed (simp_all add: call_tools_ok drain_tools)

lemma run_acts_tools: "run_acts env h evs h' \<Longrightarrow> tools_ok h \<Longrightarrow> tools_ok h'"
  unfolding run_acts_def using acts_tools kept_tools.handle_R by (metis snd_conv)

lemma abortIdle_tools: "tools_ok h \<Longrightarrow> tools_ok (snd (abortIdle env h))"
  by (auto simp: abortIdle_def snd_andH Let_def split_def split: sum.split)

lemma step_tools:
  assumes "loop_acts env" "harness_step env h h'" "tools_ok h"
  shows "tools_ok h'"
proof -
  have run: "hv_run env ms cx sp h = Some (r, mo, h') \<Longrightarrow> tools_ok h \<longrightarrow> tools_ok h'" for ms cx sp h r mo h'
    using assms(1) run_acts_tools unfolding loop_acts_def by blast
  show ?thesis
    using assms(2,3) kept_tools.compact_obeys kept_tools.navigate_obeys kept_tools.promptWith_obeys [OF run]
    unfolding kept_tools.obeys_def
    by (cases rule: harness_step.cases) (auto simp: call_tools_ok abortIdle_tools, blast+)
qed

lemma steps_tools:
  assumes "loop_acts env" "(harness_step env)\<^sup>*\<^sup>* h h'" "tools_ok h"
  shows "tools_ok h'"
  using assms(2) by (induction rule: rtranclp_induct) (use assms in \<open>auto intro: step_tools\<close>)

section \<open>A harness to show the properties on\<close>

definition demo_hook :: "preparation_data \<Rightarrow> entry list \<Rightarrow> jsstring option \<Rightarrow> (nat, nat, jsstring + compact_hook option) caller" where
  "demo_hook p es ci w = (Inr (Some \<lparr>ch_cancel = True, ch_compaction = None\<rparr>), [CallSetThinkingLevel ThinkHigh], w + 1)"

definition demo_model :: model where
  "demo_model = \<lparr>mo_id = [1], mo_provider = [], mo_reasoning = False, mo_maxTokens = 0, mo_contextWindow = 0\<rparr>"

definition demo_reply :: message where
  "demo_reply = AssistantMessage (demo_answer [TextBlock [7]] Stop)"

definition demo_base :: "(nat, nat) memory_env" where
  "demo_base = \<lparr>hv_ops = memory_ops sample_md, hv_uuid = sample_uuid, hv_now = int, hv_timestamp = (\<lambda>w. js ''t''),
     hv_listeners = [], hv_ownListeners = [], hv_beforeCompact = [demo_hook], hv_beforeTree = [],
     hv_beforeAgentStart = [\<lambda>t w. (Inr None, [CallSetThinkingLevel ThinkHigh], w)],
     hv_ask = (\<lambda>mo rq w. (demo_answer [TextBlock [7]] Stop, [], w)), hv_errorText = (\<lambda>e. []),
     hv_contextOptions = no_options, hv_run = (\<lambda>ms cx sp h. None)\<rparr>"

definition demo_events :: "message list \<Rightarrow> event list" where
  "demo_events ms = map MessageEnd (ms @ [demo_reply]) @ [TurnEnd demo_reply [], AgentEnd (ms @ [demo_reply])]"

definition demo_loop ::
    "message list \<Rightarrow> message list \<Rightarrow> jsstring option \<Rightarrow> (nat, nat) memory_harness \<Rightarrow>
     ((thrown + message list) \<times> model \<times> (nat, nat) memory_harness) option" where
  "demo_loop ms cx sp h = (case handleEvents demo_base (demo_events ms) h of
       (Inl e, h') \<Rightarrow> Some (Inl e, demo_model, h') | (Inr _, h') \<Rightarrow> Some (Inr (ms @ [demo_reply]), demo_model, h'))"

definition demo_setup :: "(nat, nat) memory_env" where
  "demo_setup = demo_base\<lparr>hv_run := demo_loop\<rparr>"

definition demo_harness :: "(nat, nat) memory_harness" where
  "demo_harness = \<lparr>ha_session = sample_open, ha_world = 0, ha_phase = Idle, ha_abortSignal = None, ha_isShutdown = False,
     ha_pending = [], ha_model = demo_model, ha_thinkingLevel = ThinkOff, ha_tools = [], ha_activeToolNames = [],
     ha_steer = [], ha_steeringMode = QueueAll, ha_followUp = [], ha_followUpMode = QueueAll,
     ha_nextTurn = [], ha_accepted = []\<rparr>"

lemma demo_memory: "on_memory sample_md demo_base" "on_memory sample_md demo_setup" "harness_sound sample_md demo_harness"
  by (simp_all add: on_memory_def demo_setup_def demo_base_def sample_uuid_ok harness_sound_def demo_harness_def sample_open_sound)

lemma demo_fields [simp]: "ha_phase demo_harness = Idle" "\<not> ha_isShutdown demo_harness" "ha_pending demo_harness = []"
    "ha_accepted demo_harness = []"
  by (simp_all add: demo_harness_def)

lemma demo_bodies: "length (bodies demo_harness) = 5"
  by code_simp

text \<open>The loop plays no part in how an event is handled.\<close>

lemma emitOwn_run [simp]: "emitOwn (env\<lparr>hv_run := f\<rparr>) ev = emitOwn env ev"
  by (simp add: emitOwn_def)

lemma storeWrite_run [simp]: "storeWrite (env\<lparr>hv_run := f\<rparr>) wr = storeWrite env wr"
  by (simp add: fun_eq_iff storeWrite_def)

lemma storeOrDefer_run [simp]: "storeOrDefer (env\<lparr>hv_run := f\<rparr>) wr = storeOrDefer env wr"
  by (simp add: fun_eq_iff storeOrDefer_def)

lemma emitQueueUpdate_run [simp]: "emitQueueUpdate (env\<lparr>hv_run := f\<rparr>) = emitQueueUpdate env"
  by (simp add: fun_eq_iff emitQueueUpdate_def)

lemma tools_run [simp]: "applyTools (env\<lparr>hv_run := f\<rparr>) = applyTools env"
    "applyActiveTools (env\<lparr>hv_run := f\<rparr>) = applyActiveTools env"
  by (simp_all add: fun_eq_iff applyTools_def applyActiveTools_def)

lemma call_run [simp]: "performCall (env\<lparr>hv_run := f\<rparr>) = performCall env"
proof (intro ext)
  fix k h
  show "performCall (env\<lparr>hv_run := f\<rparr>) k h = performCall env k h"
    by (cases k) (simp_all add: harness_appendMessage_def setModel_def setThinkingLevel_def setTools_def
      setActiveTools_def steer_def followUp_def nextTurn_def cong: if_cong)
qed

lemma emitAny_run [simp]: "emitAny (env\<lparr>hv_run := f\<rparr>) ev = emitAny env ev"
proof -
  have "notifyAll (env\<lparr>hv_run := f\<rparr>) ls ev h = notifyAll env ls ev h" for ls h
    by (induction ls arbitrary: h) (simp_all add: callOut_def Let_def split: prod.split option.split)
  then show ?thesis
    by (simp add: fun_eq_iff emitAny_def)
qed

lemma flush_run [simp]: "flushPendingSessionWrites (env\<lparr>hv_run := f\<rparr>) h = flushPendingSessionWrites env h"
proof (induction "length (ha_pending h)" arbitrary: h)
  case 0
  then show ?case
    by (simp add: flushPendingSessionWrites.simps)
next
  case (Suc n)
  then obtain wr rest where p: "ha_pending h = wr # rest"
    by (cases "ha_pending h") auto
  obtain r h1 where s: "storeWrite env wr h = (r, h1)"
    by fastforce
  then have "ha_pending h1 = wr # rest"
    using storeWrite_pending [of env wr h] p by simp
  then have "flushPendingSessionWrites (env\<lparr>hv_run := f\<rparr>) (h1\<lparr>ha_pending := tl (ha_pending h1)\<rparr>)
      = flushPendingSessionWrites env (h1\<lparr>ha_pending := tl (ha_pending h1)\<rparr>)"
    using Suc p by simp
  then show ?case
    using p s by (subst (1 2) flushPendingSessionWrites.simps) (simp split: sum.split)
qed

lemma handleEvents_run [simp]: "handleEvents (env\<lparr>hv_run := f\<rparr>) evs h = handleEvents env evs h"
proof -
  have "handleAgentEvent (env\<lparr>hv_run := f\<rparr>) ev h = handleAgentEvent env ev h" for ev h
    by (cases ev) (simp_all add: handleAgentEvent_def handleTurnEnd_def andH_def split: prod.split sum.split)
  then show ?thesis
    by (induction evs arbitrary: h) (simp_all add: andH_def split: prod.split sum.split)
qed

lemma handleEvents_acts:
  "acts env h evs h1 \<Longrightarrow> handleEvents env evs' h1 = (r, h2) \<Longrightarrow>
   (case r of Inl e \<Rightarrow> \<exists>evs. run_acts env h evs h2 | Inr _ \<Rightarrow> acts env h (evs @ evs') h2)"
proof (induction evs' arbitrary: evs h1)
  case Nil
  then show ?case by auto
next
  case (Cons ev evs')
  obtain q h3 where q: "handleAgentEvent env ev h1 = (q, h3)"
    by fastforce
  show ?case
  proof (cases q)
    case (Inl e)
    then have "run_acts env h evs h2" "r = Inl e"
      using Cons.prems q unfolding run_acts_def by (auto simp: andH_def)
    then show ?thesis
      by auto
  next
    case (Inr u)
    then have "acts env h (evs @ [ev]) h3" "handleEvents env evs' h3 = (r, h2)"
      using Cons.prems q by (auto simp: andH_def intro: acts_event)
    then show ?thesis
      using Cons.IH [of "evs @ [ev]" h3] by (simp split: sum.splits)
  qed
qed

lemma demo_returns: "loop_returns sample_md demo_setup"
  unfolding loop_returns_def
proof (intro allI impI)
  fix ms cx :: "message list" and sp :: "jsstring option" and h :: "(nat, nat) memory_harness"
  assume h: "harness_sound sample_md h" "ha_phase h \<noteq> Idle"
  obtain q h' where q: "handleEvents demo_base (demo_events ms) h = (q, h')"
    by fastforce
  then have "handleEvents demo_setup (demo_events ms) h = (q, h')"
    by (simp add: demo_setup_def)
  note act = handleEvents_acts [OF acts_start this]
  have ended: "concat (map ended (demo_events ms)) = ms @ [demo_reply]"
    by (simp add: demo_events_def) (induction ms; simp)
  have "q = Inr () \<Longrightarrow> ha_phase h' = Idle"
    using handleEvents_progressed [OF demo_memory(1) h(1) _ q] h(2) by (simp add: quiet_def demo_events_def)
  then show "\<exists>r mo h' evs. hv_run demo_setup ms cx sp h = Some (r, mo, h') \<and> run_acts demo_setup h evs h'
        \<and> (\<forall>new. r = Inr new \<longrightarrow> acts demo_setup h evs h' \<and> ha_phase h' = Idle \<and> concat (map ended evs) = new)"
    using act ended q
    by (cases q) (auto simp: demo_setup_def demo_loop_def run_acts_def split: sum.splits intro: exI [of _ "demo_events ms"])
qed

lemma demo_acts: "loop_acts demo_setup"
  unfolding loop_acts_def
proof (intro allI impI)
  fix ms cx :: "message list" and sp :: "jsstring option" and h :: "(nat, nat) memory_harness" and r mo h'
  assume run: "hv_run demo_setup ms cx sp h = Some (r, mo, h')"
  obtain q h1 where q: "handleEvents demo_base (demo_events ms) h = (q, h1)"
    by fastforce
  then have "handleEvents demo_setup (demo_events ms) h = (q, h1)"
    by (simp add: demo_setup_def)
  note act = handleEvents_acts [OF acts_start this]
  have "h' = h1"
    using run q by (cases q) (simp_all add: demo_setup_def demo_loop_def)
  then show "\<exists>evs. run_acts demo_setup h evs h'"
    using act unfolding run_acts_def by (cases q) auto
qed

section \<open>Properties\<close>





text \<open>
  C27. A compaction on a harness over the memory store is refused, with nothing changed, after a shutdown
  and while an operation is active. Otherwise it returns and the harness is idle; when it succeeds it has
  stored the compaction it returns and nothing else, and when it fails it has stored at most a compaction.
  The changes accepted meanwhile still wait, however it ended: nothing stores them before the next prompt,
  though the harness is idle and stores later changes at once.
\<close>

theorem compaction_outcome:
  assumes "on_memory md env" and "harness_sound md h"
  shows "if ha_isShutdown h then
      harness_compact env ci h = Some (Inl (harnessError HInvalidState ''AgentHarness has been shut down''), h)
    else if ha_phase h \<noteq> Idle then
      harness_compact env ci h = Some (Inl (harnessError HBusy ''compact() requires idle harness''), h)
    else \<exists>r h' new ds. harness_compact env ci h = Some (r, h')
      \<and> ha_phase h' = Idle \<and> ha_abortSignal h' = None \<and> harness_sound md h'
      \<and> bodies h' = bodies h @ ds
      \<and> (case r of Inr k \<Rightarrow> \<exists>b. ds = [CompactionEntry (k\<lparr>k_fromHook := Some b\<rparr>)]
         | Inl e \<Rightarrow> ds = [] \<or> (\<exists>k. ds = [CompactionEntry k]))
      \<and> ha_accepted h' = ha_accepted h @ new
      \<and> (\<not> ha_isShutdown h' \<longrightarrow> ha_pending h' = ha_pending h @ new)"
proof (cases "ha_isShutdown h \<or> ha_phase h \<noteq> Idle")
  case True
  then show ?thesis
    by (cases "ha_isShutdown h") (simp_all add: harness_compact_def idleOperation_def seqH_assert)
next
  case False
  have "harness_sound md (startOperation InCompaction h)" "ha_phase (startOperation InCompaction h) \<noteq> Idle"
    using assms(2) by (simp_all add: started)
  then obtain r h1 ds where r: "compactBody env ci (startOperation InCompaction h) = Some (r, h1)"
    "deferred md ds (startOperation InCompaction h) h1" "compaction_stored r ds"
    using compactBody_spec [OF assms(1)] by blast
  then obtain new where new: "ha_accepted h1 = ha_accepted h @ new" "\<not> ha_isShutdown h1 \<longrightarrow> ha_pending h1 = ha_pending h @ new"
    "harness_sound md h1" "bodies h1 = bodies h @ ds"
    by (auto simp: deferred_def started)
  have stored: "compaction_stored (map_sum (normalizeHarnessError HCompaction) id r) ds"
    using r(3) by (cases r) (simp_all add: compaction_stored_def)
  have run: "harness_compact env ci h = Some (map_sum (normalizeHarnessError HCompaction) id r, finished h1)"
    using idleOperation_runs [where body = "compactBody env ci" and ph = InCompaction, OF _ _ r(1)] False by (simp add: harness_compact_def)
  show ?thesis
    using False run new stored unfolding compaction_stored_def
    by (simp del: map_sum.simps)
qed

theorem compaction_outcome_witness:
  "\<exists>e h'. harness_compact demo_setup None demo_harness = Some (Inl e, h')
    \<and> ha_phase h' = Idle \<and> ha_pending h' = [WriteThinkingLevel ThinkHigh]
    \<and> (\<exists>h''. setThinkingLevel demo_setup ThinkLow h' = (Inr (), h'') \<and> ha_pending h'' = [WriteThinkingLevel ThinkHigh]
         \<and> last (bodies h'') = ThinkingLevelChange (js ''low''))"
proof -
  obtain r h' new where p: "harness_compact demo_setup None demo_harness = Some (r, h')" "ha_phase h' = Idle"
    "ha_accepted h' = ha_accepted demo_harness @ new"
    "\<not> ha_isShutdown h' \<longrightarrow> ha_pending h' = ha_pending demo_harness @ new"
    using compaction_outcome [OF demo_memory(2,3), of None]
    by (simp only: demo_fields simp_thms if_False append_Nil) blast
  have "map_option (\<lambda>(r, h). (case r of Inl _ \<Rightarrow> True | Inr _ \<Rightarrow> False, ha_accepted h, ha_isShutdown h,
         let h2 = setThinkingLevel demo_setup ThinkLow h in (fst h2 = Inr (), ha_pending (snd h2), last (bodies (snd h2)))))
       (harness_compact demo_setup None demo_harness)
      = Some (True, [WriteThinkingLevel ThinkHigh], False, (True, [WriteThinkingLevel ThinkHigh], ThinkingLevelChange (js ''low'')))"
    by code_simp
  then have v: "case r of Inl _ \<Rightarrow> True | Inr _ \<Rightarrow> False" "ha_accepted h' = [WriteThinkingLevel ThinkHigh]" "\<not> ha_isShutdown h'"
    "fst (setThinkingLevel demo_setup ThinkLow h') = Inr ()" "ha_pending (snd (setThinkingLevel demo_setup ThinkLow h')) = [WriteThinkingLevel ThinkHigh]"
    "last (bodies (snd (setThinkingLevel demo_setup ThinkLow h'))) = ThinkingLevelChange (js ''low'')"
    using p(1) by (simp_all add: Let_def)
  then have "\<exists>e. r = Inl e" "ha_pending h' = [WriteThinkingLevel ThinkHigh]"
    using p(3,4) by (auto split: sum.splits)
  then show ?thesis
    using p(1,2) v(4-6) by (metis prod.collapse)
qed



end
