(* ===== verification/JsonParse.thy ===== *)
theory JsonParse
  imports Json "HOL-Library.AList"
begin

text \<open>
  \<open>JSON.parse\<close>, and that it reads back what \<open>JSON.stringify\<close> wrote. A number is read as the decimal
  it is; this is the number's own text when \<open>JSON.stringify\<close> wrote it. Keys of objects keep the order of
  their first occurrence; the order the language gives to keys that are array indices is not modelled.
\<close>

section \<open>The parser\<close>

definition is_ws :: "code_unit \<Rightarrow> bool" where
  "is_ws c \<longleftrightarrow> c = 0x20 \<or> c = 9 \<or> c = 10 \<or> c = 13"

definition skip :: "jsstring \<Rightarrow> jsstring" where
  "skip s = dropWhile is_ws s"

definition hex_value :: "code_unit \<Rightarrow> nat option" where
  "hex_value c =
     (if 48 \<le> c \<and> c \<le> 57 then Some (unat c - 48)
      else if 97 \<le> c \<and> c \<le> 102 then Some (unat c - 87)
      else if 65 \<le> c \<and> c \<le> 70 then Some (unat c - 55) else None)"

definition hex4 :: "code_unit \<Rightarrow> code_unit \<Rightarrow> code_unit \<Rightarrow> code_unit \<Rightarrow> code_unit option" where
  "hex4 a b c d = (case (hex_value a, hex_value b, hex_value c, hex_value d) of
       (Some w, Some x, Some y, Some z) \<Rightarrow> Some (word_of_nat (4096 * w + 256 * x + 16 * y + z))
     | _ \<Rightarrow> None)"

definition simple_escape :: "code_unit \<Rightarrow> code_unit option" where
  "simple_escape c =
     (if c = 0x22 \<or> c = 0x5C \<or> c = 0x2F then Some c
      else if c = 0x62 then Some 8 else if c = 0x66 then Some 12 else if c = 0x6E then Some 10
      else if c = 0x72 then Some 13 else if c = 0x74 then Some 9 else None)"

text \<open>The characters of a string after its opening quote, and what follows the closing one.\<close>

fun unescape :: "jsstring \<Rightarrow> (jsstring \<times> jsstring) option" where
  "unescape [] = None"
| "unescape [c] = (if c = 0x22 then Some ([], []) else None)"
| "unescape (c # d # s) =
     (if c = 0x22 then Some ([], d # s)
      else if c = 0x5C then
        (if d = 0x75 then
           (case s of
              h1 # h2 # h3 # h4 # t \<Rightarrow> Option.bind (hex4 h1 h2 h3 h4) (\<lambda>u. map_option (apfst ((#) u)) (unescape t))
            | _ \<Rightarrow> None)
         else Option.bind (simple_escape d) (\<lambda>u. map_option (apfst ((#) u)) (unescape s)))
      else if c < 0x20 then None
      else map_option (apfst ((#) c)) (unescape (d # s)))"

definition is_digit :: "code_unit \<Rightarrow> bool" where
  "is_digit c \<longleftrightarrow> 48 \<le> c \<and> c \<le> 57"

definition digits_nat :: "jsstring \<Rightarrow> nat" where
  "digits_nat s = read_digits 0 (map (\<lambda>c. unat c - 48) s)"

function normalized :: "int \<Rightarrow> int \<Rightarrow> json" where
  "normalized m e = (if m = 0 then JNum 0 0 else if m mod 10 = 0 then normalized (m div 10) (e + 1) else JNum m e)"
  by pat_completeness auto
termination
  by (relation "measure (\<lambda>(m, e). nat \<bar>m\<bar>)") auto

declare normalized.simps [simp del]

definition parseFraction :: "jsstring \<Rightarrow> (jsstring \<times> jsstring) option" where
  "parseFraction s = (case s of
       [] \<Rightarrow> Some ([], [])
     | c # t \<Rightarrow> if c \<noteq> 0x2E then Some ([], s)
         else if takeWhile is_digit t = [] then None else Some (takeWhile is_digit t, dropWhile is_digit t))"

definition parseExponent :: "jsstring \<Rightarrow> (int \<times> jsstring) option" where
  "parseExponent s = (case s of
       [] \<Rightarrow> Some (0, [])
     | c # t \<Rightarrow> if c \<noteq> 0x65 \<and> c \<noteq> 0x45 then Some (0, s)
         else
           (let (negative, t) = (case t of [] \<Rightarrow> (False, []) | d # u \<Rightarrow>
                  if d = 0x2D then (True, u) else if d = 0x2B then (False, u) else (False, t));
                ds = takeWhile is_digit t; x = int (digits_nat ds)
            in if ds = [] then None else Some (if negative then - x else x, dropWhile is_digit t)))"

definition parseUnsigned :: "jsstring \<Rightarrow> (nat \<times> int \<times> jsstring) option" where
  "parseUnsigned s =
     (let ip = takeWhile is_digit s in
      if ip = [] \<or> (1 < length ip \<and> hd ip = 0x30) then None
      else Option.bind (parseFraction (dropWhile is_digit s)) (\<lambda>(fp, s).
           Option.bind (parseExponent s) (\<lambda>(x, s).
           Some (digits_nat (ip @ fp), x - int (length fp), s))))"

definition parseNumber :: "jsstring \<Rightarrow> (json \<times> jsstring) option" where
  "parseNumber s =
     (if take 1 s = [0x2D] then map_option (\<lambda>(m, e, s). (normalized (- int m) e, s)) (parseUnsigned (drop 1 s))
      else map_option (\<lambda>(m, e, s). (normalized (int m) e, s)) (parseUnsigned s))"

definition literal :: "string \<Rightarrow> json \<Rightarrow> jsstring \<Rightarrow> (json \<times> jsstring) option" where
  "literal w v s = (if startsWith (js w) s then Some (v, drop (length w) s) else None)"

text \<open>The fuel bounds the depth of calls; the length of the text is enough (\<open>parse_fuel\<close>).\<close>

fun parseValue :: "nat \<Rightarrow> jsstring \<Rightarrow> (json \<times> jsstring) option"
and parseElements :: "nat \<Rightarrow> jsstring \<Rightarrow> json list \<Rightarrow> (json \<times> jsstring) option"
and parseMembers :: "nat \<Rightarrow> jsstring \<Rightarrow> (jsstring \<times> json) list \<Rightarrow> (json \<times> jsstring) option" where
  "parseValue 0 s = None"
| "parseValue (Suc n) s = (case skip s of
       [] \<Rightarrow> None
     | c # t \<Rightarrow>
         if c = 0x22 then map_option (apfst JStr) (unescape t)
         else if c = 0x5B then
           (if take 1 (skip t) = [0x5D] then Some (JArr [], drop 1 (skip t)) else parseElements n t [])
         else if c = 0x7B then
           (if take 1 (skip t) = [0x7D] then Some (JObj [], drop 1 (skip t)) else parseMembers n t [])
         else if c = 0x6E then literal ''null'' JNull (c # t)
         else if c = 0x74 then literal ''true'' (JBool True) (c # t)
         else if c = 0x66 then literal ''false'' (JBool False) (c # t)
         else parseNumber (c # t))"
| "parseElements 0 s vs = None"
| "parseElements (Suc n) s vs = Option.bind (parseValue n s) (\<lambda>(v, r). case skip r of
       [] \<Rightarrow> None
     | c # t \<Rightarrow> if c = 0x2C then parseElements n t (vs @ [v])
         else if c = 0x5D then Some (JArr (vs @ [v]), t) else None)"
| "parseMembers 0 s kvs = None"
| "parseMembers (Suc n) s kvs = (case skip s of
       [] \<Rightarrow> None
     | c # t \<Rightarrow> if c \<noteq> 0x22 then None
         else Option.bind (unescape t) (\<lambda>(k, r).
           if take 1 (skip r) \<noteq> [0x3A] then None
           else Option.bind (parseValue n (drop 1 (skip r))) (\<lambda>(v, r). case skip r of
               [] \<Rightarrow> None
             | c # t \<Rightarrow> if c = 0x2C then parseMembers n t (AList.update k v kvs)
                 else if c = 0x7D then Some (JObj (AList.update k v kvs), t) else None)))"

text \<open>\<open>None\<close> is the \<open>SyntaxError\<close> it throws.\<close>

definition json_parse :: "jsstring \<Rightarrow> json option" where
  "json_parse s = Option.bind (parseValue (Suc (length s)) s) (\<lambda>(v, r). if skip r = [] then Some v else None)"

section \<open>Strings\<close>

lemma hex_value_digit: "d < 16 \<Longrightarrow> hex_value (hex_digit d) = Some d"
proof -
  have "\<forall>d\<in>set [0..<16]. hex_value (hex_digit d) = Some d"
    by code_simp
  then show "d < 16 \<Longrightarrow> hex_value (hex_digit d) = Some d"
    by simp
qed

lemma hex4_escape: "\<exists>a b d e. unicode_escape c = [0x5C, 0x75, a, b, d, e] \<and> hex4 a b d e = Some c"
proof -
  let ?n = "unat c"
  have b: "?n div 4096 < 16"
    using unit_unat_bound [of c] by (intro less_mult_imp_div_less) simp
  have div: "?n div 256 = ?n div 16 div 16" "?n div 4096 = ?n div 16 div 16 div 16"
    by (simp_all flip: div_mult2_eq)
  have "?n = ?n div 16 * 16 + ?n mod 16" "?n div 16 = ?n div 16 div 16 * 16 + ?n div 16 mod 16"
    "?n div 16 div 16 = ?n div 16 div 16 div 16 * 16 + ?n div 16 div 16 mod 16"
    by simp_all
  then have "4096 * (?n div 4096) + 256 * (?n div 256 mod 16) + 16 * (?n div 16 mod 16) + ?n mod 16 = ?n"
    unfolding div by linarith
  then have "hex4 (hex_digit (?n div 4096)) (hex_digit (?n div 256 mod 16)) (hex_digit (?n div 16 mod 16)) (hex_digit (?n mod 16))
      = Some (word_of_nat ?n)"
    using b by (simp add: hex4_def hex_value_digit del: of_nat_add of_nat_mult)
  then show ?thesis
    by (simp add: unicode_escape_def Let_def)
qed

lemma unescape_unicode: "unescape (unicode_escape c @ s) = map_option (apfst ((#) c)) (unescape s)"
  using hex4_escape [of c] by auto

lemma unescape_plain: "c \<noteq> 0x22 \<Longrightarrow> c \<noteq> 0x5C \<Longrightarrow> 0x20 \<le> c \<Longrightarrow> s \<noteq> [] \<Longrightarrow> unescape (c # s) = map_option (apfst ((#) c)) (unescape s)"
  by (cases s) auto

lemma unescape_simple: "simple_escape d = Some u \<Longrightarrow> d \<noteq> 0x75 \<Longrightarrow> unescape (0x5C # d # s) = map_option (apfst ((#) u)) (unescape s)"
  by simp

lemma unescape_unit: "s \<noteq> [] \<Longrightarrow> unescape (escape_unit c @ s) = map_option (apfst ((#) c)) (unescape s)"
  by (auto simp: escape_unit_def unescape_unicode unescape_plain simple_escape_def not_less)

lemma unescape_escape: "unescape (escape s @ 0x22 # rest) = Some (s, rest)"
proof (induction s rule: escape.induct)
  case 1
  then show ?case
    by (cases rest) simp_all
next
  case (2 c s)
  have surrogate: "c \<noteq> 0x22 \<and> c \<noteq> 0x5C \<and> 0x20 \<le> c" if "is_high c \<or> is_low c" for c
    using that by (auto simp: is_high_nat is_low_nat word_le_nat_alt)
  show ?case
  proof (cases "is_high c")
    case True
    show ?thesis
    proof (cases s)
      case Nil
      then show ?thesis
        using True 2 by (cases rest) (simp_all add: unescape_unicode)
    next
      case (Cons d t)
      then show ?thesis
        using True 2 surrogate [of c] surrogate [of d] by (auto simp: unescape_unicode unescape_plain)
    qed
  next
    case False
    then show ?thesis
      using 2 by (cases "is_low c") (simp_all add: unescape_unicode unescape_unit)
  qed
qed

section \<open>Numbers\<close>

lemma digit_unit: "d < 10 \<Longrightarrow> unat (word_of_nat (48 + d) :: code_unit) = 48 + d"
  by (simp add: unat_of_nat del: of_nat_add)

lemma digits_of_show: "\<forall>d\<in>set ds. d < 10 \<Longrightarrow> map (\<lambda>c. unat c - 48) (show_digits ds) = ds"
  unfolding show_digits_def by (induction ds) (simp_all add: digit_unit del: of_nat_add of_nat_numeral)

lemma is_digit_show: "c \<in> set (show_nat n) \<Longrightarrow> is_digit c"
  using digits_bound
  by (fastforce simp: show_nat_def show_digits_def is_digit_def word_le_nat_alt digit_unit simp del: of_nat_add of_nat_numeral)

lemma digits_nat_show [simp]: "digits_nat (show_nat n) = n"
  unfolding digits_nat_def show_nat_def by (subst digits_of_show) (auto dest: digits_bound simp: read_digits_digits)

lemma read_digits_zeros: "read_digits a (replicate z 0) = a * 10 ^ z"
  by (induction z arbitrary: a) simp_all

lemma digits_nat_zeros [simp]:
  "digits_nat (s @ replicate z 0x30) = digits_nat s * 10 ^ z" "digits_nat (0x30 # s) = digits_nat s"
  "digits_nat (replicate z 0x30 @ s) = digits_nat s"
  by (simp_all add: digits_nat_def read_digits_append read_digits_zeros)

lemma show_nat_nonempty [simp]: "show_nat n \<noteq> []"
  by (subst show_nat_def, subst digits.simps) (simp add: show_digits_def)

lemma hd_digits: "0 < n \<Longrightarrow> hd (digits n) \<noteq> 0"
proof (induction n rule: digits.induct)
  case (1 n)
  then show ?case
    by (subst digits.simps, cases "digits (n div 10)") (auto simp: digits.simps [of "n div 10"] split: if_splits)
qed

lemma hd_show_nat:
  assumes "0 < n"
  shows "hd (show_nat n) \<noteq> 0x30"
proof -
  obtain d ds where d: "digits n = d # ds"
    using show_nat_nonempty [of n] unfolding show_nat_def show_digits_def by (cases "digits n") auto
  then have "d < 10" "d \<noteq> 0"
    using digits_bound [of d n] hd_digits [OF assms] by simp_all
  then have "unat (hd (show_nat n)) \<noteq> 48"
    using d by (simp add: show_nat_def show_digits_def digit_unit del: of_nat_add of_nat_numeral)
  then show ?thesis
    by auto
qed

text \<open>What may follow a number.\<close>

definition ends :: "jsstring \<Rightarrow> bool" where
  "ends s \<longleftrightarrow> s = [] \<or> (\<not> is_digit (hd s) \<and> hd s \<noteq> 0x2E \<and> hd s \<noteq> 0x65 \<and> hd s \<noteq> 0x45)"

lemma ends_simps [simp]: "ends []" "ends (0x2C # s)" "ends (0x5D # s)" "ends (0x7D # s)"
  by (simp_all add: ends_def is_digit_def)

definition digits_end :: "jsstring \<Rightarrow> bool" where
  "digits_end s \<longleftrightarrow> s = [] \<or> \<not> is_digit (hd s)"

lemma digits_end_simps [simp]: "digits_end []" "digits_end (0x2E # s)" "digits_end (0x65 # s)" "ends s \<Longrightarrow> digits_end s"
  by (auto simp: digits_end_def is_digit_def ends_def)

lemma digits_stop: "digits_end s \<Longrightarrow> takeWhile is_digit s = []" "digits_end s \<Longrightarrow> dropWhile is_digit s = s"
  by (cases s; simp add: digits_end_def)+

lemma fraction_none: "ends s \<Longrightarrow> parseFraction s = Some ([], s)" "parseFraction (0x65 # s) = Some ([], 0x65 # s)"
  by (auto simp: parseFraction_def ends_def split: list.split)

lemma fraction_some: "\<forall>c\<in>set ds. is_digit c \<Longrightarrow> ds \<noteq> [] \<Longrightarrow> digits_end s \<Longrightarrow> parseFraction (0x2E # ds @ s) = Some (ds, s)"
  by (simp add: parseFraction_def digits_stop)

lemma exponent_none: "ends s \<Longrightarrow> parseExponent s = Some (0, s)"
  by (auto simp: parseExponent_def ends_def split: list.split)

lemma exponent_some:
  assumes "ends s"
  shows "parseExponent (0x65 # (if x < 0 then 0x2D else 0x2B) # show_nat (nat \<bar>x\<bar>) @ s) = Some (x, s)"
  using is_digit_show assms by (simp add: parseExponent_def Let_def digits_stop)

lemma parseUnsigned_parts:
  assumes "\<forall>c\<in>set ip. is_digit c" "ip \<noteq> []" "1 < length ip \<Longrightarrow> hd ip \<noteq> 0x30" "digits_end s"
    "parseFraction s = Some (fp, s')" "parseExponent s' = Some (x, s'')"
  shows "parseUnsigned (ip @ s) = Some (digits_nat (ip @ fp), x - int (length fp), s'')"
  using assms by (auto simp: parseUnsigned_def Let_def digits_stop)

lemma normalized_power: "m mod 10 \<noteq> 0 \<Longrightarrow> normalized (m * 10 ^ z) e = JNum m (e + int z)"
proof (induction z arbitrary: e)
  case 0
  then show ?case
    by (subst normalized.simps) auto
next
  case (Suc z)
  have "m * 10 ^ Suc z = 10 * (m * 10 ^ z)"
    by simp
  moreover have "m * 10 ^ Suc z \<noteq> 0"
    using Suc.prems by auto
  ultimately have "normalized (m * 10 ^ Suc z) e = normalized (m * 10 ^ z) (e + 1)"
    by (subst normalized.simps) simp
  then show ?case
    using Suc by simp
qed

lemma positive_number:
  assumes "0 < m" "ends rest"
  shows "\<exists>z. parseUnsigned (number_text m e @ rest) = Some (nat m * 10 ^ z, e - int z, rest)"
proof -
  define ds where "ds = show_nat (nat m)"
  define k where "k = int (length ds)"
  define n where "n = k + e"
  have ds: "\<forall>c\<in>set ds. is_digit c" "ds \<noteq> []" "hd ds \<noteq> 0x30" "digits_nat ds = nat m"
    using assms(1) is_digit_show hd_show_nat [of "nat m"] by (auto simp: ds_def)
  have k: "0 < k"
    using ds(2) by (simp add: k_def)
  have shown: "number_text m e =
      (if k \<le> n \<and> n \<le> 21 then ds @ replicate (nat (n - k)) 0x30
       else if 0 < n \<and> n \<le> 21 then take (nat n) ds @ [0x2E] @ drop (nat n) ds
       else if -6 < n \<and> n \<le> 0 then [0x30, 0x2E] @ replicate (nat (- n)) 0x30 @ ds
       else take 1 ds @ (if k = 1 then [] else [0x2E] @ drop 1 ds) @ [0x65]
              @ (if n - 1 < 0 then [0x2D] else [0x2B]) @ show_nat (nat \<bar>n - 1\<bar>))"
    using assms(1) by (simp add: number_text_def Let_def ds_def k_def n_def cu_def)
  have zero: "is_digit 0x30"
    by (simp add: is_digit_def)
  consider (whole) "k \<le> n" "n \<le> 21" | (point) "0 < n" "n < k" "n \<le> 21" | (small) "- 6 < n" "n \<le> 0" | (exponent) "n \<le> - 6 \<or> 21 < n"
    by linarith
  then show ?thesis
  proof cases
    case whole
    have "parseUnsigned ((ds @ replicate (nat (n - k)) 0x30) @ rest)
        = Some (digits_nat ((ds @ replicate (nat (n - k)) 0x30) @ []), 0 - int (length ([] :: jsstring)), rest)"
      using ds assms(2) zero by (intro parseUnsigned_parts [OF _ _ _ _ fraction_none(1) exponent_none]) auto
    then show ?thesis
      using whole shown ds(4) by (intro exI [of _ "nat (n - k)"]) (simp add: n_def)
  next
    case point
    have parts: "\<forall>c\<in>set (take (nat n) ds). is_digit c" "\<forall>c\<in>set (drop (nat n) ds). is_digit c"
      using ds(1) by (auto dest: in_set_takeD in_set_dropD)
    have "nat n < length ds" "0 < nat n"
      using point by (auto simp: k_def)
    then have ne: "take (nat n) ds \<noteq> []" "drop (nat n) ds \<noteq> []" "hd (take (nat n) ds) = hd ds"
      by (auto simp: hd_take)
    have "parseUnsigned (take (nat n) ds @ (0x2E # drop (nat n) ds @ rest))
        = Some (digits_nat (take (nat n) ds @ drop (nat n) ds), 0 - int (length (drop (nat n) ds)), rest)"
      using parts ne ds(3) assms(2) by (intro parseUnsigned_parts [OF _ _ _ _ fraction_some exponent_none]) auto
    then show ?thesis
      using point shown ds(4) by (intro exI [of _ 0]) (simp add: n_def k_def nat_add_distrib)
  next
    case small
    have "parseUnsigned ([0x30] @ (0x2E # (replicate (nat (- n)) 0x30 @ ds) @ rest))
        = Some (digits_nat ([0x30] @ (replicate (nat (- n)) 0x30 @ ds)), 0 - int (length (replicate (nat (- n)) (0x30 :: code_unit) @ ds)), rest)"
      using ds assms(2) zero by (intro parseUnsigned_parts [OF _ _ _ _ fraction_some exponent_none]) auto
    moreover have "\<not> 0 \<le> e"
      using small k by (simp add: n_def)
    ultimately show ?thesis
      using small shown ds(4) k by (intro exI [of _ 0]) (simp add: n_def k_def)
  next
    case exponent
    let ?tail = "0x65 # (if n - 1 < 0 then 0x2D else 0x2B) # show_nat (nat \<bar>n - 1\<bar>) @ rest"
    have tail: "parseExponent ?tail = Some (n - 1, rest)"
      by (rule exponent_some [OF assms(2)])
    have first: "take 1 ds = [hd ds]" "drop 1 ds = tl ds"
      using ds(2) by (cases ds; simp)+
    have digits: "is_digit (hd ds)" "\<forall>c\<in>set (tl ds). is_digit c" "hd ds # tl ds = ds"
      using ds(1,2) by (cases ds; simp)+
    show ?thesis
    proof (cases "k = 1")
      case True
      then have "parseUnsigned ([hd ds] @ ?tail) = Some (digits_nat ([hd ds] @ []), (n - 1) - int (length ([] :: jsstring)), rest)"
        using digits tail by (intro parseUnsigned_parts [OF _ _ _ _ fraction_none(2)]) auto
      moreover have "[hd ds] = ds"
        using True ds(2) by (cases ds) (auto simp: k_def)
      ultimately show ?thesis
        using exponent shown ds(4) True first by (intro exI [of _ 0]) (auto simp: n_def)
    next
      case False
      then have "tl ds \<noteq> []"
        using k by (cases ds) (auto simp: k_def)
      then have "parseUnsigned ([hd ds] @ (0x2E # tl ds @ ?tail)) = Some (digits_nat ([hd ds] @ tl ds), (n - 1) - int (length (tl ds)), rest)"
        using digits tail by (intro parseUnsigned_parts [OF _ _ _ _ fraction_some]) auto
      moreover have "int (length (tl ds)) = k - 1"
        using ds(2) by (cases ds) (auto simp: k_def)
      ultimately show ?thesis
        using exponent shown ds(4) False first digits(3) k by (intro exI [of _ 0]) (auto simp: n_def)
    qed
  qed
qed

section \<open>What was written is read back\<close>

text \<open>Values that text stands for: the keys of an object differ, and a number is its shortest decimal.\<close>

fun json_ok :: "json \<Rightarrow> bool" where
  "json_ok JNull = True"
| "json_ok (JBool b) = True"
| "json_ok (JNum m e) = (if m = 0 then e = 0 else m mod 10 \<noteq> 0)"
| "json_ok (JStr s) = True"
| "json_ok (JArr xs) = (\<forall>x\<in>set xs. json_ok x)"
| "json_ok (JObj kvs) = (distinct (map fst kvs) \<and> (\<forall>(k, v)\<in>set kvs. json_ok v))"

lemma number_negative: "m < 0 \<Longrightarrow> number_text m e = 0x2D # number_text (- m) e"
  by (simp add: number_text_def Let_def cu_def)

lemma number_head:
  assumes "0 < m"
  shows "\<exists>c t. number_text m e = c # t \<and> is_digit c"
proof -
  obtain c ds where "show_nat (nat m) = c # ds"
    using show_nat_nonempty by (cases "show_nat (nat m)") auto
  then have "show_nat (nat m) = c # ds" "is_digit c" "is_digit 0x30"
    using is_digit_show [of c "nat m"] by (auto simp: is_digit_def)
  then show ?thesis
    using assms by (cases "nat (1 + int (length ds) + e)") (auto simp: number_text_def Let_def cu_def)
qed

lemma parseNumber_text:
  assumes "json_ok (JNum m e)" "ends rest"
  shows "parseNumber (number_text m e @ rest) = Some (JNum m e, rest)"
proof (cases "m = 0")
  case True
  have "parseUnsigned ([0x30] @ rest) = Some (digits_nat ([0x30] @ []), 0 - int (length ([] :: jsstring)), rest)"
    using assms(2) by (intro parseUnsigned_parts [OF _ _ _ _ fraction_none(1) exponent_none]) (auto simp: is_digit_def)
  then show ?thesis
    using True assms by (simp add: parseNumber_def number_text_def cu_def digits_nat_def normalized.simps)
next
  case False
  have m: "\<bar>m\<bar> mod 10 \<noteq> 0" "m mod 10 \<noteq> 0"
    using assms(1) False by (auto simp: abs_if mod_minus_eq zmod_zminus1_eq_if)
  obtain z where z: "parseUnsigned (number_text \<bar>m\<bar> e @ rest) = Some (nat \<bar>m\<bar> * 10 ^ z, e - int z, rest)"
    using positive_number [of "\<bar>m\<bar>" rest e] False assms(2) by auto
  show ?thesis
  proof (cases "m < 0")
    case True
    have "normalized (- int (nat \<bar>m\<bar> * 10 ^ z)) (e - int z) = JNum m e"
      using normalized_power [OF m(2), of z "e - int z"] True by (simp add: nat_mult_distrib)
    then show ?thesis
      using True z number_negative [OF True, of e] by (simp add: parseNumber_def)
  next
    case False
    then obtain c t where c: "number_text m e = c # t" "is_digit c"
      using number_head [of m e] \<open>m \<noteq> 0\<close> by auto
    have "normalized (int (nat \<bar>m\<bar> * 10 ^ z)) (e - int z) = JNum m e"
      using normalized_power [OF m(2), of z "e - int z"] False by (simp add: nat_mult_distrib)
    then show ?thesis
      using False z c by (auto simp: parseNumber_def is_digit_def)
  qed
qed

lemma update_new: "k \<notin> fst ` set kvs \<Longrightarrow> AList.update k v kvs = kvs @ [(k, v)]"
  by (induction kvs) auto

lemma skip_simps [simp]: "skip [] = []" "skip (c # s) = (if is_ws c then skip s else c # s)"
  by (simp_all add: skip_def)

lemma no_ws [simp]: "\<not> is_ws 0x2C" "\<not> is_ws 0x5D" "\<not> is_ws 0x7D" "\<not> is_ws 0x3A" "\<not> is_ws 0x22" "\<not> is_ws 0x5B"
    "\<not> is_ws 0x7B" "\<not> is_ws 0x6E" "\<not> is_ws 0x74" "\<not> is_ws 0x66" "\<not> is_ws 0x2D"
  by (simp_all add: is_ws_def)

text \<open>The text of a value does not begin like the end of an array or an object.\<close>

lemma stringify_head: "\<exists>c t. stringify v = c # t \<and> \<not> is_ws c \<and> c \<noteq> 0x5D \<and> c \<noteq> 0x7D"
proof (cases v)
  case (JNum m e)
  then show ?thesis
    using number_negative [of m e] number_head [of m e]
    by (cases m "0 :: int" rule: linorder_cases) (auto simp: is_digit_def is_ws_def number_text_def cu_def)
qed (auto simp: cu_def quote_def is_ws_def)

lemma parse_array:
  assumes "\<And>x n rest. x \<in> set (v # vs) \<Longrightarrow> length (stringify x) \<le> n \<Longrightarrow> ends rest \<Longrightarrow> parseValue n (stringify x @ rest) = Some (x, rest)"
    "length (join [0x2C] (map stringify (v # vs))) < n"
  shows "parseElements n (join [0x2C] (map stringify (v # vs)) @ 0x5D # rest) acc = Some (JArr (acc @ v # vs), rest)"
  using assms
proof (induction vs arbitrary: v n acc)
  case Nil
  then obtain k where "n = Suc k" "length (stringify v) \<le> k"
    by (cases n) auto
  then show ?case
    using Nil(1) [of v k "0x5D # rest"] by simp
next
  case (Cons w vs)
  then obtain k where k: "n = Suc k" "length (stringify v) \<le> k" "length (join [0x2C] (map stringify (w # vs))) < k"
    by (cases n) auto
  have "parseElements k (join [0x2C] (map stringify (w # vs)) @ 0x5D # rest) (acc @ [v]) = Some (JArr ((acc @ [v]) @ w # vs), rest)"
    using Cons.prems(1) k(3) by (intro Cons.IH) auto
  then show ?case
    using Cons.prems(1) [of v k "0x2C # join [0x2C] (map stringify (w # vs)) @ 0x5D # rest"] k by simp
qed

definition member_text :: "jsstring \<times> json \<Rightarrow> jsstring" where
  "member_text = (\<lambda>(k, v). quote k @ [0x3A] @ stringify v)"

lemma parse_object:
  assumes "\<And>k v n rest. (k, v) \<in> set (kv # kvs) \<Longrightarrow> length (stringify v) \<le> n \<Longrightarrow> ends rest \<Longrightarrow> parseValue n (stringify v @ rest) = Some (v, rest)"
    "length (join [0x2C] (map member_text (kv # kvs))) < n" "distinct (map fst (acc @ kv # kvs))"
  shows "parseMembers n (join [0x2C] (map member_text (kv # kvs)) @ 0x7D # rest) acc = Some (JObj (acc @ kv # kvs), rest)"
  using assms
proof (induction kvs arbitrary: kv n acc)
  case Nil
  obtain k v where kv: "kv = (k, v)"
    by fastforce
  obtain j where "n = Suc j" "length (stringify v) \<le> j"
    using Nil.prems(2) kv by (cases n) (auto simp: member_text_def quote_def)
  then show ?case
    using Nil.prems(1) [of k v j "0x7D # rest"] Nil.prems(3) kv
    by (auto simp: member_text_def quote_def unescape_escape update_new)
next
  case (Cons w kvs)
  obtain k v where kv: "kv = (k, v)"
    by fastforce
  obtain j where j: "n = Suc j" "length (stringify v) \<le> j" "length (join [0x2C] (map member_text (w # kvs))) < j"
    using Cons.prems(2) kv by (cases n) (auto simp: member_text_def quote_def)
  have "parseMembers j (join [0x2C] (map member_text (w # kvs)) @ 0x7D # rest) (acc @ [(k, v)])
      = Some (JObj ((acc @ [(k, v)]) @ w # kvs), rest)"
    using Cons.prems j(3) kv by (intro Cons.IH) auto
  moreover have "k \<notin> fst ` set acc"
    using Cons.prems(3) kv by auto
  ultimately show ?case
    using Cons.prems(1) [of k v j "0x2C # join [0x2C] (map member_text (w # kvs)) @ 0x7D # rest"] j kv
    by (simp add: member_text_def quote_def unescape_escape update_new)
qed

lemma parse_stringify:
  "json_ok v \<Longrightarrow> length (stringify v) \<le> n \<Longrightarrow> ends rest \<Longrightarrow> parseValue n (stringify v @ rest) = Some (v, rest)"
proof (induction v arbitrary: n rest rule: stringify.induct)
  case 1
  then show ?case
    by (cases n) (simp_all add: cu_def literal_def startsWith_def)
next
  case (2 b)
  then show ?case
    by (cases n; cases b) (simp_all add: cu_def literal_def startsWith_def)
next
  case (3 m e)
  obtain c t where c: "number_text m e = c # t" "c = 0x2D \<or> is_digit c"
    using number_negative [of m e] number_head [of m e]
    by (cases m "0 :: int" rule: linorder_cases) (auto simp: is_digit_def number_text_def cu_def)
  then have "\<not> is_ws c" "c \<noteq> 0x22" "c \<noteq> 0x5B" "c \<noteq> 0x7B" "c \<noteq> 0x6E" "c \<noteq> 0x74" "c \<noteq> 0x66"
    by (auto simp: is_digit_def is_ws_def)
  then show ?case
    using 3 c parseNumber_text [of m e rest] by (cases n) auto
next
  case (4 s)
  then show ?case
    by (cases n) (simp_all add: quote_def unescape_escape)
next
  case (5 xs)
  obtain k where k: "n = Suc k" "length (join [0x2C] (map stringify xs)) < k"
    using 5(3) by (cases n) (auto simp: cu_def)
  show ?case
  proof (cases xs)
    case Nil
    then show ?thesis
      using k by (simp add: cu_def)
  next
    case (Cons x ys)
    have "parseElements k (join [0x2C] (map stringify (x # ys)) @ 0x5D # rest) [] = Some (JArr ([] @ x # ys), rest)"
      using 5(1,2) k(2) Cons by (intro parse_array) auto
    moreover obtain c t where "stringify x = c # t" "\<not> is_ws c" "c \<noteq> 0x5D"
      using stringify_head by blast
    ultimately show ?thesis
      using k Cons by (cases ys) (auto simp: cu_def)
  qed
next
  case (6 kvs)
  have shown: "stringify (JObj kvs) = [0x7B] @ join [0x2C] (map member_text kvs) @ [0x7D]"
    by (simp add: cu_def member_text_def case_prod_unfold)
  obtain k where k: "n = Suc k" "length (join [0x2C] (map member_text kvs)) < k"
    using 6(3) unfolding shown by (cases n) auto
  show ?case
  proof (cases kvs)
    case Nil
    then show ?thesis
      unfolding shown using k by simp
  next
    case (Cons x ys)
    have "parseMembers k (join [0x2C] (map member_text (x # ys)) @ 0x7D # rest) [] = Some (JObj ([] @ x # ys), rest)"
      using 6(1,2) k(2) Cons by (intro parse_object) fastforce+
    moreover have "\<exists>t. join [0x2C] (map member_text (x # ys)) = 0x22 # t"
      by (cases ys) (simp_all add: member_text_def quote_def case_prod_unfold)
    ultimately show ?thesis
      unfolding shown using k Cons by auto
  qed
qed

lemma json_parse_stringify: "json_ok v \<Longrightarrow> json_parse (stringify v) = Some v"
  using parse_stringify [of v "Suc (length (stringify v))" "[]"] by (simp add: json_parse_def)

section \<open>The fuel is enough\<close>

lemma unescape_rest: "unescape s = Some (x, r) \<Longrightarrow> length r < length s"
  by (induction s arbitrary: x r rule: unescape.induct)
    (force simp: bind_eq_Some_conv split: if_splits list.splits)+

lemma skip_rest: "length (skip s) \<le> length s"
  by (simp add: skip_def length_dropWhile_le)

lemma fraction_rest: "parseFraction s = Some (x, r) \<Longrightarrow> length r \<le> length s"
  using length_dropWhile_le [of is_digit "tl s"]
  by (auto simp: parseFraction_def split: list.splits if_splits)

lemma exponent_rest: "parseExponent s = Some (x, r) \<Longrightarrow> length r \<le> length s"
  using length_dropWhile_le [of is_digit "tl s"] length_dropWhile_le [of is_digit "tl (tl s)"]
  by (auto simp: parseExponent_def Let_def split: list.splits if_splits)

lemma unsigned_rest: "parseUnsigned s = Some (m, e, r) \<Longrightarrow> length r < length s"
proof -
  assume a: "parseUnsigned s = Some (m, e, r)"
  then obtain fp s' x where p: "takeWhile is_digit s \<noteq> []" "parseFraction (dropWhile is_digit s) = Some (fp, s')"
      "parseExponent s' = Some (x, r)"
    by (auto simp: parseUnsigned_def Let_def bind_eq_Some_conv split: if_splits)
  have "length s = length (takeWhile is_digit s) + length (dropWhile is_digit s)"
    by (metis length_append takeWhile_dropWhile_id)
  then show "length r < length s"
    using p fraction_rest [OF p(2)] exponent_rest [OF p(3)] by (cases "takeWhile is_digit s") auto
qed

lemma number_rest: "parseNumber s = Some (v, r) \<Longrightarrow> length r < length s"
  by (auto simp: parseNumber_def split: if_splits dest!: unsigned_rest)

lemma literal_rest: "literal w v s = Some (x, r) \<Longrightarrow> w \<noteq> [] \<Longrightarrow> s \<noteq> [] \<Longrightarrow> length r < length s"
  by (auto simp: literal_def split: if_splits)

lemma taken_head: "take 1 s = [c] \<longleftrightarrow> (\<exists>t. s = c # t)"
  by (cases s) auto

lemma parse_needs:
  "parseValue m s = Some (v, r) \<Longrightarrow> length r < length s \<and> (\<forall>n\<ge>length s - length r. parseValue n s = Some (v, r))"
  "parseElements m s vs = Some (v, r) \<Longrightarrow> length r < length s \<and> (\<forall>n\<ge>length s - length r. parseElements n s vs = Some (v, r))"
  "parseMembers m s kvs = Some (v, r) \<Longrightarrow> length r < length s \<and> (\<forall>n\<ge>length s - length r. parseMembers n s kvs = Some (v, r))"
proof (induction m s and m s vs and m s kvs arbitrary: v r and v r and v r
    rule: parseValue_parseElements_parseMembers.induct)
  case (2 n s)
  then obtain c t where c: "skip s = c # t"
    by (auto split: list.splits)
  then have t: "length t < length s"
    using skip_rest [of s] by simp
  consider (inner) "c = 0x5B" "take 1 (skip t) \<noteq> [0x5D]" | (members) "c = 0x7B" "take 1 (skip t) \<noteq> [0x7D]"
    | (leaf) "\<not> (c = 0x5B \<and> take 1 (skip t) \<noteq> [0x5D])" "\<not> (c = 0x7B \<and> take 1 (skip t) \<noteq> [0x7D])"
    by blast
  then show ?case
  proof cases
    case inner
    then have "parseElements n t [] = Some (v, r)"
      using 2(3) c by simp
    then have i: "length r < length t" "\<And>k. k \<ge> length t - length r \<Longrightarrow> parseElements k t [] = Some (v, r)"
      using 2(1) [OF c] inner by fastforce+
    show ?thesis
    proof (intro conjI allI impI)
      show "length r < length s" using i(1) t by simp
      fix k assume "length s - length r \<le> k"
      then obtain j where "k = Suc j" "length t - length r \<le> j"
        using i(1) t by (cases k) auto
      then show "parseValue k s = Some (v, r)"
        using i(2) inner c by simp
    qed
  next
    case members
    then have "parseMembers n t [] = Some (v, r)"
      using 2(3) c by simp
    then have i: "length r < length t" "\<And>k. k \<ge> length t - length r \<Longrightarrow> parseMembers k t [] = Some (v, r)"
      using 2(2) [OF c] members by fastforce+
    show ?thesis
    proof (intro conjI allI impI)
      show "length r < length s" using i(1) t by simp
      fix k assume "length s - length r \<le> k"
      then obtain j where "k = Suc j" "length t - length r \<le> j"
        using i(1) t by (cases k) auto
      then show "parseValue k s = Some (v, r)"
        using i(2) members c by simp
    qed
  next
    case leaf
    have same: "parseValue (Suc k) s = parseValue (Suc n) s" for k
      using leaf c by auto
    have "length r < length s"
      using 2(3) leaf c t skip_rest [of t]
      by (auto simp: taken_head split: if_splits dest!: unescape_rest number_rest literal_rest)
    then show ?thesis
      using 2(3) same by (metis Suc_pred le_zero_eq not_gr_zero zero_less_diff)
  qed
next
  case (4 n s vs)
  obtain x s1 where x: "parseValue n s = Some (x, s1)"
    using 4(3) by (auto simp: bind_eq_Some_conv)
  then obtain c t where c: "skip s1 = c # t"
    using 4(3) by (auto split: list.splits)
  have i: "length s1 < length s" "\<And>k. k \<ge> length s - length s1 \<Longrightarrow> parseValue k s = Some (x, s1)"
    using 4(1) [OF x] by blast+
  have t: "length t < length s1"
    using c skip_rest [of s1] by simp
  show ?case
  proof (cases "c = 0x2C")
    case True
    then have "parseElements n t (vs @ [x]) = Some (v, r)"
      using 4(3) x c by simp
    then have e: "length r < length t" "\<And>k. k \<ge> length t - length r \<Longrightarrow> parseElements k t (vs @ [x]) = Some (v, r)"
      using 4(2) [OF x refl c True] by blast+
    show ?thesis
    proof (intro conjI allI impI)
      show "length r < length s" using i(1) t e(1) by simp
      fix k assume "length s - length r \<le> k"
      then obtain j where "k = Suc j" "length t - length r \<le> j" "length s - length s1 \<le> j"
        using i(1) t e(1) by (cases k) auto
      then show "parseElements k s vs = Some (v, r)"
        using i(2) e(2) c True by simp
    qed
  next
    case False
    then have r: "r = t" "c = 0x5D" "v = JArr (vs @ [x])"
      using 4(3) x c by (auto split: if_splits)
    show ?thesis
    proof (intro conjI allI impI)
      show "length r < length s" using i(1) t r by simp
      fix k assume "length s - length r \<le> k"
      then obtain j where "k = Suc j" "length s - length s1 \<le> j"
        using i(1) t r by (cases k) auto
      then show "parseElements k s vs = Some (v, r)"
        using i(2) c r by simp
    qed
  qed
next
  case (6 n s kvs)
  obtain t where t: "skip s = 0x22 # t"
    using 6(3) by (auto split: list.splits if_splits)
  obtain key s0 where key: "unescape t = Some (key, s0)"
    using 6(3) t by (auto simp: bind_eq_Some_conv)
  obtain s1 where s1: "skip s0 = 0x3A # s1"
    using 6(3) t key by (cases "skip s0") (auto split: if_splits)
  obtain x s2 where x: "parseValue n s1 = Some (x, s2)"
    using 6(3) t key s1 by (auto simp: bind_eq_Some_conv)
  have x': "parseValue n (drop 1 (skip s0)) = Some (x, s2)" and colon: "\<not> take 1 (skip s0) \<noteq> [0x3A]" "\<not> (0x22 :: code_unit) \<noteq> 0x22"
    using x s1 by simp_all
  obtain c u where c: "skip s2 = c # u"
    using 6(3) t key s1 x by (auto split: list.splits)
  have short: "length t < length s" "length s0 < length t" "length s1 < length s0" "length u < length s2"
    using t skip_rest [of s] unescape_rest [OF key] s1 skip_rest [of s0] c skip_rest [of s2] by simp_all
  have i: "length s2 < length s1" "\<And>k. k \<ge> length s1 - length s2 \<Longrightarrow> parseValue k s1 = Some (x, s2)"
    using 6(1) [OF t _ key refl _ x'] colon s1 by auto
  show ?case
  proof (cases "c = 0x2C")
    case True
    then have "parseMembers n u (AList.update key x kvs) = Some (v, r)"
      using 6(3) t key s1 x c by simp
    then have e: "length r < length u" "\<And>k. k \<ge> length u - length r \<Longrightarrow> parseMembers k u (AList.update key x kvs) = Some (v, r)"
      using 6(2) [OF t _ key refl _ x' refl c True] colon by blast+
    show ?thesis
    proof (intro conjI allI impI)
      show "length r < length s" using i(1) short e(1) by simp
      fix k assume "length s - length r \<le> k"
      then obtain j where "k = Suc j" "length u - length r \<le> j" "length s1 - length s2 \<le> j"
        using i(1) short e(1) by (cases k) auto
      then show "parseMembers k s kvs = Some (v, r)"
        using i(2) e(2) t key s1 c True by simp
    qed
  next
    case False
    then have r: "r = u" "c = 0x7D" "v = JObj (AList.update key x kvs)"
      using 6(3) t key s1 x c by (auto split: if_splits)
    show ?thesis
    proof (intro conjI allI impI)
      show "length r < length s" using i(1) short r by simp
      fix k assume "length s - length r \<le> k"
      then obtain j where "k = Suc j" "length s1 - length s2 \<le> j"
        using i(1) short r by (cases k) auto
      then show "parseMembers k s kvs = Some (v, r)"
        using i(2) t key s1 c r by simp
    qed
  qed
qed simp_all

lemma parse_fuel: "parseValue (Suc (length s)) s = Some x \<longleftrightarrow> (\<exists>m. parseValue m s = Some x)"
proof
  assume "\<exists>m. parseValue m s = Some x"
  then obtain m where "parseValue m s = Some (fst x, snd x)"
    by auto
  then show "parseValue (Suc (length s)) s = Some x"
    using parse_needs(1) [of m s "fst x" "snd x"] by (simp del: parseValue.simps)
qed blast

end
