(* ===== verification/EntryJson.thy ===== *)
theory EntryJson
  imports SessionTypes JsonParse
begin

text \<open>
  The JSON of messages and session entries (\<open>packages/ai/src/types.ts\<close>,
  \<open>packages/agent/src/harness/messages.ts\<close>, \<open>packages/agent/src/harness/types.ts\<close>): the object that
  \<open>JSON.stringify\<close> prints for an entry, with its keys in the order the session builds it, and the
  typed view of an object read from a file. A field that is \<open>undefined\<close> is not printed. The fields
  the model of an entry leaves out (costs, provider signatures) are not printed either.
\<close>

section \<open>Fields of objects\<close>

definition key :: "string \<Rightarrow> jsstring" where
  "key s = js s"

definition tag :: "string \<Rightarrow> json" where
  "tag s = JStr (key s)"

type_synonym fields = "(jsstring \<times> json) list"

definition req :: "string \<Rightarrow> json \<Rightarrow> fields" where
  "req k v = [(key k, v)]"

definition opt :: "string \<Rightarrow> ('a \<Rightarrow> json) \<Rightarrow> 'a option \<Rightarrow> fields" where
  "opt k f x = (case x of None \<Rightarrow> [] | Some v \<Rightarrow> [(key k, f v)])"

text \<open>A property read: \<open>None\<close> is \<open>undefined\<close>. Arrays and primitive values have none of the keys read here.\<close>

definition get :: "string \<Rightarrow> json \<Rightarrow> json option" where
  "get k v = (case v of JObj kvs \<Rightarrow> map_of kvs (key k) | _ \<Rightarrow> None)"

definition need :: "string \<Rightarrow> (json \<Rightarrow> 'a option) \<Rightarrow> json \<Rightarrow> 'a option" where
  "need k f v = Option.bind (get k v) f"

definition may :: "string \<Rightarrow> (json \<Rightarrow> 'a option) \<Rightarrow> json \<Rightarrow> 'a option option" where
  "may k f v = (case get k v of None \<Rightarrow> Some None | Some x \<Rightarrow> map_option Some (f x))"

definition int_json :: "int \<Rightarrow> json" where
  "int_json n = normalized n 0"

definition null_or :: "('a \<Rightarrow> json) \<Rightarrow> 'a option \<Rightarrow> json" where
  "null_or f x = (case x of None \<Rightarrow> JNull | Some v \<Rightarrow> f v)"

fun as_str :: "json \<Rightarrow> jsstring option" where
  "as_str (JStr s) = Some s" | "as_str _ = None"

fun as_bool :: "json \<Rightarrow> bool option" where
  "as_bool (JBool b) = Some b" | "as_bool _ = None"

fun as_int :: "json \<Rightarrow> int option" where
  "as_int (JNum m e) = (if 0 \<le> e then Some (m * 10 ^ nat e) else None)" | "as_int _ = None"

fun as_fields :: "json \<Rightarrow> fields option" where
  "as_fields (JObj kvs) = Some kvs" | "as_fields _ = None"

definition as_list :: "(json \<Rightarrow> 'a option) \<Rightarrow> json \<Rightarrow> 'a list option" where
  "as_list f v = (case v of JArr xs \<Rightarrow> those (map f xs) | _ \<Rightarrow> None)"

definition as_null_or :: "(json \<Rightarrow> 'a option) \<Rightarrow> json \<Rightarrow> 'a option option" where
  "as_null_or f v = (if v = JNull then Some None else map_option Some (f v))"

definition is_tag :: "string \<Rightarrow> string \<Rightarrow> json \<Rightarrow> bool" where
  "is_tag k t v \<longleftrightarrow> get k v = Some (tag t)"

section \<open>Messages\<close>

fun block_json :: "block \<Rightarrow> json" where
  "block_json (TextBlock s) = JObj (req ''type'' (tag ''text'') @ req ''text'' (JStr s))"
| "block_json (ImageBlock d m) = JObj (req ''type'' (tag ''image'') @ req ''data'' (JStr d) @ req ''mimeType'' (JStr m))"
| "block_json (ThinkingBlock s) = JObj (req ''type'' (tag ''thinking'') @ req ''thinking'' (JStr s))"
| "block_json (ToolCallBlock i n args) = JObj (req ''type'' (tag ''toolCall'') @ req ''id'' (JStr i)
     @ req ''name'' (JStr n) @ req ''arguments'' (JObj args))"

definition block_of :: "json \<Rightarrow> block option" where
  "block_of v =
     (if is_tag ''type'' ''text'' v then map_option TextBlock (need ''text'' as_str v)
      else if is_tag ''type'' ''image'' v then
        Option.bind (need ''data'' as_str v) (\<lambda>d. map_option (ImageBlock d) (need ''mimeType'' as_str v))
      else if is_tag ''type'' ''thinking'' v then map_option ThinkingBlock (need ''thinking'' as_str v)
      else if is_tag ''type'' ''toolCall'' v then
        Option.bind (need ''id'' as_str v) (\<lambda>i. Option.bind (need ''name'' as_str v) (\<lambda>n.
          map_option (ToolCallBlock i n) (need ''arguments'' as_fields v)))
      else None)"

definition blocks_json :: "block list \<Rightarrow> json" where
  "blocks_json bs = JArr (map block_json bs)"

definition blocks_of :: "json \<Rightarrow> block list option" where
  "blocks_of = as_list block_of"

fun content_json :: "content \<Rightarrow> json" where
  "content_json (TextContent s) = JStr s"
| "content_json (BlockContent bs) = blocks_json bs"

definition content_of :: "json \<Rightarrow> content option" where
  "content_of v = (case v of JStr s \<Rightarrow> Some (TextContent s) | _ \<Rightarrow> map_option BlockContent (blocks_of v))"

definition strings_json :: "jsstring list \<Rightarrow> json" where
  "strings_json ss = JArr (map JStr ss)"

definition usage_json :: "usage \<Rightarrow> json" where
  "usage_json u = JObj (req ''input'' (int_json (u_input u)) @ req ''output'' (int_json (u_output u))
     @ req ''cacheRead'' (int_json (u_cacheRead u)) @ req ''cacheWrite'' (int_json (u_cacheWrite u))
     @ opt ''cacheWrite1h'' int_json (u_cacheWrite1h u) @ opt ''reasoning'' int_json (u_reasoning u)
     @ req ''totalTokens'' (int_json (u_totalTokens u)))"

definition usage_of :: "json \<Rightarrow> usage option" where
  "usage_of v =
     Option.bind (need ''input'' as_int v) (\<lambda>i. Option.bind (need ''output'' as_int v) (\<lambda>out.
     Option.bind (need ''cacheRead'' as_int v) (\<lambda>cr. Option.bind (need ''cacheWrite'' as_int v) (\<lambda>cw.
     Option.bind (may ''cacheWrite1h'' as_int v) (\<lambda>cw1. Option.bind (may ''reasoning'' as_int v) (\<lambda>re.
     Option.bind (need ''totalTokens'' as_int v) (\<lambda>tot.
       Some \<lparr>u_input = i, u_output = out, u_cacheRead = cr, u_cacheWrite = cw, u_cacheWrite1h = cw1,
         u_reasoning = re, u_totalTokens = tot\<rparr>)))))))"

fun stop_json :: "stop_reason \<Rightarrow> json" where
  "stop_json Pending = tag ''pending''" | "stop_json Stop = tag ''stop''" | "stop_json Length = tag ''length''"
| "stop_json ToolUse = tag ''toolUse''" | "stop_json StopError = tag ''error''" | "stop_json Aborted = tag ''aborted''"

definition stop_of :: "json \<Rightarrow> stop_reason option" where
  "stop_of v = List.find (\<lambda>r. stop_json r = v) [Pending, Stop, Length, ToolUse, StopError, Aborted]"

fun message_json :: "message \<Rightarrow> json" where
  "message_json (UserMessage c t) = JObj (req ''role'' (tag ''user'') @ req ''content'' (content_json c)
     @ req ''timestamp'' (int_json t))"
| "message_json (AssistantMessage a) = JObj (req ''role'' (tag ''assistant'') @ req ''content'' (blocks_json (a_content a))
     @ req ''provider'' (JStr (a_provider a)) @ req ''model'' (JStr (a_model a)) @ opt ''usage'' usage_json (a_usage a)
     @ req ''stopReason'' (stop_json (a_stopReason a)) @ opt ''errorMessage'' JStr (a_errorMessage a)
     @ req ''timestamp'' (int_json (a_timestamp a)))"
| "message_json (ToolResultMessage r) = JObj (req ''role'' (tag ''toolResult'') @ req ''toolCallId'' (JStr (tr_toolCallId r))
     @ req ''toolName'' (JStr (tr_toolName r)) @ req ''content'' (blocks_json (tr_content r))
     @ opt ''details'' id (tr_details r) @ opt ''usage'' usage_json (tr_usage r)
     @ opt ''addedToolNames'' strings_json (tr_addedToolNames r) @ req ''isError'' (JBool (tr_isError r))
     @ req ''timestamp'' (int_json (tr_timestamp r)))"
| "message_json (BashExecution b) = JObj (req ''role'' (tag ''bashExecution'') @ req ''command'' (JStr (b_command b))
     @ req ''output'' (JStr (b_output b)) @ opt ''exitCode'' int_json (b_exitCode b)
     @ req ''cancelled'' (JBool (b_cancelled b)) @ req ''truncated'' (JBool (b_truncated b))
     @ opt ''fullOutputPath'' JStr (b_fullOutputPath b) @ req ''timestamp'' (int_json (b_timestamp b))
     @ opt ''excludeFromContext'' JBool (if b_excludeFromContext b then Some True else None))"
| "message_json (CustomMessage c) = JObj (req ''role'' (tag ''custom'') @ req ''customType'' (JStr (c_customType c))
     @ req ''content'' (content_json (c_content c)) @ req ''display'' (JBool (c_display c))
     @ opt ''details'' id (c_details c) @ req ''timestamp'' (null_or int_json (c_timestamp c)))"
| "message_json (BranchSummary summary fromId t) = JObj (req ''role'' (tag ''branchSummary'') @ req ''summary'' (JStr summary)
     @ req ''fromId'' (JStr fromId) @ req ''timestamp'' (null_or int_json t))"
| "message_json (CompactionSummary summary tokens t) = JObj (req ''role'' (tag ''compactionSummary'')
     @ req ''summary'' (JStr summary) @ req ''tokensBefore'' (int_json tokens) @ req ''timestamp'' (null_or int_json t))"

definition assistant_of :: "json \<Rightarrow> assistant option" where
  "assistant_of v =
     Option.bind (need ''content'' blocks_of v) (\<lambda>c. Option.bind (need ''provider'' as_str v) (\<lambda>p.
     Option.bind (need ''model'' as_str v) (\<lambda>m. Option.bind (may ''usage'' usage_of v) (\<lambda>u.
     Option.bind (need ''stopReason'' stop_of v) (\<lambda>s. Option.bind (may ''errorMessage'' as_str v) (\<lambda>e.
     Option.bind (need ''timestamp'' as_int v) (\<lambda>t.
       Some \<lparr>a_content = c, a_provider = p, a_model = m, a_usage = u, a_stopReason = s, a_errorMessage = e,
         a_timestamp = t\<rparr>)))))))"

definition tool_result_of :: "json \<Rightarrow> tool_result option" where
  "tool_result_of v =
     Option.bind (need ''toolCallId'' as_str v) (\<lambda>i. Option.bind (need ''toolName'' as_str v) (\<lambda>n.
     Option.bind (need ''content'' blocks_of v) (\<lambda>c. Option.bind (may ''details'' Some v) (\<lambda>d.
     Option.bind (may ''usage'' usage_of v) (\<lambda>u. Option.bind (may ''addedToolNames'' (as_list as_str) v) (\<lambda>a.
     Option.bind (need ''isError'' as_bool v) (\<lambda>e. Option.bind (need ''timestamp'' as_int v) (\<lambda>t.
       Some \<lparr>tr_toolCallId = i, tr_toolName = n, tr_content = c, tr_details = d, tr_usage = u,
         tr_addedToolNames = a, tr_isError = e, tr_timestamp = t\<rparr>))))))))"

definition bash_of :: "json \<Rightarrow> bash_execution option" where
  "bash_of v =
     Option.bind (need ''command'' as_str v) (\<lambda>c. Option.bind (need ''output'' as_str v) (\<lambda>out.
     Option.bind (may ''exitCode'' as_int v) (\<lambda>x. Option.bind (need ''cancelled'' as_bool v) (\<lambda>ca.
     Option.bind (need ''truncated'' as_bool v) (\<lambda>tr. Option.bind (may ''fullOutputPath'' as_str v) (\<lambda>f.
     Option.bind (need ''timestamp'' as_int v) (\<lambda>t. Option.bind (may ''excludeFromContext'' as_bool v) (\<lambda>ex.
       Some \<lparr>b_command = c, b_output = out, b_exitCode = x, b_cancelled = ca, b_truncated = tr,
         b_fullOutputPath = f, b_timestamp = t, b_excludeFromContext = (ex = Some True)\<rparr>))))))))"

definition custom_of :: "json \<Rightarrow> custom_message option" where
  "custom_of v =
     Option.bind (need ''customType'' as_str v) (\<lambda>ct. Option.bind (need ''content'' content_of v) (\<lambda>c.
     Option.bind (need ''display'' as_bool v) (\<lambda>d. Option.bind (may ''details'' Some v) (\<lambda>x.
     Option.bind (need ''timestamp'' (as_null_or as_int) v) (\<lambda>t.
       Some \<lparr>c_customType = ct, c_content = c, c_display = d, c_details = x, c_timestamp = t\<rparr>)))))"

definition message_of :: "json \<Rightarrow> message option" where
  "message_of v =
     (if is_tag ''role'' ''user'' v then
        Option.bind (need ''content'' content_of v) (\<lambda>c. map_option (UserMessage c) (need ''timestamp'' as_int v))
      else if is_tag ''role'' ''assistant'' v then map_option AssistantMessage (assistant_of v)
      else if is_tag ''role'' ''toolResult'' v then map_option ToolResultMessage (tool_result_of v)
      else if is_tag ''role'' ''bashExecution'' v then map_option BashExecution (bash_of v)
      else if is_tag ''role'' ''custom'' v then map_option CustomMessage (custom_of v)
      else if is_tag ''role'' ''branchSummary'' v then
        Option.bind (need ''summary'' as_str v) (\<lambda>s. Option.bind (need ''fromId'' as_str v) (\<lambda>f.
          map_option (BranchSummary s f) (need ''timestamp'' (as_null_or as_int) v)))
      else if is_tag ''role'' ''compactionSummary'' v then
        Option.bind (need ''summary'' as_str v) (\<lambda>s. Option.bind (need ''tokensBefore'' as_int v) (\<lambda>n.
          map_option (CompactionSummary s n) (need ''timestamp'' (as_null_or as_int) v)))
      else None)"

section \<open>Entries\<close>

fun body_json :: "entry_body \<Rightarrow> fields" where
  "body_json (MessageEntry m) = req ''type'' (tag ''message'') @ req ''message'' (message_json m)"
| "body_json (ThinkingLevelChange l) = req ''type'' (tag ''thinking_level_change'') @ req ''thinkingLevel'' (JStr l)"
| "body_json (ModelChange p m) = req ''type'' (tag ''model_change'') @ req ''provider'' (JStr p) @ req ''modelId'' (JStr m)"
| "body_json (ActiveToolsChange ns) = req ''type'' (tag ''active_tools_change'') @ req ''activeToolNames'' (strings_json ns)"
| "body_json (CompactionEntry k) = req ''type'' (tag ''compaction'') @ req ''summary'' (JStr (k_summary k))
     @ opt ''firstKeptEntryId'' JStr (k_firstKeptEntryId k) @ req ''tokensBefore'' (int_json (k_tokensBefore k))
     @ opt ''retainedTail'' (\<lambda>ms. JArr (map message_json ms)) (k_retainedTail k) @ opt ''details'' id (k_details k)
     @ opt ''usage'' usage_json (k_usage k) @ opt ''fromHook'' JBool (k_fromHook k)"
| "body_json (BranchSummaryEntry s) = req ''type'' (tag ''branch_summary'') @ req ''fromId'' (JStr (s_fromId s))
     @ req ''summary'' (JStr (s_summary s)) @ opt ''details'' id (s_details s) @ opt ''usage'' usage_json (s_usage s)
     @ opt ''fromHook'' JBool (s_fromHook s)"
| "body_json (CustomEntry t d) = req ''type'' (tag ''custom'') @ req ''customType'' (JStr t) @ opt ''data'' id d"
| "body_json (CustomMessageEntry t c disp d) = req ''type'' (tag ''custom_message'') @ req ''customType'' (JStr t)
     @ req ''content'' (content_json c) @ req ''display'' (JBool disp) @ opt ''details'' id d"
| "body_json (LabelEntry t l) = req ''type'' (tag ''label'') @ req ''targetId'' (JStr t) @ opt ''label'' JStr l"
| "body_json (SessionInfo n) = req ''type'' (tag ''session_info'') @ opt ''name'' JStr n"
| "body_json (LeafEntry t) = req ''type'' (tag ''leaf'') @ req ''targetId'' (null_or JStr t)"

definition entry_json :: "entry \<Rightarrow> json" where
  "entry_json e = JObj (req ''id'' (JStr (e_id e)) @ req ''parentId'' (null_or JStr (e_parentId e))
     @ req ''timestamp'' (JStr (e_timestamp e)) @ body_json (e_body e))"

definition compaction_of :: "json \<Rightarrow> compaction option" where
  "compaction_of v =
     Option.bind (need ''summary'' as_str v) (\<lambda>s. Option.bind (may ''firstKeptEntryId'' as_str v) (\<lambda>f.
     Option.bind (need ''tokensBefore'' as_int v) (\<lambda>n. Option.bind (may ''retainedTail'' (as_list message_of) v) (\<lambda>r.
     Option.bind (may ''details'' Some v) (\<lambda>d. Option.bind (may ''usage'' usage_of v) (\<lambda>u.
     Option.bind (may ''fromHook'' as_bool v) (\<lambda>h.
       Some \<lparr>k_summary = s, k_firstKeptEntryId = f, k_tokensBefore = n, k_retainedTail = r, k_details = d,
         k_usage = u, k_fromHook = h\<rparr>)))))))"

definition branch_summary_of :: "json \<Rightarrow> branch_summary option" where
  "branch_summary_of v =
     Option.bind (need ''fromId'' as_str v) (\<lambda>f. Option.bind (need ''summary'' as_str v) (\<lambda>s.
     Option.bind (may ''details'' Some v) (\<lambda>d. Option.bind (may ''usage'' usage_of v) (\<lambda>u.
     Option.bind (may ''fromHook'' as_bool v) (\<lambda>h.
       Some \<lparr>s_fromId = f, s_summary = s, s_details = d, s_usage = u, s_fromHook = h\<rparr>)))))"

definition body_of :: "json \<Rightarrow> entry_body option" where
  "body_of v =
     (if is_tag ''type'' ''message'' v then map_option MessageEntry (need ''message'' message_of v)
      else if is_tag ''type'' ''thinking_level_change'' v then map_option ThinkingLevelChange (need ''thinkingLevel'' as_str v)
      else if is_tag ''type'' ''model_change'' v then
        Option.bind (need ''provider'' as_str v) (\<lambda>p. map_option (ModelChange p) (need ''modelId'' as_str v))
      else if is_tag ''type'' ''active_tools_change'' v then
        map_option ActiveToolsChange (need ''activeToolNames'' (as_list as_str) v)
      else if is_tag ''type'' ''compaction'' v then map_option CompactionEntry (compaction_of v)
      else if is_tag ''type'' ''branch_summary'' v then map_option BranchSummaryEntry (branch_summary_of v)
      else if is_tag ''type'' ''custom'' v then
        Option.bind (need ''customType'' as_str v) (\<lambda>t. map_option (CustomEntry t) (may ''data'' Some v))
      else if is_tag ''type'' ''custom_message'' v then
        Option.bind (need ''customType'' as_str v) (\<lambda>t. Option.bind (need ''content'' content_of v) (\<lambda>c.
          Option.bind (need ''display'' as_bool v) (\<lambda>disp. map_option (CustomMessageEntry t c disp) (may ''details'' Some v))))
      else if is_tag ''type'' ''label'' v then
        Option.bind (need ''targetId'' as_str v) (\<lambda>t. map_option (LabelEntry t) (may ''label'' as_str v))
      else if is_tag ''type'' ''session_info'' v then map_option SessionInfo (may ''name'' as_str v)
      else if is_tag ''type'' ''leaf'' v then map_option LeafEntry (need ''targetId'' (as_null_or as_str) v)
      else None)"

text \<open>
  The code takes an object whose four base fields it checked as an entry without looking further.
  An object of another type, or without the fields of its type, is seen as a custom entry of that
  type that holds the object.
\<close>

definition view :: "jsstring \<Rightarrow> jsstring \<Rightarrow> jsstring option \<Rightarrow> jsstring \<Rightarrow> json \<Rightarrow> entry" where
  "view ty i parent t v = \<lparr>e_id = i, e_parentId = parent, e_timestamp = t,
     e_body = (case body_of v of Some b \<Rightarrow> b | None \<Rightarrow> CustomEntry ty (Some v))\<rparr>"

section \<open>What is printed is seen again\<close>

lemma cu_inject: "cu a = cu b \<longleftrightarrow> a = b"
proof
  assume "cu a = cu b"
  then have "unat (cu a) = unat (cu b)"
    by simp
  then have m: "(of_char a :: nat) mod 65536 = of_char b mod 65536"
    by (simp add: cu_def unat_of_nat)
  have "(of_char c :: nat) < 65536" for c
    by (rule less_trans [OF nat_of_char_less_256]) simp
  then have "(of_char a :: nat) = of_char b"
    using m by simp
  then show "a = b"
    by simp
qed simp

lemma key_inject [simp]: "key a = key b \<longleftrightarrow> a = b"
  by (simp add: key_def js_def inj_map_eq_map inj_on_def cu_inject)

lemma tag_inject [simp]: "tag a = tag b \<longleftrightarrow> a = b"
  by (simp add: tag_def)

lemma get_simps [simp]:
  "get k (JObj []) = None"
  "get k (JObj (req k' v)) = (if k = k' then Some v else None)"
  "get k (JObj (req k' v @ r)) = (if k = k' then Some v else get k (JObj r))"
  "get k (JObj (opt k' f x)) = (if k = k' then map_option f x else None)"
  "get k (JObj (opt k' f x @ r)) = (if k = k' \<and> x \<noteq> None then map_option f x else get k (JObj r))"
  by (auto simp: get_def req_def opt_def split: option.split)

lemma field_names [simp]:
  "map fst (req k v) = [key k]" "map fst (opt k f x) = (if x = None then [] else [key k])"
  "fst ` set (req k v) = {key k}" "key k \<in> fst ` set (opt k' f x) \<longleftrightarrow> x \<noteq> None \<and> k = k'"
  by (auto simp: req_def opt_def split: option.split)

definition values_ok :: "fields \<Rightarrow> bool" where
  "values_ok kvs \<longleftrightarrow> (\<forall>(k, v)\<in>set kvs. json_ok v)"

lemma values_ok_simps [simp]:
  "values_ok []" "values_ok (xs @ ys) \<longleftrightarrow> values_ok xs \<and> values_ok ys"
  "values_ok (req k v) \<longleftrightarrow> json_ok v" "values_ok (opt k f x) \<longleftrightarrow> (\<forall>v. x = Some v \<longrightarrow> json_ok (f v))"
  by (auto simp: values_ok_def req_def opt_def split: option.split)

lemma json_ok_obj: "json_ok (JObj kvs) \<longleftrightarrow> distinct (map fst kvs) \<and> values_ok kvs"
  by (simp add: values_ok_def)

lemma json_ok_tag [simp]: "json_ok (tag s)"
  by (simp add: tag_def)

lemma need_simps [simp]:
  "need k g (JObj (req k v)) = g v" "need k g (JObj (req k v @ r)) = g v"
  "k \<noteq> k' \<Longrightarrow> need k g (JObj (req k' v @ r)) = need k g (JObj r)"
  "k \<noteq> k' \<Longrightarrow> need k g (JObj (opt k' f x @ r)) = need k g (JObj r)"
  by (simp_all add: need_def)

lemma may_simps [simp]:
  "may k g (JObj []) = Some None"
  "(\<And>y. g (f y) = Some y) \<Longrightarrow> may k g (JObj (opt k f x)) = Some x"
  "(\<And>y. g (f y) = Some y) \<Longrightarrow> get k (JObj r) = None \<Longrightarrow> may k g (JObj (opt k f x @ r)) = Some x"
  "k \<noteq> k' \<Longrightarrow> may k g (JObj (req k' v)) = Some None"
  "k \<noteq> k' \<Longrightarrow> may k g (JObj (req k' v @ r)) = may k g (JObj r)"
  "k \<noteq> k' \<Longrightarrow> may k g (JObj (opt k' f' x' @ r)) = may k g (JObj r)"
  "k \<noteq> k' \<Longrightarrow> may k g (JObj (opt k' f' x')) = Some None"
  by (cases x; simp add: may_def)+

lemma as_int_normalized: "0 \<le> e \<Longrightarrow> as_int (normalized m e) = Some (m * 10 ^ nat e)"
proof (induction m e rule: normalized.induct)
  case (1 m e)
  show ?case
  proof (cases "m \<noteq> 0 \<and> m mod 10 = 0")
    case True
    then have "as_int (normalized m e) = Some (m div 10 * 10 ^ nat (e + 1))"
      using 1 by (subst normalized.simps) auto
    also have "m div 10 * 10 ^ nat (e + 1) = m * 10 ^ nat e"
    proof -
      have "m = 10 * (m div 10)"
        using True by auto
      then show ?thesis
        using 1(2) by (metis Suc_nat_eq_nat_zadd1 add.commute mult.assoc mult.commute power_Suc)
    qed
    finally show ?thesis .
  next
    case False
    then show ?thesis
      using 1(2) by (subst normalized.simps) auto
  qed
qed

lemma as_int_json [simp]: "as_int (int_json n) = Some n"
  by (simp add: int_json_def as_int_normalized)

lemma json_ok_normalized: "json_ok (normalized m e)"
  by (induction m e rule: normalized.induct) (subst normalized.simps, auto)

lemma json_ok_int [simp]: "json_ok (int_json n)"
  by (simp add: int_json_def json_ok_normalized)

lemma those_map: "(\<And>x. x \<in> set xs \<Longrightarrow> f (g x) = Some x) \<Longrightarrow> those (map f (map g xs)) = Some xs"
  by (induction xs) auto

lemma as_list_map: "(\<And>x. x \<in> set xs \<Longrightarrow> f (g x) = Some x) \<Longrightarrow> as_list f (JArr (map g xs)) = Some xs"
  using those_map [of xs f g] by (simp add: as_list_def)

lemma strings_back [simp]: "as_list as_str (strings_json ss) = Some ss" "json_ok (strings_json ss)"
  by (simp_all add: strings_json_def as_list_map)

lemma null_or_back [simp]: "as_null_or as_str (null_or JStr x) = Some x" "json_ok (null_or JStr x)"
  by (simp_all add: as_null_or_def null_or_def split: option.split)

lemma int_not_null [simp]: "int_json n \<noteq> JNull"
  using as_int_json [of n] by (metis as_int.simps(2) option.distinct(1))

lemma null_or_int_back [simp]: "as_null_or as_int (null_or int_json x) = Some x" "json_ok (null_or int_json x)"
  by (simp_all add: as_null_or_def null_or_def split: option.split)

text \<open>Messages and entries whose payloads are data that JSON text stands for.\<close>

fun block_ok :: "block \<Rightarrow> bool" where
  "block_ok (ToolCallBlock i n args) = json_ok (JObj args)"
| "block_ok _ = True"

fun content_ok :: "content \<Rightarrow> bool" where
  "content_ok (TextContent s) = True"
| "content_ok (BlockContent bs) = list_all block_ok bs"

definition data_ok :: "json option \<Rightarrow> bool" where
  "data_ok d = (case d of None \<Rightarrow> True | Some v \<Rightarrow> json_ok v)"

fun message_ok :: "message \<Rightarrow> bool" where
  "message_ok (UserMessage c t) = content_ok c"
| "message_ok (AssistantMessage a) = list_all block_ok (a_content a)"
| "message_ok (ToolResultMessage r) = (list_all block_ok (tr_content r) \<and> data_ok (tr_details r))"
| "message_ok (CustomMessage c) = (content_ok (c_content c) \<and> data_ok (c_details c))"
| "message_ok _ = True"

fun body_json_ok :: "entry_body \<Rightarrow> bool" where
  "body_json_ok (MessageEntry m) = message_ok m"
| "body_json_ok (CompactionEntry k) = (data_ok (k_details k) \<and> (case k_retainedTail k of None \<Rightarrow> True | Some ms \<Rightarrow> list_all message_ok ms))"
| "body_json_ok (BranchSummaryEntry s) = data_ok (s_details s)"
| "body_json_ok (CustomEntry t d) = data_ok d"
| "body_json_ok (CustomMessageEntry t c disp d) = (content_ok c \<and> data_ok d)"
| "body_json_ok _ = True"

lemma data_ok_simps [simp]: "data_ok None" "data_ok (Some v) \<longleftrightarrow> json_ok v"
  by (simp_all add: data_ok_def)

lemma data_some: "data_ok d \<Longrightarrow> d = Some v \<Longrightarrow> json_ok v"
  by simp

lemma block_back: "block_of (block_json b) = Some b"
  by (cases b) (simp_all add: block_of_def is_tag_def)

lemma block_json_ok: "block_ok b \<Longrightarrow> json_ok (block_json b)"
  by (cases b) (simp_all add: json_ok_obj del: json_ok.simps(6))

lemma blocks_back [simp]: "blocks_of (blocks_json bs) = Some bs" "list_all block_ok bs \<Longrightarrow> json_ok (blocks_json bs)"
    "blocks_json bs \<noteq> JStr s"
  by (auto simp: blocks_of_def blocks_json_def as_list_map block_back list_all_iff block_json_ok)

lemma content_back [simp]: "content_of (content_json c) = Some c" "content_ok c \<Longrightarrow> json_ok (content_json c)"
proof -
  have "blocks_of (JArr (map block_json bs)) = Some bs" for bs
    using blocks_back(1) by (simp add: blocks_json_def)
  then show "content_of (content_json c) = Some c"
    by (cases c) (simp_all add: content_of_def blocks_json_def)
  show "json_ok (content_json c)" if "content_ok c"
    using that by (cases c) simp_all
qed

lemma usage_back [simp]: "usage_of (usage_json u) = Some u" "json_ok (usage_json u)"
  by (cases u; simp add: usage_of_def usage_json_def json_ok_obj del: json_ok.simps(6))+

lemma stop_back [simp]: "stop_of (stop_json r) = Some r" "json_ok (stop_json r)"
  by (cases r; simp add: stop_of_def)+

lemma message_back: "message_of (message_json m) = Some m"
proof (cases m)
  case (AssistantMessage a)
  then show ?thesis
    by (cases a) (simp add: message_of_def is_tag_def assistant_of_def)
next
  case (ToolResultMessage r)
  then show ?thesis
    by (cases r) (simp add: message_of_def is_tag_def tool_result_of_def)
next
  case (BashExecution b)
  then show ?thesis
    by (cases b) (simp add: message_of_def is_tag_def bash_of_def)
next
  case (CustomMessage c)
  then show ?thesis
    by (cases c) (simp add: message_of_def is_tag_def custom_of_def)
qed (simp_all add: message_of_def is_tag_def)

lemma message_json_ok: "message_ok m \<Longrightarrow> json_ok (message_json m)"
  by (cases m) (auto simp: json_ok_obj simp del: json_ok.simps(6))

lemma body_back: "body_of (JObj (req ''id'' i @ req ''parentId'' p @ req ''timestamp'' t @ body_json b)) = Some b"
proof (cases b)
  case (CompactionEntry k)
  have "as_list message_of (JArr (map message_json ms)) = Some ms" for ms
    by (simp add: as_list_map message_back)
  with CompactionEntry show ?thesis
    by (cases k) (simp add: body_of_def is_tag_def compaction_of_def)
next
  case (BranchSummaryEntry s)
  then show ?thesis
    by (cases s) (simp add: body_of_def is_tag_def branch_summary_of_def)
qed (simp_all add: body_of_def is_tag_def message_back)

lemma entry_json_ok: "body_json_ok (e_body e) \<Longrightarrow> json_ok (entry_json e)"
  by (cases "e_body e")
    (auto simp: entry_json_def json_ok_obj message_json_ok list_all_iff simp del: json_ok.simps(6))

end
