(* ===== verification/JsonlStore.thy ===== *)
theory JsonlStore
  imports EntryJson StoreSession
begin

text \<open>
  The session store that keeps each session in a file of JSON lines
  (\<open>packages/agent/src/harness/session/jsonl-store.ts\<close>), with the parts of \<open>repository.ts\<close> it
  uses. The file system is a parameter: a record of the operations of the \<open>FileSystem\<close> interface the
  store calls, over a state of its own. The operations on one document run one at a time
  (\<open>KeyedQueue\<close>), so each is an atomic step here.
\<close>

section \<open>The file system\<close>

text \<open>Only whether the code of a \<open>FileError\<close> is \<open>not_found\<close> matters to the store.\<close>

datatype file_error = FileNotFound | FileOther

record file_info =
  fi_name :: jsstring
  fi_path :: jsstring
  fi_directory :: bool

record 'f file_system =
  fs_absolutePath :: "jsstring \<Rightarrow> 'f \<Rightarrow> file_error + jsstring"
  fs_joinPath :: "jsstring list \<Rightarrow> 'f \<Rightarrow> file_error + jsstring"
  fs_readTextFile :: "jsstring \<Rightarrow> 'f \<Rightarrow> file_error + jsstring"
  fs_readTextLines :: "nat \<Rightarrow> jsstring \<Rightarrow> 'f \<Rightarrow> file_error + jsstring list"
  fs_listDir :: "jsstring \<Rightarrow> 'f \<Rightarrow> file_error + file_info list"
  fs_exists :: "jsstring \<Rightarrow> 'f \<Rightarrow> file_error + bool"
  fs_writeFile :: "jsstring \<Rightarrow> jsstring \<Rightarrow> 'f \<Rightarrow> (file_error + unit) \<times> 'f"
  fs_appendFile :: "jsstring \<Rightarrow> jsstring \<Rightarrow> 'f \<Rightarrow> (file_error + unit) \<times> 'f"
  fs_createDir :: "jsstring \<Rightarrow> 'f \<Rightarrow> (file_error + unit) \<times> 'f"
  fs_remove :: "jsstring \<Rightarrow> 'f \<Rightarrow> (file_error + unit) \<times> 'f"

text \<open>The subject stands for the message of the error.\<close>

definition getFileSystemResultOrThrow :: "jsstring \<Rightarrow> file_error + 'a \<Rightarrow> session_error + 'a" where
  "getFileSystemResultOrThrow subject =
     wrapE (\<lambda>e. case e of FileNotFound \<Rightarrow> NotFound subject | FileOther \<Rightarrow> StorageError)"

section \<open>Reading a document\<close>

datatype header_fault =
    NotHeader | UnsupportedVersion | MissingId | MissingHeaderTimestamp | MissingCwd | BadParentSession | BadMetadata

datatype line_fault =
    NotJson | NotEntry | MissingType | MissingEntryId | BadParentId | MissingTimestamp | BadTargetId

datatype load_error =
    MissingHeader | BadHeader header_fault | BadLine nat line_fault | DuplicateId jsstring

definition session_error_of :: "load_error \<Rightarrow> session_error" where
  "session_error_of e = (case e of BadLine n f \<Rightarrow> InvalidEntry (js ''line '' @ show_nat n) | _ \<Rightarrow> InvalidSession)"

record session_header =
  sh_id :: jsstring
  sh_timestamp :: jsstring
  sh_cwd :: jsstring
  sh_parentSession :: "jsstring option"
  sh_metadata :: "fields option"

record jsonl_metadata =
  jm_id :: jsstring
  jm_createdAt :: jsstring
  jm_cwd :: jsstring
  jm_path :: jsstring
  jm_parentSessionPath :: "jsstring option"
  jm_metadata :: "fields option"

definition fieldE :: "'e \<Rightarrow> 'a option \<Rightarrow> 'e + 'a" where
  "fieldE e x = (case x of None \<Rightarrow> Inl e | Some v \<Rightarrow> Inr v)"

text \<open>\<open>typeof value === "object" && value !== null\<close>, and a string that is not empty.\<close>

definition is_object :: "json \<Rightarrow> bool" where
  "is_object v \<longleftrightarrow> (case v of JObj _ \<Rightarrow> True | JArr _ \<Rightarrow> True | _ \<Rightarrow> False)"

definition nonempty_str :: "json \<Rightarrow> jsstring option" where
  "nonempty_str v = (case v of JStr s \<Rightarrow> if s = [] then None else Some s | _ \<Rightarrow> None)"

definition parseHeader :: "jsstring \<Rightarrow> header_fault + session_header" where
  "parseHeader line =
     bindE (fieldE NotHeader (json_parse line)) (\<lambda>v.
     bindE (guardE NotHeader (is_object v)) (\<lambda>_.
     bindE (guardE NotHeader (is_tag ''type'' ''session'' v)) (\<lambda>_.
     bindE (guardE UnsupportedVersion (get ''version'' v = Some (JNum 3 0))) (\<lambda>_.
     bindE (fieldE MissingId (need ''id'' nonempty_str v)) (\<lambda>i.
     bindE (fieldE MissingHeaderTimestamp (need ''timestamp'' nonempty_str v)) (\<lambda>t.
     bindE (fieldE MissingCwd (need ''cwd'' nonempty_str v)) (\<lambda>cwd.
     bindE (fieldE BadParentSession (may ''parentSession'' as_str v)) (\<lambda>p.
     bindE (fieldE BadMetadata (may ''metadata'' as_fields v)) (\<lambda>m.
       Inr \<lparr>sh_id = i, sh_timestamp = t, sh_cwd = cwd, sh_parentSession = p, sh_metadata = m\<rparr>)))))))))"

definition parseEntry :: "jsstring \<Rightarrow> line_fault + entry" where
  "parseEntry line =
     bindE (fieldE NotJson (json_parse line)) (\<lambda>v.
     bindE (guardE NotEntry (is_object v)) (\<lambda>_.
     bindE (fieldE MissingType (need ''type'' as_str v)) (\<lambda>ty.
     bindE (fieldE MissingEntryId (need ''id'' nonempty_str v)) (\<lambda>i.
     bindE (fieldE BadParentId (need ''parentId'' (as_null_or as_str) v)) (\<lambda>p.
     bindE (fieldE MissingTimestamp (need ''timestamp'' nonempty_str v)) (\<lambda>t.
     bindE (guardE BadTargetId (ty = key ''leaf'' \<longrightarrow> need ''targetId'' (as_null_or as_str) v \<noteq> None)) (\<lambda>_.
       Inr (view ty i p t v))))))))"

definition metadataFromHeader :: "session_header \<Rightarrow> jsstring \<Rightarrow> jsonl_metadata" where
  "metadataFromHeader h path = \<lparr>jm_id = sh_id h, jm_createdAt = sh_timestamp h, jm_cwd = sh_cwd h,
     jm_path = path, jm_parentSessionPath = sh_parentSession h, jm_metadata = sh_metadata h\<rparr>"

definition blank :: "jsstring \<Rightarrow> bool" where
  "blank line \<longleftrightarrow> trim line = []"

definition loadJsonlSessionMetadata :: "'f file_system \<Rightarrow> jsstring \<Rightarrow> 'f \<Rightarrow> session_error + jsonl_metadata" where
  "loadJsonlSessionMetadata fs path f =
     bindE (getFileSystemResultOrThrow path (fs_readTextLines fs 1 path f)) (\<lambda>lines.
       case lines of
         [] \<Rightarrow> Inl InvalidSession
       | line # _ \<Rightarrow>
           if blank line then Inl InvalidSession
           else bindE (wrapE (\<lambda>_. InvalidSession) (parseHeader line)) (\<lambda>h. Inr (metadataFromHeader h path)))"

fun firstDuplicate :: "jsstring list \<Rightarrow> jsstring list \<Rightarrow> jsstring option" where
  "firstDuplicate seen [] = None"
| "firstDuplicate seen (i # is) = (if i \<in> set seen then Some i else firstDuplicate (i # seen) is)"

text \<open>The text of a file, split into its lines; the number of a line counts the lines that are not blank.\<close>

definition documentLines :: "jsstring \<Rightarrow> jsstring list" where
  "documentLines content = filter (\<lambda>line. \<not> blank line) (splitChar NL content)"

definition parseLines :: "jsstring list \<Rightarrow> load_error + entry list" where
  "parseLines lines = mapE (\<lambda>(line, n). wrapE (BadLine n) (parseEntry line)) (zip lines [2..<length lines + 2])"

definition loadText :: "jsstring \<Rightarrow> jsstring \<Rightarrow> load_error + jsonl_metadata \<times> entry list" where
  "loadText path content =
     (case documentLines content of
        [] \<Rightarrow> Inl MissingHeader
      | line # lines \<Rightarrow>
          bindE (wrapE BadHeader (parseHeader line)) (\<lambda>h.
          bindE (parseLines lines) (\<lambda>entries.
          case firstDuplicate [] (map e_id entries) of
            Some i \<Rightarrow> Inl (DuplicateId i)
          | None \<Rightarrow> Inr (metadataFromHeader h path, entries))))"

definition loadJsonlSession :: "'f file_system \<Rightarrow> jsstring \<Rightarrow> 'f \<Rightarrow> session_error + jsonl_metadata \<times> entry list" where
  "loadJsonlSession fs path f =
     bindE (getFileSystemResultOrThrow path (fs_readTextFile fs path f)) (\<lambda>content.
       wrapE session_error_of (loadText path content))"

section \<open>Names of documents\<close>

definition SLASH :: code_unit where "SLASH = 0x2F"
definition BACKSLASH :: code_unit where "BACKSLASH = 0x5C"
definition COLON :: code_unit where "COLON = 0x3A"

definition encodeCwd :: "jsstring \<Rightarrow> jsstring" where
  "encodeCwd cwd = js ''--''
     @ map (\<lambda>c. if c = SLASH \<or> c = BACKSLASH \<or> c = COLON then 0x2D else c)
         (case cwd of c # rest \<Rightarrow> if c = SLASH \<or> c = BACKSLASH then rest else cwd | [] \<Rightarrow> [])
     @ js ''--''"

definition upper_hex :: "nat \<Rightarrow> code_unit" where
  "upper_hex d = word_of_nat (if d < 10 then 48 + d else 55 + d)"

text \<open>\<open>encodeURIComponent\<close>: a string with an unpaired surrogate is an error.\<close>

definition uri_unreserved :: "byte \<Rightarrow> bool" where
  "uri_unreserved b \<longleftrightarrow> 65 \<le> b \<and> b \<le> 90 \<or> 97 \<le> b \<and> b \<le> 122 \<or> 48 \<le> b \<and> b \<le> 57
     \<or> b \<in> {0x2D, 0x5F, 0x2E, 0x21, 0x7E, 0x2A, 0x27, 0x28, 0x29}"

definition encodeURIComponent :: "jsstring \<Rightarrow> jsstring option" where
  "encodeURIComponent s =
     (if well_formed s then
        Some (concat (map (\<lambda>b. if uri_unreserved b then [ucast b]
          else [0x25, upper_hex (unat b div 16), upper_hex (unat b mod 16)]) (textEncode s)))
      else None)"

record create_options =
  co_id :: "jsstring option"
  co_cwd :: jsstring
  co_parentSessionPath :: "jsstring option"
  co_metadata :: "fields option"

record document_descriptor =
  ds_id :: jsstring
  ds_timestamp :: jsstring
  ds_fileName :: jsstring
  ds_operationKey :: jsstring

text \<open>\<open>uuid\<close> and \<open>now\<close> are what \<open>createSessionId\<close> and \<open>createTimestamp\<close> return.\<close>

definition createDocumentDescriptor ::
    "jsstring \<Rightarrow> jsstring \<Rightarrow> create_options \<Rightarrow> session_error + document_descriptor" where
  "createDocumentDescriptor uuid now options =
     (let i = (case co_id options of None \<Rightarrow> uuid | Some i \<Rightarrow> i) in
      if i = [] then Inl InvalidSession
      else case encodeURIComponent i of
          None \<Rightarrow> Inl InvalidSession
        | Some encodedId \<Rightarrow>
            let fileName = map (\<lambda>c. if c = COLON \<or> c = 0x2E then 0x2D else c) now @ js ''_'' @ encodedId @ js ''.jsonl''
            in Inr \<lparr>ds_id = i, ds_timestamp = now, ds_fileName = fileName,
              ds_operationKey = js ''document:'' @ stringify (JArr [JStr (encodeCwd (co_cwd options)), JStr fileName])\<rparr>)"

section \<open>The store\<close>

text \<open>
  The arrays of entries are objects: \<open>jl_entriesByPath\<close> holds the address of one in \<open>jl_arrays\<close>. A
  set of identifiers is listed.
\<close>

record jsonl_store =
  jl_sessionsRootInput :: jsstring
  jl_sessionsRoot :: "jsstring option"
  jl_arrays :: "entry list list"
  jl_entriesByPath :: "(jsstring \<times> nat) list"
  jl_entryIdsByPath :: "(jsstring \<times> jsstring list) list"
  jl_operationKeysByPath :: "(jsstring \<times> jsstring) list"
  jl_disposed :: bool

record jsonl_reader =
  jr_metadata :: jsonl_metadata
  jr_operationKey :: jsstring
  jr_index :: array_reader

definition createJsonlSessionStore :: "jsstring \<Rightarrow> jsonl_store" where
  "createJsonlSessionStore root = \<lparr>jl_sessionsRootInput = root, jl_sessionsRoot = None, jl_arrays = [],
     jl_entriesByPath = [], jl_entryIdsByPath = [], jl_operationKeysByPath = [], jl_disposed = False\<rparr>"

type_synonym ('f, 'a) action = "jsonl_store \<times> 'f \<Rightarrow> (session_error + 'a) \<times> jsonl_store \<times> 'f"

definition bindA :: "('f, 'a) action \<Rightarrow> ('a \<Rightarrow> ('f, 'b) action) \<Rightarrow> ('f, 'b) action" where
  "bindA m k s = (case m s of (Inl e, s) \<Rightarrow> (Inl e, s) | (Inr x, s) \<Rightarrow> k x s)"

definition liftA :: "session_error + 'a \<Rightarrow> ('f, 'a) action" where
  "liftA r s = (r, s)"

definition readFs :: "jsstring \<Rightarrow> ('f \<Rightarrow> file_error + 'a) \<Rightarrow> ('f, 'a) action" where
  "readFs subject op = (\<lambda>(st, f). (getFileSystemResultOrThrow subject (op f), st, f))"

definition writeFs :: "jsstring \<Rightarrow> ('f \<Rightarrow> (file_error + unit) \<times> 'f) \<Rightarrow> ('f, unit) action" where
  "writeFs subject op = (\<lambda>(st, f). case op f of (r, f) \<Rightarrow> (getFileSystemResultOrThrow subject r, st, f))"

definition modifyStore :: "(jsonl_store \<Rightarrow> jsonl_store) \<Rightarrow> ('f, unit) action" where
  "modifyStore g = (\<lambda>(st, f). (Inr (), g st, f))"

definition jsonl_assertOpen :: "('f, unit) action" where
  "jsonl_assertOpen = (\<lambda>(st, f). (if jl_disposed st then Inl StorageError else Inr (), st, f))"

definition operationKey :: "jsonl_metadata \<Rightarrow> jsonl_store \<Rightarrow> jsstring" where
  "operationKey md st = (case map_of (jl_operationKeysByPath st) (jm_path md) of None \<Rightarrow> jm_path md | Some k \<Rightarrow> k)"

definition newJsonlReader :: "jsonl_metadata \<Rightarrow> ('f, jsonl_reader) action" where
  "newJsonlReader md =
     (\<lambda>(st, f). (Inr \<lparr>jr_metadata = md, jr_operationKey = operationKey md st, jr_index = new_reader\<rparr>, st, f))"

text \<open>A new array for the path, and the set of its identifiers.\<close>

definition setDocument :: "jsstring \<Rightarrow> entry list \<Rightarrow> jsonl_store \<Rightarrow> jsonl_store" where
  "setDocument path entries st = st\<lparr>jl_arrays := jl_arrays st @ [entries],
     jl_entriesByPath := AList.update path (length (jl_arrays st)) (jl_entriesByPath st),
     jl_entryIdsByPath := AList.update path (map e_id entries) (jl_entryIdsByPath st)\<rparr>"

definition requireFile :: "'f file_system \<Rightarrow> jsstring \<Rightarrow> ('f, unit) action" where
  "requireFile fs path =
     bindA (readFs path (fs_exists fs path)) (\<lambda>there. liftA (if there then Inr () else Inl (NotFound path)))"

definition readDocument :: "'f file_system \<Rightarrow> jsstring \<Rightarrow> ('f, jsonl_metadata \<times> entry list) action" where
  "readDocument fs path =
     bindA (requireFile fs path) (\<lambda>_.
     bindA (\<lambda>(st, f). (loadJsonlSession fs path f, st, f)) (\<lambda>(md, entries).
     bindA (modifyStore (setDocument path entries)) (\<lambda>_. liftA (Inr (md, entries)))))"

definition loadDocument :: "'f file_system \<Rightarrow> jsonl_metadata \<Rightarrow> ('f, jsonl_reader) action" where
  "loadDocument fs md = bindA (readDocument fs (jm_path md)) (\<lambda>(md, entries). newJsonlReader md)"

definition jsonl_load :: "'f file_system \<Rightarrow> jsonl_metadata \<Rightarrow> ('f, jsonl_reader) action" where
  "jsonl_load fs md = bindA jsonl_assertOpen (\<lambda>_. loadDocument fs md)"

section \<open>Creating documents\<close>

definition getSessionsRoot :: "'f file_system \<Rightarrow> ('f, jsstring) action" where
  "getSessionsRoot fs = (\<lambda>(st, f).
     case jl_sessionsRoot st of
       Some root \<Rightarrow> (Inr root, st, f)
     | None \<Rightarrow> bindA (readFs (jl_sessionsRootInput st) (fs_absolutePath fs (jl_sessionsRootInput st))) (\<lambda>root.
         bindA (modifyStore (\<lambda>st. st\<lparr>jl_sessionsRoot := Some root\<rparr>)) (\<lambda>_. liftA (Inr root))) (st, f))"

definition getSessionDir :: "'f file_system \<Rightarrow> jsstring \<Rightarrow> ('f, jsstring) action" where
  "getSessionDir fs cwd =
     bindA (getSessionsRoot fs) (\<lambda>root. readFs cwd (fs_joinPath fs [root, encodeCwd cwd]))"

definition header_json :: "session_header \<Rightarrow> json" where
  "header_json h = JObj (req ''type'' (tag ''session'') @ req ''version'' (JNum 3 0) @ req ''id'' (JStr (sh_id h))
     @ req ''timestamp'' (JStr (sh_timestamp h)) @ req ''cwd'' (JStr (sh_cwd h))
     @ opt ''parentSession'' JStr (sh_parentSession h) @ opt ''metadata'' JObj (sh_metadata h))"

definition documentText :: "session_header \<Rightarrow> entry list \<Rightarrow> jsstring" where
  "documentText h entries = join [NL] (stringify (header_json h) # map (\<lambda>e. stringify (entry_json e)) entries @ [[]])"

definition createDocument ::
    "'f file_system \<Rightarrow> document_descriptor \<Rightarrow> create_options \<Rightarrow> jsstring option \<Rightarrow> fields option \<Rightarrow> entry list \<Rightarrow>
     ('f, jsonl_reader) action" where
  "createDocument fs ds options parentSessionPath metadata entries =
     bindA (getSessionDir fs (co_cwd options)) (\<lambda>dir.
     bindA (writeFs dir (fs_createDir fs dir)) (\<lambda>_.
     bindA (readFs (ds_id ds) (fs_joinPath fs [dir, ds_fileName ds])) (\<lambda>path.
     bindA (readFs path (fs_exists fs path)) (\<lambda>there.
     if there then liftA (Inl InvalidSession) else
     let header = \<lparr>sh_id = ds_id ds, sh_timestamp = ds_timestamp ds, sh_cwd = co_cwd options,
           sh_parentSession = parentSessionPath, sh_metadata = metadata\<rparr> in
     bindA (writeFs path (fs_writeFile fs path (documentText header entries))) (\<lambda>_.
     bindA (modifyStore (setDocument path entries)) (\<lambda>_.
     bindA (modifyStore (\<lambda>st. st\<lparr>jl_operationKeysByPath := AList.update path (ds_operationKey ds) (jl_operationKeysByPath st)\<rparr>)) (\<lambda>_.
       newJsonlReader (metadataFromHeader header path))))))))"

definition jsonl_create ::
    "'f file_system \<Rightarrow> jsstring \<Rightarrow> jsstring \<Rightarrow> create_options \<Rightarrow> ('f, jsonl_reader) action" where
  "jsonl_create fs uuid now options =
     bindA jsonl_assertOpen (\<lambda>_.
     bindA (liftA (createDocumentDescriptor uuid now options)) (\<lambda>ds.
       createDocument fs ds options (co_parentSessionPath options) (co_metadata options) []))"

text \<open>The two queued steps of \<open>fork\<close>: read the source, then create the document.\<close>

definition jsonl_forkRead ::
    "'f file_system \<Rightarrow> jsonl_metadata \<Rightarrow> fork_selection \<Rightarrow> jsonl_store \<times> 'f \<Rightarrow>
     ((session_error + entry list) \<times> jsonl_store \<times> 'f) option" where
  "jsonl_forkRead fs source selection s =
     (case readDocument fs (jm_path source) s of
        (Inl e, s) \<Rightarrow> Some (Inl e, s)
      | (Inr (md, entries), s) \<Rightarrow>
          map_option (\<lambda>r. (r, s)) (readSessionEntriesForFork selection entries (updateIndex 0 entries new_reader)))"

definition jsonl_fork ::
    "'f file_system \<Rightarrow> jsstring \<Rightarrow> jsstring \<Rightarrow> jsonl_metadata \<Rightarrow> create_options \<Rightarrow> fork_selection \<Rightarrow> jsonl_store \<times> 'f \<Rightarrow>
     ((session_error + jsonl_reader) \<times> jsonl_store \<times> 'f) option" where
  "jsonl_fork fs uuid now source options selection s =
     (case bindA jsonl_assertOpen (\<lambda>_. liftA (createDocumentDescriptor uuid now options)) s of
        (Inl e, s) \<Rightarrow> Some (Inl e, s)
      | (Inr ds, s) \<Rightarrow>
          map_option (\<lambda>(r, s). case r of
              Inl e \<Rightarrow> (Inl e, s)
            | Inr entries \<Rightarrow> createDocument fs ds options
                (case co_parentSessionPath options of None \<Rightarrow> Some (jm_path source) | p \<Rightarrow> p)
                (case co_metadata options of None \<Rightarrow> jm_metadata source | m \<Rightarrow> m) entries s)
            (jsonl_forkRead fs source selection s))"

section \<open>Appending and deleting\<close>

text \<open>The identifiers that are known of a path; a document that was never loaded is loaded first.\<close>

definition knownIds :: "'f file_system \<Rightarrow> jsonl_metadata \<Rightarrow> ('f, jsstring list) action" where
  "knownIds fs md = (\<lambda>(st, f).
     case map_of (jl_entryIdsByPath st) (jm_path md) of
       Some is \<Rightarrow> (Inr is, st, f)
     | None \<Rightarrow> bindA (readDocument fs (jm_path md)) (\<lambda>(md, entries). liftA (Inr (map e_id entries))) (st, f))"

definition entry_line :: "entry \<Rightarrow> jsstring" where
  "entry_line e = stringify (entry_json e) @ [NL]"

definition pushEntry :: "jsstring \<Rightarrow> jsstring list \<Rightarrow> entry \<Rightarrow> jsonl_store \<Rightarrow> jsonl_store" where
  "pushEntry path is e st =
     (let st = st\<lparr>jl_entryIdsByPath := AList.update path (set_add (e_id e) is) (jl_entryIdsByPath st)\<rparr>
      in case map_of (jl_entriesByPath st) path of
           None \<Rightarrow> st
         | Some a \<Rightarrow> st\<lparr>jl_arrays := (jl_arrays st)[a := jl_arrays st ! a @ [e]]\<rparr>)"

definition jsonl_appendEntry :: "'f file_system \<Rightarrow> jsonl_metadata \<Rightarrow> entry \<Rightarrow> ('f, unit) action" where
  "jsonl_appendEntry fs md e =
     bindA jsonl_assertOpen (\<lambda>_.
     bindA (requireFile fs (jm_path md)) (\<lambda>_.
     bindA (knownIds fs md) (\<lambda>is.
     if e_id e \<in> set is then liftA (Inl (InvalidEntry (e_id e))) else
     bindA (writeFs (e_id e) (fs_appendFile fs (jm_path md) (entry_line e))) (\<lambda>_.
       modifyStore (pushEntry (jm_path md) is e)))))"

definition jsonl_delete :: "'f file_system \<Rightarrow> jsonl_metadata \<Rightarrow> ('f, unit) action" where
  "jsonl_delete fs md =
     bindA jsonl_assertOpen (\<lambda>_.
     bindA (writeFs (jm_path md) (fs_remove fs (jm_path md))) (\<lambda>_.
       modifyStore (\<lambda>st. st\<lparr>jl_entryIdsByPath := AList.delete (jm_path md) (jl_entryIdsByPath st),
         jl_entriesByPath := AList.delete (jm_path md) (jl_entriesByPath st),
         jl_operationKeysByPath := AList.delete (jm_path md) (jl_operationKeysByPath st)\<rparr>)))"

definition jsonl_dispose :: "jsonl_store \<Rightarrow> jsonl_store" where
  "jsonl_dispose st = st\<lparr>jl_disposed := True\<rparr>"

section \<open>Listing\<close>

definition listSessionDirs :: "'f file_system \<Rightarrow> ('f, jsstring list) action" where
  "listSessionDirs fs =
     bindA (getSessionsRoot fs) (\<lambda>root.
     bindA (readFs root (fs_exists fs root)) (\<lambda>there.
     if \<not> there then liftA (Inr []) else
     bindA (readFs root (fs_listDir fs root)) (\<lambda>infos.
       liftA (Inr (map fi_path (filter fi_directory infos))))))"

fun collectA :: "('a \<Rightarrow> ('f, 'b list) action) \<Rightarrow> 'a list \<Rightarrow> ('f, 'b list) action" where
  "collectA g [] = liftA (Inr [])"
| "collectA g (x # xs) = bindA (g x) (\<lambda>ys. bindA (collectA g xs) (\<lambda>zs. liftA (Inr (ys @ zs))))"

definition listDirectory :: "'f file_system \<Rightarrow> jsstring \<Rightarrow> ('f, jsonl_metadata list) action" where
  "listDirectory fs dir =
     bindA (readFs dir (fs_exists fs dir)) (\<lambda>there.
     if \<not> there then liftA (Inr []) else
     bindA (readFs dir (fs_listDir fs dir)) (\<lambda>infos.
       collectA (\<lambda>info. bindA (\<lambda>(st, f). (loadJsonlSessionMetadata fs (fi_path info) f, st, f)) (\<lambda>md. liftA (Inr [md])))
         (filter (\<lambda>info. \<not> fi_directory info \<and> endsWith (js ''.jsonl'') (fi_name info)) infos)))"

text \<open>
  \<open>Array.prototype.sort\<close> is stable; the order it gives when a time is \<open>NaN\<close>, and the comparison so
  not an order, is left to the engine: \<open>unordered\<close>.
\<close>

definition newestFirst ::
    "(jsonl_metadata list \<Rightarrow> jsonl_metadata list) \<Rightarrow> jsonl_metadata list \<Rightarrow> jsonl_metadata list" where
  "newestFirst unordered sessions =
     (if list_all (\<lambda>md. date_ms (jm_createdAt md) \<noteq> None) sessions
      then sort_key (\<lambda>md. - the (date_ms (jm_createdAt md))) sessions
      else unordered sessions)"

definition jsonl_list ::
    "(jsonl_metadata list \<Rightarrow> jsonl_metadata list) \<Rightarrow> 'f file_system \<Rightarrow> jsstring option \<Rightarrow> ('f, jsonl_metadata list) action" where
  "jsonl_list unordered fs cwd =
     bindA jsonl_assertOpen (\<lambda>_.
     bindA (case cwd of
         None \<Rightarrow> listSessionDirs fs
       | Some c \<Rightarrow> if c = [] then listSessionDirs fs
           else bindA (getSessionDir fs c) (\<lambda>dir. liftA (Inr [dir]))) (\<lambda>dirs.
     bindA (collectA (listDirectory fs) dirs) (\<lambda>sessions. liftA (Inr (newestFirst unordered sessions)))))"

section \<open>Reads\<close>

definition jsonl_entries :: "jsonl_reader \<Rightarrow> jsonl_store \<Rightarrow> (nat \<times> entry list) option" where
  "jsonl_entries r st =
     map_option (\<lambda>a. (a, jl_arrays st ! a)) (map_of (jl_entriesByPath st) (jm_path (jr_metadata r)))"

definition jsonl_read ::
    "(entry list \<Rightarrow> array_reader \<Rightarrow> session_error + 'a) \<Rightarrow> jsonl_reader \<times> jsonl_store \<times> 'f \<Rightarrow>
     (session_error + 'a) \<times> jsonl_reader \<times> jsonl_store \<times> 'f" where
  "jsonl_read g = (\<lambda>(r, st, f).
     if jl_disposed st then (Inl StorageError, r, st, f)
     else case jsonl_entries r st of
         None \<Rightarrow> (Inl (NotFound (jm_path (jr_metadata r))), r, st, f)
       | Some (a, entries) \<Rightarrow>
           let index = updateIndex a entries (jr_index r)
           in (g entries index, r\<lparr>jr_index := index\<rparr>, st, f))"

definition jsonl_readPath ::
    "jsstring option \<Rightarrow> jsonl_reader \<times> jsonl_store \<times> 'f \<Rightarrow>
     ((session_error + entry list) \<times> jsonl_reader \<times> jsonl_store \<times> 'f) option" where
  "jsonl_readPath leafId = (\<lambda>(r, st, f).
     if jl_disposed st then Some (Inl StorageError, r, st, f)
     else case jsonl_entries r st of
         None \<Rightarrow> Some (Inl (NotFound (jm_path (jr_metadata r))), r, st, f)
       | Some (a, entries) \<Rightarrow>
           let index = updateIndex a entries (jr_index r)
           in map_option (\<lambda>x. (x, r\<lparr>jr_index := index\<rparr>, st, f)) (readPathToRootOrCompaction leafId index))"

definition jsonl_ops :: "'f file_system \<Rightarrow> jsonl_metadata \<Rightarrow> (jsonl_reader \<times> jsonl_store \<times> 'f) session_ops" where
  "jsonl_ops fs md = \<lparr>
     so_appendEntry = (\<lambda>e (r, s). case jsonl_appendEntry fs md e s of (x, s) \<Rightarrow> (x, r, s)),
     so_readHead = jsonl_read (\<lambda>_. readHead),
     so_readEntry = (\<lambda>i. jsonl_read (\<lambda>_ x. Inr (readEntry i x))),
     so_readEntries = (\<lambda>a l. jsonl_read (\<lambda>entries _. Inr (readEntries a l entries))),
     so_findEntriesOnBranch = (\<lambda>q. jsonl_read (\<lambda>_. findEntriesOnBranch q)),
     so_readPath = jsonl_readPath\<rparr>"

section \<open>The repository\<close>

text \<open>\<open>SessionRepository\<close> over this store: a session over the reader the store returns.\<close>

definition sessionOf ::
    "'f file_system \<Rightarrow> (session_error + jsonl_reader) \<times> jsonl_store \<times> 'f \<Rightarrow>
     session_error + (jsonl_reader \<times> jsonl_store \<times> 'f) session" where
  "sessionOf fs = (\<lambda>(r, s). bindE r (\<lambda>r. createSessionFromReader (jsonl_ops fs (jr_metadata r)) (r, s)))"

definition repository_create where
  "repository_create fs uuid now options s = sessionOf fs (jsonl_create fs uuid now options s)"

definition repository_open where
  "repository_open fs md s = sessionOf fs (jsonl_load fs md s)"

definition repository_fork ::
    "'f file_system \<Rightarrow> jsstring \<Rightarrow> jsstring \<Rightarrow> jsonl_metadata \<Rightarrow> create_options \<Rightarrow> jsstring option \<Rightarrow> bool \<Rightarrow> jsonl_store \<times> 'f \<Rightarrow>
     (session_error + (jsonl_reader \<times> jsonl_store \<times> 'f) session) option" where
  "repository_fork fs uuid now source options entryId positionAt s =
     map_option (sessionOf fs) (jsonl_fork fs uuid now source options (createSessionForkSelection entryId positionAt) s)"

end
