(* ===== verification/StoreAgreement.thy ===== *)
theory StoreAgreement
  imports StoreSession
begin

text \<open>
  The calls of a session's public methods as data, and the locale \<open>two_stores\<close>: sessions over two
  stores that keep the contract of \<open>session_store\<close> and hold the same entries answer every sequence
  of calls alike.
\<close>

section \<open>Calls\<close>

text \<open>The times are those the clock shows when the entry is made.\<close>

datatype session_call =
    CallMessage jsstring message
  | CallThinkingLevel jsstring jsstring
  | CallModel jsstring jsstring jsstring
  | CallActiveTools jsstring "jsstring list"
  | CallCompaction jsstring compaction
  | CallCustom jsstring jsstring "json option"
  | CallCustomMessage jsstring jsstring content bool "json option"
  | CallLabel jsstring jsstring "jsstring option"
  | CallName jsstring jsstring
  | CallMove jsstring jsstring "jsstring option" "branch_summary option"
  | CallGetEntry jsstring
  | CallGetEntries "nat option" "nat option"
  | CallGetBranch "jsstring option option"
  | CallFind "jsstring option option" branch_query
  | CallGetLabel jsstring
  | CallGetName
  | CallGetStats
  | CallContext context_options context_options

datatype reply =
    RId jsstring
  | RMoved "jsstring option"
  | REntry "entry option"
  | REntries "entry list"
  | RText "jsstring option"
  | RStats session_stats
  | RContext session_context

definition replying :: "('a \<Rightarrow> reply) \<Rightarrow> ('s, 'a) call \<Rightarrow> ('s, reply) call" where
  "replying g m = andThen m (\<lambda>x ss. (Inr (g x), ss))"

text \<open>\<open>None\<close> is a traversal that does not end, as the reader's is on a file with a cycle.\<close>

fun run_call :: "'s session_ops \<Rightarrow> (nat \<Rightarrow> jsstring) \<Rightarrow> session_call \<Rightarrow> 's session \<Rightarrow> ((session_error + reply) \<times> 's session) option" where
  "run_call ops uuid (CallMessage t m) ss = Some (replying RId (appendMessage ops uuid t m) ss)"
| "run_call ops uuid (CallThinkingLevel t l) ss = Some (replying RId (appendThinkingLevelChange ops uuid t l) ss)"
| "run_call ops uuid (CallModel t p m) ss = Some (replying RId (appendModelChange ops uuid t p m) ss)"
| "run_call ops uuid (CallActiveTools t ns) ss = Some (replying RId (appendActiveToolsChange ops uuid t ns) ss)"
| "run_call ops uuid (CallCompaction t k) ss = Some (replying RId (appendCompaction ops uuid t k) ss)"
| "run_call ops uuid (CallCustom t c d) ss = Some (replying RId (appendCustomEntry ops uuid t c d) ss)"
| "run_call ops uuid (CallCustomMessage t c x b d) ss = Some (replying RId (appendCustomMessageEntry ops uuid t c x b d) ss)"
| "run_call ops uuid (CallLabel t i l) ss = Some (replying RId (appendLabel ops uuid t i l) ss)"
| "run_call ops uuid (CallName t n) ss = Some (replying RId (appendSessionName ops uuid t n) ss)"
| "run_call ops uuid (CallMove t t' i s) ss = Some (replying RMoved (moveTo ops uuid t t' i s) ss)"
| "run_call ops uuid (CallGetEntry i) ss = Some (replying REntry (session_getEntry ops i) ss)"
| "run_call ops uuid (CallGetEntries a l) ss = Some (replying REntries (session_getEntries ops a l) ss)"
| "run_call ops uuid (CallGetBranch i) ss = map_option (apfst (\<lambda>r. bindE r (\<lambda>x. Inr (REntries x)))) (session_getBranch ops i ss)"
| "run_call ops uuid (CallFind i q) ss = Some (replying REntries (session_findEntriesOnBranch ops i q) ss)"
| "run_call ops uuid (CallGetLabel i) ss = Some (replying RText (session_getLabel ops i) ss)"
| "run_call ops uuid CallGetName ss = Some (replying RText (session_getSessionName ops) ss)"
| "run_call ops uuid CallGetStats ss = Some (replying RStats (session_getSessionStats ops) ss)"
| "run_call ops uuid (CallContext base options) ss =
     map_option (apfst (\<lambda>r. bindE r (\<lambda>x. Inr (RContext x)))) (session_buildContext ops base options ss)"

fun run_calls :: "'s session_ops \<Rightarrow> (nat \<Rightarrow> jsstring) \<Rightarrow> session_call list \<Rightarrow> 's session \<Rightarrow>
    ((session_error + reply) list \<times> 's session) option" where
  "run_calls ops uuid [] ss = Some ([], ss)"
| "run_calls ops uuid (c # cs) ss =
     Option.bind (run_call ops uuid c ss) (\<lambda>(r, ss). map_option (apfst ((#) r)) (run_calls ops uuid cs ss))"

section \<open>Two stores\<close>

locale two_stores = a: session_store ops ok stored + b: session_store ops' ok' stored'
  for ops :: "'s session_ops" and ok stored and ops' :: "'t session_ops" and ok' stored'
begin

definition alike :: "'s session \<Rightarrow> 't session \<Rightarrow> bool" where
  "alike ss tt \<longleftrightarrow> ok (ss_store ss) \<and> ok' (ss_store tt) \<and> stored (ss_store ss) = stored' (ss_store tt)
     \<and> ss_leafId ss = ss_leafId tt \<and> ss_hydratedState ss = ss_hydratedState tt \<and> ss_uuids ss = ss_uuids tt"

definition agree :: "('s, 'a) call \<Rightarrow> ('t, 'a) call \<Rightarrow> bool" where
  "agree m n \<longleftrightarrow> (\<forall>ss tt. alike ss tt \<longrightarrow> fst (m ss) = fst (n tt) \<and> alike (snd (m ss)) (snd (n tt)))"

lemma agreeI: "(\<And>ss tt. alike ss tt \<Longrightarrow> fst (m ss) = fst (n tt) \<and> alike (snd (m ss)) (snd (n tt))) \<Longrightarrow> agree m n"
  by (simp add: agree_def)

lemma agreeD: "agree m n \<Longrightarrow> alike ss tt \<Longrightarrow> fst (m ss) = fst (n tt) \<and> alike (snd (m ss)) (snd (n tt))"
  by (simp add: agree_def)

lemma agree_return [intro!]: "agree (\<lambda>ss. (x, ss)) (\<lambda>tt. (x, tt))"
  by (simp add: agree_def)

lemma agree_if [intro!]:
  "agree m n \<Longrightarrow> agree m' n' \<Longrightarrow> agree (\<lambda>ss. if b then m ss else m' ss) (\<lambda>ss. if b then n ss else n' ss)"
  by (cases b) simp_all

lemma agree_andThen [intro!]:
  assumes "agree m n" "\<And>x. agree (f x) (g x)"
  shows "agree (andThen m f) (andThen n g)"
proof (rule agreeI)
  fix ss tt
  assume "alike ss tt"
  then have "fst (m ss) = fst (n tt)" "alike (snd (m ss)) (snd (n tt))"
    using agreeD [OF assms(1)] by blast+
  then show "fst (andThen m f ss) = fst (andThen n g tt) \<and> alike (snd (andThen m f ss)) (snd (andThen n g tt))"
    using agreeD [OF assms(2)] by (cases "m ss"; cases "n tt") (auto simp: andThen_def split: sum.split)
qed

text \<open>A call on the store that answers by the stored entries alone.\<close>

lemma agree_on_store:
  assumes "\<And>s. ok s \<Longrightarrow> \<exists>s'. f s = (v (stored s), s') \<and> ok s' \<and> stored s' = w (stored s)"
    and "\<And>t. ok' t \<Longrightarrow> \<exists>t'. g t = (v (stored' t), t') \<and> ok' t' \<and> stored' t' = w (stored' t)"
  shows "agree (on_store f) (on_store g)"
proof (rule agreeI)
  fix ss tt
  assume x: "alike ss tt"
  then obtain s' t' where "f (ss_store ss) = (v (stored (ss_store ss)), s')" "ok s'" "stored s' = w (stored (ss_store ss))"
    "g (ss_store tt) = (v (stored' (ss_store tt)), t')" "ok' t'" "stored' t' = w (stored' (ss_store tt))"
    using assms(1) [of "ss_store ss"] assms(2) [of "ss_store tt"] by (auto simp: alike_def)
  then show "fst (on_store f ss) = fst (on_store g tt) \<and> alike (snd (on_store f ss)) (snd (on_store g tt))"
    using x by (simp add: on_store_def alike_def)
qed

lemma agree_append: "agree (on_store (so_appendEntry ops e)) (on_store (so_appendEntry ops' e))"
proof (rule agree_on_store [where v = "\<lambda>es. if e_id e \<in> ids es then Inl (InvalidEntry (e_id e)) else Inr ()"
      and w = "\<lambda>es. if e_id e \<in> ids es then es else es @ [e]"])
  show "\<exists>s'. so_appendEntry ops e s = (if e_id e \<in> ids (stored s) then Inl (InvalidEntry (e_id e)) else Inr (), s')
      \<and> ok s' \<and> stored s' = (if e_id e \<in> ids (stored s) then stored s else stored s @ [e])" if "ok s" for s
    using a.append_new [OF that] a.append_old [OF that] by (cases "e_id e \<in> ids (stored s)") auto
  show "\<exists>s'. so_appendEntry ops' e s = (if e_id e \<in> ids (stored' s) then Inl (InvalidEntry (e_id e)) else Inr (), s')
      \<and> ok' s' \<and> stored' s' = (if e_id e \<in> ids (stored' s) then stored' s else stored' s @ [e])" if "ok' s" for s
    using b.append_new [OF that] b.append_old [OF that] by (cases "e_id e \<in> ids (stored' s)") auto
qed

lemma agree_getEntry [intro!]: "agree (session_getEntry ops i) (session_getEntry ops' i)"
  unfolding session_getEntry_def by (rule agree_on_store [where w = "\<lambda>es. es"]) (erule a.entry_law b.entry_law)+

lemma agree_getEntries [intro!]: "agree (session_getEntries ops x l) (session_getEntries ops' x l)"
  unfolding session_getEntries_def by (rule agree_on_store [where w = "\<lambda>es. es"]) (erule a.entries_law b.entries_law)+

lemma agree_find [intro!]: "agree (session_findEntriesOnBranch ops i q) (session_findEntriesOnBranch ops' i q)"
proof (rule agreeI)
  fix ss tt
  assume x: "alike ss tt"
  let ?q = "q\<lparr>q_start := (case i of None \<Rightarrow> ss_leafId ss | Some i \<Rightarrow> i)\<rparr>"
  have "agree (on_store (so_findEntriesOnBranch ops ?q)) (on_store (so_findEntriesOnBranch ops' ?q))"
    by (rule agree_on_store [where w = "\<lambda>es. es"]) (erule a.find_law b.find_law)+
  moreover have leaf: "ss_leafId ss = ss_leafId tt"
    using x by (simp add: alike_def)
  ultimately show "fst (session_findEntriesOnBranch ops i q ss) = fst (session_findEntriesOnBranch ops' i q tt)
      \<and> alike (snd (session_findEntriesOnBranch ops i q ss)) (snd (session_findEntriesOnBranch ops' i q tt))"
    using agreeD x unfolding session_findEntriesOnBranch_def leaf by blast
qed

lemma agree_hydrated [intro!]: "agree (getHydratedState ops) (getHydratedState ops')"
proof (rule agreeI)
  fix ss tt
  assume x: "alike ss tt"
  have "agree (on_store (so_readEntries ops None None)) (on_store (so_readEntries ops' None None))"
    using agree_getEntries [of None None] by (simp add: session_getEntries_def)
  then have "agree (andThen (on_store (so_readEntries ops None None)) (\<lambda>es ss. (Inr (hydrate es), ss\<lparr>ss_hydratedState := Some (hydrate es)\<rparr>)))
    (andThen (on_store (so_readEntries ops' None None)) (\<lambda>es ss. (Inr (hydrate es), ss\<lparr>ss_hydratedState := Some (hydrate es)\<rparr>)))"
    by (rule agree_andThen) (simp add: agree_def alike_def)
  note read = agreeD [OF this x]
  have h: "ss_hydratedState ss = ss_hydratedState tt"
    using x by (simp add: alike_def)
  show "fst (getHydratedState ops ss) = fst (getHydratedState ops' tt)
      \<and> alike (snd (getHydratedState ops ss)) (snd (getHydratedState ops' tt))"
    using read x unfolding getHydratedState_def h by (cases "ss_hydratedState tt") simp_all
qed

lemma agree_tryEntryIds [intro!]: "agree (tryEntryIds ops uuid n) (tryEntryIds ops' uuid n)"
proof (induction n)
  case 0
  then show ?case
    by (simp add: agree_def alike_def)
next
  case (Suc n)
  show ?case
  proof (rule agreeI)
    fix ss tt
    assume x: "alike ss tt"
    define i where "i = short_id (uuid (ss_uuids ss))"
    have "agree (andThen (session_getEntry ops i) (\<lambda>existing ss. if existing = None then (Inr i, ss) else tryEntryIds ops uuid n ss))
      (andThen (session_getEntry ops' i) (\<lambda>existing ss. if existing = None then (Inr i, ss) else tryEntryIds ops' uuid n ss))"
      using Suc by (intro agree_andThen agree_getEntry agree_if agree_return)
    moreover have "alike (ss\<lparr>ss_uuids := Suc (ss_uuids ss)\<rparr>) (tt\<lparr>ss_uuids := Suc (ss_uuids tt)\<rparr>)" "ss_uuids tt = ss_uuids ss"
      using x by (simp_all add: alike_def)
    ultimately show "fst (tryEntryIds ops uuid (Suc n) ss) = fst (tryEntryIds ops' uuid (Suc n) tt)
        \<and> alike (snd (tryEntryIds ops uuid (Suc n) ss)) (snd (tryEntryIds ops' uuid (Suc n) tt))"
      using agreeD by (simp add: Let_def flip: i_def)
  qed
qed

lemma agree_enqueueAppend [intro!]: "agree (enqueueAppend ops uuid t body) (enqueueAppend ops' uuid t body)"
  unfolding enqueueAppend_def createEntryId_def
proof (intro agree_andThen agree_tryEntryIds agreeI)
  fix i ss tt
  assume x: "alike ss tt"
  define e where "e = \<lparr>e_id = i, e_parentId = ss_leafId ss, e_timestamp = t, e_body = body\<rparr>"
  have "agree (andThen (on_store (so_appendEntry ops e)) (\<lambda>_ ss. (Inr e, ss\<lparr>ss_leafId := leaf_after e, ss_hydratedState := None\<rparr>)))
    (andThen (on_store (so_appendEntry ops' e)) (\<lambda>_ ss. (Inr e, ss\<lparr>ss_leafId := leaf_after e, ss_hydratedState := None\<rparr>)))"
    by (intro agree_andThen agree_append) (simp add: agree_def alike_def)
  from agreeD [OF this x] have "let r = andThen (on_store (so_appendEntry ops e)) (\<lambda>_ ss. (Inr e, ss\<lparr>ss_leafId := leaf_after e, ss_hydratedState := None\<rparr>)) ss;
      r' = andThen (on_store (so_appendEntry ops' e)) (\<lambda>_ ss. (Inr e, ss\<lparr>ss_leafId := leaf_after e, ss_hydratedState := None\<rparr>)) tt
    in fst r = fst r' \<and> alike (snd r) (snd r')"
    by (simp add: Let_def)
  moreover have "ss_leafId tt = ss_leafId ss"
    using x by (simp add: alike_def)
  ultimately show "fst (let e = \<lparr>e_id = i, e_parentId = ss_leafId ss, e_timestamp = t, e_body = body\<rparr>
        in andThen (on_store (so_appendEntry ops e)) (\<lambda>_ ss. (Inr e, ss\<lparr>ss_leafId := leaf_after e, ss_hydratedState := None\<rparr>)) ss)
      = fst (let e = \<lparr>e_id = i, e_parentId = ss_leafId tt, e_timestamp = t, e_body = body\<rparr>
        in andThen (on_store (so_appendEntry ops' e)) (\<lambda>_ ss. (Inr e, ss\<lparr>ss_leafId := leaf_after e, ss_hydratedState := None\<rparr>)) tt)
    \<and> alike (snd (let e = \<lparr>e_id = i, e_parentId = ss_leafId ss, e_timestamp = t, e_body = body\<rparr>
        in andThen (on_store (so_appendEntry ops e)) (\<lambda>_ ss. (Inr e, ss\<lparr>ss_leafId := leaf_after e, ss_hydratedState := None\<rparr>)) ss))
      (snd (let e = \<lparr>e_id = i, e_parentId = ss_leafId tt, e_timestamp = t, e_body = body\<rparr>
        in andThen (on_store (so_appendEntry ops' e)) (\<lambda>_ ss. (Inr e, ss\<lparr>ss_leafId := leaf_after e, ss_hydratedState := None\<rparr>)) tt))"
    by (simp add: Let_def e_def)
qed

lemma agree_appendTyped [intro!]: "agree (appendTypedEntry ops uuid t body) (appendTypedEntry ops' uuid t body)"
  unfolding appendTypedEntry_def by (intro agree_andThen agree_enqueueAppend agree_return)

lemma agree_requireEntry [intro!]: "agree (requireEntry ops i) (requireEntry ops' i)"
  unfolding requireEntry_def by (intro agree_andThen agree_getEntry agree_if agree_return)

lemma agree_require_target [intro!]:
  "agree (case i of None \<Rightarrow> (\<lambda>ss. (Inr (), ss)) | Some l \<Rightarrow> requireEntry ops l)
     (case i of None \<Rightarrow> (\<lambda>ss. (Inr (), ss)) | Some l \<Rightarrow> requireEntry ops' l)"
  by (cases i) auto

lemma agree_moveTo [intro!]: "agree (moveTo ops uuid t t' i s) (moveTo ops' uuid t t' i s)"
  unfolding moveTo_def setLeafId_def by (cases s) auto

lemma agree_appends [intro!]:
  "agree (appendLabel ops uuid t i l) (appendLabel ops' uuid t i l)"
  "agree (appendSessionName ops uuid t n) (appendSessionName ops' uuid t n)"
  by (auto simp: appendLabel_def appendSessionName_def)

lemma agree_views [intro!]:
  "agree (session_getLabel ops i) (session_getLabel ops' i)" "agree (session_getSessionName ops) (session_getSessionName ops')"
  "agree (session_getSessionStats ops) (session_getSessionStats ops')"
  by (auto simp: session_getLabel_def session_getSessionName_def session_getSessionStats_def)

lemma agree_replying [intro!]: "agree m n \<Longrightarrow> agree (replying g m) (replying g n)"
  by (auto simp: replying_def)

lemma branch_alike:
  assumes "alike ss tt"
  shows "rel_option (\<lambda>x y. fst x = fst y \<and> alike (snd x) (snd y)) (session_getBranch ops i ss) (session_getBranch ops' i tt)"
proof -
  define leaf where "leaf = (case i of None \<Rightarrow> ss_leafId ss | Some i \<Rightarrow> i)"
  have leaf': "(case i of None \<Rightarrow> ss_leafId tt | Some i \<Rightarrow> i) = leaf"
    using assms by (cases i) (simp_all add: leaf_def alike_def)
  obtain s' where s: "so_readPath ops leaf (ss_store ss) = map_option (\<lambda>r. (r, s')) (readPathToRootOrCompaction leaf (reader_of 0 (stored (ss_store ss))))"
    "ok s'" "stored s' = stored (ss_store ss)"
    using a.path_law assms by (meson alike_def)
  obtain t' where t: "so_readPath ops' leaf (ss_store tt) = map_option (\<lambda>r. (r, t')) (readPathToRootOrCompaction leaf (reader_of 0 (stored' (ss_store tt))))"
    "ok' t'" "stored' t' = stored' (ss_store tt)"
    using b.path_law assms by (meson alike_def)
  show ?thesis
    using assms s t unfolding session_getBranch_def leaf' leaf_def [symmetric]
    by (cases "readPathToRootOrCompaction leaf (reader_of 0 (stored (ss_store ss)))") (auto simp: alike_def)
qed

lemma run_call_alike:
  assumes "alike ss tt"
  shows "rel_option (\<lambda>x y. fst x = fst y \<and> alike (snd x) (snd y)) (run_call ops uuid c ss) (run_call ops' uuid c tt)"
proof -
  have *: "rel_option (\<lambda>x y. fst x = fst y \<and> alike (snd x) (snd y)) (Some (m ss)) (Some (n tt))" if "agree m n"
    for m :: "('s, reply) call" and n
    using agreeD [OF that assms] by simp
  have branch: "rel_option (\<lambda>x y. fst x = fst y \<and> alike (snd x) (snd y))
      (map_option (apfst (\<lambda>r. bindE r g)) (session_getBranch ops i ss)) (map_option (apfst (\<lambda>r. bindE r g)) (session_getBranch ops' i tt))"
    for i and g :: "entry list \<Rightarrow> session_error + reply"
    using branch_alike [OF assms, of i]
    by (cases "session_getBranch ops i ss"; cases "session_getBranch ops' i tt") auto
  show ?thesis
  proof (cases c)
    case (CallContext base options)
    have ctx: "map_option (apfst (\<lambda>r. bindE r (\<lambda>x. Inr (RContext x)))) (session_buildContext ops'' base options uu)
       = map_option (apfst (\<lambda>r. bindE r (\<lambda>es. Inr (RContext (buildSessionContext es (mergeContextBuildOptions base options))))))
          (session_getBranch ops'' None uu)" for ops'' :: "'u session_ops" and uu
      by (cases "session_getBranch ops'' None uu") (auto simp: session_buildContext_def bindE_assoc)
    show ?thesis
      unfolding CallContext run_call.simps ctx by (rule branch)
  qed (auto intro!: * branch simp del: option.rel_inject simp: appendMessage_def appendThinkingLevelChange_def
      appendModelChange_def appendActiveToolsChange_def appendCompaction_def appendCustomEntry_def appendCustomMessageEntry_def)
qed

lemma runs_agree: "alike ss tt \<Longrightarrow> map_option fst (run_calls ops uuid cs ss) = map_option fst (run_calls ops' uuid cs tt)"
proof (induction cs arbitrary: ss tt)
  case (Cons c cs)
  show ?case
  proof (cases "run_call ops uuid c ss")
    case None
    then show ?thesis
      using run_call_alike [OF Cons.prems, of uuid c] by (cases "run_call ops' uuid c tt") auto
  next
    case (Some x)
    then obtain y where y: "run_call ops' uuid c tt = Some y" "fst x = fst y" "alike (snd x) (snd y)"
      using run_call_alike [OF Cons.prems, of uuid c] by (cases "run_call ops' uuid c tt") auto
    then have "map_option fst (run_calls ops uuid cs (snd x)) = map_option fst (run_calls ops' uuid cs (snd y))"
      by (intro Cons.IH)
    then show ?thesis
      using Some y by (cases x; cases y; cases "run_calls ops uuid cs (snd x)"; cases "run_calls ops' uuid cs (snd y)") auto
  qed
qed simp

end

end
