(* ===== verification/JsonlProps.thy ===== *)
theory JsonlProps
  imports JsonlStore SessionProps StoreAgreement
begin

text \<open>
  Properties of the JSONL store: what it writes it loads again, it is a \<open>session_store\<close>
  (interpretation \<open>jl\<close>) while the file system works, and a session over it cannot be told from
  one over the in-memory store.
\<close>

section \<open>Documents\<close>

definition entry_ok :: "entry \<Rightarrow> bool" where
  "entry_ok e \<longleftrightarrow> e_id e \<noteq> [] \<and> e_timestamp e \<noteq> [] \<and> body_json_ok (e_body e)"

definition header_ok :: "session_header \<Rightarrow> bool" where
  "header_ok h \<longleftrightarrow> sh_id h \<noteq> [] \<and> sh_timestamp h \<noteq> [] \<and> sh_cwd h \<noteq> []
     \<and> (case sh_metadata h of None \<Rightarrow> True | Some m \<Rightarrow> json_ok (JObj m))"

lemma fieldE_simps [simp]: "fieldE e (Some v) = Inr v" "fieldE e None = Inl e"
  by (simp_all add: fieldE_def)

lemma fieldE_Inr [simp]: "fieldE e x = Inr v \<longleftrightarrow> x = Some v"
  by (cases x) simp_all

lemma nonempty_str_simps [simp]: "nonempty_str (JStr s) = Some v \<longleftrightarrow> s \<noteq> [] \<and> v = s"
  by (simp add: nonempty_str_def eq_commute)

lemma nonempty_str_Some: "s \<noteq> [] \<Longrightarrow> nonempty_str (JStr s) = Some s"
  by simp

lemma entry_line_back:
  assumes "entry_ok e"
  shows "parseEntry (stringify (entry_json e)) = Inr e"
proof -
  have p: "json_parse (stringify (entry_json e)) = Some (entry_json e)"
    using assms by (simp add: entry_ok_def json_parse_stringify entry_json_ok)
  have b: "body_of (entry_json e) = Some (e_body e)"
    by (simp add: entry_json_def body_back)
  obtain ty where ty: "need ''type'' as_str (entry_json e) = Some ty"
    by (cases "e_body e") (simp_all add: entry_json_def tag_def)
  have leaf: "need ''targetId'' (as_null_or as_str) (entry_json e) \<noteq> None" if "ty = key ''leaf''"
    using ty that by (cases "e_body e") (simp_all add: entry_json_def tag_def)
  have base: "need ''id'' nonempty_str (entry_json e) = Some (e_id e)"
    "need ''parentId'' (as_null_or as_str) (entry_json e) = Some (e_parentId e)"
    "need ''timestamp'' nonempty_str (entry_json e) = Some (e_timestamp e)" "is_object (entry_json e)"
    using assms by (simp_all add: entry_json_def entry_ok_def nonempty_str_Some is_object_def)
  show ?thesis
    using leaf by (simp add: parseEntry_def p ty base view_def b)
qed

lemma header_back:
  assumes "header_ok h"
  shows "parseHeader (stringify (header_json h)) = Inr h"
proof -
  have "json_ok (header_json h)"
    using assms by (auto simp: header_json_def json_ok_obj header_ok_def simp del: json_ok.simps(6))
  then have p: "json_parse (stringify (header_json h)) = Some (header_json h)"
    by (rule json_parse_stringify)
  have "is_object (header_json h)" "is_tag ''type'' ''session'' (header_json h)"
    "get ''version'' (header_json h) = Some (JNum 3 0)"
    by (simp_all add: header_json_def is_object_def is_tag_def)
  moreover have "need ''id'' nonempty_str (header_json h) = Some (sh_id h)"
    "need ''timestamp'' nonempty_str (header_json h) = Some (sh_timestamp h)"
    "need ''cwd'' nonempty_str (header_json h) = Some (sh_cwd h)"
    using assms by (simp_all add: header_json_def header_ok_def nonempty_str_Some)
  moreover have "may ''parentSession'' as_str (header_json h) = Some (sh_parentSession h)"
    "may ''metadata'' as_fields (header_json h) = Some (sh_metadata h)"
    by (simp_all add: header_json_def)
  ultimately show ?thesis
    by (simp add: parseHeader_def p)
qed

lemma trim_nonspace: "c \<in> set s \<Longrightarrow> \<not> is_space c \<Longrightarrow> trim s \<noteq> []"
proof -
  assume c: "c \<in> set s" "\<not> is_space c"
  then have s: "dropWhile is_space s \<noteq> []"
    by auto
  then have "\<not> is_space (hd (dropWhile is_space s))" "hd (dropWhile is_space s) \<in> set (rev (dropWhile is_space s))"
    using hd_dropWhile [OF s] by simp_all
  then have "dropWhile is_space (rev (dropWhile is_space s)) \<noteq> []"
    by (metis dropWhile_eq_Nil_conv)
  then show "trim s \<noteq> []"
    by (simp add: trim_def trimEnd_def trimStart_def)
qed

lemma object_not_blank: "\<not> blank (stringify (JObj kvs))"
  using trim_nonspace [of "0x7B" "stringify (JObj kvs)"] by (simp add: blank_def is_space_def cu_def)

lemma blank_Nil [simp]: "blank []"
  by (simp add: blank_def trim_def trimStart_def trimEnd_def)

lemma documentLines_ends:
  assumes "t = [] \<or> last t = NL" "NL \<notin> set l" "\<not> blank l"
  shows "documentLines (t @ l @ [NL]) = documentLines t @ [l]"
proof (cases t rule: rev_cases)
  case Nil
  then show ?thesis
    using assms(2,3) splitChar_append [of NL l "[]"] by (simp add: documentLines_def splitChar_plain)
next
  case (snoc t' c)
  then have "t = t' @ [NL]"
    using assms(1) by simp
  then show ?thesis
    using assms(2,3) splitChar_append [of NL l "[]"] splitChar_append [of NL t' "[]"] splitChar_append [of NL t' "l @ [NL]"]
    by (simp add: documentLines_def splitChar_plain)
qed

lemma documentLines_join:
  "(\<forall>l\<in>set ls. NL \<notin> set l \<and> \<not> blank l) \<Longrightarrow> documentLines (join [NL] (ls @ [[]])) = ls"
proof -
  assume ls: "\<forall>l\<in>set ls. NL \<notin> set l \<and> \<not> blank l"
  then have "splitChar NL (join [NL] (ls @ [[]])) = ls @ [[]]"
    by (intro splitChar_join) auto
  then show "documentLines (join [NL] (ls @ [[]])) = ls"
    using ls by (simp add: documentLines_def filter_id_conv)
qed

lemma firstDuplicate_None: "firstDuplicate seen is = None \<longleftrightarrow> distinct is \<and> set is \<inter> set seen = {}"
  by (induction seen "is" rule: firstDuplicate.induct) auto

lemma parseLines_snoc:
  "parseLines (ls @ [l]) = bindE (parseLines ls) (\<lambda>es. bindE (wrapE (BadLine (length ls + 2)) (parseEntry l)) (\<lambda>e. Inr (es @ [e])))"
proof -
  have "zip (ls @ [l]) [2..<length (ls @ [l]) + 2] = zip ls [2..<length ls + 2] @ [(l, length ls + 2)]"
  proof -
    have "[2..<length (ls @ [l]) + 2] = [2..<length ls + 2] @ [length ls + 2]"
      by simp
    then show ?thesis
      by (simp only: zip_append length_upt) simp
  qed
  then show ?thesis
    unfolding parseLines_def by (simp only: mapE_append) (cases "parseEntry l"; simp add: bindE_def split: sum.split)
qed

lemma parseLines_back: "list_all entry_ok es \<Longrightarrow> parseLines (map (\<lambda>e. stringify (entry_json e)) es) = Inr es"
  by (induction es rule: rev_induct) (simp_all add: parseLines_snoc entry_line_back, simp add: parseLines_def)

lemma entry_text [simp]: "NL \<notin> set (stringify (entry_json e))" "\<not> blank (stringify (entry_json e))"
  "NL \<notin> set (stringify (header_json h))" "\<not> blank (stringify (header_json h))"
  by (simp_all add: stringify_no_newline entry_json_def header_json_def object_not_blank del: stringify.simps)

text \<open>The text of a new document is loaded as what it was written from.\<close>

lemma document_loads:
  assumes "header_ok h" "list_all entry_ok es" "distinct (map e_id es)"
  shows "loadText path (documentText h es) = Inr (metadataFromHeader h path, es)"
proof -
  have "documentLines (documentText h es) = stringify (header_json h) # map (\<lambda>e. stringify (entry_json e)) es"
    using documentLines_join [of "stringify (header_json h) # map (\<lambda>e. stringify (entry_json e)) es"]
    by (auto simp: documentText_def)
  moreover have "firstDuplicate [] (map e_id es) = None"
    using assms(3) by (simp add: firstDuplicate_None)
  ultimately show ?thesis
    using assms(1,2) by (simp add: loadText_def header_back parseLines_back)
qed

lemma document_ends: "last (documentText h es) = NL"
proof -
  have "join [NL] (ls @ [[]]) = concat (map (\<lambda>l. l @ [NL]) ls)" for ls :: "jsstring list"
    by (induction ls) (simp_all add: join_Cons)
  from this [of "stringify (header_json h) # map (\<lambda>e. stringify (entry_json e)) es"] show ?thesis
    by (cases es rule: rev_cases) (simp_all add: documentText_def)
qed

text \<open>An appended line is loaded as one more entry.\<close>

lemma appended_loads:
  assumes "loadText path t = Inr (md, es)" "last t = NL" "entry_ok e" "e_id e \<notin> ids es"
  shows "loadText path (t @ entry_line e) = Inr (md, es @ [e])"
proof -
  obtain h ls hd where l: "documentLines t = h # ls" "parseHeader h = Inr hd" "parseLines ls = Inr es"
    "firstDuplicate [] (map e_id es) = None" "md = metadataFromHeader hd path"
    using assms(1) by (auto simp: loadText_def bindE_eq_Inr_iff split: list.splits option.splits)
  have "documentLines (t @ entry_line e) = h # ls @ [stringify (entry_json e)]"
    using documentLines_ends [of t "stringify (entry_json e)"] assms(2) l(1) by (simp add: entry_line_def)
  moreover have "firstDuplicate [] (map e_id (es @ [e])) = None"
    using l(4) assms(4) by (auto simp: firstDuplicate_None ids_def)
  ultimately show ?thesis
    using l assms(3) by (simp add: loadText_def parseLines_snoc entry_line_back)
qed

text \<open>A document that was loaded has distinct identifiers and checked fields.\<close>

lemma loaded_ids: "loadText path t = Inr (md, es) \<Longrightarrow> distinct (map e_id es)"
  by (auto simp: loadText_def bindE_eq_Inr_iff firstDuplicate_None split: list.splits option.splits)

section \<open>The store under a session\<close>

text \<open>
  A file system at work: \<open>content\<close> tells the text of the files of a state. What exists is found and
  read, appending and writing change that file alone, and making a directory changes no file.
\<close>

definition fs_ok :: "'f file_system \<Rightarrow> ('f \<Rightarrow> jsstring \<Rightarrow> jsstring option) \<Rightarrow> bool" where
  "fs_ok fs content \<longleftrightarrow>
     (\<forall>f p t. content f p = Some t \<longrightarrow> fs_exists fs p f = Inr True \<and> fs_readTextFile fs p f = Inr t)
   \<and> (\<forall>f p t s. content f p = Some t \<longrightarrow>
        (\<exists>f'. fs_appendFile fs p s f = (Inr (), f') \<and> content f' = (content f)(p \<mapsto> t @ s)))
   \<and> (\<forall>f p s f'. fs_writeFile fs p s f = (Inr (), f') \<longrightarrow> content f' = (content f)(p \<mapsto> s))
   \<and> (\<forall>f p r f'. fs_createDir fs p f = (r, f') \<longrightarrow> content f' = content f)"

lemma fs_okD:
  assumes "fs_ok fs content"
  shows "content f p = Some t \<Longrightarrow> fs_exists fs p f = Inr True"
    "content f p = Some t \<Longrightarrow> fs_readTextFile fs p f = Inr t"
    "content f p = Some t \<Longrightarrow> \<exists>f'. fs_appendFile fs p s f = (Inr (), f') \<and> content f' = (content f)(p \<mapsto> t @ s)"
    "fs_writeFile fs p s f = (Inr (), f') \<Longrightarrow> content f' = (content f)(p \<mapsto> s)"
    "fs_createDir fs p f = (r, f') \<Longrightarrow> content f' = content f"
  using assms by (simp_all add: fs_ok_def)

text \<open>A reader of an open store whose document is in memory.\<close>

definition jl_opened ::
    "'f file_system \<Rightarrow> ('f \<Rightarrow> jsstring \<Rightarrow> jsstring option) \<Rightarrow> jsonl_metadata \<Rightarrow> jsonl_reader \<times> jsonl_store \<times> 'f \<Rightarrow> bool" where
  "jl_opened fs content md = (\<lambda>(r, st, f). fs_ok fs content \<and> \<not> jl_disposed st \<and> content f (jm_path md) \<noteq> None
     \<and> jm_path (jr_metadata r) = jm_path md
     \<and> (\<exists>a is. map_of (jl_entriesByPath st) (jm_path md) = Some a \<and> a < length (jl_arrays st)
         \<and> map_of (jl_entryIdsByPath st) (jm_path md) = Some is \<and> set is = ids (jl_arrays st ! a)
         \<and> indexed a (jl_arrays st ! a) (jr_index r)))"

definition jl_stored :: "jsonl_reader \<times> jsonl_store \<times> 'f \<Rightarrow> entry list" where
  "jl_stored = (\<lambda>(r, st, f). case jsonl_entries r st of None \<Rightarrow> [] | Some (a, es) \<Rightarrow> es)"

lemma jl_openedE:
  assumes "jl_opened fs content md (r, st, f)"
  obtains a "is" t where "fs_ok fs content" "\<not> jl_disposed st" "content f (jm_path md) = Some t"
    "jm_path (jr_metadata r) = jm_path md" "map_of (jl_entriesByPath st) (jm_path md) = Some a"
    "a < length (jl_arrays st)" "map_of (jl_entryIdsByPath st) (jm_path md) = Some is"
    "set is = ids (jl_arrays st ! a)" "indexed a (jl_arrays st ! a) (jr_index r)"
    "jl_stored (r, st, f) = jl_arrays st ! a" "jsonl_entries r st = Some (a, jl_arrays st ! a)"
  using assms by (auto simp: jl_opened_def jl_stored_def jsonl_entries_def)

lemma action_simps [simp]:
  "bindA (liftA (Inr x)) k = k x" "bindA (liftA (Inl e)) k = liftA (Inl e)"
  "bindA (\<lambda>s. (Inr x, g s)) k = (\<lambda>s. k x (g s))"
  "bindA (modifyStore h) k (st, f) = k () (h st, f)"
  by (simp_all add: fun_eq_iff bindA_def liftA_def modifyStore_def)

lemma fs_result_simps [simp]:
  "getFileSystemResultOrThrow subject (Inr x) = Inr x"
  "getFileSystemResultOrThrow subject r = Inr x \<longleftrightarrow> r = Inr x"
  by (simp_all add: getFileSystemResultOrThrow_def)

lemma jl_append_run:
  assumes "jl_opened fs content md (r, st, f)"
  obtains a "is" t f' where "map_of (jl_entriesByPath st) (jm_path md) = Some a" "a < length (jl_arrays st)"
    "set is = ids (jl_stored (r, st, f))" "jl_stored (r, st, f) = jl_arrays st ! a"
    "content f (jm_path md) = Some t" "content f' = (content f)(jm_path md \<mapsto> t @ entry_line e)"
    "jsonl_appendEntry fs md e (st, f) =
       (if e_id e \<in> ids (jl_stored (r, st, f)) then (Inl (InvalidEntry (e_id e)), st, f)
        else (Inr (), pushEntry (jm_path md) is e st, f'))"
proof -
  obtain a "is" t where o: "fs_ok fs content" "\<not> jl_disposed st" "content f (jm_path md) = Some t"
    "map_of (jl_entriesByPath st) (jm_path md) = Some a" "a < length (jl_arrays st)"
    "map_of (jl_entryIdsByPath st) (jm_path md) = Some is" "set is = ids (jl_arrays st ! a)"
    "jl_stored (r, st, f) = jl_arrays st ! a"
    using jl_openedE [OF assms] by metis
  obtain f' where f': "fs_appendFile fs (jm_path md) (entry_line e) f = (Inr (), f')"
    "content f' = (content f)(jm_path md \<mapsto> t @ entry_line e)"
    using fs_okD(3) [OF o(1,3)] by blast
  have "jsonl_appendEntry fs md e (st, f) =
       (if e_id e \<in> ids (jl_stored (r, st, f)) then (Inl (InvalidEntry (e_id e)), st, f)
        else (Inr (), pushEntry (jm_path md) is e st, f'))"
    using o(2,6,7,8) f'(1) fs_okD(1) [OF o(1,3)]
    by (simp add: jsonl_appendEntry_def bindA_def jsonl_assertOpen_def requireFile_def readFs_def liftA_def knownIds_def
        writeFs_def modifyStore_def)
  then show thesis
    using that o f'(2) by metis
qed

lemma jl_append:
  assumes "jl_opened fs content md (r, st, f)" "e_id e \<notin> ids (jl_stored (r, st, f))"
  shows "\<exists>st' f'. jsonl_appendEntry fs md e (st, f) = (Inr (), st', f') \<and> jl_opened fs content md (r, st', f')
    \<and> jl_stored (r, st', f') = jl_stored (r, st, f) @ [e]
    \<and> content f' = (content f)(jm_path md \<mapsto> the (content f (jm_path md)) @ entry_line e)"
proof -
  obtain a "is" t f' where x: "map_of (jl_entriesByPath st) (jm_path md) = Some a" "a < length (jl_arrays st)"
    "set is = ids (jl_stored (r, st, f))" "jl_stored (r, st, f) = jl_arrays st ! a"
    "content f (jm_path md) = Some t" "content f' = (content f)(jm_path md \<mapsto> t @ entry_line e)"
    "jsonl_appendEntry fs md e (st, f) = (Inr (), pushEntry (jm_path md) is e st, f')"
    using jl_append_run [OF assms(1), of e] assms(2) by metis
  have "indexed a (jl_arrays st ! a @ [e]) (jr_index r)"
    using assms(1) x(1) by (auto simp: jl_opened_def indexed_extends)
  then have "jl_opened fs content md (r, pushEntry (jm_path md) is e st, f')"
    using assms(1) x by (auto simp: jl_opened_def pushEntry_def Let_def update_conv')
  moreover have "jl_stored (r, pushEntry (jm_path md) is e st, f') = jl_stored (r, st, f) @ [e]"
    using assms(1) x by (auto simp: jl_opened_def jl_stored_def jsonl_entries_def pushEntry_def Let_def)
  ultimately show ?thesis
    using x by auto
qed

lemma jl_append_old:
  assumes "jl_opened fs content md (r, st, f)" "e_id e \<in> ids (jl_stored (r, st, f))"
  shows "jsonl_appendEntry fs md e (st, f) = (Inl (InvalidEntry (e_id e)), st, f)"
  using jl_append_run [OF assms(1), of e] assms(2) by metis

text \<open>A read indexes the entries, and answers as a fresh reader of them does.\<close>

definition jl_refresh :: "jsonl_reader \<times> jsonl_store \<times> 'f \<Rightarrow> jsonl_reader \<times> jsonl_store \<times> 'f" where
  "jl_refresh = (\<lambda>(r, st, f). case jsonl_entries r st of
     None \<Rightarrow> (r, st, f) | Some (a, es) \<Rightarrow> (r\<lparr>jr_index := reader_of a es\<rparr>, st, f))"

lemma jl_read:
  assumes "jl_opened fs content md s"
  shows "jl_opened fs content md (jl_refresh s)" "jl_stored (jl_refresh s) = jl_stored s"
    "\<exists>a. jsonl_read g s = (g (jl_stored s) (reader_of a (jl_stored s)), jl_refresh s)
      \<and> jsonl_readPath leaf s = map_option (\<lambda>x. (x, jl_refresh s)) (readPathToRootOrCompaction leaf (reader_of a (jl_stored s)))"
proof -
  obtain r st f where s: "s = (r, st, f)"
    by (cases s)
  obtain a where o: "\<not> jl_disposed st" "indexed a (jl_arrays st ! a) (jr_index r)"
    "jl_stored (r, st, f) = jl_arrays st ! a" "jsonl_entries r st = Some (a, jl_arrays st ! a)"
    using jl_openedE [OF assms [unfolded s]] by metis
  have x: "updateIndex a (jl_arrays st ! a) (jr_index r) = reader_of a (jl_arrays st ! a)"
    using o(2) by (rule updateIndex_reader_of)
  have "indexed a (jl_arrays st ! a) (reader_of a (jl_arrays st ! a))"
    using indexed_reader_of [of a "jl_arrays st ! a" "[]"] by simp
  then show "jl_opened fs content md (jl_refresh s)" "jl_stored (jl_refresh s) = jl_stored s"
    using assms o(4) unfolding s
    by (auto simp: jl_opened_def jl_refresh_def jl_stored_def jsonl_entries_def)
  show "\<exists>a. jsonl_read g s = (g (jl_stored s) (reader_of a (jl_stored s)), jl_refresh s)
      \<and> jsonl_readPath leaf s = map_option (\<lambda>x. (x, jl_refresh s)) (readPathToRootOrCompaction leaf (reader_of a (jl_stored s)))"
    using o x unfolding s by (auto simp: jsonl_read_def jsonl_readPath_def jl_refresh_def Let_def)
qed

interpretation jl: session_store "jsonl_ops fs md" "jl_opened fs content md" jl_stored
proof (unfold_locales, goal_cases)
  case (1 s e)
  then show ?case
    using jl_append [of fs content md "fst s" "fst (snd s)" "snd (snd s)" e]
    by (cases s) (auto simp: jsonl_ops_def)
next
  case (2 s e)
  then show ?case
    using jl_append_old [of fs content md "fst s" "fst (snd s)" "snd (snd s)" e]
    by (cases s) (auto simp: jsonl_ops_def)
next
  case (3 s)
  then obtain a where "jsonl_read (\<lambda>_. readHead) s = ((\<lambda>_. readHead) (jl_stored s) (reader_of a (jl_stored s)), jl_refresh s)"
    using jl_read(3) by blast
  then show ?case
    using jl_read(1,2) [OF 3] by (intro exI [of _ "jl_refresh s"]) (simp add: jsonl_ops_def readers_agree(1) [of a])
next
  case (4 s i)
  then obtain a where "jsonl_read (\<lambda>_ x. Inr (readEntry i x)) s = ((\<lambda>_ x. Inr (readEntry i x)) (jl_stored s) (reader_of a (jl_stored s)), jl_refresh s)"
    using jl_read(3) by blast
  then show ?case
    using jl_read(1,2) [OF 4] by (intro exI [of _ "jl_refresh s"]) (simp add: jsonl_ops_def readers_agree(2) [of _ a])
next
  case (5 s b l)
  then obtain a where "jsonl_read (\<lambda>es _. Inr (readEntries b l es)) s = ((\<lambda>es _. Inr (readEntries b l es)) (jl_stored s) (reader_of a (jl_stored s)), jl_refresh s)"
    using jl_read(3) by blast
  then show ?case
    using jl_read(1,2) [OF 5] by (intro exI [of _ "jl_refresh s"]) (simp add: jsonl_ops_def )
next
  case (6 s q)
  then obtain a where "jsonl_read (\<lambda>_. findEntriesOnBranch q) s = ((\<lambda>_. findEntriesOnBranch q) (jl_stored s) (reader_of a (jl_stored s)), jl_refresh s)"
    using jl_read(3) by blast
  then show ?case
    using jl_read(1,2) [OF 6] by (intro exI [of _ "jl_refresh s"]) (simp add: jsonl_ops_def readers_agree(3) [of _ a])
next
  case (7 s leaf)
  then obtain a where "jsonl_readPath leaf s = map_option (\<lambda>x. (x, jl_refresh s)) (readPathToRootOrCompaction leaf (reader_of a (jl_stored s)))"
    using jl_read(3) [of fs content md s "\<lambda>_. readHead" leaf] by blast
  then show ?case
    using jl_read(1,2) [OF 7] by (intro exI [of _ "jl_refresh s"]) (simp add: jsonl_ops_def readers_agree(4) [of _ a])
qed

interpretation both: two_stores "memory_ops md" "opened md" opened_entries "jsonl_ops fs jmd" "jl_opened fs content jmd" jl_stored
  by unfold_locales

section \<open>Files\<close>

text \<open>A file system in memory, a list of paths with their texts: the samples run on it.\<close>

type_synonym files = "(jsstring \<times> jsstring) list"

definition file_at :: "files \<Rightarrow> jsstring \<Rightarrow> file_error + jsstring" where
  "file_at files p = (case map_of files p of None \<Rightarrow> Inl FileNotFound | Some t \<Rightarrow> Inr t)"

definition sample_fs :: "files file_system" where
  "sample_fs = \<lparr>
     fs_absolutePath = (\<lambda>p f. Inr p),
     fs_joinPath = (\<lambda>ps f. Inr (join (js ''/'') ps)),
     fs_readTextFile = (\<lambda>p f. file_at f p),
     fs_readTextLines = (\<lambda>n p f. bindE (file_at f p) (\<lambda>t. Inr (take n (splitChar NL t)))),
     fs_listDir = (\<lambda>d f. Inr (map (\<lambda>(p, t). \<lparr>fi_name = drop (Suc (length d)) p, fi_path = p, fi_directory = False\<rparr>)
        (filter (\<lambda>(p, t). startsWith (d @ js ''/'') p) f))),
     fs_exists = (\<lambda>p f. Inr (\<exists>(q, t)\<in>set f. q = p \<or> startsWith (p @ js ''/'') q)),
     fs_writeFile = (\<lambda>p s f. (Inr (), AList.update p s f)),
     fs_appendFile = (\<lambda>p s f. (Inr (), AList.update p ((case map_of f p of None \<Rightarrow> [] | Some t \<Rightarrow> t) @ s) f)),
     fs_createDir = (\<lambda>p f. (Inr (), f)),
     fs_remove = (\<lambda>p f. (Inr (), AList.delete p f))\<rparr>"

lemma sample_fs_ok: "fs_ok sample_fs map_of"
  by (auto simp: fs_ok_def sample_fs_def file_at_def update_conv' dest: map_of_SomeD)

definition sample_options :: create_options where
  "sample_options = \<lparr>co_id = Some (js ''u1''), co_cwd = js ''/w'', co_parentSessionPath = None, co_metadata = None\<rparr>"

definition sample_now :: jsstring where
  "sample_now = js ''2025-01-01T00:00:00.000Z''"

definition sample_created :: "(session_error + jsonl_reader) \<times> jsonl_store \<times> files" where
  "sample_created = jsonl_create sample_fs (js ''u'') sample_now sample_options (createJsonlSessionStore (js ''/s''), [])"

lemma sample_created_ok: "isInr (fst sample_created)"
  by code_simp

definition sample_jmd :: jsonl_metadata where
  "sample_jmd = \<lparr>jm_id = js ''s'', jm_createdAt = sample_now, jm_cwd = js ''/w'', jm_path = js ''/s/f'',
     jm_parentSessionPath = None, jm_metadata = None\<rparr>"

definition sample_jsonl :: "(jsonl_reader \<times> jsonl_store \<times> files) session" where
  "sample_jsonl = \<lparr>ss_store = (\<lparr>jr_metadata = sample_jmd, jr_operationKey = js ''/s/f'', jr_index = new_reader\<rparr>,
       (createJsonlSessionStore (js ''/s''))\<lparr>jl_arrays := [sample_session], jl_entriesByPath := [(js ''/s/f'', 0)],
         jl_entryIdsByPath := [(js ''/s/f'', map e_id sample_session)]\<rparr>,
       [(js ''/s/f'', js ''text'')]),
     ss_leafId = Some (js ''x''), ss_hydratedState = None, ss_uuids = 0\<rparr>"

lemma sample_jsonl_opened:
  "jl_opened sample_fs map_of sample_jmd (ss_store sample_jsonl)" "jl_stored (ss_store sample_jsonl) = sample_session"
  by (simp_all add: jl_opened_def sample_fs_ok sample_jsonl_def sample_jmd_def createJsonlSessionStore_def ids_def
      jl_stored_def jsonl_entries_def)

lemma sample_session_entries: "list_all entry_ok sample_session" "distinct (map e_id sample_session)"
  by (simp_all add: sample_session_eval entry_ok_def cu_def)

section \<open>What is stored stays stored\<close>

fun appendAll :: "'f file_system \<Rightarrow> jsonl_metadata \<Rightarrow> entry list \<Rightarrow> ('f, unit) action" where
  "appendAll fs md [] = liftA (Inr ())"
| "appendAll fs md (e # es) = bindA (jsonl_appendEntry fs md e) (\<lambda>_. appendAll fs md es)"

text \<open>The file of a document in memory holds its metadata and its entries.\<close>

definition persisted ::
    "'f file_system \<Rightarrow> ('f \<Rightarrow> jsstring \<Rightarrow> jsstring option) \<Rightarrow> jsonl_metadata \<Rightarrow> jsonl_reader \<times> jsonl_store \<times> 'f \<Rightarrow> bool" where
  "persisted fs content md s \<longleftrightarrow> jl_opened fs content md s
     \<and> (\<exists>t. content (snd (snd s)) (jm_path md) = Some t \<and> loadText (jm_path md) t = Inr (md, jl_stored s) \<and> last t = NL)"

lemma append_persisted:
  assumes "persisted fs content md (r, st, f)" "entry_ok e" "e_id e \<notin> ids (jl_stored (r, st, f))"
  shows "\<exists>st' f'. jsonl_appendEntry fs md e (st, f) = (Inr (), st', f') \<and> persisted fs content md (r, st', f')
    \<and> jl_stored (r, st', f') = jl_stored (r, st, f) @ [e]"
proof -
  have o: "jl_opened fs content md (r, st, f)"
    using assms(1) by (simp add: persisted_def)
  obtain t where t: "content f (jm_path md) = Some t" "loadText (jm_path md) t = Inr (md, jl_stored (r, st, f))" "last t = NL"
    using assms(1) by (auto simp: persisted_def)
  obtain st' f' where n: "jsonl_appendEntry fs md e (st, f) = (Inr (), st', f')" "jl_opened fs content md (r, st', f')"
    "jl_stored (r, st', f') = jl_stored (r, st, f) @ [e]"
    "content f' = (content f)(jm_path md \<mapsto> the (content f (jm_path md)) @ entry_line e)"
    using jl_append [OF o assms(3)] by blast
  moreover have "persisted fs content md (r, st', f')"
    using n t appended_loads [OF t(2,3) assms(2,3)] by (simp add: persisted_def entry_line_def)
  ultimately show ?thesis
    by blast
qed

lemma appendAll_persisted:
  assumes "persisted fs content md (r, st, f)" "list_all entry_ok es" "distinct (map e_id es)"
    "\<forall>e\<in>set es. e_id e \<notin> ids (jl_stored (r, st, f))"
  shows "\<exists>st' f'. appendAll fs md es (st, f) = (Inr (), st', f') \<and> persisted fs content md (r, st', f')
    \<and> jl_stored (r, st', f') = jl_stored (r, st, f) @ es"
  using assms
proof (induction es arbitrary: st f)
  case Nil
  then show ?case
    by (simp add: liftA_def)
next
  case (Cons e es)
  obtain st1 f1 where n: "jsonl_appendEntry fs md e (st, f) = (Inr (), st1, f1)" "persisted fs content md (r, st1, f1)"
    "jl_stored (r, st1, f1) = jl_stored (r, st, f) @ [e]"
    using append_persisted [OF Cons.prems(1), of e] Cons.prems(2-4) by auto
  have "\<forall>x\<in>set es. e_id x \<notin> ids (jl_stored (r, st1, f1))"
  proof
    fix x
    assume "x \<in> set es"
    moreover from this have "e_id x \<noteq> e_id e"
      using Cons.prems(3) by (auto simp: image_iff)
    ultimately show "e_id x \<notin> ids (jl_stored (r, st1, f1))"
      using Cons.prems(4) n(3) by auto
  qed
  then obtain st' f' where "appendAll fs md es (st1, f1) = (Inr (), st', f')" "persisted fs content md (r, st', f')"
    "jl_stored (r, st', f') = jl_stored (r, st1, f1) @ es"
    using Cons.IH [OF n(2)] Cons.prems(2,3) by auto
  then show ?case
    using n by (simp add: bindA_def)
qed

text \<open>A document in memory is one another store loads.\<close>

lemma persisted_loads:
  assumes "persisted fs content md (r, st, f)" "\<not> jl_disposed st0"
  shows "\<exists>r' st'. jsonl_load fs md (st0, f) = (Inr r', st', f) \<and> jr_metadata r' = md
    \<and> jl_stored (r', st', f) = jl_stored (r, st, f) \<and> persisted fs content md (r', st', f)"
proof -
  obtain t where t: "fs_ok fs content" "content f (jm_path md) = Some t"
    "loadText (jm_path md) t = Inr (md, jl_stored (r, st, f))" "last t = NL"
    using assms(1) by (auto simp: persisted_def jl_opened_def)
  let ?st = "setDocument (jm_path md) (jl_stored (r, st, f)) st0"
  let ?r = "\<lparr>jr_metadata = md, jr_operationKey = operationKey md ?st, jr_index = new_reader\<rparr>"
  have "jsonl_load fs md (st0, f) = (Inr ?r, ?st, f)"
    using assms(2) t fs_okD(1,2) [OF t(1,2)]
    by (simp add: jsonl_load_def jsonl_assertOpen_def bindA_def loadDocument_def readDocument_def requireFile_def readFs_def
        liftA_def loadJsonlSession_def modifyStore_def newJsonlReader_def)
  moreover have stored: "jl_stored (?r, ?st, f) = jl_stored (r, st, f)"
    by (simp add: jl_stored_def [where ?'f = 'a] jsonl_entries_def setDocument_def update_conv')
  moreover have "jl_opened fs content md (?r, ?st, f)"
    using assms(2) t stored by (auto simp: jl_opened_def setDocument_def update_conv' ids_def)
  ultimately show ?thesis
    using t by (intro exI [of _ ?r] exI [of _ ?st]) (simp add: persisted_def)
qed

lemma bindA_InrE:
  assumes "bindA m k s = (Inr x, s')"
  obtains y s1 where "m s = (Inr y, s1)" "k y s1 = (Inr x, s')"
  using assms by (auto simp: bindA_def split: prod.splits sum.splits)

lemma readFs_Inr [simp]: "readFs subject op (st, f) = (Inr x, s') \<longleftrightarrow> op f = Inr x \<and> s' = (st, f)"
  by (auto simp: readFs_def)

lemma bind_writeFs:
  assumes "bindA (writeFs subject op) k (st, f) = (Inr x, s')"
  obtains f' where "op f = (Inr (), f')" "k () (st, f') = (Inr x, s')"
  using assms by (auto simp: writeFs_def bindA_def getFileSystemResultOrThrow_def split: prod.splits sum.splits)

lemma bind_readFs:
  assumes "bindA (readFs subject op) k (st, f) = (Inr x, s')"
  obtains y where "op f = Inr y" "k y (st, f) = (Inr x, s')"
  using assms by (auto simp: readFs_def bindA_def split: sum.splits)

lemma getSessionDir_same:
  assumes "getSessionDir fs cwd (st, f) = (r, st', f')"
  shows "f' = f \<and> jl_disposed st' = jl_disposed st"
  using assms
  by (auto simp: getSessionDir_def getSessionsRoot_def bindA_def readFs_def liftA_def modifyStore_def
      split: option.splits prod.splits sum.splits)

lemma descriptor_fields:
  "createDocumentDescriptor uuid now options = Inr ds \<Longrightarrow> ds_id ds \<noteq> [] \<and> ds_timestamp ds = now"
  by (auto simp: createDocumentDescriptor_def Let_def split: if_splits option.splits)

lemma created_persisted:
  assumes "fs_ok fs content" "\<not> jl_disposed st" "ds_id ds \<noteq> []" "ds_timestamp ds \<noteq> []" "co_cwd options \<noteq> []"
    and "case metadata of None \<Rightarrow> True | Some m \<Rightarrow> json_ok (JObj m)" "list_all entry_ok es" "distinct (map e_id es)"
    and "createDocument fs ds options parent metadata es (st, f) = (Inr r, st', f')"
  shows "persisted fs content (jr_metadata r) (r, st', f') \<and> jl_stored (r, st', f') = es"
proof -
  define h where "h path = \<lparr>sh_id = ds_id ds, sh_timestamp = ds_timestamp ds, sh_cwd = co_cwd options,
    sh_parentSession = parent, sh_metadata = metadata\<rparr>" for path :: jsstring
  from assms(9) obtain dir s1 where dir: "getSessionDir fs (co_cwd options) (st, f) = (Inr dir, s1)" and c:
    "bindA (writeFs dir (fs_createDir fs dir)) (\<lambda>_.
     bindA (readFs (ds_id ds) (fs_joinPath fs [dir, ds_fileName ds])) (\<lambda>path.
     bindA (readFs path (fs_exists fs path)) (\<lambda>there.
     if there then liftA (Inl InvalidSession) else
     bindA (writeFs path (fs_writeFile fs path (documentText (h path) es))) (\<lambda>_.
     bindA (modifyStore (setDocument path es)) (\<lambda>_.
     bindA (modifyStore (\<lambda>st. st\<lparr>jl_operationKeysByPath := AList.update path (ds_operationKey ds) (jl_operationKeysByPath st)\<rparr>)) (\<lambda>_.
       newJsonlReader (metadataFromHeader (h path) path))))))) s1 = (Inr r, st', f')"
    unfolding createDocument_def h_def Let_def by (rule bindA_InrE)
  obtain st1 where s1: "s1 = (st1, f)" "\<not> jl_disposed st1"
    using getSessionDir_same [of fs "co_cwd options" st f "Inr dir" "fst s1" "snd s1"] dir assms(2) by (cases s1) auto
  obtain f1 where f1: "fs_createDir fs dir f = (Inr (), f1)" and c1:
    "bindA (readFs (ds_id ds) (fs_joinPath fs [dir, ds_fileName ds])) (\<lambda>path.
     bindA (readFs path (fs_exists fs path)) (\<lambda>there.
     if there then liftA (Inl InvalidSession) else
     bindA (writeFs path (fs_writeFile fs path (documentText (h path) es))) (\<lambda>_.
     bindA (modifyStore (setDocument path es)) (\<lambda>_.
     bindA (modifyStore (\<lambda>st. st\<lparr>jl_operationKeysByPath := AList.update path (ds_operationKey ds) (jl_operationKeysByPath st)\<rparr>)) (\<lambda>_.
       newJsonlReader (metadataFromHeader (h path) path)))))) (st1, f1) = (Inr r, st', f')"
    using c unfolding s1(1) by (rule bind_writeFs)
  from c1 obtain path where "fs_joinPath fs [dir, ds_fileName ds] f1 = Inr path" and c':
    "bindA (readFs path (fs_exists fs path)) (\<lambda>there.
     if there then liftA (Inl InvalidSession) else
     bindA (writeFs path (fs_writeFile fs path (documentText (h path) es))) (\<lambda>_.
     bindA (modifyStore (setDocument path es)) (\<lambda>_.
     bindA (modifyStore (\<lambda>st. st\<lparr>jl_operationKeysByPath := AList.update path (ds_operationKey ds) (jl_operationKeysByPath st)\<rparr>)) (\<lambda>_.
       newJsonlReader (metadataFromHeader (h path) path))))) (st1, f1) = (Inr r, st', f')"
    by (rule bind_readFs)
  then have c2:
    "bindA (writeFs path (fs_writeFile fs path (documentText (h path) es))) (\<lambda>_.
     bindA (modifyStore (setDocument path es)) (\<lambda>_.
     bindA (modifyStore (\<lambda>st. st\<lparr>jl_operationKeysByPath := AList.update path (ds_operationKey ds) (jl_operationKeysByPath st)\<rparr>)) (\<lambda>_.
       newJsonlReader (metadataFromHeader (h path) path)))) (st1, f1) = (Inr r, st', f')"
    by (elim bind_readFs) (auto simp: liftA_def split: if_splits)
  then obtain f2 where f2: "fs_writeFile fs path (documentText (h path) es) f1 = (Inr (), f2)" and c3:
    "bindA (modifyStore (setDocument path es)) (\<lambda>_.
     bindA (modifyStore (\<lambda>st. st\<lparr>jl_operationKeysByPath := AList.update path (ds_operationKey ds) (jl_operationKeysByPath st)\<rparr>)) (\<lambda>_.
       newJsonlReader (metadataFromHeader (h path) path))) (st1, f2) = (Inr r, st', f')"
    by (rule bind_writeFs)
  have f': "f' = f2" "jr_metadata r = metadataFromHeader (h path) path" "jr_index r = new_reader"
    and st': "st' = (setDocument path es st1)\<lparr>jl_operationKeysByPath :=
      AList.update path (ds_operationKey ds) (jl_operationKeysByPath (setDocument path es st1))\<rparr>"
    using c3 by (auto simp: newJsonlReader_def)
  have path: "jm_path (jr_metadata r) = path"
    by (simp add: f' metadataFromHeader_def)
  have "header_ok (h path)"
    using assms(3-6) by (simp add: header_ok_def h_def)
  then have "loadText path (documentText (h path) es) = Inr (jr_metadata r, es)"
    using document_loads assms(7,8) by (simp add: f')
  moreover have "content f' path = Some (documentText (h path) es)"
    using fs_okD(4) [OF assms(1) f2] by (simp add: f')
  moreover have stored: "jl_stored (r, st', f') = es"
    by (simp add: jl_stored_def jsonl_entries_def path st' setDocument_def update_conv')
  moreover have "jl_opened fs content (jr_metadata r) (r, st', f')"
    using assms(1) s1(2) calculation(2)
    by (auto simp: jl_opened_def path f'(3) st' setDocument_def update_conv' ids_def)
  ultimately show ?thesis
    using document_ends by (simp add: persisted_def path)
qed

lemma parseLines_Inr: "parseLines ls = Inr es \<longleftrightarrow> list_all2 (\<lambda>l e. parseEntry l = Inr e) ls es"
proof (induction ls arbitrary: es rule: rev_induct)
  case Nil
  then show ?case
    by (auto simp: parseLines_def)
next
  case (snoc l ls)
  then show ?case
    by (auto simp: parseLines_snoc bindE_eq_Inr_iff list_all2_append1 list_all2_Cons1 intro: list_all2_lengthD [symmetric])
qed

lemma parseLines_good: "list_all (\<lambda>l. isInr (parseEntry l)) ls \<Longrightarrow> \<exists>es. parseLines ls = Inr es"
  by (induction ls rule: rev_induct) (auto simp: parseLines_snoc isInr_iff, simp add: parseLines_def)

lemma parseLines_stops: "parseLines ls = Inl e \<Longrightarrow> parseLines (ls @ ms) = Inl e"
proof (induction ms rule: rev_induct)
  case (snoc m ms)
  then show ?case
    using parseLines_snoc [of "ls @ ms" m] by simp
qed simp

lemma parseLines_Inl:
  "parseLines ls = Inl e \<longleftrightarrow> (\<exists>good l rest fault. ls = good @ l # rest
     \<and> list_all (\<lambda>l. isInr (parseEntry l)) good \<and> parseEntry l = Inl fault \<and> e = BadLine (length good + 2) fault)"
proof
  show "\<exists>good l rest fault. ls = good @ l # rest
     \<and> list_all (\<lambda>l. isInr (parseEntry l)) good \<and> parseEntry l = Inl fault \<and> e = BadLine (length good + 2) fault"
    if "parseLines ls = Inl e"
    using that
  proof (induction ls rule: rev_induct)
    case Nil
    then show ?case
      by (simp add: parseLines_def)
  next
    case (snoc l ls)
    show ?case
    proof (cases "parseLines ls")
      case (Inl e')
      then show ?thesis
        using snoc by (fastforce simp: parseLines_snoc)
    next
      case (Inr es)
      then obtain fault where "parseEntry l = Inl fault" "e = BadLine (length ls + 2) fault"
        using snoc.prems by (cases "parseEntry l") (auto simp: parseLines_snoc)
      moreover have "list_all (\<lambda>l. isInr (parseEntry l)) ls"
        using Inr by (auto simp: parseLines_Inr isInr_iff list_all_length list_all2_conv_all_nth)
      ultimately show ?thesis
        by blast
    qed
  qed
  show "parseLines ls = Inl e" if bad: "\<exists>good l rest fault. ls = good @ l # rest
     \<and> list_all (\<lambda>l. isInr (parseEntry l)) good \<and> parseEntry l = Inl fault \<and> e = BadLine (length good + 2) fault"
  proof -
    obtain good l rest fault where x: "ls = (good @ [l]) @ rest" "list_all (\<lambda>l. isInr (parseEntry l)) good"
      "parseEntry l = Inl fault" "e = BadLine (length good + 2) fault"
      using bad by auto
    then have "parseLines (good @ [l]) = Inl e"
      using parseLines_good [OF x(2)] by (auto simp: parseLines_snoc)
    then show ?thesis
      unfolding x(1) by (rule parseLines_stops)
  qed
qed

section \<open>Properties of the JSONL store\<close>

text \<open>
  C12. Sessions survive. On a working file system, what \<open>create\<close> returns for a working directory
  that is not empty takes any further entries with new identifiers, and a store that starts
  afterwards loads the file as the same metadata and the same entries in the same order.
\<close>

theorem sessions_survive:
  assumes "fs_ok fs content" "jsonl_create fs uuid now options (st, f) = (Inr r, st', f')"
    and "now \<noteq> []" "co_cwd options \<noteq> []" "case co_metadata options of None \<Rightarrow> True | Some m \<Rightarrow> json_ok (JObj m)"
    and "list_all entry_ok es" "distinct (map e_id es)"
  shows "\<exists>st'' f''. appendAll fs (jr_metadata r) es (st', f') = (Inr (), st'', f'')
    \<and> (\<exists>r' s. jsonl_load fs (jr_metadata r) (createJsonlSessionStore root, f'') = (Inr r', s, f'')
        \<and> jr_metadata r' = jr_metadata r \<and> jl_stored (r', s, f'') = es)"
proof -
  obtain ds where ds: "\<not> jl_disposed st" "createDocumentDescriptor uuid now options = Inr ds"
    "createDocument fs ds options (co_parentSessionPath options) (co_metadata options) [] (st, f) = (Inr r, st', f')"
    using assms(2) by (auto simp: jsonl_create_def bindA_def jsonl_assertOpen_def liftA_def split: if_splits sum.splits)
  have "persisted fs content (jr_metadata r) (r, st', f') \<and> jl_stored (r, st', f') = []"
    using created_persisted [OF assms(1) ds(1) _ _ assms(4) assms(5) _ _ ds(3)] descriptor_fields [OF ds(2)] assms(3) by simp
  then obtain st'' f'' where a: "appendAll fs (jr_metadata r) es (st', f') = (Inr (), st'', f'')"
    "persisted fs content (jr_metadata r) (r, st'', f'')" "jl_stored (r, st'', f'') = es"
    using appendAll_persisted [of fs content "jr_metadata r" r st' f' es] assms(6,7) by auto
  have "\<not> jl_disposed (createJsonlSessionStore root)"
    by (simp add: createJsonlSessionStore_def)
  then show ?thesis
    using a persisted_loads [OF a(2)] by metis
qed

theorem sessions_survive_witness:
  "\<exists>r st' f' st'' f'' r' s. sample_created = (Inr r, st', f')
    \<and> appendAll sample_fs (jr_metadata r) sample_session (st', f') = (Inr (), st'', f'')
    \<and> jsonl_load sample_fs (jr_metadata r) (createJsonlSessionStore (js ''/s''), f'') = (Inr r', s, f'')
    \<and> jl_stored (r', s, f'') = sample_session"
proof -
  obtain r st' f' where c: "sample_created = (Inr r, st', f')"
    using sample_created_ok by (metis isInr_iff prod.collapse)
  have "sample_now \<noteq> []" "co_cwd sample_options \<noteq> []"
    "case co_metadata sample_options of None \<Rightarrow> True | Some m \<Rightarrow> json_ok (JObj m)"
    by (simp_all add: sample_now_def sample_options_def)
  from sessions_survive [OF sample_fs_ok c [unfolded sample_created_def] this sample_session_entries] c show ?thesis
    by blast
qed

text \<open>
  C30. The two stores agree. A session over the in-memory store and one over the JSONL store that
  hold the same entries answer every sequence of calls of their public methods with the same
  results, errors included.
\<close>

theorem stores_agree:
  assumes "opened md (ss_store ss)" "jl_opened fs content jmd (ss_store tt)"
    and "opened_entries (ss_store ss) = jl_stored (ss_store tt)" "ss_leafId ss = ss_leafId tt"
    and "ss_hydratedState ss = ss_hydratedState tt" "ss_uuids ss = ss_uuids tt"
  shows "map_option fst (run_calls (memory_ops md) uuid cs ss) = map_option fst (run_calls (jsonl_ops fs jmd) uuid cs tt)"
  using assms by (intro both.runs_agree) (auto simp: both.alike_def)

theorem stores_agree_witness:
  "map_option fst (run_calls (memory_ops sample_md) sample_uuid
      [CallMessage (js ''t'') (UserMessage (TextContent (js ''hi'')) 0), CallGetBranch None] sample_open)
   = map_option fst (run_calls (jsonl_ops sample_fs sample_jmd) sample_uuid
      [CallMessage (js ''t'') (UserMessage (TextContent (js ''hi'')) 0), CallGetBranch None] sample_jsonl)"
  by (rule stores_agree [where content = map_of])
    (simp_all add: sample_jsonl_opened sample_open_def sample_opened, simp_all add: sample_jsonl_def)


section \<open>What the store does not promise\<close>

text \<open>
  The line of a fault is counted over the lines that are not blank: behind an empty line the number
  reported is smaller than the line of the file.
\<close>

lemma blank_lines_shift:
  assumes "header_ok h"
  defines "t \<equiv> documentText h [] @ NL # js ''{''"
  shows "loadText path t = Inl (BadLine 2 NotJson)" "splitChar NL t ! 2 = js ''{''"
proof -
  have d: "documentText h [] = stringify (header_json h) @ [NL]"
    by (simp add: documentText_def)
  have brace: "NL \<notin> set (js ''{'')" "\<not> blank (js ''{'')" "json_parse (js ''{'') = None"
    by (simp add: cu_def, code_simp, code_simp)
  have sp: "splitChar NL t = [stringify (header_json h), [], js ''{'']"
    using splitChar_append [of NL "stringify (header_json h)" "NL # js ''{''"] brace(1)
    by (simp add: t_def d splitChar_plain del: js_simps)
  then show "splitChar NL t ! 2 = js ''{''"
    by simp
  have "documentLines t = [stringify (header_json h), js ''{'']"
    using brace(2) by (simp add: documentLines_def sp del: js_simps)
  moreover have "parseLines [js ''{''] = Inl (BadLine 2 NotJson)"
    using brace(3) by (simp add: parseLines_def parseEntry_def upt_rec del: js_simps)
  ultimately show "loadText path t = Inl (BadLine 2 NotJson)"
    using assms(1) by (simp add: loadText_def header_back)
qed

text \<open>A session made for the empty working directory is written, and never loaded again.\<close>

lemma empty_cwd_lost:
  assumes "sh_cwd h = []" "sh_id h \<noteq> []" "sh_timestamp h \<noteq> []" "case sh_metadata h of None \<Rightarrow> True | Some m \<Rightarrow> json_ok (JObj m)"
  shows "loadText path (documentText h es) = Inl (BadHeader MissingCwd)"
proof -
  have "json_ok (header_json h)"
    using assms(4) by (auto simp: header_json_def json_ok_obj simp del: json_ok.simps(6))
  then have p: "json_parse (stringify (header_json h)) = Some (header_json h)"
    by (rule json_parse_stringify)
  have "parseHeader (stringify (header_json h)) = Inl MissingCwd"
    using assms(1-3) by (simp add: parseHeader_def p) (simp add: header_json_def is_object_def is_tag_def nonempty_str_def)
  moreover have "documentLines (documentText h es) = stringify (header_json h) # map (\<lambda>e. stringify (entry_json e)) es"
    using documentLines_join [of "stringify (header_json h) # map (\<lambda>e. stringify (entry_json e)) es"]
    by (auto simp: documentText_def)
  ultimately show ?thesis
    by (simp add: loadText_def)
qed

text \<open>Directories of different working directories can be the same.\<close>

lemma directories_collide: "encodeCwd (js ''/a/b'') = encodeCwd (js ''/a-b'')"
  by code_simp

text \<open>
  An append to a file whose last line has no line break, as an editor or a crash leaves it, joins
  two lines: the document loads before it and is lost after it.
\<close>

lemma unterminated_append:
  "loadText [] (js ''{\"type\":\"session\",\"version\":3,\"id\":\"i\",\"timestamp\":\"t\",\"cwd\":\"c\"}'')
     = Inr (\<lparr>jm_id = js ''i'', jm_createdAt = js ''t'', jm_cwd = js ''c'', jm_path = [], jm_parentSessionPath = None,
         jm_metadata = None\<rparr>, [])"
  "loadText [] (js ''{\"type\":\"session\",\"version\":3,\"id\":\"i\",\"timestamp\":\"t\",\"cwd\":\"c\"}''
       @ entry_line (sample_entry ''a'' None (SessionInfo None))) = Inl (BadHeader NotHeader)"
  by code_simp+

end
