(* ===== verification/Uuid.thy ===== *)
theory Uuid
  imports Json
begin

text \<open>
  Time-ordered identifiers (\<open>packages/ai/src/utils/uuid.ts\<close>): the module state of \<open>uuidv7\<close>, its
  bytes and their text. The clock and the random bytes are arguments. Bytes are natural numbers.
\<close>

section \<open>The generator\<close>

text \<open>\<open>None\<close> is \<open>-Infinity\<close>, the time before the first call; a time is a number of milliseconds.\<close>

record uuid_state =
  us_lastTimestamp :: "nat option"
  us_sequence :: nat

definition uuid_start :: uuid_state where
  "uuid_start = \<lparr>us_lastTimestamp = None, us_sequence = 0\<rparr>"

definition advance :: "nat list \<Rightarrow> nat \<Rightarrow> uuid_state \<Rightarrow> uuid_state" where
  "advance random timestamp st =
     (case us_lastTimestamp st of
        Some l \<Rightarrow>
          if l < timestamp
          then \<lparr>us_lastTimestamp = Some timestamp, us_sequence =
            random ! 6 * 0x1000000 + random ! 7 * 0x10000 + random ! 8 * 0x100 + random ! 9\<rparr>
          else
            (let sequence = (us_sequence st + 1) mod 2 ^ 32
             in \<lparr>us_lastTimestamp = Some (if sequence = 0 then l + 1 else l), us_sequence = sequence\<rparr>)
      | None \<Rightarrow> \<lparr>us_lastTimestamp = Some timestamp, us_sequence =
            random ! 6 * 0x1000000 + random ! 7 * 0x10000 + random ! 8 * 0x100 + random ! 9\<rparr>)"

definition uuid_bytes :: "nat list \<Rightarrow> nat \<Rightarrow> nat \<Rightarrow> nat list" where
  "uuid_bytes random time sequence =
     [time div 0x10000000000 mod 256, time div 0x100000000 mod 256, time div 0x1000000 mod 256,
      time div 0x10000 mod 256, time div 0x100 mod 256, time mod 256,
      or 0x70 (sequence div 2 ^ 28 mod 16), sequence div 2 ^ 20 mod 256,
      or 0x80 (sequence div 2 ^ 14 mod 64), sequence div 2 ^ 6 mod 256,
      or (sequence mod 64 * 4) (random ! 10 mod 4),
      random ! 11, random ! 12, random ! 13, random ! 14, random ! 15]"

definition hex2 :: "nat \<Rightarrow> jsstring" where
  "hex2 b = [hex_digit (b div 16), hex_digit (b mod 16)]"

definition uuid_text :: "nat list \<Rightarrow> jsstring" where
  "uuid_text bytes =
     (let hex = map hex2 bytes in
      concat (slice 0 4 hex) @ js ''-'' @ concat (slice 4 6 hex) @ js ''-'' @ concat (slice 6 8 hex) @ js ''-''
        @ concat (slice 8 10 hex) @ js ''-'' @ concat (slice 10 16 hex))"

definition uuidv7 :: "nat list \<Rightarrow> nat \<Rightarrow> uuid_state \<Rightarrow> jsstring \<times> uuid_state" where
  "uuidv7 random timestamp st =
     (let st = advance random timestamp st
      in (uuid_text (uuid_bytes random (the (us_lastTimestamp st)) (us_sequence st)), st))"

text \<open>The identifiers of a run: each call has its random bytes and its time.\<close>

fun uuids :: "(nat list \<times> nat) list \<Rightarrow> uuid_state \<Rightarrow> jsstring list" where
  "uuids [] st = []"
| "uuids ((random, timestamp) # draws) st = (case uuidv7 random timestamp st of (i, st) \<Rightarrow> i # uuids draws st)"

section \<open>Mixed radices\<close>

fun mixed :: "nat list \<Rightarrow> nat \<Rightarrow> nat list" where
  "mixed [] n = []"
| "mixed (r # rs) n = n div prod_list rs mod r # mixed rs n"

definition radices :: "nat list" where
  "radices = [256, 256, 256, 256, 256, 256, 16, 256, 64, 256, 64]"

text \<open>Lists that first differ at a place where the first is smaller: strings in that order are so under \<open><\<close>.\<close>

fun lex_less :: "'a::order list \<Rightarrow> 'a list \<Rightarrow> bool" where
  "lex_less (x # xs) (y # ys) = (x < y \<or> x = y \<and> lex_less xs ys)"
| "lex_less _ _ = False"

lemma mixed_mod: "mixed rs (n mod prod_list rs) = mixed rs n"
proof (induction rs arbitrary: n)
  case (Cons r rs)
  have "n mod (r * prod_list rs) div prod_list rs mod r = n div prod_list rs mod r"
    by (cases "prod_list rs = 0") (simp_all add: mult.commute [of r] mod_mult2_eq)
  then show ?case
    using Cons.IH [of n] Cons.IH [of "n mod (r * prod_list rs)"] by (simp add: mod_mod_cancel)
qed simp

lemma mixed_less: "m < n \<Longrightarrow> n < prod_list rs \<Longrightarrow> lex_less (mixed rs m) (mixed rs n)"
proof (induction rs arbitrary: m n)
  case (Cons r rs)
  let ?p = "prod_list rs"
  have p: "0 < ?p"
    using Cons.prems by (cases "?p") auto
  have top: "k div ?p mod r = k div ?p" if "k < r * ?p" for k
    using that by (simp add: less_mult_imp_div_less)
  have d: "m div ?p mod r = m div ?p" "n div ?p mod r = n div ?p"
    using Cons.prems top by simp_all
  show ?case
  proof (cases "m div ?p = n div ?p")
    case True
    then have "m mod ?p < n mod ?p"
      using Cons.prems(1) by (metis div_mult_mod_eq nat_add_left_cancel_less)
    then have "lex_less (mixed rs (m mod ?p)) (mixed rs (n mod ?p))"
      using p by (intro Cons.IH) simp_all
    then show ?thesis
      by (simp add: mixed_mod True)
  next
    case False
    then have "m div ?p < n div ?p"
      using Cons.prems(1) by (simp add: div_le_mono order_neq_le_trans less_imp_le)
    then show ?thesis
      by (simp add: d)
  qed
qed simp

section \<open>The order of the bytes\<close>

definition stamp :: "nat \<Rightarrow> nat \<Rightarrow> nat" where
  "stamp time sequence = time * 2 ^ 32 + sequence"

lemma stamp_digits:
  assumes "s < 2 ^ 32"
  shows "mixed radices (stamp l s) =
     [l div 0x10000000000 mod 256, l div 0x100000000 mod 256, l div 0x1000000 mod 256,
      l div 0x10000 mod 256, l div 0x100 mod 256, l mod 256,
      s div 2 ^ 28 mod 16, s div 2 ^ 20 mod 256, s div 2 ^ 14 mod 64, s div 2 ^ 6 mod 256, s mod 64]"
proof -
  have hi: "stamp l s div (2 ^ 32 * k) = l div k" for k
    using assms by (simp add: stamp_def div_mult2_eq)
  have lo: "stamp l s div 2 ^ k mod 2 ^ j = s div 2 ^ k mod 2 ^ j" if "k + j \<le> 32" for k j
  proof -
    have "(2::nat) ^ 32 = 2 ^ (32 - k - j) * 2 ^ j * 2 ^ k"
      using that by (simp flip: power_add)
    then have "stamp l s = s + l * 2 ^ (32 - k - j) * 2 ^ j * 2 ^ k"
      by (simp add: stamp_def)
    then have "stamp l s div 2 ^ k = s div 2 ^ k + l * 2 ^ (32 - k - j) * 2 ^ j"
      by simp
    then show ?thesis
      by simp
  qed
  show ?thesis
    using hi [of "0x10000000000"] hi [of "0x100000000"] hi [of "0x1000000"] hi [of "0x10000"] hi [of "0x100"] hi [of 1]
      lo [of 28 4] lo [of 20 8] lo [of 14 6] lo [of 6 8] lo [of 0 6]
    by (simp add: radices_def)
qed

lemma or_parts: "k < 16 \<Longrightarrow> or 0x70 k = 0x70 + (k :: nat)" "k < 64 \<Longrightarrow> or 0x80 k = 0x80 + (k :: nat)"
  "k < 64 \<Longrightarrow> r < 4 \<Longrightarrow> or (k * 4) r = k * 4 + (r :: nat)"
proof -
  have "\<forall>k\<in>set [0..<16]. or 0x70 k = 0x70 + (k :: nat)" "\<forall>k\<in>set [0..<64]. or 0x80 k = 0x80 + (k :: nat)"
    "\<forall>k\<in>set [0..<64]. \<forall>r\<in>set [0..<4]. or (k * 4) r = k * 4 + (r :: nat)"
    by code_simp+
  then show "k < 16 \<Longrightarrow> or 0x70 k = 0x70 + (k :: nat)" "k < 64 \<Longrightarrow> or 0x80 k = 0x80 + (k :: nat)"
    "k < 64 \<Longrightarrow> r < 4 \<Longrightarrow> or (k * 4) r = k * 4 + (r :: nat)"
    by simp_all
qed

lemma lex_step:
  "lex_less (x # xs) (y # ys) \<Longrightarrow> (x < y \<Longrightarrow> x' < y') \<Longrightarrow> (x = y \<Longrightarrow> x' = y') \<Longrightarrow>
   (lex_less xs ys \<Longrightarrow> lex_less xs' ys') \<Longrightarrow> lex_less (x' # xs') (y' # ys')"
  by auto

lemma lex_last:
  "lex_less [x] [y] \<Longrightarrow> r < 4 \<Longrightarrow> r' < 4 \<Longrightarrow> lex_less ((x * 4 + r) # zs) ((y * 4 + r') # zs')"
  for x y r r' :: nat
  by simp

lemma bytes_less:
  assumes "s < 2 ^ 32" "s' < 2 ^ 32" "l' < 2 ^ 48" "stamp l s < stamp l' s'"
  shows "lex_less (uuid_bytes r l s) (uuid_bytes r' l' s')"
proof -
  have "stamp l' s' < prod_list radices"
  proof -
    have "l' * 2 ^ 32 \<le> (2 ^ 48 - 1) * 2 ^ 32"
      using assms(3) by (intro mult_right_mono) simp_all
    then show ?thesis
      using assms(2) by (simp add: stamp_def radices_def)
  qed
  then have "lex_less (mixed radices (stamp l s)) (mixed radices (stamp l' s'))"
    using mixed_less assms(4) by blast
  then have d: "lex_less
     [l div 0x10000000000 mod 256, l div 0x100000000 mod 256, l div 0x1000000 mod 256,
      l div 0x10000 mod 256, l div 0x100 mod 256, l mod 256,
      s div 2 ^ 28 mod 16, s div 2 ^ 20 mod 256, s div 2 ^ 14 mod 64, s div 2 ^ 6 mod 256, s mod 64]
     [l' div 0x10000000000 mod 256, l' div 0x100000000 mod 256, l' div 0x1000000 mod 256,
      l' div 0x10000 mod 256, l' div 0x100 mod 256, l' mod 256,
      s' div 2 ^ 28 mod 16, s' div 2 ^ 20 mod 256, s' div 2 ^ 14 mod 64, s' div 2 ^ 6 mod 256, s' mod 64]"
    by (simp only: stamp_digits [OF assms(1)] stamp_digits [OF assms(2)])
  have o: "or 0x70 (k mod 16) = 0x70 + k mod 16" "or 0x80 (k mod 64) = 0x80 + k mod 64"
    "or (k mod 64 * 4) (n mod 4) = k mod 64 * 4 + n mod 4" for k n :: nat
    using or_parts by simp_all
  show ?thesis
    unfolding uuid_bytes_def o using d
    by - ((erule lex_last, simp, simp) | (erule lex_step, simp, simp))+
qed

section \<open>The order of the texts\<close>

fun dashed :: "nat \<Rightarrow> nat list \<Rightarrow> jsstring" where
  "dashed i [] = []"
| "dashed i (b # bs) = (if i \<in> {4, 6, 8, 10} then js ''-'' else []) @ hex2 b @ dashed (i + 1) bs"

lemma uuid_text_dashed: "length bs = 16 \<Longrightarrow> uuid_text bs = dashed 0 bs"
  by (auto simp: uuid_text_def length_Suc_conv numeral_eq_Suc slice_def)

lemma hex_digit_less: "a < b \<Longrightarrow> b < 16 \<Longrightarrow> hex_digit a < hex_digit b"
  by (auto simp: hex_digit_def word_less_nat_alt unat_of_nat simp del: of_nat_add of_nat_numeral)

lemma lex_less_prefix [simp]: "lex_less (xs @ ys) (xs @ zs) \<longleftrightarrow> lex_less ys zs"
  by (induction xs) auto

lemma hex2_less:
  assumes "a < b" "b < 256"
  shows "lex_less (hex2 a @ xs) (hex2 b @ ys)"
proof (cases "a div 16 = b div 16")
  case True
  then have "a mod 16 < b mod 16"
    using assms(1) by (metis div_mult_mod_eq nat_add_left_cancel_less)
  then show ?thesis
    using True by (simp add: hex2_def hex_digit_less)
next
  case False
  then have "a div 16 < b div 16"
    using assms(1) by (simp add: div_le_mono order_neq_le_trans less_imp_le)
  moreover have "b div 16 < 16"
    using assms(2) by simp
  ultimately show ?thesis
    by (simp add: hex2_def hex_digit_less)
qed

lemma dashed_less:
  "lex_less xs ys \<Longrightarrow> \<forall>b\<in>set ys. b < 256 \<Longrightarrow> lex_less (dashed i xs) (dashed i ys)"
proof (induction xs ys arbitrary: i rule: lex_less.induct)
  case (1 x xs y ys)
  consider "x < y" | "x = y" "lex_less xs ys"
    using "1.prems" by auto
  then show ?case
    by cases (use "1.prems" "1.IH" hex2_less [of x y] in auto)
qed simp_all

definition random_ok :: "nat list \<Rightarrow> bool" where
  "random_ok random \<longleftrightarrow> length random = 16 \<and> (\<forall>b\<in>set random. b < 256)"

lemma bytes_ok: "random_ok random \<Longrightarrow> length (uuid_bytes random t s) = 16 \<and> (\<forall>b\<in>set (uuid_bytes random t s). b < 256)"
proof -
  assume r: "random_ok random"
  have o: "or 0x70 (k mod 16) = 0x70 + k mod 16" "or 0x80 (k mod 64) = 0x80 + k mod 64"
    "or (k mod 64 * 4) (n mod 4) = k mod 64 * 4 + n mod 4" "k mod 16 < 16" "k mod 64 < 64" "n mod 4 < 4" for k n :: nat
    using or_parts by simp_all
  have "0x70 + k mod 16 < 256" for k :: nat
    using mod_less_divisor [of 16 k] by linarith
  moreover have "0x80 + k mod 64 < 256" for k :: nat
    using mod_less_divisor [of 64 k] by linarith
  moreover have "k mod 64 * 4 + n mod 4 < 256" for k n :: nat
    using mod_less_divisor [of 64 k] mod_less_divisor [of 4 n] by linarith
  moreover have "random ! i < 256" if "i < 16" for i
    using r that by (simp add: random_ok_def)
  ultimately show "length (uuid_bytes random t s) = 16 \<and> (\<forall>b\<in>set (uuid_bytes random t s). b < 256)"
    by (simp add: uuid_bytes_def o)
qed

lemma texts_less:
  assumes "random_ok r" "random_ok r'" "s < 2 ^ 32" "s' < 2 ^ 32" "l' < 2 ^ 48" "stamp l s < stamp l' s'"
  shows "lex_less (uuid_text (uuid_bytes r l s)) (uuid_text (uuid_bytes r' l' s'))"
  using bytes_less [OF assms(3-6)] bytes_ok [OF assms(1)] bytes_ok [OF assms(2)] by (simp add: uuid_text_dashed dashed_less)

lemma lex_less_irrefl: "\<not> lex_less xs xs"
  by (induction xs) simp_all

lemma uuid_length: "length (uuid_text (uuid_bytes r l s)) = 36"
  by (simp add: uuid_text_def uuid_bytes_def hex2_def slice_def)

section \<open>The order of the identifiers\<close>

text \<open>The stamp of a state grows with every call, whatever the clock says.\<close>

definition state_stamp :: "uuid_state \<Rightarrow> nat" where
  "state_stamp st = (case us_lastTimestamp st of None \<Rightarrow> 0 | Some l \<Rightarrow> stamp l (us_sequence st) + 1)"

lemma advance_grows:
  assumes "random_ok random" "us_sequence st < 2 ^ 32"
  shows "us_sequence (advance random timestamp st) < 2 ^ 32"
    "state_stamp st < state_stamp (advance random timestamp st)"
    "\<exists>l. us_lastTimestamp (advance random timestamp st) = Some l"
proof -
  have r: "random ! i < 256" if "i < 16" for i
    using assms(1) that by (simp add: random_ok_def)
  have q: "random ! 6 * 0x1000000 + random ! 7 * 0x10000 + random ! 8 * 0x100 + random ! 9 < 2 ^ 32"
    using r [of 6] r [of 7] r [of 8] r [of 9] by simp
  show "us_sequence (advance random timestamp st) < 2 ^ 32"
    using q by (auto simp: advance_def Let_def split: option.split)
  show "\<exists>l. us_lastTimestamp (advance random timestamp st) = Some l"
    by (auto simp: advance_def Let_def split: option.split)
  show "state_stamp st < state_stamp (advance random timestamp st)"
  proof (cases "us_lastTimestamp st")
    case None
    then show ?thesis
      by (simp add: state_stamp_def advance_def)
  next
    case (Some l)
    show ?thesis
    proof (cases "l < timestamp")
      case True
      then have "(l + 1) * 2 ^ 32 \<le> timestamp * 2 ^ 32"
        by (intro mult_right_mono) simp_all
      then show ?thesis
        using Some True assms(2) by (simp add: state_stamp_def advance_def stamp_def)
    next
      case False
      show ?thesis
      proof (cases "us_sequence st + 1 = 2 ^ 32")
        case True
        then show ?thesis
          using Some False by (simp add: state_stamp_def advance_def stamp_def)
      next
        case False': False
        then have "(us_sequence st + 1) mod 2 ^ 32 = us_sequence st + 1"
          using assms(2) by simp
        then show ?thesis
          using Some False by (simp add: state_stamp_def advance_def stamp_def)
      qed
    qed
  qed
qed

lemma advance_bound:
  assumes "timestamp < b" "case us_lastTimestamp st of None \<Rightarrow> True | Some l \<Rightarrow> l < b"
    and "us_lastTimestamp (advance random timestamp st) = Some l'"
  shows "l' < b + 1"
  using assms by (auto simp: advance_def Let_def split: option.splits if_splits)

lemma uuids_in:
  "i \<in> set (uuids draws st) \<Longrightarrow> us_sequence st < 2 ^ 32 \<Longrightarrow> \<forall>(r, t)\<in>set draws. random_ok r \<and> t < b \<Longrightarrow>
   (case us_lastTimestamp st of None \<Rightarrow> True | Some l \<Rightarrow> l < b) \<Longrightarrow>
   \<exists>r l s. random_ok r \<and> s < 2 ^ 32 \<and> l < b + length draws \<and> state_stamp st \<le> stamp l s
     \<and> i = uuid_text (uuid_bytes r l s)"
proof (induction draws arbitrary: st b)
  case (Cons d draws)
  obtain r t where d: "d = (r, t)" "random_ok r" "t < b"
    using Cons.prems(3) by (cases d) auto
  define st' where "st' = advance r t st"
  obtain l where st': "us_lastTimestamp st' = Some l" "us_sequence st' < 2 ^ 32" "state_stamp st < state_stamp st'"
    using advance_grows [OF d(2) Cons.prems(2)] unfolding st'_def by blast
  have l: "l < b + 1"
    using advance_bound [OF d(3) Cons.prems(4)] st'(1) unfolding st'_def by simp
  have i: "i = uuid_text (uuid_bytes r l (us_sequence st')) \<or> i \<in> set (uuids draws st')"
    using Cons.prems(1) st'(1) by (auto simp: d(1) uuidv7_def Let_def st'_def)
  then show ?case
  proof
    assume "i = uuid_text (uuid_bytes r l (us_sequence st'))"
    then show ?thesis
      using d(2) st' l
      by (intro exI [of _ r] exI [of _ l] exI [of _ "us_sequence st'"]) (simp add: state_stamp_def)
  next
    assume "i \<in> set (uuids draws st')"
    then obtain r' l' s' where "random_ok r'" "s' < 2 ^ 32" "l' < b + 1 + length draws" "state_stamp st' \<le> stamp l' s'"
      "i = uuid_text (uuid_bytes r' l' s')"
      using Cons.IH [of st' "b + 1"] st'(1,2) Cons.prems(3) l by fastforce
    then show ?thesis
      using st'(3) by (intro exI [of _ r'] exI [of _ l'] exI [of _ s']) simp
  qed
qed simp

text \<open>
  C33. Identifiers are ordered by their making. In a run of calls, whatever the random bytes, and even when
  the clock stands still or goes back, each identifier is smaller than all that come after it, as
  strings are compared; so no two are equal. The times and the number of calls stay below \<open>2 ^ 48\<close>,
  the range of the time in an identifier.
\<close>

theorem uuids_increase:
  assumes "\<forall>(r, t)\<in>set draws. random_ok r \<and> t < b" "b + length draws < 2 ^ 48"
  shows "sorted_wrt lex_less (uuids draws uuid_start)"
proof -
  have "sorted_wrt lex_less (uuids draws st)"
    if "us_sequence st < 2 ^ 32" "\<forall>(r, t)\<in>set draws. random_ok r \<and> t < b" "b + length draws < 2 ^ 48"
      "case us_lastTimestamp st of None \<Rightarrow> True | Some l \<Rightarrow> l < b" for st
    using that
  proof (induction draws arbitrary: st b)
    case (Cons d draws)
    obtain r t where d: "d = (r, t)" "random_ok r" "t < b"
      using Cons.prems(2) by (cases d) auto
    define st' where "st' = advance r t st"
    obtain l where st': "us_lastTimestamp st' = Some l" "us_sequence st' < 2 ^ 32"
      using advance_grows [OF d(2) Cons.prems(1)] unfolding st'_def by blast
    have l: "l < b + 1"
      using advance_bound [OF d(3) Cons.prems(4)] st'(1) unfolding st'_def by simp
    have rest: "\<forall>(r, t)\<in>set draws. random_ok r \<and> t < b + 1"
      using Cons.prems(2) by fastforce
    have "lex_less (uuid_text (uuid_bytes r l (us_sequence st'))) i" if i: "i \<in> set (uuids draws st')" for i
    proof -
      obtain r' l' s' where x: "random_ok r'" "s' < 2 ^ 32" "l' < b + 1 + length draws" "state_stamp st' \<le> stamp l' s'"
        "i = uuid_text (uuid_bytes r' l' s')"
        using uuids_in [OF i st'(2) rest] st'(1) l by auto
      have "stamp l (us_sequence st') < stamp l' s'"
        using x(4) st'(1) by (simp add: state_stamp_def)
      then show ?thesis
        using texts_less [OF d(2) x(1) st'(2) x(2)] x(3,5) Cons.prems(3) by simp
    qed
    moreover have "sorted_wrt lex_less (uuids draws st')"
      using Cons.IH [OF st'(2) rest] Cons.prems(3) st'(1) l by simp
    ultimately show ?case
      using st'(1) by (simp add: d(1) uuidv7_def Let_def st'_def)
  qed simp
  then show ?thesis
    using assms by (simp add: uuid_start_def)
qed

definition sample_random :: "nat list" where
  "sample_random = replicate 16 255"

theorem uuids_increase_witness:
  "sorted_wrt lex_less (uuids [(sample_random, 5), (replicate 16 0, 3), (sample_random, 5)] uuid_start)"
  by (rule uuids_increase [where b = 6]) (simp_all add: random_ok_def sample_random_def)

end
