(* ===== verification/EventStream.thy ===== *)
theory EventStream
  imports Main
begin

text \<open>
  The stream between a provider and its consumer (\<open>packages/ai/src/utils/event-stream.ts\<close>): a queue of
  events, consumers that wait, and the promise of a final result. \<open>isComplete\<close> and \<open>extractResult\<close>
  are the constructor's arguments.
\<close>

section \<open>The stream\<close>

text \<open>
  A consumer that waits is a number, its promise. \<open>es_answers\<close> holds the promises that were resolved,
  with the event, or \<open>None\<close> for \<open>done\<close>. A promise of the result keeps the first value it got.
\<close>

record ('t, 'r) event_stream =
  es_queue :: "'t list"
  es_waiting :: "nat list"
  es_done :: bool
  es_result :: "'r option"
  es_answers :: "(nat \<times> 't option) list"
  es_promises :: nat

definition newEventStream :: "('t, 'r) event_stream" where
  "newEventStream = \<lparr>es_queue = [], es_waiting = [], es_done = False, es_result = None, es_answers = [], es_promises = 0\<rparr>"

definition resolveFinalResult :: "'r \<Rightarrow> ('t, 'r) event_stream \<Rightarrow> ('t, 'r) event_stream" where
  "resolveFinalResult r st = st\<lparr>es_result := (case es_result st of None \<Rightarrow> Some r | Some x \<Rightarrow> Some x)\<rparr>"

definition push_event :: "('t \<Rightarrow> bool) \<Rightarrow> ('t \<Rightarrow> 'r) \<Rightarrow> 't \<Rightarrow> ('t, 'r) event_stream \<Rightarrow> ('t, 'r) event_stream" where
  "push_event isComplete extractResult event st =
     (if es_done st then st
      else
        let st = (if isComplete event then resolveFinalResult (extractResult event) (st\<lparr>es_done := True\<rparr>) else st)
        in case es_waiting st of
             w # ws \<Rightarrow> st\<lparr>es_waiting := ws, es_answers := es_answers st @ [(w, Some event)]\<rparr>
           | [] \<Rightarrow> st\<lparr>es_queue := es_queue st @ [event]\<rparr>)"

text \<open>\<open>None\<close> is a call without a result.\<close>

definition end_stream :: "'r option \<Rightarrow> ('t, 'r) event_stream \<Rightarrow> ('t, 'r) event_stream" where
  "end_stream result st =
     (let st = st\<lparr>es_done := True\<rparr>;
          st = (case result of None \<Rightarrow> st | Some r \<Rightarrow> resolveFinalResult r st)
      in st\<lparr>es_waiting := [], es_answers := es_answers st @ map (\<lambda>w. (w, None)) (es_waiting st)\<rparr>)"

text \<open>One turn of the iterator's loop: it yields an event, returns, or waits for a promise.\<close>

datatype 't pull = Yield 't | Return | Await nat

definition next_turn :: "('t, 'r) event_stream \<Rightarrow> 't pull \<times> ('t, 'r) event_stream" where
  "next_turn st =
     (case es_queue st of
        e # es \<Rightarrow> (Yield e, st\<lparr>es_queue := es\<rparr>)
      | [] \<Rightarrow>
          if es_done st then (Return, st)
          else (Await (es_promises st),
            st\<lparr>es_waiting := es_waiting st @ [es_promises st], es_promises := es_promises st + 1\<rparr>))"

text \<open>What a consumer does with a promise that was resolved: \<open>None\<close> while it is not.\<close>

definition answer :: "nat \<Rightarrow> ('t, 'r) event_stream \<Rightarrow> 't pull option" where
  "answer w st = map_option (case_option Return Yield) (map_of (es_answers st) w)"

section \<open>One producer, one consumer\<close>

text \<open>
  The consumer asks, waits while its promise is open, and goes on until the iterator returns; the
  producer calls in between as it likes. \<open>accepted\<close> and \<open>received\<close> record the events that count.
\<close>

datatype consumer = Ready | Waits nat | Stopped

record ('t, 'r) channel =
  ch_stream :: "('t, 'r) event_stream"
  ch_consumer :: consumer
  ch_accepted :: "'t list"
  ch_received :: "'t list"

definition took :: "'t pull \<Rightarrow> ('t, 'r) channel \<Rightarrow> ('t, 'r) channel" where
  "took p c = (case p of
       Yield e \<Rightarrow> c\<lparr>ch_consumer := Ready, ch_received := ch_received c @ [e]\<rparr>
     | Return \<Rightarrow> c\<lparr>ch_consumer := Stopped\<rparr>
     | Await w \<Rightarrow> c\<lparr>ch_consumer := Waits w\<rparr>)"

inductive channel_step :: "('t \<Rightarrow> bool) \<Rightarrow> ('t \<Rightarrow> 'r) \<Rightarrow> ('t, 'r) channel \<Rightarrow> ('t, 'r) channel \<Rightarrow> bool"
  for fin ext where
  pushed: "channel_step fin ext c (c\<lparr>ch_stream := push_event fin ext e (ch_stream c),
      ch_accepted := (if es_done (ch_stream c) then ch_accepted c else ch_accepted c @ [e])\<rparr>)"
| ended: "channel_step fin ext c (c\<lparr>ch_stream := end_stream r (ch_stream c)\<rparr>)"
| asked: "ch_consumer c = Ready \<Longrightarrow> next_turn (ch_stream c) = (p, st) \<Longrightarrow>
    channel_step fin ext c (took p (c\<lparr>ch_stream := st\<rparr>))"
| resumed: "ch_consumer c = Waits w \<Longrightarrow> answer w (ch_stream c) = Some p \<Longrightarrow> channel_step fin ext c (took p c)"

definition new_channel :: "('t, 'r) channel" where
  "new_channel = \<lparr>ch_stream = newEventStream, ch_consumer = Ready, ch_accepted = [], ch_received = []\<rparr>"

text \<open>
  The events on their way: those answered to the open promise of the consumer, then the queue.
\<close>

definition underway :: "('t, 'r) channel \<Rightarrow> 't list" where
  "underway c = (case ch_consumer c of
       Waits w \<Rightarrow> (case answer w (ch_stream c) of Some (Yield e) \<Rightarrow> [e] | _ \<Rightarrow> [])
     | _ \<Rightarrow> []) @ es_queue (ch_stream c)"

definition channel_ok :: "('t, 'r) channel \<Rightarrow> bool" where
  "channel_ok c \<longleftrightarrow>
     ch_accepted c = ch_received c @ underway c
   \<and> (\<forall>w\<in>fst ` set (es_answers (ch_stream c)) \<union> set (es_waiting (ch_stream c)). w < es_promises (ch_stream c))
   \<and> (case ch_consumer c of
        Ready \<Rightarrow> es_waiting (ch_stream c) = []
      | Stopped \<Rightarrow> es_waiting (ch_stream c) = [] \<and> es_done (ch_stream c) \<and> es_queue (ch_stream c) = []
      | Waits w \<Rightarrow> (es_waiting (ch_stream c) = [w] \<and> w \<notin> fst ` set (es_answers (ch_stream c)) \<and> es_queue (ch_stream c) = [] \<and> \<not> es_done (ch_stream c))
          \<or> (es_waiting (ch_stream c) = [] \<and> ((\<exists>e. answer w (ch_stream c) = Some (Yield e))
              \<or> answer w (ch_stream c) = Some Return \<and> es_done (ch_stream c) \<and> es_queue (ch_stream c) = [])))"

text \<open>A final event ends the acceptance, and gives the result.\<close>

definition final_ok :: "('t \<Rightarrow> bool) \<Rightarrow> ('t \<Rightarrow> 'r) \<Rightarrow> ('t, 'r) channel \<Rightarrow> bool" where
  "final_ok fin ext c \<longleftrightarrow>
     (\<exists>xs. (\<forall>x\<in>set xs. \<not> fin x) \<and>
       (ch_accepted c = xs \<and> (\<not> es_done (ch_stream c) \<longrightarrow> es_result (ch_stream c) = None)
        \<or> (\<exists>e. ch_accepted c = xs @ [e] \<and> fin e \<and> es_done (ch_stream c) \<and> es_result (ch_stream c) = Some (ext e))))"

lemma new_channel_ok: "channel_ok new_channel"
  by (simp add: channel_ok_def new_channel_def newEventStream_def underway_def)

lemma answer_append [simp]:
  "answer w (st\<lparr>es_answers := es_answers st @ xs\<rparr>)
     = (case map_of (es_answers st) w of Some _ \<Rightarrow> answer w st | None \<Rightarrow> map_option (case_option Return Yield) (map_of xs w))"
  by (auto simp: answer_def map_add_def split: option.split)

lemma channel_push:
  assumes "channel_ok c"
  shows "channel_ok (c\<lparr>ch_stream := push_event fin ext e (ch_stream c),
      ch_accepted := (if es_done (ch_stream c) then ch_accepted c else ch_accepted c @ [e])\<rparr>)"
proof (cases "es_done (ch_stream c)")
  case True
  then show ?thesis
    using assms by (simp add: push_event_def)
next
  case False
  show ?thesis
  proof (cases "ch_consumer c")
    case Ready
    then show ?thesis
      using assms False
      by (auto simp: channel_ok_def push_event_def underway_def resolveFinalResult_def Let_def)
  next
    case Stopped
    then show ?thesis
      using assms False by (simp add: channel_ok_def)
  next
    case (Waits w)
    consider "es_waiting (ch_stream c) = [w]" "w \<notin> fst ` set (es_answers (ch_stream c))" "es_queue (ch_stream c) = []"
      | x where "es_waiting (ch_stream c) = []" "answer w (ch_stream c) = Some (Yield x)"
      using assms Waits False by (auto simp: channel_ok_def)
    then show ?thesis
    proof cases
      case 1
      then have "map_of (es_answers (ch_stream c)) w = None"
        by (simp add: map_of_eq_None_iff)
      then show ?thesis
        using assms False 1 Waits
        by (auto simp: channel_ok_def push_event_def underway_def resolveFinalResult_def Let_def answer_def map_add_def)
    next
      case 2
      then show ?thesis
        using assms False Waits
        by (auto simp: channel_ok_def push_event_def underway_def resolveFinalResult_def Let_def answer_def)
    qed
  qed
qed

lemma channel_end:
  assumes "channel_ok c"
  shows "channel_ok (c\<lparr>ch_stream := end_stream r (ch_stream c)\<rparr>)"
proof (cases "ch_consumer c")
  case (Waits w)
  consider "es_waiting (ch_stream c) = [w]" "w \<notin> fst ` set (es_answers (ch_stream c))" "es_queue (ch_stream c) = []" "\<not> es_done (ch_stream c)"
    | p where "es_waiting (ch_stream c) = []" "answer w (ch_stream c) = Some p"
    using assms Waits by (auto simp: channel_ok_def)
  then show ?thesis
  proof cases
    case 1
    then have "map_of (es_answers (ch_stream c)) w = None"
      by (simp add: map_of_eq_None_iff)
    then show ?thesis
      using assms 1 Waits
      by (auto simp: channel_ok_def end_stream_def underway_def resolveFinalResult_def Let_def answer_def map_add_def
          split: option.splits)
  next
    case 2
    then show ?thesis
      using assms Waits
      by (auto simp: channel_ok_def end_stream_def underway_def resolveFinalResult_def Let_def answer_def split: option.splits)
  qed
qed (use assms in \<open>auto simp: channel_ok_def end_stream_def underway_def resolveFinalResult_def Let_def split: option.splits\<close>)

lemma channel_asked:
  assumes "channel_ok c" "ch_consumer c = Ready" "next_turn (ch_stream c) = (p, st)"
  shows "channel_ok (took p (c\<lparr>ch_stream := st\<rparr>))"
proof -
  have fresh: "es_promises (ch_stream c) \<notin> fst ` set (es_answers (ch_stream c))"
    using assms(1) unfolding channel_ok_def by blast
  then have open_promise: "map_of (es_answers (ch_stream c)) (es_promises (ch_stream c)) = None"
    by (simp only: map_of_eq_None_iff) simp
  show ?thesis
    using assms fresh open_promise
    by (auto simp: channel_ok_def next_turn_def took_def underway_def answer_def less_Suc_eq split: list.splits if_splits)
      force+
qed

lemma channel_resumed:
  assumes "channel_ok c" "ch_consumer c = Waits w" "answer w (ch_stream c) = Some p"
  shows "channel_ok (took p c)"
  using assms
  by (auto simp: channel_ok_def took_def underway_def answer_def split: option.splits)
    (force dest: map_of_SomeD)+

lemma channel_step_ok: "channel_step fin ext c c' \<Longrightarrow> channel_ok c \<Longrightarrow> channel_ok c'"
  by (induction rule: channel_step.induct) (simp_all add: channel_push channel_end channel_asked channel_resumed)

lemma took_same [simp]: "ch_stream (took p c) = ch_stream c" "ch_accepted (took p c) = ch_accepted c"
  by (simp_all add: took_def split: pull.split)

lemma final_push:
  assumes "final_ok fin ext c"
  shows "final_ok fin ext (c\<lparr>ch_stream := push_event fin ext e (ch_stream c),
      ch_accepted := (if es_done (ch_stream c) then ch_accepted c else ch_accepted c @ [e])\<rparr>)"
proof (cases "es_done (ch_stream c)")
  case False
  then have "\<forall>x\<in>set (ch_accepted c). \<not> fin x" "es_result (ch_stream c) = None"
    using assms by (auto simp: final_ok_def)
  then show ?thesis
    using False by (auto simp: final_ok_def push_event_def resolveFinalResult_def Let_def split: list.split)
qed (use assms in \<open>simp add: final_ok_def push_event_def\<close>)

lemma final_end: "final_ok fin ext c \<Longrightarrow> final_ok fin ext (c\<lparr>ch_stream := end_stream r (ch_stream c)\<rparr>)"
  by (auto simp: final_ok_def end_stream_def resolveFinalResult_def Let_def split: option.splits)

lemma final_step: "channel_step fin ext c c' \<Longrightarrow> final_ok fin ext c \<Longrightarrow> final_ok fin ext c'"
proof (induction rule: channel_step.induct)
  case (asked c p st)
  then have "es_done st = es_done (ch_stream c)" "es_result st = es_result (ch_stream c)"
    by (auto simp: next_turn_def split: list.splits if_splits)
  then show ?case
    using asked by (simp add: final_ok_def)
qed (simp_all add: final_push final_end, simp add: final_ok_def)

lemma channel_run_ok: "(channel_step fin ext)\<^sup>*\<^sup>* new_channel c \<Longrightarrow> channel_ok c \<and> final_ok fin ext c"
proof (induction rule: rtranclp_induct)
  case base
  then show ?case
    by (simp add: new_channel_ok) (simp add: final_ok_def new_channel_def newEventStream_def)
qed (use channel_step_ok final_step in blast)

text \<open>
  C28. The stream loses nothing. However the producer's calls and the turns of one consumer follow each
  other, the consumer has received the first of the accepted events in their order, each once; when
  its iterator has returned it has received all of them. The event that completes the stream is
  the last that is accepted, and the result is the one extracted from it.
\<close>

theorem event_stream_delivers:
  assumes "(channel_step fin ext)\<^sup>*\<^sup>* new_channel c"
  shows "(\<exists>es. ch_accepted c = ch_received c @ es) \<and> (ch_consumer c = Stopped \<longrightarrow> ch_received c = ch_accepted c)
    \<and> (ch_accepted c = es @ e # es' \<and> fin e \<longrightarrow> es' = [] \<and> es_done (ch_stream c) \<and> es_result (ch_stream c) = Some (ext e))"
proof -
  have ok: "channel_ok c" "final_ok fin ext c"
    using channel_run_ok [OF assms] by simp_all
  have "es' = [] \<and> es_done (ch_stream c) \<and> es_result (ch_stream c) = Some (ext e)" if "ch_accepted c = es @ e # es'" "fin e"
    using ok(2) that by (cases es' rule: rev_cases) (auto simp: final_ok_def)
  moreover have "ch_accepted c = ch_received c @ underway c" "ch_consumer c = Stopped \<Longrightarrow> underway c = []"
    using ok(1) by (simp_all add: channel_ok_def underway_def)
  ultimately show ?thesis
    by auto
qed

definition sample_channel :: "(nat, nat) channel" where
  "sample_channel = took (Yield 7) (took (Await 0) (new_channel
     \<lparr>ch_stream := push_event (\<lambda>e. e = 7) Suc 7 (snd (next_turn newEventStream)), ch_accepted := [7]\<rparr>))"

theorem event_stream_delivers_witness:
  "ch_accepted sample_channel = [7] \<and> es_result (ch_stream sample_channel) = Some 8"
proof -
  have c: "ch_accepted sample_channel = [7]"
    by (simp add: sample_channel_def)
  define c1 :: "(nat, nat) channel" where "c1 = took (Await 0) (new_channel\<lparr>ch_stream := snd (next_turn newEventStream)\<rparr>)"
  define c2 where "c2 = c1\<lparr>ch_stream := push_event (\<lambda>e. e = 7) Suc 7 (ch_stream c1),
    ch_accepted := (if es_done (ch_stream c1) then ch_accepted c1 else ch_accepted c1 @ [7])\<rparr>"
  have "channel_step (\<lambda>e. e = 7) Suc new_channel c1"
    unfolding c1_def by (rule channel_step.asked) (simp_all add: new_channel_def next_turn_def newEventStream_def)
  moreover have "channel_step (\<lambda>e. e = 7) Suc c1 c2"
    unfolding c2_def by (rule channel_step.pushed)
  moreover have "channel_step (\<lambda>e. e = 7) Suc c2 (took (Yield 7) c2)"
    by (rule channel_step.resumed [where w = 0])
      (simp_all add: c2_def c1_def took_def new_channel_def next_turn_def newEventStream_def push_event_def resolveFinalResult_def answer_def)
  ultimately have "(channel_step (\<lambda>e. e = 7) Suc)\<^sup>*\<^sup>* new_channel (took (Yield 7) c2)"
    by (meson rtranclp.rtrancl_refl rtranclp.rtrancl_into_rtrancl)
  moreover have "took (Yield 7) c2 = sample_channel"
    by (simp add: c2_def c1_def sample_channel_def took_def new_channel_def next_turn_def newEventStream_def)
  ultimately show ?thesis
    using event_stream_delivers [of "\<lambda>e. e = 7" Suc sample_channel "[]" 7 "[]"] c by simp
qed

text \<open>
  A second consumer is not told: the event that completes the stream wakes one waiting consumer, and any
  other waits until \<open>end\<close> is called.
\<close>

lemma second_consumer_waits:
  "es_waiting st = [v, w] \<Longrightarrow> \<not> es_done st \<Longrightarrow> fin e \<Longrightarrow>
     es_waiting (push_event fin ext e st) = [w] \<and> es_done (push_event fin ext e st)
     \<and> es_waiting (push_event fin ext e' (push_event fin ext e st)) = [w]"
  by (simp add: push_event_def resolveFinalResult_def Let_def)

end
