(* ===== verification/Retry.thy ===== *)
theory Retry
  imports SessionTypes
begin

text \<open>
  Retries of a request to a model (\<open>packages/ai/src/utils/retry.ts\<close>): which failed responses look
  transient, and the loop with its backoff. The model, the sleep and its abort act on a world; the
  callbacks are the trace they are called in.
\<close>

section \<open>Which errors are transient\<close>

text \<open>
  The patterns are literals in which \<open>.\<close> is any character but a line terminator and \<open>?\<close> makes the one
  before it optional; letters match in either case. Case folding never takes another character to one
  of ASCII.
\<close>

definition lower :: "code_unit \<Rightarrow> code_unit" where
  "lower c = (if 65 \<le> c \<and> c \<le> 90 then c + 32 else c)"

definition unit_matches :: "char \<Rightarrow> code_unit \<Rightarrow> bool" where
  "unit_matches p c = (if p = CHR ''.'' then c \<notin> {10, 13, 0x2028, 0x2029} else lower (cu p) = lower c)"

fun matchHere :: "string \<Rightarrow> jsstring \<Rightarrow> bool" where
  "matchHere [] s = True"
| "matchHere (p # ps) s =
     (if ps \<noteq> [] \<and> hd ps = CHR ''?''
      then matchHere (tl ps) s \<or> (case s of [] \<Rightarrow> False | c # t \<Rightarrow> unit_matches p c \<and> matchHere (tl ps) t)
      else (case s of [] \<Rightarrow> False | c # t \<Rightarrow> unit_matches p c \<and> matchHere ps t))"

fun pattern_occurs :: "string \<Rightarrow> jsstring \<Rightarrow> bool" where
  "pattern_occurs p [] = matchHere p []"
| "pattern_occurs p (c # s) = (matchHere p (c # s) \<or> pattern_occurs p s)"

definition NON_RETRYABLE_PROVIDER_LIMIT_ERRORS :: "string list" where
  "NON_RETRYABLE_PROVIDER_LIMIT_ERRORS =
     [''GoUsageLimitError'', ''FreeUsageLimitError'', ''Monthly usage limit reached'', ''available balance'',
      ''insufficient_quota'', ''out of budget'', ''quota exceeded'', ''billing'']"

definition RETRYABLE_PROVIDER_ERRORS :: "string list" where
  "RETRYABLE_PROVIDER_ERRORS =
     [''overloaded'', ''rate.?limit'', ''too many requests'', ''429'', ''500'', ''502'', ''503'', ''504'', ''524'',
      ''service.?unavailable'', ''server.?error'', ''internal.?error'',
      ''provider.?returned.?error'',
      ''network.?error'', ''connection.?error'', ''connection.?refused'', ''connection.?lost'', ''other side closed'',
      ''fetch failed'', ''getaddrinfo'', ''ENOTFOUND'', ''EAI_AGAIN'', ''upstream.?connect'', ''reset before headers'',
      ''socket hang up'', ''socket connection was closed'', ''timed? out'', ''timeout'', ''terminated'',
      ''websocket.?closed'', ''websocket.?error'',
      ''ended without'', ''stream ended before message_stop'', ''stream ended before a terminal response event'',
      ''http2 request did not get a response'',
      ''retry delay'',
      ''you can retry your request'', ''try your request again'', ''please retry your request'',
      ''ResourceExhausted'']"

definition isRetryableAssistantError :: "assistant \<Rightarrow> bool" where
  "isRetryableAssistantError message =
     (if a_stopReason message \<noteq> StopError \<or> \<not> truthy (a_errorMessage message) then False
      else
        let errorMessage = the (a_errorMessage message) in
        if \<exists>p\<in>set NON_RETRYABLE_PROVIDER_LIMIT_ERRORS. pattern_occurs p errorMessage then False
        else \<exists>p\<in>set RETRYABLE_PROVIDER_ERRORS. pattern_occurs p errorMessage)"

section \<open>The loop\<close>

record retry_policy =
  rp_enabled :: bool
  rp_maxRetries :: int
  rp_baseDelayMs :: int

datatype retry_event =
    RetryScheduled nat int int jsstring
  | RetryAttemptStart
  | RetryFinished bool nat "jsstring option"

text \<open>
  \<open>rn_sleep\<close> returns whether the time passed; otherwise the signal aborted the sleep, the only way it
  fails.
\<close>

record 'w retry_env =
  rn_produce :: "'w \<Rightarrow> assistant \<times> 'w"
  rn_sleep :: "int \<Rightarrow> 'w \<Rightarrow> bool \<times> 'w"

definition maxAttempts_of :: "retry_policy option \<Rightarrow> int" where
  "maxAttempts_of policy = (case policy of None \<Rightarrow> 0 | Some p \<Rightarrow> if rp_enabled p then rp_maxRetries p else 0)"

definition retry_delay :: "retry_policy option \<Rightarrow> nat \<Rightarrow> int" where
  "retry_delay policy attempt = (case policy of None \<Rightarrow> 0 | Some p \<Rightarrow> rp_baseDelayMs p * 2 ^ (attempt - 1))"

definition finishedEvent :: "bool \<Rightarrow> nat \<Rightarrow> jsstring option \<Rightarrow> retry_event list" where
  "finishedEvent success attempt finalError = (if attempt = 0 then [] else [RetryFinished success attempt finalError])"

definition messageOr :: "jsstring option \<Rightarrow> jsstring" where
  "messageOr m = (if truthy m then the m else js ''Unknown error'')"

text \<open>\<open>attempt\<close> counts the retries; \<open>lastRetry\<close> is set exactly when it is not zero.\<close>

function retryLoop ::
    "'w retry_env \<Rightarrow> retry_policy option \<Rightarrow> nat \<Rightarrow> 'w \<Rightarrow> assistant \<times> retry_event list \<times> 'w" where
  "retryLoop env policy attempt w =
     (case rn_produce env w of (response, w) \<Rightarrow>
      if a_stopReason response = Aborted then (response, finishedEvent False attempt None, w)
      else if a_stopReason response \<noteq> StopError then (response, finishedEvent True attempt None, w)
      else if int attempt \<ge> maxAttempts_of policy \<or> \<not> isRetryableAssistantError response
      then (response, finishedEvent False attempt (a_errorMessage response), w)
      else
        let attempt = attempt + 1;
            errorMessage = messageOr (a_errorMessage response);
            delayMs = retry_delay policy attempt;
            scheduled = RetryScheduled attempt (maxAttempts_of policy) delayMs errorMessage
        in case rn_sleep env delayMs w of
             (False, w) \<Rightarrow>
               (response\<lparr>a_stopReason := Aborted, a_errorMessage := None\<rparr>, [scheduled, RetryFinished False attempt (Some errorMessage)], w)
           | (True, w) \<Rightarrow>
               (case retryLoop env policy attempt w of (r, events, w) \<Rightarrow> (r, scheduled # RetryAttemptStart # events, w)))"
  by pat_completeness auto
termination
  by (relation "measure (\<lambda>(env, policy, attempt, w). nat (maxAttempts_of policy - int attempt))") auto

declare retryLoop.simps [simp del]

definition retryAssistantCall :: "'w retry_env \<Rightarrow> retry_policy option \<Rightarrow> 'w \<Rightarrow> assistant \<times> retry_event list \<times> 'w" where
  "retryAssistantCall env policy w = retryLoop env policy 0 w"

section \<open>What the loop does\<close>

text \<open>The responses of the model in a run of calls, each after its sleep, and what each left of the world.\<close>

fun pairs :: "retry_policy option \<Rightarrow> nat \<Rightarrow> jsstring list \<Rightarrow> retry_event list" where
  "pairs policy n [] = []"
| "pairs policy n (m # ms) = RetryScheduled (n + 1) (maxAttempts_of policy) (retry_delay policy (n + 1)) m # RetryAttemptStart # pairs policy (n + 1) ms"

text \<open>Calls of the model, with the retries between them, from one world to another.\<close>

inductive retries :: "'w retry_env \<Rightarrow> retry_policy option \<Rightarrow> nat \<Rightarrow> 'w \<Rightarrow> jsstring list \<Rightarrow> nat \<Rightarrow> 'w \<Rightarrow> bool"
  for env policy where
  none: "retries env policy n w [] n w"
| again: "rn_produce env w = (response, w1) \<Longrightarrow> a_stopReason response = StopError \<Longrightarrow> isRetryableAssistantError response \<Longrightarrow>
    int n < maxAttempts_of policy \<Longrightarrow> rn_sleep env (retry_delay policy (n + 1)) w1 = (True, w2) \<Longrightarrow>
    retries env policy (n + 1) w2 ms k w' \<Longrightarrow>
    retries env policy n w (messageOr (a_errorMessage response) # ms) k w'"

lemma retries_count: "retries env policy n w ms k w' \<Longrightarrow> k = n + length ms \<and> (ms \<noteq> [] \<longrightarrow> int k \<le> maxAttempts_of policy)"
proof (induction rule: retries.induct)
  case (again w response w1 n w2 ms k w')
  then show ?case
    by (cases ms) auto
qed simp

lemma retryLoop_outcome:
  "retryLoop env policy n w = (r, events, w') \<Longrightarrow>
   \<exists>ms k w0 response w1. retries env policy n w ms k w0 \<and> rn_produce env w0 = (response, w1) \<and>
     (if a_stopReason response = StopError \<and> int k < maxAttempts_of policy \<and> isRetryableAssistantError response
      then \<not> fst (rn_sleep env (retry_delay policy (k + 1)) w1)
        \<and> r = response\<lparr>a_stopReason := Aborted, a_errorMessage := None\<rparr>
        \<and> events = pairs policy n ms @ [RetryScheduled (k + 1) (maxAttempts_of policy) (retry_delay policy (k + 1)) (messageOr (a_errorMessage response)),
            RetryFinished False (k + 1) (Some (messageOr (a_errorMessage response)))]
      else r = response
        \<and> events = pairs policy n ms @ finishedEvent (a_stopReason response \<notin> {StopError, Aborted}) k
            (if a_stopReason response = StopError then a_errorMessage response else None))"
proof (induction env policy n w arbitrary: r events w' rule: retryLoop.induct)
  case (1 env policy n w)
  obtain response w1 where p: "rn_produce env w = (response, w1)"
    by fastforce
  show ?case
  proof (cases "a_stopReason response = StopError \<and> int n < maxAttempts_of policy \<and> isRetryableAssistantError response")
    case False
    then have "r = response" "events = finishedEvent (a_stopReason response \<notin> {StopError, Aborted}) n
            (if a_stopReason response = StopError then a_errorMessage response else None)"
      using 1(2) p by (auto simp: retryLoop.simps [of env policy n w] split: if_splits)
    then show ?thesis
      using p False by (intro exI [of _ "[]"] exI [of _ n] exI [of _ w] exI [of _ response] exI [of _ w1])
        (auto intro: retries.none)
  next
    case True
    obtain slept w2 where s: "rn_sleep env (retry_delay policy (n + 1)) w1 = (slept, w2)"
      by fastforce
    show ?thesis
    proof (cases slept)
      case False
      then show ?thesis
        using 1(2) p s True
        by (intro exI [of _ "[]"] exI [of _ n] exI [of _ w] exI [of _ response] exI [of _ w1])
          (auto intro: retries.none simp: retryLoop.simps [of env policy n w] Let_def)
    next
      case slept: True
      obtain es where es: "retryLoop env policy (n + 1) w2 = (r, es, w')"
        "events = RetryScheduled (n + 1) (maxAttempts_of policy) (retry_delay policy (n + 1)) (messageOr (a_errorMessage response)) # RetryAttemptStart # es"
        using 1(2) p s True slept by (auto simp: retryLoop.simps [of env policy n w] Let_def split: prod.splits)
      have "\<exists>ms k w0 response w1. retries env policy (n + 1) w2 ms k w0 \<and> rn_produce env w0 = (response, w1) \<and>
         (if a_stopReason response = StopError \<and> int k < maxAttempts_of policy \<and> isRetryableAssistantError response
          then \<not> fst (rn_sleep env (retry_delay policy (k + 1)) w1)
            \<and> r = response\<lparr>a_stopReason := Aborted, a_errorMessage := None\<rparr>
            \<and> es = pairs policy (n + 1) ms @ [RetryScheduled (k + 1) (maxAttempts_of policy) (retry_delay policy (k + 1)) (messageOr (a_errorMessage response)),
                RetryFinished False (k + 1) (Some (messageOr (a_errorMessage response)))]
          else r = response
            \<and> es = pairs policy (n + 1) ms @ finishedEvent (a_stopReason response \<notin> {StopError, Aborted}) k
                (if a_stopReason response = StopError then a_errorMessage response else None))"
        using 1(1) [OF p [symmetric]] True slept s es(1) by auto
      then obtain ms k w0 response' w1' where ih: "retries env policy (n + 1) w2 ms k w0" "rn_produce env w0 = (response', w1')"
         "(if a_stopReason response' = StopError \<and> int k < maxAttempts_of policy \<and> isRetryableAssistantError response'
          then \<not> fst (rn_sleep env (retry_delay policy (k + 1)) w1')
            \<and> r = response'\<lparr>a_stopReason := Aborted, a_errorMessage := None\<rparr>
            \<and> es = pairs policy (n + 1) ms @ [RetryScheduled (k + 1) (maxAttempts_of policy) (retry_delay policy (k + 1)) (messageOr (a_errorMessage response')),
                RetryFinished False (k + 1) (Some (messageOr (a_errorMessage response')))]
          else r = response'
            \<and> es = pairs policy (n + 1) ms @ finishedEvent (a_stopReason response' \<notin> {StopError, Aborted}) k
                (if a_stopReason response' = StopError then a_errorMessage response' else None))"
        by blast
      have "retries env policy n w (messageOr (a_errorMessage response) # ms) k w0"
        using p s True slept ih(1) by (auto intro: retries.again)
      then show ?thesis
        using ih(2,3) es(2)
        by (intro exI [of _ "messageOr (a_errorMessage response) # ms"] exI [of _ k] exI [of _ w0] exI [of _ response'] exI [of _ w1'])
          (auto split: if_splits)
    qed
  qed
qed


definition sample_response :: "stop_reason \<Rightarrow> jsstring option \<Rightarrow> assistant" where
  "sample_response stop e = \<lparr>a_content = [], a_provider = [], a_model = [], a_usage = None, a_stopReason = stop,
     a_errorMessage = e, a_timestamp = 0\<rparr>"

text \<open>A model that fails twice and then answers; its world counts the calls.\<close>

definition sample_retry_env :: "nat retry_env" where
  "sample_retry_env = \<lparr>rn_produce = (\<lambda>n. (if n < 2 then sample_response StopError (Some (js ''Rate limit'')) else sample_response Stop None, n + 1)),
     rn_sleep = (\<lambda>d n. (True, n))\<rparr>"

definition sample_policy :: "retry_policy option" where
  "sample_policy = Some \<lparr>rp_enabled = True, rp_maxRetries = 3, rp_baseDelayMs = 100\<rparr>"

lemma sample_retry: "retryAssistantCall sample_retry_env sample_policy 0 = (sample_response Stop None,
    [RetryScheduled 1 3 100 (js ''Rate limit''), RetryAttemptStart, RetryScheduled 2 3 200 (js ''Rate limit''), RetryAttemptStart,
     RetryFinished True 2 None], 3)"
proof -
  have t: "isRetryableAssistantError (sample_response StopError (Some (js ''Rate limit'')))"
    by code_simp
  show ?thesis
    using t by (simp add: retryAssistantCall_def retryLoop.simps sample_retry_env_def sample_policy_def maxAttempts_of_def
        retry_delay_def finishedEvent_def messageOr_def sample_response_def Let_def numeral_eq_Suc)
qed


text \<open>An exhausted quota is final, even when the message also looks transient.\<close>

lemma quota_is_final:
  "p \<in> set NON_RETRYABLE_PROVIDER_LIMIT_ERRORS \<Longrightarrow> pattern_occurs p m \<Longrightarrow> a_errorMessage a = Some m \<Longrightarrow> \<not> isRetryableAssistantError a"
  by (auto simp: isRetryableAssistantError_def)

end
