(* ===== verification/Spec2Isabelle.thy ===== *)
theory Spec2Isabelle
  imports Codec KeyedQueue Truncate EditProps CompactionProps HarnessFacts JsonlProps Uuid EventStream Retry
begin

text \<open>
  Verification of the core of the agent, a TypeScript monorepo. All paths below are under
  \<open>src/packages/\<close>.

  \<^bold>\<open>The program.\<close> A client and a server exchange messages of plain data: they are encoded as CBOR
  and cut into frames (\<open>protocol/src\<close>). The server runs agents: an agent keeps a transcript, sends it to
  a model, executes the tool calls of the response and goes on until nothing is left to do
  (\<open>agent/src/agent.ts\<close>, \<open>agent/src/agent-loop.ts\<close>). The harness around it keeps the transcript as a
  tree of entries in a store (\<open>agent/src/harness/session\<close>), turns a branch of the tree into the context of
  the model, and compacts a branch that has grown too long (\<open>agent/src/harness/compaction\<close>); while it is
  busy it puts off changes asked for from outside (\<open>agent/src/harness/agent-harness.ts\<close>). Its tools edit
  files and cut their output (\<open>agent/src/harness/tools/edit-diff.ts\<close>, \<open>agent/src/harness/utils/truncate.ts\<close>).

  \<^bold>\<open>Theories and what they model.\<close>

  \<^item> \<open>Prelude\<close>, \<open>JsText\<close>, \<open>JsNumber\<close>, \<open>JsLib\<close>, \<open>Json\<close>: results, searches and folds that the components
    share; strings as lists of 16-bit code units with UTF-8 encoding and decoding; numbers as the 64 bits
    of a double; decimal rendering, trimming, searching, splitting, joining; JSON text; time stamps.
  \<^item> \<open>CborWriter\<close>, \<open>CborEncode\<close>, \<open>CborDecode\<close>, \<open>CborProps\<close>: \<open>protocol/src/cbor\<close>. The writer is a
    growing buffer with an offset; the encoder walks a heap of objects, so that cycles exist; the decoder
    returns a tree and an offset. Lemmas: the writer refines a bounded byte sequence, what is
    encoded decodes to the same tree, what decodes is canonical and within the limits (C1 to C5).
  \<^item> \<open>Framing\<close>: \<open>protocol/src/framing.ts\<close>. The decoder is a state machine fed with chunks; its loops are
    partial functions that are shown to return. Lemmas: any chunking of a stream of frames yields
    the frames (C7, C8), \<open>assertCompleteFrame_iff\<close>.
  \<^item> \<open>Codec\<close>: \<open>protocol/src/codec.ts\<close> over the interface \<open>frame_source\<close> of the decoder (C10, C11). The
    schema check of the messages is a parameter.
  \<^item> \<open>SessionTypes\<close>, \<open>SessionContext\<close>: the messages and entries, \<open>harness/messages.ts\<close>, and the context
    and hydrated state of \<open>harness/session/session.ts\<close>.
  \<^item> \<open>ArrayReader\<close>: \<open>array-session-reader.ts\<close> and \<open>fork.ts\<close>, the incremental index, branch queries and
    path reads (C13, C14, C16).
  \<^item> \<open>KeyedQueue\<close>: \<open>keyed-operation-queue.ts\<close> as a step relation over enqueue, start and finish with
    permits, reachability and invariants (C18, C19).
  \<^item> \<open>StoreSession\<close>, \<open>MemoryStore\<close>, \<open>SessionProps\<close>: a session over the interface \<open>session_store\<close>, the
    in-memory store that interprets it, and the calls of a session on it (C20 to C22, C24 to C26).
  \<^item> \<open>JsonParse\<close>, \<open>EntryJson\<close>, \<open>JsonlStore\<close>, \<open>JsonlProps\<close>: \<open>JSON.parse\<close>, the JSON of entries, and
    \<open>jsonl-store.ts\<close> over a file system that is a parameter (\<open>fs_ok\<close> says that it works). The store is
    another interpretation of \<open>session_store\<close>; what it writes it loads again (C12), and what it loads a text
    as is C34. \<open>StoreAgreement\<close>: sessions over two stores answer alike (locale \<open>two_stores\<close>, C30).
  \<^item> \<open>AgentLoop\<close>, \<open>AgentProps\<close>: \<open>agent-loop.ts\<close>. Everything outside acts on a world; the events are a
    trace. Tool calls run one after the other, or side by side as tasks that advance in an order the world
    picks. Lemmas: what every operation adds to the trace, the protocol of the events (C37, C38), return
    under a stop hook (C39).
  \<^item> \<open>AgentView\<close>, \<open>Agent\<close>: the interface \<open>observed\<close> of a view of the world that only events change, and
    \<open>agent.ts\<close>, which interprets it with its transcript (C35, C40).
  \<^item> \<open>Compaction\<close>, \<open>CompactionProps\<close>: \<open>compaction.ts\<close> and \<open>utils.ts\<close>, token estimates, cut points, the
    parts a compaction is prepared from and the requests for summaries (C6, C9).
  \<^item> \<open>BranchSummaries\<close>: \<open>branch-summarization.ts\<close>, the entries a move in the tree abandons and their
    summary (C23, C36).
  \<^item> \<open>Harness\<close>: \<open>agent-harness.ts\<close>. Hooks, listeners and requests to the model act on a world and call
    the interface of the harness while an operation is active; the loop of a run is a parameter of the
    environment. \<open>HarnessProps\<close> holds the interfaces \<open>outside_relation\<close> and \<open>harness_relation\<close> of what
    all these keep, and the order in which messages and deferred changes reach the session;
    \<open>HarnessOutcomes\<close> follows compaction, moves and turns on a session of the memory store, and
    \<open>HarnessFacts\<close> has the properties (C15, C17, C27, C31).
  \<^item> \<open>EventStream\<close>, \<open>Retry\<close>, \<open>Uuid\<close>: three utilities of \<open>ai/src/utils\<close>: the stream between a provider and
    its consumer as a step relation (C28), the retry loop (C29), time-ordered identifiers (C33).
  \<^item> \<open>Truncate\<close>: \<open>truncate.ts\<close>. \<open>EditDiff\<close>, \<open>EditProps\<close>: \<open>edit-diff.ts\<close> (C32).

  \<^bold>\<open>Errors, loops, bounds.\<close> A thrown or returned error is the left of a sum with the code's own
  cases. Loops are structural recursions, functions with a measure, or, where they may not end, partial
  functions into options, whose return is proved where the code returns. Only \<open>JSON.parse\<close> recurses with
  fuel, the length of its text, which is enough (\<open>parse_fuel\<close>). Limits are
  the source's (frames, containers, depth, lines, bytes); lengths are natural numbers below \<open>2 ^ 53\<close> as
  in the code; token counts are exact integers.

  \<^bold>\<open>Abstractions.\<close> Asynchronous operations are atomic steps except where their interleaving is the point
  (the keyed queue, tool calls side by side). A callback outside the code is a function over its world;
  a tool settles and a stream of the model ends. Costs, which are float sums, provider signatures and
  options that only pass through are left out. The estimate \<open>0.8 * n\<close> of doubles is \<open>4 * n div 5\<close>, equal below
  \<open>2 ^ 49\<close>.

  \<^bold>\<open>Not modelled.\<close> The SQLite store (SQL), the tools of the harness that run
  processes, its stream options, resources and provider hooks, an abort or shutdown that waits for the
  active operation, the providers of models and their wire formats, sockets and request dispatch of client and
  server, the terminal interface, the coding agent application, evaluation scripts: I/O, third-party
  formats, or glue around the parts above; the manifest lists each with its reason.
\<close>

end
